(* ===== verification/Milko_Prelude.thy ===== *)
theory Milko_Prelude
  imports Main "HOL-Library.Word" "HOL-Library.Monad_Syntax"
begin

text \<open>
  Shared vocabulary of the development: the machine types of the C sources, the error
  codes of the system headers, network byte order, and the facts on lists of bytes that
  every on-disk format of the server needs.

  Conventions used by all component theories:
  \<^item> a function that returns an \<open>int\<close> status in C returns an \<^typ>\<open>int\<close> here, with the
    same error constants;
  \<^item> a point where the process stops (a failed \<open>assert\<close>, \<open>abort\<close>, \<open>err\<close>) or where the C
    program has no defined behaviour (a read or write outside an object, a null
    dereference) is the value \<^const>\<open>None\<close> of an option type;
  \<^item> what the operating system or a library decides (does \<open>malloc\<close> succeed, is this path
    a directory) is an argument of the definition.
\<close>

unbundle bit_operations_syntax

section \<open>Machine types\<close>

type_synonym byte = "8 word"
type_synonym u16 = "16 word"
type_synonym u32 = "32 word"
type_synonym bytes = "byte list"

named_theorems codec_simps \<open>reading back what an encoder wrote\<close>
named_theorems frame_simps \<open>what an operation leaves unchanged\<close>

section \<open>Error codes of errno.h\<close>

definition ENOENT :: int where "ENOENT = 2"
definition EIO :: int where "EIO = 5"
definition ENOMEM :: int where "ENOMEM = 12"
definition EEXIST :: int where "EEXIST = 17"
definition EINVAL :: int where "EINVAL = 22"

lemmas errno_defs = ENOENT_def EIO_def ENOMEM_def EEXIST_def EINVAL_def

lemma errno_nonzero [simp]:
  "ENOENT \<noteq> 0" "EIO \<noteq> 0" "ENOMEM \<noteq> 0" "EEXIST \<noteq> 0" "EINVAL \<noteq> 0"
  "0 \<noteq> ENOENT" "0 \<noteq> EIO" "0 \<noteq> ENOMEM" "0 \<noteq> EEXIST" "0 \<noteq> EINVAL"
  by (simp_all add: errno_defs)

section \<open>Assertions\<close>

definition cassert :: "bool \<Rightarrow> unit option" where
  "cassert b = (if b then Some () else None)"

lemma cassert_True [simp]: "cassert True = Some ()"
  and cassert_False [simp]: "cassert False = None"
  by (simp_all add: cassert_def)

lemma cassert_Some_iff [simp]: "cassert b = Some u \<longleftrightarrow> b"
  by (simp add: cassert_def)

section \<open>Truncation to a 32-bit int\<close>

definition to_int32 :: "int \<Rightarrow> int" where
  "to_int32 x = (x + 2 ^ 31) mod 2 ^ 32 - 2 ^ 31"

lemma to_int32_id: "- (2 ^ 31) \<le> x \<Longrightarrow> x < 2 ^ 31 \<Longrightarrow> to_int32 x = x"
  by (simp add: to_int32_def)

section \<open>Words\<close>

text \<open>The measure of a loop that counts a word up to a bound.\<close>

lemma unat_diff_Suc_less: "m \<noteq> (k :: 'a::len word) \<Longrightarrow> unat (k - (m + 1)) < unat (k - m)"
  using measure_unat [of "k - m"] by (simp add: algebra_simps)

lemma word_Suc_less_eq:
  assumes "i < (n :: 'a::len word)"
  shows "i + 1 \<le> j \<longleftrightarrow> i < j" and "unat (i + 1) = Suc (unat i)"
proof -
  have "unat i + 1 < 2 ^ LENGTH('a)"
    using assms order_le_less_trans [OF _ unsigned_less [of n, where 'a = nat]]
    by (simp add: word_less_nat_alt Suc_le_eq)
  then show u: "unat (i + 1) = Suc (unat i)" by (simp add: unat_word_ariths)
  show "i + 1 \<le> j \<longleftrightarrow> i < j" unfolding word_le_nat_alt word_less_nat_alt u by auto
qed

lemma sint_small:
  assumes "unat (w :: u32) < 2 ^ 31"
  shows "sint w = int (unat w)"
proof -
  have "int (unat w) < int (2 ^ 31)" using assms by (rule of_nat_less_iff [THEN iffD2])
  moreover have "- (2 ^ 31) \<le> int (unat w)" by (rule order_trans [OF _ of_nat_0_le_iff]) simp
  ultimately have "signed_take_bit 31 (int (unat w)) = int (unat w)"
    by (intro signed_take_bit_int_eq_self) simp_all
  then show ?thesis by (simp add: sint_uint)
qed

section \<open>Network byte order\<close>

text \<open>
  \<open>htonl\<close> followed by a copy of the four bytes writes the most significant byte first on
  every host; \<open>of_be32\<close> is the copy back followed by \<open>ntohl\<close>.
\<close>

definition be32 :: "u32 \<Rightarrow> bytes" where
  "be32 w = [ucast (drop_bit 24 w), ucast (drop_bit 16 w), ucast (drop_bit 8 w), ucast w]"

definition of_be32 :: "byte \<Rightarrow> byte \<Rightarrow> byte \<Rightarrow> byte \<Rightarrow> u32" where
  "of_be32 a b c d = push_bit 24 (ucast a) OR push_bit 16 (ucast b) OR push_bit 8 (ucast c) OR ucast d"

fun rd32 :: "bytes \<Rightarrow> (u32 \<times> bytes) option" where
  "rd32 (a # b # c # d # bs) = Some (of_be32 a b c d, bs)"
| "rd32 _ = None"

lemma length_be32 [simp]: "length (be32 w) = 4"
  by (simp add: be32_def)

lemma of_be32_be32:
  "of_be32 (ucast (drop_bit 24 w)) (ucast (drop_bit 16 w)) (ucast (drop_bit 8 w)) (ucast w) = w"
proof (rule bit_word_eqI)
  fix n assume "n < LENGTH(32)"
  then consider "n < 8" | "8 \<le> n" "n < 16" | "16 \<le> n" "n < 24" | "24 \<le> n" "n < 32" by fastforce
  then show "bit (of_be32 (ucast (drop_bit 24 w)) (ucast (drop_bit 16 w)) (ucast (drop_bit 8 w)) (ucast w)) n = bit w n"
    by cases (simp_all add: of_be32_def bit_or_iff bit_push_bit_iff bit_ucast_iff bit_drop_bit_eq less_diff_conv2)
qed

lemma rd32_be32 [simp, codec_simps]: "rd32 (be32 w @ bs) = Some (w, bs)"
  by (simp add: be32_def of_be32_be32)

lemma be32_of_be32: "be32 (of_be32 a b c d) = [a, b, c, d]"
  unfolding be32_def of_be32_def list.inject
  by (intro conjI refl; rule bit_word_eqI)
     (auto simp: bit_or_iff bit_push_bit_iff bit_ucast_iff bit_drop_bit_eq dest: bit_imp_le_length)

lemma rd32_SomeD: "rd32 bs = Some (w, cs) \<Longrightarrow> bs = be32 w @ cs"
  by (cases bs rule: rd32.cases) (auto simp: be32_of_be32)

lemma rd32_Some_iff: "rd32 bs = Some (w, cs) \<longleftrightarrow> bs = be32 w @ cs"
  using rd32_SomeD by auto

lemma rd32_ex: "4 \<le> length bs \<Longrightarrow> \<exists>w. rd32 bs = Some (w, drop 4 bs)"
  by (cases bs rule: rd32.cases) auto

section \<open>Copying into a block of memory\<close>

definition splice :: "'a list \<Rightarrow> nat \<Rightarrow> 'a list \<Rightarrow> 'a list" where
  "splice xs off ys = take off xs @ ys @ drop (off + length ys) xs"

lemma length_splice [simp]: "off + length ys \<le> length xs \<Longrightarrow> length (splice xs off ys) = length xs"
  by (simp add: splice_def)

lemma drop_splice_same: "off \<le> length xs \<Longrightarrow> drop off (splice xs off ys) = ys @ drop (off + length ys) xs"
  by (simp add: splice_def)

lemma splice_after [frame_simps]:
  "off + length ys \<le> length xs \<Longrightarrow> off + length ys \<le> k \<Longrightarrow> drop k (splice xs off ys) = drop k xs"
  by (simp add: splice_def drop_append)

lemma splice_before [frame_simps]:
  "off + length ys \<le> length xs \<Longrightarrow> k + n \<le> off \<Longrightarrow> take n (drop k (splice xs off ys)) = take n (drop k xs)"
  by (simp add: splice_def take_drop min_def)

lemma splice_disjoint:
  assumes "off + length ys \<le> length xs" "k + n \<le> off \<or> off + length ys \<le> k"
  shows "take n (drop k (splice xs off ys)) = take n (drop k xs)"
  using assms by (auto simp: frame_simps)

lemma splice_splice: "off + length ys \<le> length xs \<Longrightarrow> length zs = length ys \<Longrightarrow>
   splice (splice xs off ys) off zs = splice xs off zs"
  by (simp add: splice_def)

section \<open>Readers of a fixed number of bytes\<close>

definition reads :: "nat \<Rightarrow> (bytes \<Rightarrow> ('a \<times> bytes) option) \<Rightarrow> bool" where
  "reads n f \<longleftrightarrow> (\<exists>g. \<forall>p. f p = (if n \<le> length p then Some (g (take n p), drop n p) else None))"

lemma reads_rd32: "reads 4 rd32"
  unfolding reads_def
proof (intro exI allI)
  fix p
  show "rd32 p = (if 4 \<le> length p then Some (fst (the (rd32 (take 4 p))), drop 4 p) else None)"
    by (cases p rule: rd32.cases) auto
qed

lemma reads_return: "reads 0 (\<lambda>p. Some (a, p))"
  by (auto simp: reads_def)

lemma reads_bind:
  assumes "reads n f" "\<And>a. reads m (k a)"
  shows "reads (n + m) (\<lambda>p. Option.bind (f p) (\<lambda>(a, q). k a q))"
proof -
  from assms(1) obtain g where g: "\<And>p. f p = (if n \<le> length p then Some (g (take n p), drop n p) else None)"
    by (auto simp: reads_def)
  from assms(2) obtain h where h: "\<And>a p. k a p = (if m \<le> length p then Some (h a (take m p), drop m p) else None)"
    unfolding reads_def by metis
  show ?thesis unfolding reads_def
    by (rule exI [of _ "\<lambda>b. h (g (take n b)) (drop n b)"])
       (auto simp: g h take_drop min_def add.commute)
qed

lemma reads_opaque:
  assumes "\<And>a. reads m (k a)"
  shows "reads (n + m) (\<lambda>p. Option.bind (cassert (n \<le> length p)) (\<lambda>_. k (d (take n p)) (drop n p)))"
proof -
  have "reads n (\<lambda>p. if n \<le> length p then Some (d (take n p), drop n p) else None)"
    unfolding reads_def by blast
  from reads_bind [OF this assms] show ?thesis
    by (rule back_subst [of "reads (n + m)"]) (auto simp: fun_eq_iff)
qed

lemma readsD:
  assumes "reads n f" "n \<le> length p"
  shows "\<exists>a. f p = Some (a, drop n p) \<and> (\<forall>q. take n q = take n p \<longrightarrow> n \<le> length q \<longrightarrow> f q = Some (a, drop n q))"
  using assms by (auto simp: reads_def)

section \<open>Histories and simulation\<close>

text \<open>
  A component driven by a sequence of operations, and the interface between a component and its
  abstract specification: \<open>rep\<close> relates the two states, \<open>step\<close> is the operation of the code,
  \<open>spec\<close> that of the specification, \<^const>\<open>None\<close> where the caller breaks a precondition. What
  holds for one operation then holds for every sequence.
\<close>

fun run_ops :: "('p \<Rightarrow> 's \<Rightarrow> ('r \<times> 's) option) \<Rightarrow> 'p list \<Rightarrow> 's \<Rightarrow> ('r list \<times> 's) option" where
  "run_ops f [] s = Some ([], s)"
| "run_ops f (p # ps) s = do { (r, s) \<leftarrow> f p s; (rs, s) \<leftarrow> run_ops f ps s; Some (r # rs, s) }"

locale simulation =
  fixes rep :: "'c \<Rightarrow> 'a \<Rightarrow> bool"
    and step :: "'p \<Rightarrow> 'c \<Rightarrow> ('r \<times> 'c) option"
    and spec :: "'p \<Rightarrow> 'a \<Rightarrow> ('r \<times> 'a) option"
  assumes step_refines: "rep c a \<Longrightarrow> spec p a = Some (r, a') \<Longrightarrow> \<exists>c'. step p c = Some (r, c') \<and> rep c' a'"
begin

lemma run_refines:
  "rep c a \<Longrightarrow> run_ops spec ps a = Some (rs, a') \<Longrightarrow> \<exists>c'. run_ops step ps c = Some (rs, c') \<and> rep c' a'"
proof (induction ps arbitrary: c a rs)
  case (Cons p ps)
  obtain r b ts where p: "spec p a = Some (r, b)" "run_ops spec ps b = Some (ts, a')" "rs = r # ts"
    using Cons.prems(2) by (auto simp: bind_eq_Some_conv)
  obtain d where d: "step p c = Some (r, d)" "rep d b" using step_refines [OF Cons.prems(1) p(1)] by blast
  obtain c' where "run_ops step ps d = Some (ts, c')" "rep c' a'" using Cons.IH [OF d(2) p(2)] by blast
  then show ?case using d(1) p(3) by simp
qed simp

end

end
