(* ===== verification/Dpart.thy ===== *)
theory Dpart
  imports Milko_Prelude
begin

text \<open>
  Disk partitions (\<open>milko/lib/dpart/dpart.c\<close>): the numbering of the \<open>/vicepX\<close> partitions,
  the search for the partitions that exist, and the free-space arithmetic.
  The file system is a parameter: \<open>isdir p\<close> says that \<open>stat\<close> finds a directory at \<open>p\<close>.
  Memory is a parameter too: \<open>mem = (m, a)\<close> says whether \<open>malloc\<close> and \<open>asprintf\<close> succeed.
\<close>

section \<open>Definitions\<close>

record dp_part =
  dp_path :: string
  dp_num :: u32
  dp_refs :: int

definition letter :: "u32 \<Rightarrow> char" where
  "letter n = char_of (unat n + 97)"

definition dp_create :: "bool \<times> bool \<Rightarrow> string \<Rightarrow> u32 \<Rightarrow> int \<times> dp_part option" where
  "dp_create mem root n =
     (if n > 25 * 25 then (EINVAL, None)
      else if \<not> fst mem then (ENOMEM, None)
      else
        let hi = n div 25;
            (prefix, n') = (if n > 25 then ([letter hi], n - hi * 25) else ([], n));
            str = prefix @ [letter n']
        in if \<not> snd mem then (EINVAL, None)
           else (0, Some \<lparr>dp_path = root @ ''/vicep'' @ str, dp_num = n', dp_refs = 1\<rparr>))"

definition dp_ref :: "dp_part option \<Rightarrow> dp_part option" where
  "dp_ref dp = map_option (\<lambda>d. d\<lparr>dp_refs := dp_refs d + 1\<rparr>) dp"

definition dp_free :: "dp_part option \<Rightarrow> dp_part option" where
  "dp_free dp = (case dp of None \<Rightarrow> None
     | Some d \<Rightarrow> (if dp_refs d - 1 \<noteq> 0 then Some (d\<lparr>dp_refs := dp_refs d - 1\<rparr>) else None))"

text \<open>The \<open>do .. while\<close> loop of \<open>dp_find\<close>; \<open>n\<close> is the counter before \<open>++num\<close>, which wraps.\<close>

function dp_find_loop ::
  "bool \<times> bool \<Rightarrow> (string \<Rightarrow> bool) \<Rightarrow> string \<Rightarrow> u32 \<Rightarrow> int \<times> dp_part option" where
  "dp_find_loop mem isdir root n =
     (case dp_create mem root (n + 1) of
        (ret, None) \<Rightarrow> (ret, None)
      | (ret, Some d) \<Rightarrow>
          (if isdir (dp_path d) then (0, Some d) else dp_find_loop mem isdir root (n + 1)))"
  by pat_completeness auto
termination
proof (relation "measure (\<lambda>(mem, isdir, root, n). unat (626 - (n + 1)))", goal_cases)
  case 1
  show ?case by simp
next
  case (2 mem isdir root n ret d)
  then have "n + 1 \<le> 625"
    by (auto simp: dp_create_def Let_def split: if_splits)
  then have "n + 1 \<noteq> 626" by auto
  then show ?case
    using unat_diff_Suc_less [of "n + 1" 626] by simp
qed


definition lower_p :: "char \<Rightarrow> bool" where
  "lower_p c \<longleftrightarrow> 97 \<le> (of_char c :: nat) \<and> (of_char c :: nat) \<le> 122"

definition dp_parse :: "string \<Rightarrow> int \<times> u32 option" where
  "dp_parse str =
     (if length str = 0 then (EINVAL, None)
      else
        let str = (if length str > 6 \<and> take 6 str = ''/vicep'' then drop 6 str else str)
        in if length str > 2 then (EINVAL, None)
           else if length str = 2 \<and> \<not> lower_p (hd str) then (EINVAL, None)
           else
             let part = (if length str = 2 then 25 * (of_nat (of_char (hd str)) - 97 + 1) else 0);
                 str = (if length str = 2 then tl str else str)
             in if \<not> lower_p (hd str) then (EINVAL, None)
                else (0, Some (part + (of_nat (of_char (hd str)) - 97))))"

definition dp_getpart :: "bool \<times> bool \<Rightarrow> string \<Rightarrow> string \<Rightarrow> dp_part option" where
  "dp_getpart mem root str =
     (case dp_parse str of
        (_, None) \<Rightarrow> None
      | (ret, Some p) \<Rightarrow> (if ret \<noteq> 0 then None else
          (case dp_create mem root p of
             (_, None) \<Rightarrow> None
           | (ret, Some dp) \<Rightarrow> (if ret \<noteq> 0 then None else Some dp))))"

text \<open>The fields of \<open>struct statvfs\<close> the code reads.\<close>

record statvfs =
  f_bsize :: int
  f_blocks :: int
  f_bfree :: int
  f_bavail :: int

definition dp_getstats :: "statvfs \<Rightarrow> int \<times> int" where
  "dp_getstats sb =
     (let reservedblocks = to_int32 (f_bfree sb - f_bavail sb)
      in if f_bsize sb \<le> 1024
         then (f_bavail sb * (1024 div f_bsize sb),
               (f_blocks sb - reservedblocks) * (1024 div f_bsize sb))
         else (f_bavail sb div (f_bsize sb div 1024),
               (f_blocks sb - reservedblocks) div (f_bsize sb div 1024)))"

text \<open>The path \<open>dp_create\<close> gives to a number, for statements about the search.\<close>

definition dp_name :: "string \<Rightarrow> u32 \<Rightarrow> string" where
  "dp_name root m =
     (case dp_create (True, True) root m of (_, Some d) \<Rightarrow> dp_path d | (_, None) \<Rightarrow> [])"

section \<open>Naming and parsing partitions\<close>

lemma dp_create_ok:
  assumes "n \<le> 25 * 25"
  shows "dp_create (True, True) root n =
    (if n > 25
     then (0, Some \<lparr>dp_path = root @ ''/vicep'' @ [letter (n div 25), letter (n - n div 25 * 25)],
                    dp_num = n - n div 25 * 25, dp_refs = 1\<rparr>)
     else (0, Some \<lparr>dp_path = root @ ''/vicep'' @ [letter n], dp_num = n, dp_refs = 1\<rparr>))"
  using assms by (auto simp: dp_create_def Let_def not_less)

lemma of_char_letter: "n \<le> 25 \<Longrightarrow> (of_char (letter n) :: nat) = unat n + 97"
  by (simp add: letter_def word_le_nat_alt)

lemma of_char_letter_word: "n \<le> 25 \<Longrightarrow> (of_nat (of_char (letter n)) :: u32) = n + 97"
  by (simp add: of_char_letter)

lemma lower_letter: "n \<le> 25 \<Longrightarrow> lower_p (letter n)"
  by (simp add: lower_p_def of_char_letter word_le_nat_alt)

lemma dp_parse_one: "n \<le> 25 \<Longrightarrow> dp_parse (''/vicep'' @ [letter n]) = (0, Some n)"
  by (simp add: dp_parse_def lower_letter of_char_letter_word)

lemma dp_parse_two:
  "h \<le> 25 \<Longrightarrow> l \<le> 25 \<Longrightarrow>
   dp_parse (''/vicep'' @ [letter h, letter l]) = (0, Some (25 * (h + 1) + l))"
  by (simp add: dp_parse_def lower_letter of_char_letter_word)

lemma div25_bounds:
  assumes "n \<le> (625 :: u32)"
  shows "n div 25 \<le> 25" and "n - n div 25 * 25 \<le> 24"
proof -
  have "unat n \<le> 625" using assms by (simp add: word_le_nat_alt)
  then show "n div 25 \<le> 25" by (simp add: word_le_nat_alt unat_div)
  have "n - n div 25 * 25 = n mod 25" by (simp add: minus_div_mult_eq_mod)
  then show "n - n div 25 * 25 \<le> 24" by (simp add: word_le_nat_alt unat_mod)
qed

text \<open>C28: naming and parsing agree on the twenty-six one-letter partitions: \<open>dp_create\<close>
  of a number up to 25 keeps the number, and parsing the name it made gives the number and
  the same partition back.\<close>

theorem dp_single_letter_roundtrip:
  assumes "n \<le> 25"
  shows "\<exists>d. dp_create (True, True) root n = (0, Some d) \<and> dp_num d = n
           \<and> dp_path d = root @ ''/vicep'' @ [letter n]
           \<and> dp_parse (''/vicep'' @ [letter n]) = (0, Some n)
           \<and> dp_getpart (True, True) root (''/vicep'' @ [letter n]) = Some d"
proof -
  have "n \<le> 25 * 25" and "\<not> n > 25"
    using assms by (auto simp: not_less elim: order_trans)
  then show ?thesis
    using dp_parse_one [OF assms] dp_create_ok [of n root] by (simp add: dp_getpart_def)
qed

theorem dp_single_letter_roundtrip_witness:
  "\<exists>d. dp_create (True, True) [] 2 = (0, Some d) \<and> dp_num d = 2
     \<and> dp_path d = ''/vicepc'' \<and> dp_parse ''/vicepc'' = (0, Some 2)
     \<and> dp_getpart (True, True) [] ''/vicepc'' = Some d"
proof -
  have "letter 2 = CHR ''c''" by code_simp
  then show ?thesis using dp_single_letter_roundtrip [of 2 "[]"] by simp
qed

text \<open>C40: for every two-letter partition number the name made by \<open>dp_create\<close> parses back to a
  different number, 25 higher, and the stored number is only the remainder modulo 25.\<close>

theorem dp_two_letters_disagree:
  assumes "25 < n" and "n \<le> 625"
  shows "\<exists>d name. dp_create (True, True) root n = (0, Some d) \<and> dp_path d = root @ name
           \<and> dp_parse name = (0, Some (n + 25)) \<and> dp_num d = n mod 25"
proof -
  let ?h = "n div 25" and ?l = "n - n div 25 * 25"
  have b: "?h \<le> 25" "?l \<le> 25"
    using div25_bounds [OF assms(2)] by (auto elim: order_trans)
  have "25 * (?h + 1) + ?l = n + 25"
    by (simp add: algebra_simps)
  moreover have "?l = n mod 25" by (simp add: minus_div_mult_eq_mod)
  ultimately show ?thesis
    using dp_create_ok [of n root] dp_parse_two [OF b] assms by simp
qed

theorem dp_two_letters_disagree_witness:
  "\<exists>d name. dp_create (True, True) [] 26 = (0, Some d) \<and> dp_path d = name
     \<and> dp_parse name = (0, Some 51) \<and> dp_num d = 1"
  using dp_two_letters_disagree [of 26 "[]"] by simp

lemma dp_create_some: "m \<le> 625 \<Longrightarrow> \<exists>d. dp_create (True, True) root m = (0, Some d)"
  using dp_create_ok [of m root] by (cases "25 < m") auto

lemma dp_create_none: "m > 625 \<Longrightarrow> dp_create mem root m = (EINVAL, None)"
  by (simp add: dp_create_def)

lemma unat_Suc_625: "a \<le> (625 :: u32) \<Longrightarrow> unat (a + 1) = unat a + 1"
  by (simp add: unat_word_ariths word_le_nat_alt)

declare dp_find_loop.simps [simp del]

text \<open>The search loop of \<open>dp_find\<close> returns the first existing partition after the number it
  starts from: the partition it returns exists, and no partition with a number in between does.\<close>

theorem dp_find_loop_next:
  assumes "dp_find_loop (True, True) isdir root n = (0, Some d)"
  shows "\<exists>m. n + 1 \<le> m \<and> dp_create (True, True) root m = (0, Some d) \<and> isdir (dp_path d)
           \<and> (\<forall>k. n + 1 \<le> k \<and> k < m \<longrightarrow> \<not> isdir (dp_name root k))"
  using assms
proof (induction "(True, True)" isdir root n rule: dp_find_loop.induct)
  case (1 isdir root n)
  show ?case
  proof (cases "n + 1 \<le> 625")
    case True
    then obtain e where e: "dp_create (True, True) root (n + 1) = (0, Some e)"
      using dp_create_some by blast
    show ?thesis
    proof (cases "isdir (dp_path e)")
      case True
      with e "1.prems" have "d = e" by (simp add: dp_find_loop.simps [of _ _ _ n])
      with e True show ?thesis by (auto intro!: exI [of _ "n + 1"])
    next
      case False
      with e "1.prems" have r: "dp_find_loop (True, True) isdir root (n + 1) = (0, Some d)"
        by (simp add: dp_find_loop.simps [of _ _ _ n])
      from "1.hyps" [OF e [symmetric] _ False r] obtain m where
        m: "n + 1 + 1 \<le> m" "dp_create (True, True) root m = (0, Some d)" "isdir (dp_path d)"
          "\<forall>k. n + 1 + 1 \<le> k \<and> k < m \<longrightarrow> \<not> isdir (dp_name root k)" by auto
      have d: "\<not> isdir (dp_name root (n + 1))" using e False by (simp add: dp_name_def)
      have s: "unat (n + 1 + 1) = unat (n + 1) + 1" using True by (rule unat_Suc_625)
      have "k = n + 1 \<or> n + 1 + 1 \<le> k" if "n + 1 \<le> k" for k
        using that s by (auto simp: word_le_nat_alt word_unat_eq_iff)
      moreover have "n + 1 \<le> m" using m(1) s by (simp add: word_le_nat_alt)
      ultimately show ?thesis using m d by blast
    qed
  next
    case False
    then show ?thesis using "1.prems"
      by (simp add: dp_find_loop.simps [of _ _ _ n] dp_create_none not_le)
  qed
qed

theorem dp_find_loop_next_witness:
  "dp_find_loop (True, True) (\<lambda>p. p = ''/vicepb'') [] (- 1) =
     (0, Some \<lparr>dp_path = ''/vicepb'', dp_num = 1, dp_refs = 1\<rparr>)
   \<and> (\<exists>m :: u32. 0 \<le> m \<and> (\<forall>k. 0 \<le> k \<and> k < m \<longrightarrow> dp_name [] k \<noteq> ''/vicepb''))"
proof -
  have "dp_find_loop (True, True) (\<lambda>p. p = ''/vicepb'') [] (- 1) =
    (0, Some \<lparr>dp_path = ''/vicepb'', dp_num = 1, dp_refs = 1\<rparr>)" by code_simp
  with dp_find_loop_next [OF this] show ?thesis by auto
qed



text \<open>\<open>dp_getstats\<close> is documented to return a number of 1k blocks. On a file system with
  blocks of \<open>k\<close> kilobytes the figure is right only for \<open>k = 1\<close>: the code divides where it has
  to multiply.\<close>

theorem dp_getstats_exact_iff:
  assumes "f_bsize sb = 1024 * k" and "1 \<le> k" and "0 < f_bavail sb"
  shows "fst (dp_getstats sb) = f_bavail sb * k \<longleftrightarrow> k = 1"
proof -
  have "fst (dp_getstats sb) = f_bavail sb div k"
    using assms by (auto simp: dp_getstats_def Let_def)
  moreover have "f_bavail sb div k \<le> f_bavail sb"
    using assms zdiv_mono2[of "f_bavail sb" 1 k]  by simp
  moreover have "f_bavail sb < f_bavail sb * k" if "k \<noteq> 1"
    using assms that by simp
  ultimately show ?thesis by (cases "k = 1") force+
qed

theorem dp_getstats_exact_iff_witness:
  "fst (dp_getstats \<lparr>f_bsize = 4096, f_blocks = 5000, f_bfree = 1000, f_bavail = 1000\<rparr>) \<noteq> 4000"
  using dp_getstats_exact_iff
    [of "\<lparr>f_bsize = 4096, f_blocks = 5000, f_bfree = 1000, f_bavail = 1000\<rparr>" 4] by simp

end
