(* ===== verification/Util_Heap.thy ===== *)
theory Util_Heap
  imports Milko_Prelude "HOL-Library.Multiset"
begin

text \<open>
  The binary heap with back pointers of \<open>lib/util/heap.c\<close>.

  A heap element is a client pointer (\<open>data\<close>) and the address of a client cell (\<open>ptr\<close>) in
  which the heap keeps the current index of the element, so that the client can remove it
  later. The cells are part of the modelled state (\<open>cells\<close>). Every access to the array is
  bounds checked and every pointer is checked for null: a wrong access is \<^const>\<open>None\<close>, so the
  theorems that an operation returns \<^const>\<open>Some\<close> state memory safety as well.
\<close>

section \<open>Definitions\<close>

datatype haddr = Dummy | Cell nat

record 'a heap_element =
  el_data :: "'a option"
  el_ptr :: "haddr option"

record 'a heap =
  hcmp :: "'a \<Rightarrow> 'a \<Rightarrow> int"
  max_sz :: nat
  sz :: nat
  hdata :: "'a heap_element list"
  cells :: "haddr \<Rightarrow> nat"

abbreviation null_element :: "'a heap_element" where
  "null_element \<equiv> \<lparr>el_data = None, el_ptr = None\<rparr>"

text \<open>
  \<open>mem\<close> says whether the two calls of \<open>malloc\<close> succeed. The inner option is the returned
  pointer. The test of the second result looks at \<open>ret->sz\<close>, which is still zero, so a failed
  allocation of the array goes on to write through the null pointer.
\<close>

definition heap_new ::
  "bool \<times> bool \<Rightarrow> nat \<Rightarrow> ('a \<Rightarrow> 'a \<Rightarrow> int) \<Rightarrow> (haddr \<Rightarrow> nat) \<Rightarrow> 'a heap option option" where
  "heap_new mem n cmp cs =
     (if \<not> fst mem then Some None
      else if \<not> snd mem \<and> n \<noteq> 0 then None
      else Some (Some \<lparr>hcmp = cmp, max_sz = n, sz = 0, hdata = replicate n null_element, cells = cs\<rparr>))"

definition parent :: "nat \<Rightarrow> nat" where
  "parent n = (n + 1) div 2 - 1"

definition left_child :: "nat \<Rightarrow> nat" where
  "left_child n = 2 * n + 1"

definition right_child :: "nat \<Rightarrow> nat" where
  "right_child n = 2 * n + 2"

text \<open>Reading \<open>h->data[i]\<close>.\<close>

definition hget :: "'a heap \<Rightarrow> nat \<Rightarrow> 'a heap_element option" where
  "hget h i = (if i < length (hdata h) then Some (hdata h ! i) else None)"

definition assign :: "'a heap \<Rightarrow> nat \<Rightarrow> 'a heap_element \<Rightarrow> 'a heap option" where
  "assign h n el =
     (if n < length (hdata h)
      then (case el_ptr el of None \<Rightarrow> None
            | Some p \<Rightarrow> Some (h\<lparr>hdata := (hdata h)[n := el], cells := (cells h)(p := n)\<rparr>))
      else None)"

lemma assign_SomeD:
  assumes "assign h n el = Some h'"
  shows "sz h' = sz h" "hcmp h' = hcmp h" "max_sz h' = max_sz h"
    "length (hdata h') = length (hdata h)"
  using assms by (auto simp: assign_def split: if_splits option.splits)

function upheap_loop :: "'a heap \<Rightarrow> nat \<Rightarrow> 'a heap_element \<Rightarrow> 'a heap option" where
  "upheap_loop h n v =
     (if n > 0 then do {
        p \<leftarrow> hget h (parent n);
        dp \<leftarrow> el_data p;
        dv \<leftarrow> el_data v;
        if hcmp h dp dv > 0
        then do { h' \<leftarrow> assign h n p; upheap_loop h' (parent n) v }
        else assign h n v }
      else assign h n v)"
  by pat_completeness auto
termination
  by (relation "measure (\<lambda>(h, n, v). n)") (auto simp: parent_def)

definition upheap :: "'a heap \<Rightarrow> nat \<Rightarrow> 'a heap option" where
  "upheap h n = do { v \<leftarrow> hget h n; upheap_loop h n v }"

text \<open>The comparison of \<open>downheap\<close>: the child to descend to and how far it is below \<open>v\<close>.\<close>

definition pick_child :: "'a heap \<Rightarrow> nat \<Rightarrow> 'a \<Rightarrow> (int \<times> nat) option" where
  "pick_child h n dv = do {
     l \<leftarrow> hget h (left_child n);
     dl \<leftarrow> el_data l;
     let cmp1 = hcmp h dv dl;
     if right_child n < sz h
     then do {
       r \<leftarrow> hget h (right_child n);
       dr \<leftarrow> el_data r;
       let cmp2 = hcmp h dv dr;
       Some (if cmp2 > cmp1 then (cmp2, right_child n) else (cmp1, left_child n)) }
     else Some (cmp1, left_child n) }"

function downheap_loop :: "'a heap \<Rightarrow> nat \<Rightarrow> 'a heap_element \<Rightarrow> 'a heap option" where
  "downheap_loop h n v =
     (if n < sz h div 2 then do {
        cassert (left_child n < sz h);
        dv \<leftarrow> el_data v;
        c \<leftarrow> pick_child h n dv;
        if fst c > 0
        then do { e \<leftarrow> hget h (snd c); h' \<leftarrow> assign h n e; downheap_loop h' (snd c) v }
        else assign h n v }
      else assign h n v)"
  by pat_completeness auto
termination
proof (relation "measure (\<lambda>(h, n, v). sz h - n)", goal_cases)
  case 1
  show ?case by simp
next
  case (2 h n v u dv c e h')
  then have "snd c = left_child n \<or> snd c = right_child n"
    by (auto simp: pick_child_def Let_def bind_eq_Some_conv split: if_splits)
  then have "n < snd c" by (auto simp: left_child_def right_child_def)
  with 2 show ?case by (auto dest: assign_SomeD)
qed

definition downheap :: "'a heap \<Rightarrow> nat \<Rightarrow> 'a heap option" where
  "downheap h n = do { v \<leftarrow> hget h n; downheap_loop h n v }"

text \<open>
  The flag says whether \<open>realloc\<close> succeeds. The element count and the capacity are
  \<open>unsigned\<close>, so the doubling wraps; \<open>ptr\<close> is \<^const>\<open>None\<close> where the caller passes a null pointer.
\<close>

definition heap_grow :: "'a heap \<Rightarrow> 'a heap" where
  "heap_grow h =
     (let new_sz = max_sz h * 2 mod 2 ^ 32
      in h\<lparr>max_sz := new_sz,
           hdata := take new_sz (hdata h) @ replicate (new_sz - length (hdata h)) null_element\<rparr>)"

definition heap_insert :: "bool \<Rightarrow> 'a heap \<Rightarrow> 'a \<Rightarrow> nat option \<Rightarrow> (int \<times> 'a heap) option" where
  "heap_insert mem h d ptr =
     (if sz h = max_sz h \<and> \<not> mem then Some (- 1, h)
      else do {
        let h = (if sz h = max_sz h then heap_grow h else h);
        let p = (case ptr of None \<Rightarrow> Dummy | Some a \<Rightarrow> Cell a);
        cassert (sz h < length (hdata h));
        h \<leftarrow> upheap (h\<lparr>hdata := (hdata h)[sz h := \<lparr>el_data = Some d, el_ptr = Some p\<rparr>]\<rparr>) (sz h);
        Some (0, h\<lparr>sz := sz h + 1\<rparr>) })"

definition heap_head :: "'a heap \<Rightarrow> 'a option" where
  "heap_head h = (if sz h = 0 then None else Option.bind (hget h 0) el_data)"

definition remove_this :: "'a heap \<Rightarrow> nat \<Rightarrow> 'a heap option" where
  "remove_this h n = do {
     cassert (n < sz h);
     let h = h\<lparr>sz := sz h - 1\<rparr>;
     e \<leftarrow> hget h (sz h);
     let h = h\<lparr>hdata := (hdata h)[n := e, sz h := null_element]\<rparr>;
     if n \<noteq> sz h then do { h \<leftarrow> downheap h n; upheap h n } else Some h }"

definition heap_remove_head :: "'a heap \<Rightarrow> 'a heap option" where
  "heap_remove_head h = remove_this h 0"

definition heap_remove :: "'a heap \<Rightarrow> nat \<Rightarrow> (int \<times> 'a heap) option" where
  "heap_remove h ptr =
     (if sz h = 0 then Some (- 1, h)
      else do {
        e \<leftarrow> hget h ptr;
        cassert (el_ptr e \<noteq> Some Dummy);
        h' \<leftarrow> remove_this h ptr;
        Some (0, h') })"

function do_verify :: "'a heap \<Rightarrow> nat \<Rightarrow> bool option" where
  "do_verify h n = do {
     ok \<leftarrow> (if left_child n < sz h then do {
         e \<leftarrow> hget h n; d \<leftarrow> el_data e;
         l \<leftarrow> hget h (left_child n); dl \<leftarrow> el_data l;
         if hcmp h d dl > 0 then Some False else do_verify h (left_child n) }
       else Some True);
     if \<not> ok then Some False
     else if right_child n < sz h then do {
         e \<leftarrow> hget h n; d \<leftarrow> el_data e;
         r \<leftarrow> hget h (right_child n); dr \<leftarrow> el_data r;
         if hcmp h d dr > 0 then Some False else do_verify h (right_child n) }
     else Some True }"
  by pat_completeness auto
termination
  by (relation "measure (\<lambda>(h, n). sz h - n)") (auto simp: left_child_def right_child_def)

definition heap_verify :: "'a heap \<Rightarrow> bool option" where
  "heap_verify h = do_verify h 0"

section \<open>Order of the keys\<close>

text \<open>
  \<open>hord\<close> is the heap order; \<open>up_ok\<close> allows one violation above \<open>n\<close> and \<open>hole_ok\<close> violations
  on both sides of \<open>n\<close>.
\<close>

definition hord :: "int list \<Rightarrow> bool" where
  "hord ks \<longleftrightarrow> (\<forall>i. 0 < i \<and> i < length ks \<longrightarrow> ks ! parent i \<le> ks ! i)"

definition up_ok :: "int list \<Rightarrow> nat \<Rightarrow> bool" where
  "up_ok ks n \<longleftrightarrow>
     (\<forall>i. 0 < i \<and> i < length ks \<and> i \<noteq> n \<longrightarrow> ks ! parent i \<le> ks ! i) \<and>
     (\<forall>i. 0 < i \<and> i < length ks \<and> parent i = n \<and> 0 < n \<longrightarrow> ks ! parent n \<le> ks ! i)"

definition hole_ok :: "int list \<Rightarrow> nat \<Rightarrow> bool" where
  "hole_ok ks n \<longleftrightarrow>
     (\<forall>i. 0 < i \<and> i < length ks \<and> i \<noteq> n \<and> parent i \<noteq> n \<longrightarrow> ks ! parent i \<le> ks ! i) \<and>
     (\<forall>i. 0 < i \<and> i < length ks \<and> parent i = n \<and> 0 < n \<longrightarrow> ks ! parent n \<le> ks ! i)"

definition swap :: "'b list \<Rightarrow> nat \<Rightarrow> nat \<Rightarrow> 'b list" where
  "swap xs i j = xs[i := xs ! j, j := xs ! i]"

lemma parent_less: "0 < n \<Longrightarrow> parent n < n"
  by (simp add: parent_def)

lemma parent_child [simp]: "parent (left_child n) = n" "parent (right_child n) = n"
  by (auto simp: parent_def left_child_def right_child_def)
lemma child_pos [simp]: "0 < left_child n" "0 < right_child n" "n < left_child n" "n < right_child n"
  by (simp_all add: left_child_def right_child_def)

lemma parent_cases: "0 < i \<Longrightarrow> parent i = n \<longleftrightarrow> i = left_child n \<or> i = right_child n"
  by (auto simp: parent_def left_child_def right_child_def)

lemma length_swap [simp]: "length (swap xs i j) = length xs"
  by (simp add: swap_def)

lemma nth_swap:
  "i < length xs \<Longrightarrow> j < length xs \<Longrightarrow> k < length xs \<Longrightarrow>
   swap xs i j ! k = (if k = i then xs ! j else if k = j then xs ! i else xs ! k)"
  by (auto simp: swap_def nth_list_update)
lemma mset_swap' [simp]: "i < length xs \<Longrightarrow> j < length xs \<Longrightarrow> mset (swap xs i j) = mset xs"
  by (simp add: swap_def mset_swap)

lemma map_swap: "i < length xs \<Longrightarrow> j < length xs \<Longrightarrow> map f (swap xs i j) = swap (map f xs) i j"
  by (simp add: swap_def map_update)

lemma up_step:
  assumes "up_ok ks n" "0 < n" "n < length ks" "ks ! n < ks ! parent n"
  shows "up_ok (swap ks n (parent n)) (parent n)"
proof -
  let ?p = "parent n" and ?s = "swap ks n (parent n)"
  have p: "?p < n" "?p < length ks" using parent_less [OF assms(2)] assms(3) by auto
  have nth: "k < length ks \<Longrightarrow> ?s ! k = (if k = n then ks ! ?p else if k = ?p then ks ! n else ks ! k)" for k
    using p assms(3) by (simp add: nth_swap)
  have 1: "?s ! parent i \<le> ?s ! i" if i: "0 < i" "i < length ks" "i \<noteq> ?p" for i
  proof -
    have l: "parent i < length ks" using parent_less i by (meson less_trans)
    consider "i = n" | "i \<noteq> n" "parent i = n" | "i \<noteq> n" "parent i = ?p" | "i \<noteq> n" "parent i \<noteq> n" "parent i \<noteq> ?p"
      by blast
    then show ?thesis
    proof cases
      case 2
      then have "ks ! ?p \<le> ks ! i" using assms(1,2) i unfolding up_ok_def by blast
      with 2 i l show ?thesis by (simp add: nth)
    next
      case 3
      then have "ks ! ?p \<le> ks ! i" using assms(1) i unfolding up_ok_def by metis
      with 3 i l p assms(4) show ?thesis by (simp add: nth)
    qed (use assms i l p in \<open>auto simp: nth up_ok_def\<close>)
  qed
  have 2: "?s ! parent ?p \<le> ?s ! i" if i: "0 < i" "i < length ks" "parent i = ?p" "0 < ?p" for i
  proof -
    have q: "parent ?p < ?p" using parent_less i by blast
    have "ks ! parent ?p \<le> ks ! ?p" using assms(1) i p unfolding up_ok_def by auto
    moreover have "i \<noteq> n \<Longrightarrow> ks ! ?p \<le> ks ! i" using assms(1) i p unfolding up_ok_def by auto
    ultimately show ?thesis using q p i nth by auto
  qed
  show ?thesis unfolding up_ok_def using 1 2 by simp
qed

lemma up_stop: "up_ok ks n \<Longrightarrow> n = 0 \<or> ks ! parent n \<le> ks ! n \<Longrightarrow> hord ks"
  by (auto simp: up_ok_def hord_def)

lemma hord_up_ok: "hord ks \<Longrightarrow> n < length ks \<Longrightarrow> up_ok ks n"
  unfolding hord_def up_ok_def by (metis parent_less order_trans less_trans)


lemma down_step:
  assumes "hole_ok ks n" "n < length ks" "0 < c" "c < length ks" "parent c = n"
    and "\<forall>i. 0 < i \<and> i < length ks \<and> parent i = n \<longrightarrow> ks ! c \<le> ks ! i"
    and "ks ! c < ks ! n"
  shows "hole_ok (swap ks n c) c" and "swap ks n c ! parent c \<le> swap ks n c ! c"
proof -
  let ?s = "swap ks n c"
  have nc: "n < c" using assms(3,5) parent_less by blast
  have nth: "k < length ks \<Longrightarrow> ?s ! k = (if k = n then ks ! c else if k = c then ks ! n else ks ! k)" for k
    using assms by (simp add: nth_swap)
  have 1: "?s ! parent i \<le> ?s ! i" if i: "0 < i" "i < length ks" "i \<noteq> c" "parent i \<noteq> c" for i
  proof -
    have l: "parent i < length ks" using parent_less i by (meson less_trans)
    consider "i = n" | "i \<noteq> n" "parent i = n" | "i \<noteq> n" "parent i \<noteq> n" by blast
    then show ?thesis
    proof cases
      case 1
      then have "ks ! parent n \<le> ks ! c" using assms(1,3-5) i unfolding hole_ok_def by blast
      moreover have "parent i \<noteq> n" using 1 parent_less [OF i(1)] by simp
      ultimately show ?thesis using 1 i l by (simp add: nth)
    next
      case 2
      with assms(6) i have "ks ! c \<le> ks ! i" by blast
      with 2 i l show ?thesis by (simp add: nth)
    next
      case 3
      with assms(1) i have "ks ! parent i \<le> ks ! i" unfolding hole_ok_def by blast
      with 3 i l show ?thesis by (simp add: nth)
    qed
  qed
  have 2: "?s ! parent c \<le> ?s ! i" if i: "0 < i" "i < length ks" "parent i = c" for i
  proof -
    have "c < i" using parent_less i by blast
    with assms i nc have "ks ! c \<le> ks ! i" unfolding hole_ok_def by (metis less_irrefl less_trans)
    with assms i nc \<open>c < i\<close> show ?thesis by (auto simp: nth)
  qed
  show "hole_ok ?s c" unfolding hole_ok_def using 1 2 by simp
  show "?s ! parent c \<le> ?s ! c" using assms nc by (simp add: nth)
qed

lemma down_stop:
  assumes "hole_ok ks n" "\<forall>i. 0 < i \<and> i < length ks \<and> parent i = n \<longrightarrow> ks ! n \<le> ks ! i"
  shows "up_ok ks n"
  using assms unfolding hole_ok_def up_ok_def by metis

section \<open>The invariant of the sifting loops\<close>

text \<open>
  While an element \<open>v\<close> is being sifted the array has a hole at \<open>n\<close>: \<open>loop_inv\<close> says that the
  array with \<open>v\<close> put into the hole holds the multiset \<open>M\<close> and that all other back pointers
  are right; \<open>settled\<close> is the state after the last \<open>assign\<close>.
\<close>

definition good :: "('a \<Rightarrow> bool) \<Rightarrow> 'a heap_element \<Rightarrow> bool" where
  "good valid e \<longleftrightarrow> (\<exists>d p. e = \<lparr>el_data = Some d, el_ptr = Some p\<rparr> \<and> valid d)"

definition ekey :: "('a \<Rightarrow> int) \<Rightarrow> 'a heap_element \<Rightarrow> int" where
  "ekey key e = key (the (el_data e))"

definition elems :: "nat \<Rightarrow> 'a heap \<Rightarrow> 'a heap_element list" where
  "elems N h = take N (hdata h)"

definition cells_distinct :: "'a heap_element multiset \<Rightarrow> bool" where
  "cells_distinct M \<longleftrightarrow> (\<forall>a. count (image_mset el_ptr M) (Some (Cell a)) \<le> 1)"

definition indexed :: "nat \<Rightarrow> nat option \<Rightarrow> 'a heap \<Rightarrow> bool" where
  "indexed N hole h \<longleftrightarrow>
     (\<forall>i a. i < N \<and> hole \<noteq> Some i \<and> el_ptr (hdata h ! i) = Some (Cell a) \<longrightarrow> cells h (Cell a) = i)"

definition loop_inv ::
  "('a \<Rightarrow> bool) \<Rightarrow> nat \<Rightarrow> 'a heap \<Rightarrow> nat \<Rightarrow> 'a heap_element \<Rightarrow> 'a heap_element multiset \<Rightarrow> bool" where
  "loop_inv valid N h n v M \<longleftrightarrow>
     N \<le> length (hdata h) \<and> length (hdata h) = max_sz h \<and> n < N \<and>
     (\<forall>e \<in># M. good valid e) \<and> mset ((elems N h)[n := v]) = M \<and> cells_distinct M \<and>
     indexed N (Some n) h"

definition settled :: "('a \<Rightarrow> bool) \<Rightarrow> nat \<Rightarrow> 'a heap \<Rightarrow> 'a heap_element multiset \<Rightarrow> bool" where
  "settled valid N h M \<longleftrightarrow>
     N \<le> length (hdata h) \<and> length (hdata h) = max_sz h \<and>
     (\<forall>e \<in># M. good valid e) \<and> mset (elems N h) = M \<and> cells_distinct M \<and> indexed N None h"

lemma length_elems: "N \<le> length (hdata h) \<Longrightarrow> length (elems N h) = N"
  by (simp add: elems_def)

lemma nth_elems: "i < N \<Longrightarrow> elems N h ! i = hdata h ! i"
  by (simp add: elems_def)

lemma count_two:
  assumes "i < length xs" "j < length xs" "i \<noteq> j" "xs ! i = c" "xs ! j = c"
  shows "1 < count (mset xs) c"
proof -
  have "{i, j} \<subseteq> {k. k < length xs \<and> xs ! k = c}" using assms by auto
  then have "card {i, j} \<le> card {k. k < length xs \<and> xs ! k = c}"
    by (intro card_mono) auto
  then have "2 \<le> length (filter (\<lambda>x. x = c) xs)"
    using assms(3) by (simp add: length_filter_conv_card)
  moreover have "filter (\<lambda>x. x = c) xs = filter ((=) c) xs" by (rule filter_cong) auto
  ultimately show ?thesis by (simp add: count_mset count_list_eq_length_filter)
qed

lemma cells_distinctD:
  assumes "cells_distinct (mset xs)" "i < length xs" "j < length xs"
    "el_ptr (xs ! i) = Some (Cell a)" "el_ptr (xs ! j) = Some (Cell a)"
  shows "i = j"
proof (rule ccontr)
  assume "i \<noteq> j"
  with assms have "1 < count (mset (map el_ptr xs)) (Some (Cell a))"
    by (intro count_two [of i _ j]) auto
  with assms(1) show False by (simp add: cells_distinct_def not_less [symmetric])
qed

lemma loop_elem_good:
  assumes "loop_inv valid N h n v M"
  shows "good valid v" and "m < N \<Longrightarrow> m \<noteq> n \<Longrightarrow> good valid (hdata h ! m)"
proof -
  let ?xs = "(elems N h)[n := v]"
  have l: "length ?xs = N" and n: "n < N" using assms by (auto simp: loop_inv_def length_elems)
  have g: "good valid (?xs ! i)" if "i < N" for i
    using assms that l unfolding loop_inv_def by (metis nth_mem set_mset_mset)
  show "good valid v" using g [of n] n l by simp
  show "m < N \<Longrightarrow> m \<noteq> n \<Longrightarrow> good valid (hdata h ! m)" using g [of m] by (simp add: nth_elems)
qed

lemma loop_step:
  assumes inv: "loop_inv valid N h n v M" and m: "m < N" "m \<noteq> n"
  shows "\<exists>h'. assign h n (hdata h ! m) = Some h' \<and> loop_inv valid N h' m v M
           \<and> (elems N h')[m := v] = swap ((elems N h)[n := v]) n m
           \<and> sz h' = sz h \<and> hcmp h' = hcmp h \<and> max_sz h' = max_sz h"
proof -
  let ?xs = "(elems N h)[n := v]"
  have l: "length (elems N h) = N" "N \<le> length (hdata h)" and n: "n < N"
    using inv by (auto simp: loop_inv_def length_elems)
  obtain d p where e: "hdata h ! m = \<lparr>el_data = Some d, el_ptr = Some p\<rparr>"
    using loop_elem_good(2) [OF inv m] by (auto simp: good_def)
  let ?h = "h\<lparr>hdata := (hdata h)[n := hdata h ! m], cells := (cells h)(p := n)\<rparr>"
  have a: "assign h n (hdata h ! m) = Some ?h"
    using l n by (simp add: assign_def e)
  have sw: "(elems N ?h)[m := v] = swap ?xs n m"
  proof (rule nth_equalityI)
    show "length ((elems N ?h)[m := v]) = length (swap ?xs n m)" using l by (simp add: elems_def)
    fix i assume "i < length ((elems N ?h)[m := v])"
    then have "i < N" using l by (simp add: elems_def)
    with l n m show "(elems N ?h)[m := v] ! i = swap ?xs n m ! i"
      by (auto simp: nth_swap nth_list_update elems_def)
  qed
  have idx: "indexed N (Some m) ?h"
    unfolding indexed_def
  proof (intro allI impI, elim conjE)
    fix i c
    assume i: "i < N" "Some m \<noteq> Some i" "el_ptr (hdata ?h ! i) = Some (Cell c)"
    show "cells ?h (Cell c) = i"
    proof (cases "i = n")
      case True
      with i l n show ?thesis by (simp add: e)
    next
      case False
      with i have pi: "el_ptr (hdata h ! i) = Some (Cell c)" by simp
      have "p \<noteq> Cell c"
      proof
        assume "p = Cell c"
        then have "i = m"
          using cells_distinctD [of ?xs i m c] inv i False m l pi e
          by (auto simp: loop_inv_def nth_elems)
        with i show False by simp
      qed
      with inv pi i False show ?thesis by (auto simp: loop_inv_def indexed_def)
    qed
  qed
  have "loop_inv valid N ?h m v M"
    using inv idx sw l n m unfolding loop_inv_def by simp
  with a sw show ?thesis by auto
qed

lemma loop_end:
  assumes inv: "loop_inv valid N h n v M"
  shows "\<exists>h'. assign h n v = Some h' \<and> settled valid N h' M \<and> elems N h' = (elems N h)[n := v]
           \<and> sz h' = sz h \<and> hcmp h' = hcmp h \<and> max_sz h' = max_sz h"
proof -
  let ?xs = "(elems N h)[n := v]"
  have l: "length (elems N h) = N" "N \<le> length (hdata h)" and n: "n < N"
    using inv by (auto simp: loop_inv_def length_elems)
  obtain d p where e: "v = \<lparr>el_data = Some d, el_ptr = Some p\<rparr>"
    using loop_elem_good(1) [OF inv] by (auto simp: good_def)
  let ?h = "h\<lparr>hdata := (hdata h)[n := v], cells := (cells h)(p := n)\<rparr>"
  have a: "assign h n v = Some ?h"
    using l n by (simp add: assign_def e)
  have el: "elems N ?h = ?xs" using l n by (simp add: elems_def take_update_swap)
  have idx: "indexed N None ?h"
    unfolding indexed_def
  proof (intro allI impI, elim conjE)
    fix i c
    assume i: "i < N" "el_ptr (hdata ?h ! i) = Some (Cell c)"
    show "cells ?h (Cell c) = i"
    proof (cases "i = n")
      case True
      with i l n show ?thesis by (simp add: e)
    next
      case False
      with i have pi: "el_ptr (hdata h ! i) = Some (Cell c)" by simp
      have "p \<noteq> Cell c"
        using cells_distinctD [of ?xs i n c] inv i False n l pi e
        by (auto simp: loop_inv_def nth_elems)
      with inv pi i False show ?thesis by (auto simp: loop_inv_def indexed_def)
    qed
  qed
  have "settled valid N ?h M"
    using inv idx el unfolding settled_def loop_inv_def by simp
  with a el show ?thesis by auto
qed

declare upheap_loop.simps [simp del] downheap_loop.simps [simp del] do_verify.simps [simp del]

lemma all_children:
  "(\<forall>i. 0 < i \<and> i < N \<and> parent i = n \<longrightarrow> P i) \<longleftrightarrow>
   (left_child n < N \<longrightarrow> P (left_child n)) \<and> (right_child n < N \<longrightarrow> P (right_child n))"
  using parent_cases child_pos parent_child by metis

section \<open>The contract of a comparison function\<close>

text \<open>
  What the heap needs of the comparison function: its sign is the order of the keys, and it
  grows with the distance to the second argument, because \<open>downheap\<close> takes the child with the
  larger result. A function that returns only a sign does not satisfy the second law.
\<close>

locale heap_cmp =
  fixes cmp :: "'a \<Rightarrow> 'a \<Rightarrow> int" and key :: "'a \<Rightarrow> int" and valid :: "'a \<Rightarrow> bool"
  assumes cmp_pos: "valid a \<Longrightarrow> valid b \<Longrightarrow> cmp a b > 0 \<longleftrightarrow> key b < key a"
    and cmp_mono: "valid v \<Longrightarrow> valid a \<Longrightarrow> valid b \<Longrightarrow> cmp v a < cmp v b \<longleftrightarrow> key b < key a"
begin

abbreviation vkeys :: "nat \<Rightarrow> 'a heap \<Rightarrow> nat \<Rightarrow> 'a heap_element \<Rightarrow> int list" where
  "vkeys N h n v \<equiv> map (ekey key) ((elems N h)[n := v])"

abbreviation keys :: "nat \<Rightarrow> 'a heap \<Rightarrow> int list" where
  "keys N h \<equiv> map (ekey key) (elems N h)"

lemma loop_datas:
  assumes "loop_inv valid N h n v M"
  shows "\<exists>dv pv. v = \<lparr>el_data = Some dv, el_ptr = Some pv\<rparr> \<and> valid dv \<and> vkeys N h n v ! n = key dv"
    and "m < N \<Longrightarrow> m \<noteq> n \<Longrightarrow> \<exists>d p. hdata h ! m = \<lparr>el_data = Some d, el_ptr = Some p\<rparr> \<and> valid d
           \<and> hget h m = Some (hdata h ! m) \<and> vkeys N h n v ! m = key d"
proof -
  have l: "length (elems N h) = N" "n < N" "N \<le> length (hdata h)"
    using assms by (auto simp: loop_inv_def length_elems)
  show "\<exists>dv pv. v = \<lparr>el_data = Some dv, el_ptr = Some pv\<rparr> \<and> valid dv \<and> vkeys N h n v ! n = key dv"
    using loop_elem_good(1) [OF assms] l by (auto simp: good_def ekey_def)
  show "\<exists>d p. hdata h ! m = \<lparr>el_data = Some d, el_ptr = Some p\<rparr> \<and> valid d
      \<and> hget h m = Some (hdata h ! m) \<and> vkeys N h n v ! m = key d" if "m < N" "m \<noteq> n"
    using loop_elem_good(2) [OF assms that] l that
    by (auto simp: good_def ekey_def nth_elems hget_def)
qed

lemma upheap_loop_ok:
  assumes "loop_inv valid N h n v M" "hcmp h = cmp" "up_ok (vkeys N h n v) n"
  shows "\<exists>h'. upheap_loop h n v = Some h' \<and> settled valid N h' M \<and> hord (keys N h')
           \<and> sz h' = sz h \<and> hcmp h' = hcmp h \<and> max_sz h' = max_sz h"
  using assms
proof (induction n arbitrary: h rule: less_induct)
  case (less n)
  note inv = less.prems(1)
  have len: "length (vkeys N h n v) = N" "n < N"
    using inv by (auto simp: loop_inv_def length_elems)
  have fin: "\<exists>h'. assign h n v = Some h' \<and> settled valid N h' M \<and> hord (keys N h')
      \<and> sz h' = sz h \<and> hcmp h' = hcmp h \<and> max_sz h' = max_sz h"
    if "n = 0 \<or> vkeys N h n v ! parent n \<le> vkeys N h n v ! n"
    using loop_end [OF inv] up_stop [OF less.prems(3) that] by auto
  show ?case
  proof (cases "n = 0")
    case True
    with fin show ?thesis by (auto simp: upheap_loop.simps [of h 0])
  next
    case False
    then have p: "parent n < n" "parent n < N" using parent_less [of n] len by auto
    obtain dv pv where v: "v = \<lparr>el_data = Some dv, el_ptr = Some pv\<rparr>" "valid dv"
      "vkeys N h n v ! n = key dv" using loop_datas(1) [OF inv] by blast
    obtain d q where d: "hdata h ! parent n = \<lparr>el_data = Some d, el_ptr = Some q\<rparr>" "valid d"
      "hget h (parent n) = Some (hdata h ! parent n)" "vkeys N h n v ! parent n = key d"
      using loop_datas(2) [OF inv p(2)] p(1) by (metis less_irrefl)
    show ?thesis
    proof (cases "cmp d dv > 0")
      case True
      then have lt: "vkeys N h n v ! n < vkeys N h n v ! parent n"
        using cmp_pos v(2,3) d(2,4) by simp
      obtain h' where h': "assign h n (hdata h ! parent n) = Some h'" "loop_inv valid N h' (parent n) v M"
        "(elems N h')[parent n := v] = swap ((elems N h)[n := v]) n (parent n)"
        "sz h' = sz h" "hcmp h' = hcmp h" "max_sz h' = max_sz h"
        using loop_step [OF inv p(2)] p(1) by auto
      have "vkeys N h' (parent n) v = swap (vkeys N h n v) n (parent n)"
        unfolding h'(3) using len p by (intro map_swap) (auto simp: length_elems)
      with up_step [OF less.prems(3) _ _ lt] False len have "up_ok (vkeys N h' (parent n) v) (parent n)"
        by simp
      from less.IH [OF p(1) h'(2) _ this] h' less.prems(2) obtain h'' where
        "upheap_loop h' (parent n) v = Some h'' \<and> settled valid N h'' M \<and> hord (keys N h'')
           \<and> sz h'' = sz h \<and> hcmp h'' = hcmp h \<and> max_sz h'' = max_sz h" by auto
      with False True d v(1) h'(1) less.prems(2) show ?thesis
        by (simp add: upheap_loop.simps [of h n])
    next
      case 2: False
      then have "vkeys N h n v ! parent n \<le> vkeys N h n v ! n"
        using cmp_pos v(2,3) d(2,4) by (simp add: not_less)
      with fin 2 False d v(1) less.prems(2) show ?thesis
        by (simp add: upheap_loop.simps [of h n])
    qed
  qed
qed

lemma pick_child_ok:
  assumes inv: "loop_inv valid (sz h) h n v M" and "hcmp h = cmp" and n: "n < sz h div 2"
    and v: "v = \<lparr>el_data = Some dv, el_ptr = Some pv\<rparr>" "valid dv"
  shows "\<exists>k c. pick_child h n dv = Some (k, c) \<and> 0 < c \<and> parent c = n \<and> c < sz h
    \<and> (k > 0 \<longleftrightarrow> vkeys (sz h) h n v ! c < vkeys (sz h) h n v ! n)
    \<and> (\<forall>i. 0 < i \<and> i < sz h \<and> parent i = n \<longrightarrow> vkeys (sz h) h n v ! c \<le> vkeys (sz h) h n v ! i)"
proof -
  let ?K = "vkeys (sz h) h n v"
  have kv: "?K ! n = key dv" using loop_datas(1) [OF inv] v by auto
  have ll: "left_child n < sz h" "left_child n \<noteq> n" using n by (auto simp: left_child_def)
  obtain dl pl where l: "hdata h ! left_child n = \<lparr>el_data = Some dl, el_ptr = Some pl\<rparr>" "valid dl"
    "hget h (left_child n) = Some (hdata h ! left_child n)" "?K ! left_child n = key dl"
    using loop_datas(2) [OF inv ll] by blast
  show ?thesis
  proof (cases "right_child n < sz h")
    case True
    then obtain dr pr where r: "hdata h ! right_child n = \<lparr>el_data = Some dr, el_ptr = Some pr\<rparr>"
      "valid dr" "hget h (right_child n) = Some (hdata h ! right_child n)" "?K ! right_child n = key dr"
      using loop_datas(2) [OF inv True] by (metis child_pos(4) less_irrefl)
    show ?thesis
      using True l r kv ll v(2) assms(2) cmp_pos [of dv dl] cmp_pos [of dv dr] cmp_mono [of dv dl dr]
      unfolding all_children by (simp add: pick_child_def)
  next
    case False
    then show ?thesis
      using l kv ll v(2) assms(2) cmp_pos [of dv dl]
      unfolding all_children by (simp add: pick_child_def)
  qed
qed

lemma downheap_cases:
  assumes inv: "loop_inv valid (sz h) h n v M" and cmp: "hcmp h = cmp"
    and hole: "hole_ok (vkeys (sz h) h n v) n"
  obtains (stop) "downheap_loop h n v = assign h n v"
      "\<forall>i. 0 < i \<and> i < sz h \<and> parent i = n \<longrightarrow> vkeys (sz h) h n v ! n \<le> vkeys (sz h) h n v ! i"
  | (step) h' c where "downheap_loop h n v = downheap_loop h' c v" "n < c" "parent c = n"
      "loop_inv valid (sz h') h' c v M" "hole_ok (vkeys (sz h') h' c v) c"
      "vkeys (sz h') h' c v ! parent c \<le> vkeys (sz h') h' c v ! c"
      "vkeys (sz h) h n v ! c = vkeys (sz h') h' c v ! n"
      "sz h' = sz h" "hcmp h' = hcmp h" "max_sz h' = max_sz h" "c < sz h"
proof (cases "n < sz h div 2")
  case False
  then have "\<not> (0 < i \<and> i < sz h \<and> parent i = n)" for i
    by (auto simp: parent_def)
  with stop False show ?thesis by (simp add: downheap_loop.simps [of h n])
next
  case True
  let ?K = "vkeys (sz h) h n v"
  have len: "length ?K = sz h" "n < sz h" using inv by (auto simp: loop_inv_def length_elems)
  obtain dv pv where v: "v = \<lparr>el_data = Some dv, el_ptr = Some pv\<rparr>" "valid dv"
    using loop_datas(1) [OF inv] by blast
  obtain k c where c: "pick_child h n dv = Some (k, c)" "0 < c" "parent c = n" "c < sz h"
    "k > 0 \<longleftrightarrow> ?K ! c < ?K ! n"
    "\<forall>i. 0 < i \<and> i < sz h \<and> parent i = n \<longrightarrow> ?K ! c \<le> ?K ! i"
    using pick_child_ok [OF inv cmp True v] by blast
  have nc: "n < c" using c parent_less by blast
  have ll: "left_child n < sz h" using True by (auto simp: left_child_def)
  show ?thesis
  proof (cases "k > 0")
    case kp: True
    obtain h' where h': "assign h n (hdata h ! c) = Some h'" "loop_inv valid (sz h) h' c v M"
      "(elems (sz h) h')[c := v] = swap ((elems (sz h) h)[n := v]) n c"
      "sz h' = sz h" "hcmp h' = hcmp h" "max_sz h' = max_sz h"
      using loop_step [OF inv c(4)] nc by auto
    have sw: "vkeys (sz h') h' c v = swap ?K n c"
      unfolding h'(3,4) using len c by (intro map_swap) (auto simp: length_elems)
    have "hget h c = Some (hdata h ! c)" using loop_datas(2) [OF inv c(4)] nc by auto
    with True kp c(1) v(1) ll h'(1) have "downheap_loop h n v = downheap_loop h' c v"
      by (simp add: downheap_loop.simps [of h n])
    moreover have "hole_ok (swap ?K n c) c" "swap ?K n c ! parent c \<le> swap ?K n c ! c"
      using down_step [OF hole _ c(2) _ c(3)] c kp len by auto
    moreover have "swap ?K n c ! n = ?K ! c" using len c by (simp add: nth_swap)
    ultimately show ?thesis
      using step [of h' c, unfolded sw, OF _ nc c(3) _ _ _ _ h'(4-6) c(4)] h'(2,4) c(3) by metis
  next
    case False
    with c have "\<forall>i. 0 < i \<and> i < sz h \<and> parent i = n \<longrightarrow> ?K ! n \<le> ?K ! i" by force
    moreover have "downheap_loop h n v = assign h n v"
      using True False c(1) ll unfolding v(1) by (simp add: downheap_loop.simps [of h n])
    ultimately show ?thesis using stop by blast
  qed
qed

lemma downheap_loop_down:
  assumes "loop_inv valid (sz h) h n v M" "hcmp h = cmp" "hole_ok (vkeys (sz h) h n v) n"
    and "0 < n \<Longrightarrow> vkeys (sz h) h n v ! parent n \<le> vkeys (sz h) h n v ! n"
  shows "\<exists>h'. downheap_loop h n v = Some h' \<and> settled valid (sz h) h' M \<and> hord (keys (sz h) h')
           \<and> sz h' = sz h \<and> hcmp h' = hcmp h \<and> max_sz h' = max_sz h"
  using assms
proof (induction "sz h - n" arbitrary: h n rule: less_induct)
  case less
  have n: "n < sz h" "length (vkeys (sz h) h n v) = sz h"
    using less.prems(1) by (auto simp: loop_inv_def length_elems)
  from less.prems(1-3) show ?case
  proof (cases rule: downheap_cases)
    case stop
    then have "up_ok (vkeys (sz h) h n v) n" using down_stop [OF less.prems(3)] n by simp
    then have "hord (vkeys (sz h) h n v)" using up_stop less.prems(4) by blast
    with loop_end [OF less.prems(1)] stop show ?thesis by auto
  next
    case (step h' c)
    have "sz h' - c < sz h - n" using step n by auto
    from less.hyps [OF this step(4)] step less.prems(2) show ?thesis by auto
  qed
qed

lemma downheap_loop_up:
  assumes "loop_inv valid (sz h) h n v M" "hcmp h = cmp" "hole_ok (vkeys (sz h) h n v) n"
  shows "\<exists>h'. downheap_loop h n v = Some h' \<and> settled valid (sz h) h' M \<and> up_ok (keys (sz h) h') n
           \<and> sz h' = sz h \<and> hcmp h' = hcmp h \<and> max_sz h' = max_sz h"
proof -
  have n: "n < sz h" "length (vkeys (sz h) h n v) = sz h"
    using assms(1) by (auto simp: loop_inv_def length_elems)
  from assms show ?thesis
  proof (cases rule: downheap_cases)
    case stop
    then have "up_ok (vkeys (sz h) h n v) n" using down_stop [OF assms(3)] n by simp
    with loop_end [OF assms(1)] stop show ?thesis by auto
  next
    case (step h' c)
    from downheap_loop_down [OF step(4) _ step(5)] step assms(2) obtain h'' where
      h'': "downheap_loop h' c v = Some h'' \<and> settled valid (sz h) h'' M \<and> hord (keys (sz h) h'')
           \<and> sz h'' = sz h \<and> hcmp h'' = hcmp h \<and> max_sz h'' = max_sz h" by auto
    then have "length (keys (sz h) h'') = sz h" by (simp add: settled_def length_elems)
    with h'' hord_up_ok [of "keys (sz h) h''" n] n step show ?thesis by auto
  qed
qed

end

definition heap_inv ::
  "('a \<Rightarrow> int) \<Rightarrow> ('a \<Rightarrow> bool) \<Rightarrow> 'a heap \<Rightarrow> 'a heap_element multiset \<Rightarrow> bool" where
  "heap_inv key valid h M \<longleftrightarrow> settled valid (sz h) h M \<and> hord (map (ekey key) (elems (sz h) h))"

lemma hord_hole:
  assumes "hord ks" "k \<le> length ks" "n < k"
  shows "hole_ok ((take k ks)[n := x]) n"
proof -
  have lt: "parent i < k" if "i < k" for i
    using that parent_less [of i] by (cases "i = 0") (auto simp: parent_def)
  have "ks ! parent n \<le> ks ! i" if "0 < i" "i < k" "parent i = n" "0 < n" for i
    using assms that unfolding hord_def by (meson less_le_trans order_trans)
  moreover have "parent n \<noteq> n" if "0 < n" using parent_less [OF that] by simp
  ultimately show ?thesis
    using assms lt parent_less unfolding hole_ok_def hord_def by (auto simp: nth_list_update)
qed

lemma hord_root_least: "hord ks \<Longrightarrow> n < length ks \<Longrightarrow> ks ! 0 \<le> ks ! n"
proof (induction n rule: less_induct)
  case (less n)
  show ?case
  proof (cases "n = 0")
    case False
    then have "parent n < n" using parent_less [of n] by simp
    then have "ks ! 0 \<le> ks ! parent n" using less.IH less.prems by simp
    also have "\<dots> \<le> ks ! n" using less.prems False by (simp add: hord_def)
    finally show ?thesis .
  qed simp
qed

lemma hord_take: "hord ks \<Longrightarrow> hord (take k ks)"
  unfolding hord_def by (auto simp: less_trans [OF parent_less])

lemma hord_snoc:
  assumes "hord ks"
  shows "up_ok (ks @ [k]) (length ks)"
proof -
  have "parent i < i" if "0 < i" for i using parent_less [OF that] .
  then have "(ks @ [k]) ! parent i \<le> (ks @ [k]) ! i" if "0 < i" "i < length ks" for i
    using assms that by (simp add: hord_def nth_append less_trans [of "parent i" i])
  moreover have "parent i \<noteq> length ks" if "0 < i" "i < length (ks @ [k])" for i
    using parent_less [OF that(1)] that(2) by simp
  ultimately show ?thesis by (auto simp: up_ok_def)
qed

lemma settled_loop:
  assumes "settled valid N h M" "n < N"
  shows "loop_inv valid N h n (hdata h ! n) M" "(elems N h)[n := hdata h ! n] = elems N h"
    "hget h n = Some (hdata h ! n)"
proof -
  show e: "(elems N h)[n := hdata h ! n] = elems N h"
    using assms by (metis nth_elems list_update_id)
  show "loop_inv valid N h n (hdata h ! n) M"
    using assms by (auto simp: loop_inv_def settled_def e indexed_def)
  show "hget h n = Some (hdata h ! n)" using assms by (auto simp: settled_def hget_def)
qed

lemma settled_append:
  assumes st: "settled valid (sz h) h M" and room: "sz h < length (hdata h)"
    and v: "v = \<lparr>el_data = Some d, el_ptr = Some p\<rparr>" "valid d"
    and fresh: "\<forall>a. p = Cell a \<longrightarrow> Some p \<notin># image_mset el_ptr M"
  shows "loop_inv valid (sz h + 1) (h\<lparr>hdata := (hdata h)[sz h := v]\<rparr>) (sz h) v (add_mset v M)"
    and "(elems (sz h + 1) (h\<lparr>hdata := (hdata h)[sz h := v]\<rparr>))[sz h := v] = elems (sz h) h @ [v]"
proof -
  let ?h = "h\<lparr>hdata := (hdata h)[sz h := v]\<rparr>"
  show e: "(elems (sz h + 1) ?h)[sz h := v] = elems (sz h) h @ [v]"
    using room by (simp add: elems_def take_Suc_conv_app_nth list_update_append)
  have "count (image_mset el_ptr (add_mset v M)) (Some (Cell a)) \<le> 1" for a
    using st fresh by (cases "p = Cell a") (auto simp: settled_def cells_distinct_def v(1) count_eq_zero_iff)
  then show "loop_inv valid (sz h + 1) ?h (sz h) v (add_mset v M)"
    using st room e v unfolding loop_inv_def settled_def cells_distinct_def
    by (auto simp: good_def indexed_def nth_list_update)
qed

lemma settled_grow:
  assumes "settled valid (sz h) h M" "max_sz h < 2 ^ 31"
  shows "settled valid (sz h) (heap_grow h) M" "elems (sz h) (heap_grow h) = elems (sz h) h"
    "sz (heap_grow h) = sz h" "length (hdata (heap_grow h)) = 2 * max_sz h" "hcmp (heap_grow h) = hcmp h"
  using assms by (auto simp: heap_grow_def settled_def elems_def indexed_def nth_append Let_def)

lemma settled_remove:
  assumes st: "settled valid (Suc k) h M" and n: "n \<le> k"
  defines "g \<equiv> h\<lparr>sz := k, hdata := (hdata h)[n := hdata h ! k, k := null_element]\<rparr>"
  shows "n < k \<Longrightarrow> loop_inv valid k g n (hdata h ! k) (M - {#hdata h ! n#})"
    and "n = k \<Longrightarrow> settled valid k g (M - {#hdata h ! n#})"
    and "(elems k g) = (if n < k then (elems k h)[n := hdata h ! k] else elems k h)"
proof -
  have l: "Suc k \<le> length (hdata h)" using st by (simp add: settled_def)
  show e: "(elems k g) = (if n < k then (elems k h)[n := hdata h ! k] else elems k h)"
    using n by (auto simp: elems_def g_def take_update_swap list_update_beyond)
  have M: "M = add_mset (hdata h ! k) (mset (elems k h))"
    using st l by (simp add: settled_def elems_def take_Suc_conv_app_nth)
  have D: "cells_distinct (M - {#x#})" for x
  proof -
    have "count (image_mset el_ptr (M - {#x#})) c \<le> count (image_mset el_ptr M) c" for c
      by (rule mset_subset_eq_count) (simp add: image_mset_subseteq_mono)
    with st show ?thesis unfolding settled_def cells_distinct_def by (meson order_trans)
  qed
  have G: "\<forall>y \<in># M - {#x#}. good valid y" for x
    using st in_diffD unfolding settled_def by metis
  have idx: "indexed k (if n < k then Some n else None) g"
    using st l n unfolding settled_def indexed_def by (auto simp: g_def nth_list_update)
  have len: "length (hdata g) = max_sz g" "k \<le> length (hdata g)"
    using st l by (auto simp: settled_def g_def)
  have "mset ((elems k h)[n := hdata h ! k]) = M - {#hdata h ! n#}" if "n < k"
    using that l nth_mem_mset [of n "elems k h"]
    by (simp add: M mset_update length_elems nth_elems add_mset_diff_bothsides)
  then show "n < k \<Longrightarrow> loop_inv valid k g n (hdata h ! k) (M - {#hdata h ! n#})"
    using len idx D G e by (simp add: loop_inv_def)
  show "n = k \<Longrightarrow> settled valid k g (M - {#hdata h ! n#})"
    using len idx D [of "hdata h ! k"] G [of "hdata h ! k"] e M by (simp add: settled_def)
qed

context heap_cmp
begin

lemma heap_insert_inv:
  assumes inv: "heap_inv key valid h M" and cmp: "hcmp h = cmp" and d: "valid d"
    and room: "sz h < max_sz h \<or> (0 < max_sz h \<and> max_sz h < 2 ^ 31)"
    and p: "p = (case ptr of None \<Rightarrow> Dummy | Some a \<Rightarrow> Cell a)"
    and fresh: "\<And>a. ptr = Some a \<Longrightarrow> Some (Cell a) \<notin># image_mset el_ptr M"
  shows "\<exists>h'. heap_insert True h d ptr = Some (0, h') \<and>
    heap_inv key valid h' (add_mset \<lparr>el_data = Some d, el_ptr = Some p\<rparr> M) \<and>
    sz h' = sz h + 1 \<and> hcmp h' = cmp \<and> (sz h < max_sz h \<longrightarrow> max_sz h' = max_sz h)"
proof -
  let ?v = "\<lparr>el_data = Some d, el_ptr = Some p\<rparr>"
  define g where "g = (if sz h = max_sz h then heap_grow h else h)"
  have st: "settled valid (sz h) h M" and ho: "hord (keys (sz h) h)" and ls: "sz h \<le> max_sz h"
    using inv by (auto simp: heap_inv_def settled_def)
  have g: "settled valid (sz g) g M" "keys (sz g) g = keys (sz h) h" "sz g < length (hdata g)"
    "sz g = sz h" "hcmp g = cmp" "sz h < max_sz h \<longrightarrow> max_sz g = max_sz h"
    using st room ls settled_grow [OF st] cmp by (auto simp: g_def settled_def)
  have fr: "\<forall>a. p = Cell a \<longrightarrow> Some p \<notin># image_mset el_ptr M"
    using fresh p by (auto split: option.splits)
  let ?g = "g\<lparr>hdata := (hdata g)[sz g := ?v]\<rparr>"
  note li = settled_append [of valid g M ?v d p, OF g(1,3) refl d fr]
  have "length (keys (sz g) g) = sz g" using g(1) by (simp add: settled_def length_elems)
  then have "up_ok (vkeys (sz g + 1) ?g (sz g) ?v) (sz g)"
    unfolding li(2) using hord_snoc [of "keys (sz g) g"] ho g(2) by simp
  from upheap_loop_ok [OF li(1) _ this] g(5) obtain h' where
    h': "upheap_loop ?g (sz g) ?v = Some h'" "settled valid (sz g + 1) h' (add_mset ?v M)"
      "hord (keys (sz g + 1) h')" "sz h' = sz g" "hcmp h' = cmp" "max_sz h' = max_sz g" by auto
  have "heap_insert True h d ptr = Some (0, h'\<lparr>sz := sz h + 1\<rparr>)"
    using h'(1,4) g(3,4) unfolding heap_insert_def Let_def g_def [symmetric] p [symmetric]
    by (simp add: upheap_def hget_def)
  moreover have "heap_inv key valid (h'\<lparr>sz := sz h + 1\<rparr>) (add_mset ?v M)"
    using h'(2,3) g(4) by (simp add: heap_inv_def settled_def elems_def indexed_def)
  ultimately show ?thesis using h'(5,6) g(6) by auto
qed

text \<open>
  The removed element takes no part in the comparisons: it is enough that the array was in order
  for keys \<open>key'\<close> that agree with the present ones on all other elements.
\<close>

lemma remove_this_upto:
  assumes st: "settled valid' (sz h) h M" and valid: "\<forall>e \<in># M - {#hdata h ! n#}. good valid e"
    and ord: "hord (map (ekey key') (elems (sz h) h))"
    and same: "\<forall>i < sz h. i \<noteq> n \<longrightarrow> ekey key' (hdata h ! i) = ekey key (hdata h ! i)"
    and cmp: "hcmp h = cmp" and n: "n < sz h"
  shows "\<exists>h'. remove_this h n = Some h' \<and> heap_inv key valid h' (M - {#hdata h ! n#})
    \<and> sz h' = sz h - 1 \<and> hcmp h' = cmp \<and> max_sz h' = max_sz h"
proof -
  define k where "k = sz h - 1"
  define g where "g = h\<lparr>sz := k, hdata := (hdata h)[n := hdata h ! k, k := null_element]\<rparr>"
  have k: "sz h = Suc k" "n \<le> k" using n by (auto simp: k_def)
  have st: "settled valid' (Suc k) h M" and ho: "hord (map (ekey key') (elems (Suc k) h))"
    using st ord k by auto
  note rm = settled_remove [OF st k(2), folded g_def]
  have rmv: "n < k \<Longrightarrow> loop_inv valid k g n (hdata h ! k) (M - {#hdata h ! n#})"
    "n = k \<Longrightarrow> settled valid k g (M - {#hdata h ! n#})"
    using rm(1,2) valid by (auto simp: loop_inv_def settled_def)
  have l: "Suc k \<le> length (hdata h)" using st by (simp add: settled_def)
  have R: "remove_this h n = (if n \<noteq> k then do { h \<leftarrow> downheap g n; upheap h n } else Some g)"
    using k l by (simp add: remove_this_def g_def hget_def Let_def)
  have tk: "(take k (map (ekey key') (elems (Suc k) h)))[n := x] = (keys k h)[n := x]" for x
  proof (rule nth_equalityI)
    fix i assume "i < length ((take k (map (ekey key') (elems (Suc k) h)))[n := x])"
    then have "i < k" by simp
    then show "(take k (map (ekey key') (elems (Suc k) h)))[n := x] ! i = (keys k h)[n := x] ! i"
      using same k l by (cases "i = n") (auto simp: nth_elems length_elems)
  qed (use l in \<open>simp add: length_elems\<close>)
  show ?thesis
  proof (cases "n = k")
    case True
    have "take k (map (ekey key') (elems (Suc k) h)) = keys k h" 
      using tk [of 0] True l by (simp add: length_elems list_update_beyond)
    then have "heap_inv key valid g (M - {#hdata h ! n#})"
      using rmv(2) rm(3) hord_take [OF ho, of k] True by (simp add: heap_inv_def g_def)
    then show ?thesis using R True k cmp by (simp add: g_def)
  next
    case False
    then have nk: "n < k" using k by simp
    have gs: "sz g = k" "hcmp g = cmp" "max_sz g = max_sz h" using cmp by (auto simp: g_def)
    have "hole_ok ((take k (map (ekey key') (elems (Suc k) h)))[n := ekey key (hdata h ! k)]) n"
      using hord_hole [OF ho _ nk] l by (simp add: length_elems)
    then have "hole_ok (vkeys (sz g) g n (hdata h ! k)) n"
      using nk rm(3) unfolding tk gs by (simp add: map_update)
    then obtain h1 where h1: "downheap_loop g n (hdata h ! k) = Some h1"
        "settled valid k h1 (M - {#hdata h ! n#})" "up_ok (keys k h1) n"
        "sz h1 = k" "hcmp h1 = cmp" "max_sz h1 = max_sz h"
      using downheap_loop_up [of g n "hdata h ! k"] rmv(1) [OF nk] gs by auto
    note lp = settled_loop [OF h1(2) nk]
    obtain h2 where h2: "upheap_loop h1 n (hdata h1 ! n) = Some h2"
        "settled valid k h2 (M - {#hdata h ! n#})" "hord (keys k h2)"
        "sz h2 = k" "hcmp h2 = cmp" "max_sz h2 = max_sz h"
      using upheap_loop_ok [OF lp(1) h1(5)] h1 lp(2) by auto
    have "hget g n = Some (hdata h ! k)" using nk l by (simp add: g_def hget_def)
    then have "remove_this h n = Some h2"
      using R False h1(1) h2(1) lp(3) by (simp add: downheap_def upheap_def)
    then show ?thesis using h2 k by (simp add: heap_inv_def)
  qed
qed

lemma remove_this_inv:
  assumes inv: "heap_inv key valid h M" and cmp: "hcmp h = cmp" and n: "n < sz h"
  shows "\<exists>h'. remove_this h n = Some h' \<and> heap_inv key valid h' (M - {#hdata h ! n#})
    \<and> sz h' = sz h - 1 \<and> hcmp h' = cmp \<and> max_sz h' = max_sz h"
proof (rule remove_this_upto [OF _ _ _ _ cmp n])
  show st: "settled valid (sz h) h M" using inv by (simp add: heap_inv_def)
  then show "\<forall>e \<in># M - {#hdata h ! n#}. good valid e" using in_diffD unfolding settled_def by metis
  show "hord (keys (sz h) h)" using inv by (simp add: heap_inv_def)
qed simp

lemma settled_find:
  assumes st: "settled valid' (sz h) h M" and e: "\<lparr>el_data = Some d, el_ptr = Some (Cell a)\<rparr> \<in># M"
  shows "cells h (Cell a) < sz h" "hdata h ! cells h (Cell a) = \<lparr>el_data = Some d, el_ptr = Some (Cell a)\<rparr>"
    "hget h (cells h (Cell a)) = Some \<lparr>el_data = Some d, el_ptr = Some (Cell a)\<rparr>"
proof -
  let ?e = "\<lparr>el_data = Some d, el_ptr = Some (Cell a)\<rparr>"
  have "length (elems (sz h) h) = sz h" using st by (simp add: settled_def length_elems)
  moreover have "?e \<in> set (elems (sz h) h)" using st e by (auto simp: settled_def)
  ultimately obtain n where n: "n < sz h" "hdata h ! n = ?e" by (metis in_set_conv_nth nth_elems)
  then have c: "cells h (Cell a) = n" using st by (auto simp: settled_def indexed_def)
  show "cells h (Cell a) < sz h" "hdata h ! cells h (Cell a) = ?e" using n c by auto
  show "hget h (cells h (Cell a)) = Some ?e" using settled_loop(3) [OF st n(1)] n(2) c by simp
qed

text \<open>
  Removing through the cell of an element, also when the key of this element has changed since the
  heap was in order.
\<close>

lemma heap_remove_upto:
  assumes inv: "heap_inv key' valid' h M" and cmp: "hcmp h = cmp"
    and e: "\<lparr>el_data = Some d, el_ptr = Some (Cell a)\<rparr> \<in># M"
    and same: "\<forall>f \<in># M - {#\<lparr>el_data = Some d, el_ptr = Some (Cell a)\<rparr>#}. ekey key' f = ekey key f \<and> good valid f"
  shows "\<exists>h'. heap_remove h (cells h (Cell a)) = Some (0, h')
    \<and> heap_inv key valid h' (M - {#\<lparr>el_data = Some d, el_ptr = Some (Cell a)\<rparr>#})
    \<and> sz h' = sz h - 1 \<and> hcmp h' = cmp \<and> max_sz h' = max_sz h"
proof -
  let ?e = "\<lparr>el_data = Some d, el_ptr = Some (Cell a)\<rparr>" and ?n = "cells h (Cell a)"
  have st: "settled valid' (sz h) h M" and ho: "hord (map (ekey key') (elems (sz h) h))" using inv by (auto simp: heap_inv_def)
  note n = settled_find [OF st e]
  have l: "length (elems (sz h) h) = sz h" using st by (simp add: settled_def length_elems)
  have M: "M = mset (elems (sz h) h)" using st by (simp add: settled_def)
  have "ekey key' (hdata h ! i) = ekey key (hdata h ! i)" if i: "i < sz h" "i \<noteq> ?n" for i
  proof -
    have "mset ((elems (sz h) h)[?n := x]) = add_mset x (M - {#?e#})" for x
      using n(1,2) l unfolding M by (simp add: mset_update nth_elems)
    moreover have "hdata h ! i \<in># mset ((elems (sz h) h)[?n := x])" for x
      using i l by (metis length_list_update nth_elems nth_list_update_neq nth_mem set_mset_mset)
    ultimately have m: "hdata h ! i \<in># add_mset x (M - {#?e#})" for x by metis
    have "hdata h ! i \<in># M - {#?e#}" using m [of null_element] m [of "\<lparr>el_data = None, el_ptr = Some Dummy\<rparr>"] by auto
    then show ?thesis using same by blast
  qed
  then have "\<exists>h'. remove_this h ?n = Some h' \<and> heap_inv key valid h' (M - {#hdata h ! ?n#})
    \<and> sz h' = sz h - 1 \<and> hcmp h' = cmp \<and> max_sz h' = max_sz h"
    using same n(2) by (intro remove_this_upto [OF st _ ho _ cmp n(1)]) auto
  then show ?thesis using n by (auto simp: heap_remove_def)
qed

lemma heap_remove_inv:
  assumes inv: "heap_inv key valid h M" and cmp: "hcmp h = cmp"
    and e: "\<lparr>el_data = Some d, el_ptr = Some (Cell a)\<rparr> \<in># M"
  shows "\<exists>h'. heap_remove h (cells h (Cell a)) = Some (0, h')
    \<and> heap_inv key valid h' (M - {#\<lparr>el_data = Some d, el_ptr = Some (Cell a)\<rparr>#})
    \<and> sz h' = sz h - 1 \<and> hcmp h' = cmp"
proof -
  have "\<forall>f \<in># M. good valid f" using inv by (simp add: heap_inv_def settled_def)
  then show ?thesis using heap_remove_upto [OF inv cmp e] by (metis in_diffD)
qed

lemma heap_head_least:
  assumes inv: "heap_inv key valid h M" and e: "e \<in># M"
  shows "\<exists>d. heap_head h = Some d \<and> valid d \<and> (\<exists>p. \<lparr>el_data = Some d, el_ptr = p\<rparr> \<in># M) \<and> key d \<le> ekey key e"
proof -
  have st: "settled valid (sz h) h M" using inv by (simp add: heap_inv_def)
  have ho: "hord (keys (sz h) h)" using inv by (simp add: heap_inv_def)
  have l: "length (elems (sz h) h) = sz h" using st by (simp add: settled_def length_elems)
  have "e \<in> set (elems (sz h) h)" using st e by (auto simp: settled_def)
  then obtain n where n: "n < sz h" "elems (sz h) h ! n = e" using l by (metis in_set_conv_nth)
  have z: "elems (sz h) h ! 0 = hdata h ! 0" "hget h 0 = Some (hdata h ! 0)" "0 < sz h"
    using n st by (auto simp: nth_elems hget_def settled_def)
  have "hdata h ! 0 \<in># M" using st z l by (metis nth_mem set_mset_mset settled_def)
  moreover from this have "good valid (hdata h ! 0)" using st by (simp add: settled_def)
  moreover have "keys (sz h) h ! 0 \<le> keys (sz h) h ! n"
    using hord_root_least [OF ho, of n] n l by simp
  ultimately show ?thesis using n z l by (auto simp: heap_head_def good_def ekey_def)
qed

end

definition below :: "nat \<Rightarrow> nat \<Rightarrow> bool" where
  "below n j \<longleftrightarrow> (\<exists>m. (parent ^^ m) j = n)"

lemma below_0: "below 0 j"
proof (induction j rule: less_induct)
  case (less j)
  show ?case
  proof (cases "j = 0")
    case True
    then have "(parent ^^ 0) j = 0" by simp
    then show ?thesis unfolding below_def by blast
  next
    case False
    then have "parent j < j" using parent_less [of j] by simp
    from less [OF this] obtain m where "(parent ^^ m) (parent j) = 0" by (auto simp: below_def)
    then have "(parent ^^ Suc m) j = 0" by (simp add: funpow_swap1)
    then show ?thesis unfolding below_def by blast
  qed
qed

lemma below_step: "below n j \<longleftrightarrow> j = n \<or> below (left_child n) j \<or> below (right_child n) j"
proof
  have "(parent ^^ m) j = n \<Longrightarrow> j = n \<or> below (left_child n) j \<or> below (right_child n) j" for m
  proof (induction m)
    case (Suc m)
    let ?c = "(parent ^^ m) j"
    have c: "parent ?c = n" using Suc.prems by simp
    show ?case
    proof (cases "?c = 0")
      case True
      with c have "?c = n" by (simp add: parent_def)
      with Suc.IH show ?thesis by simp
    next
      case False
      then have "?c = left_child n \<or> ?c = right_child n" using c parent_cases by simp
      then show ?thesis unfolding below_def by blast
    qed
  qed simp
  then show "below n j \<Longrightarrow> j = n \<or> below (left_child n) j \<or> below (right_child n) j"
    by (auto simp: below_def)
next
  have self: "below n n" unfolding below_def by (rule exI [of _ 0]) simp
  have up: "below n j" if "below c j" "parent c = n" for c
  proof -
    from that obtain m where "(parent ^^ m) j = c" by (auto simp: below_def)
    with that have "(parent ^^ Suc m) j = n" by simp
    then show ?thesis unfolding below_def by blast
  qed
  show "j = n \<or> below (left_child n) j \<or> below (right_child n) j \<Longrightarrow> below n j"
    using self up [of "left_child n"] up [of "right_child n"] by auto
qed

lemma below_le: "below n j \<Longrightarrow> n \<le> j"
proof -
  have "(parent ^^ m) j \<le> j" for m
  proof (induction m)
    case (Suc m)
    have "parent ((parent ^^ m) j) \<le> (parent ^^ m) j" by (simp add: parent_def)
    with Suc show ?case by simp
  qed simp
  then show "below n j \<Longrightarrow> n \<le> j" by (auto simp: below_def)
qed

definition sub_ord :: "int list \<Rightarrow> nat \<Rightarrow> bool" where
  "sub_ord ks n \<longleftrightarrow> (\<forall>i. 0 < i \<and> i < length ks \<and> below n (parent i) \<longrightarrow> ks ! parent i \<le> ks ! i)"

lemma sub_ord_beyond: "length ks \<le> n \<Longrightarrow> sub_ord ks n"
  unfolding sub_ord_def using below_le parent_less by (meson leD le_less_trans less_trans)

lemma sub_ord_step:
  "sub_ord ks n \<longleftrightarrow>
     (left_child n < length ks \<longrightarrow> ks ! n \<le> ks ! left_child n \<and> sub_ord ks (left_child n)) \<and>
     (right_child n < length ks \<longrightarrow> ks ! n \<le> ks ! right_child n \<and> sub_ord ks (right_child n))"
proof -
  have "sub_ord ks n \<longleftrightarrow>
      (\<forall>i. 0 < i \<and> i < length ks \<and> parent i = n \<longrightarrow> ks ! n \<le> ks ! i) \<and>
      sub_ord ks (left_child n) \<and> sub_ord ks (right_child n)"
    unfolding sub_ord_def by (subst below_step) blast
  moreover have "sub_ord ks c" if "\<not> c < length ks" for c using that sub_ord_beyond by simp
  ultimately show ?thesis unfolding all_children by blast
qed

context heap_cmp
begin

lemma settled_data:
  assumes "settled valid N h M" "i < N"
  obtains d e where "hget h i = Some e" "el_data e = Some d" "valid d" "keys N h ! i = key d"
proof -
  have l: "length (elems N h) = N" using assms by (simp add: settled_def length_elems)
  have "hdata h ! i \<in> set (elems N h)" using assms l nth_mem [of i "elems N h"] by (simp add: nth_elems)
  then have "good valid (hdata h ! i)" using assms by (auto simp: settled_def)
  then show ?thesis
    using that settled_loop(3) [OF assms] assms l by (auto simp: good_def nth_elems ekey_def)
qed

lemma do_verify_sub:
  assumes "settled valid (sz h) h M" "hcmp h = cmp" "n < sz h"
  shows "do_verify h n = Some (sub_ord (keys (sz h) h) n)"
  using assms(3)
proof (induction "sz h - n" arbitrary: n rule: less_induct)
  case less
  let ?K = "keys (sz h) h"
  have l: "length ?K = sz h" using assms by (simp add: settled_def length_elems)
  obtain e d where n: "hget h n = Some e" "el_data e = Some d" "valid d" "?K ! n = key d"
    using settled_data [OF assms(1) less.prems] .
  have child: "\<exists>e' d'. hget h c = Some e' \<and> el_data e' = Some d' \<and> (cmp d d' > 0 \<longleftrightarrow> \<not> ?K ! n \<le> ?K ! c)
      \<and> do_verify h c = Some (sub_ord ?K c)" if c: "c < sz h" "n < c" for c
  proof -
    obtain e' d' where "hget h c = Some e'" "el_data e' = Some d'" "valid d'" "?K ! c = key d'"
      using settled_data [OF assms(1) c(1)] .
    moreover have "do_verify h c = Some (sub_ord ?K c)" using c by (intro less.hyps) auto
    ultimately show ?thesis using cmp_pos n by auto
  qed
  show ?case
    using child [of "left_child n"] child [of "right_child n"] n assms(2) l
    unfolding sub_ord_step [of ?K n] do_verify.simps [of h n]
    by (cases "left_child n < sz h"; cases "right_child n < sz h") (auto split: if_splits)
qed

lemma heap_verify_hord:
  assumes "settled valid (sz h) h M" "hcmp h = cmp"
  shows "heap_verify h = Some (hord (keys (sz h) h))"
proof (cases "sz h = 0")
  case True
  then show ?thesis
    by (simp add: heap_verify_def do_verify.simps [of h 0] hord_def elems_def left_child_def right_child_def)
next
  case False
  then show ?thesis
    using do_verify_sub [OF assms, of 0] below_0 by (simp add: heap_verify_def sub_ord_def hord_def)
qed

end

section \<open>Properties\<close>

lemma heap_new_inv:
  assumes "heap_new (True, True) n cmp cs = Some (Some h)"
  shows "heap_inv key valid h {#}" "hcmp h = cmp" "max_sz h = n" "sz h = 0"
  using assms
  by (auto simp: heap_new_def heap_inv_def settled_def cells_distinct_def indexed_def elems_def hord_def)

lemma heap_cmp_minus: "heap_cmp (\<lambda>a b. a - b) (\<lambda>a::int. a) (\<lambda>_. True)"
  by unfold_locales auto

text \<open>
  C15: inserting into a well-formed heap with a cell that no element of the heap uses returns 0,
  never touches memory outside the array, and gives a well-formed heap that holds exactly the
  old elements and the new one (heap order, array bounds and all back pointers included).
\<close>

theorem heap_insert_adds:
  assumes "heap_cmp (hcmp h) key valid" "heap_inv key valid h M" "valid d"
    and "sz h < max_sz h \<or> (0 < max_sz h \<and> max_sz h < 2 ^ 31)"
    and "Some (Cell a) \<notin># image_mset el_ptr M"
  shows "\<exists>h'. heap_insert True h d (Some a) = Some (0, h') \<and>
    heap_inv key valid h' (add_mset \<lparr>el_data = Some d, el_ptr = Some (Cell a)\<rparr> M) \<and>
    sz h' = sz h + 1 \<and> hcmp h' = hcmp h"
  using heap_cmp.heap_insert_inv [OF assms(1,2) refl assms(3,4), of "Cell a" "Some a"] assms(5) by auto

theorem heap_insert_adds_witness:
  "\<exists>h h'. heap_new (True, True) 1 (\<lambda>a b. a - b) (\<lambda>_. 0) = Some (Some h) \<and>
     heap_insert True h (5::int) (Some 3) = Some (0, h') \<and>
     heap_inv (\<lambda>a. a) (\<lambda>_. True) h' {#\<lparr>el_data = Some 5, el_ptr = Some (Cell 3)\<rparr>#}"
proof -
  obtain h :: "int heap" where h: "heap_new (True, True) 1 (\<lambda>a b. a - b) (\<lambda>_. 0) = Some (Some h)"
    by (simp add: heap_new_def)
  from heap_new_inv [OF h] heap_insert_adds [of h "\<lambda>a. a" "\<lambda>_. True" "{#}" 5 3] heap_cmp_minus h
  show ?thesis by auto
qed

text \<open>
  C10: removing the element whose client cell is \<open>a\<close> through the index stored in that cell
  succeeds and removes exactly that element, keeping the heap well formed.
\<close>

theorem heap_remove_by_back_pointer:
  assumes "heap_cmp (hcmp h) key valid" "heap_inv key valid h M"
    and "\<lparr>el_data = Some d, el_ptr = Some (Cell a)\<rparr> \<in># M"
  shows "\<exists>h'. heap_remove h (cells h (Cell a)) = Some (0, h') \<and>
    heap_inv key valid h' (M - {#\<lparr>el_data = Some d, el_ptr = Some (Cell a)\<rparr>#}) \<and>
    sz h' = sz h - 1 \<and> hcmp h' = hcmp h"
  using heap_cmp.heap_remove_inv [OF assms(1,2) refl assms(3)] .

theorem heap_remove_by_back_pointer_witness:
  "\<exists>h h'. heap_inv (\<lambda>a::int. a) (\<lambda>_. True) h {#\<lparr>el_data = Some 5, el_ptr = Some (Cell 3)\<rparr>#} \<and>
     heap_remove h (cells h (Cell 3)) = Some (0, h') \<and> heap_inv (\<lambda>a. a) (\<lambda>_. True) h' {#}"
proof -
  define h where "h = \<lparr>hcmp = (\<lambda>a b. a - b), max_sz = 1, sz = 1,
    hdata = [\<lparr>el_data = Some (5::int), el_ptr = Some (Cell 3)\<rparr>], cells = (\<lambda>_. 0)\<rparr>"
  have i: "heap_inv (\<lambda>a. a) (\<lambda>_. True) h {#\<lparr>el_data = Some 5, el_ptr = Some (Cell 3)\<rparr>#}"
    by (simp add: h_def heap_inv_def settled_def cells_distinct_def indexed_def elems_def hord_def good_def)
  with heap_remove_by_back_pointer [of h "\<lambda>a. a" "\<lambda>_. True" _ 5 3] heap_cmp_minus
  show ?thesis by (fastforce simp: h_def)
qed

text \<open>
  C16: the head of a non-empty well-formed heap is a least element, and removing the head removes
  that element and nothing else.
\<close>

theorem heap_head_is_least:
  assumes "heap_cmp (hcmp h) key valid" "heap_inv key valid h M" "M \<noteq> {#}"
  shows "\<exists>d p h'. heap_head h = Some d \<and> \<lparr>el_data = Some d, el_ptr = p\<rparr> \<in># M \<and>
    (\<forall>e \<in># M. key d \<le> key (the (el_data e))) \<and>
    heap_remove_head h = Some h' \<and> heap_inv key valid h' (M - {#\<lparr>el_data = Some d, el_ptr = p\<rparr>#})"
proof -
  have st: "settled valid (sz h) h M" using assms(2) by (simp add: heap_inv_def)
  have z: "0 < sz h" using st assms(3) by (auto simp: settled_def elems_def intro!: gr0I)
  obtain e where "e \<in># M" using assms(3) by blast
  with heap_cmp.heap_head_least [OF assms(1,2)] obtain d where d: "heap_head h = Some d" by blast
  have "hdata h ! 0 \<in># M" "hget h 0 = Some (hdata h ! 0)"
    using settled_loop(3) [OF st z] st z nth_mem [of 0 "elems (sz h) h"]
    by (auto simp: settled_def nth_elems length_elems)
  then have e: "hdata h ! 0 = \<lparr>el_data = Some d, el_ptr = el_ptr (hdata h ! 0)\<rparr>" "hdata h ! 0 \<in># M"
    using d z by (auto simp: heap_head_def)
  have "\<forall>e \<in># M. key d \<le> key (the (el_data e))"
    using heap_cmp.heap_head_least [OF assms(1,2)] d by (auto simp: ekey_def)
  with e d heap_cmp.remove_this_inv [OF assms(1,2) refl z] show ?thesis
    unfolding heap_remove_head_def by metis
qed

theorem heap_head_is_least_witness:
  "\<exists>h h'. heap_head h = Some (5::int) \<and> heap_remove_head h = Some h' \<and>
     heap_inv (\<lambda>a. a) (\<lambda>_. True) h {#\<lparr>el_data = Some 5, el_ptr = Some (Cell 3)\<rparr>#} \<and>
     heap_inv (\<lambda>a. a) (\<lambda>_. True) h' {#}"
proof -
  define h where "h = \<lparr>hcmp = (\<lambda>a b. a - b), max_sz = 1, sz = 1,
    hdata = [\<lparr>el_data = Some (5::int), el_ptr = Some (Cell 3)\<rparr>], cells = (\<lambda>_. 0)\<rparr>"
  have i: "heap_inv (\<lambda>a. a) (\<lambda>_. True) h {#\<lparr>el_data = Some 5, el_ptr = Some (Cell 3)\<rparr>#}"
    by (simp add: h_def heap_inv_def settled_def cells_distinct_def indexed_def elems_def hord_def good_def)
  with heap_head_is_least [of h "\<lambda>a. a" "\<lambda>_. True" "{#\<lparr>el_data = Some 5, el_ptr = Some (Cell 3)\<rparr>#}"]
    heap_cmp_minus
  show ?thesis by (fastforce simp: h_def)
qed

text \<open>
  C26: on a heap whose array and back pointers are in order \<open>heap_verify\<close> returns TRUE exactly
  when the keys are heap ordered: the checker is sound and complete.
\<close>

theorem heap_verify_iff_order:
  assumes "heap_cmp (hcmp h) key valid" "settled valid (sz h) h M"
  shows "heap_verify h = Some (hord (map (ekey key) (elems (sz h) h)))"
  using heap_cmp.heap_verify_hord [OF assms refl] .

theorem heap_verify_iff_order_witness:
  "heap_verify \<lparr>hcmp = (\<lambda>a b. a - b), max_sz = 2, sz = 2,
     hdata = [\<lparr>el_data = Some (5::int), el_ptr = Some Dummy\<rparr>, \<lparr>el_data = Some 4, el_ptr = Some Dummy\<rparr>],
     cells = (\<lambda>_. 0)\<rparr> = Some False"
proof -
  define h where "h = \<lparr>hcmp = (\<lambda>a b. a - b), max_sz = 2, sz = 2,
     hdata = [\<lparr>el_data = Some (5::int), el_ptr = Some Dummy\<rparr>, \<lparr>el_data = Some 4, el_ptr = Some Dummy\<rparr>],
     cells = (\<lambda>_. 0)\<rparr>"
  have "settled (\<lambda>_. True) (sz h) h (mset (hdata h))"
    by (auto simp: h_def settled_def cells_distinct_def indexed_def elems_def good_def less_Suc_eq numeral_2_eq_2)
  then have "heap_verify h = Some (hord (map (ekey (\<lambda>a. a)) (elems (sz h) h)))"
    using heap_cmp_minus by (intro heap_verify_iff_order) (simp_all add: h_def)
  moreover have "\<not> hord [5, 4]" by (auto simp: hord_def parent_def intro!: exI [of _ 1])
  ultimately show ?thesis by (simp add: h_def elems_def ekey_def)
qed


end
