(* ===== verification/Util_List.thy ===== *)
theory Util_List
  imports Milko_Prelude
begin

text \<open>
  Doubly linked lists: \<open>lib/util/list.c\<close> and the inline functions of \<open>list.h\<close>.

  A \<open>Listitem\<close> lives at an address of a store; address 0 is \<open>NULL\<close>. Reading or writing an address
  that holds no item is \<^const>\<open>None\<close>. The address that \<open>malloc\<close> returns is an argument of the
  functions that allocate; 0 means that it failed. The predicate \<open>dll\<close> relates a list header to
  the sequence of its items, and every operation is shown to act on this sequence.
\<close>

section \<open>Model\<close>

type_synonym addr = nat

record 'a listitem =
  idata :: 'a
  iprev :: addr
  inext :: addr

record list_hdr =
  lhead :: addr
  ltail :: addr

type_synonym 'a items = "addr \<Rightarrow> 'a listitem option"

definition set_next :: "'a items \<Rightarrow> addr \<Rightarrow> addr \<Rightarrow> 'a items option" where
  "set_next m p q = (case m p of None \<Rightarrow> None | Some it \<Rightarrow> Some (m(p \<mapsto> it\<lparr>inext := q\<rparr>)))"

definition set_prev :: "'a items \<Rightarrow> addr \<Rightarrow> addr \<Rightarrow> 'a items option" where
  "set_prev m p q = (case m p of None \<Rightarrow> None | Some it \<Rightarrow> Some (m(p \<mapsto> it\<lparr>iprev := q\<rparr>)))"

definition listnew :: "list_hdr" where
  "listnew = \<lparr>lhead = 0, ltail = 0\<rparr>"

definition listaddbefore ::
  "'a items \<Rightarrow> list_hdr \<Rightarrow> addr \<Rightarrow> addr \<Rightarrow> 'a \<Rightarrow> (addr \<times> 'a items \<times> list_hdr) option" where
  "listaddbefore m l item old_item d =
     (if item = 0 then Some (0, m, l)
      else do {
        old \<leftarrow> m old_item;
        let m = m(item \<mapsto> \<lparr>idata = d, iprev = iprev old, inext = old_item\<rparr>);
        (m, l) \<leftarrow> (if iprev old \<noteq> 0 then do { m \<leftarrow> set_next m (iprev old) item; Some (m, l) }
                   else Some (m, l\<lparr>lhead := item\<rparr>));
        m \<leftarrow> set_prev m old_item item;
        Some (item, m, l) })"

definition listaddafter ::
  "'a items \<Rightarrow> list_hdr \<Rightarrow> addr \<Rightarrow> addr \<Rightarrow> 'a \<Rightarrow> (addr \<times> 'a items \<times> list_hdr) option" where
  "listaddafter m l item old_item d =
     (if item = 0 then Some (0, m, l)
      else do {
        old \<leftarrow> m old_item;
        let m = m(item \<mapsto> \<lparr>idata = d, iprev = old_item, inext = inext old\<rparr>);
        (m, l) \<leftarrow> (if inext old \<noteq> 0 then do { m \<leftarrow> set_prev m (inext old) item; Some (m, l) }
                   else Some (m, l\<lparr>ltail := item\<rparr>));
        m \<leftarrow> set_next m old_item item;
        Some (item, m, l) })"

definition listaddhead :: "'a items \<Rightarrow> list_hdr \<Rightarrow> addr \<Rightarrow> 'a \<Rightarrow> (addr \<times> 'a items \<times> list_hdr) option" where
  "listaddhead m l item d =
     (if item = 0 then Some (0, m, l)
      else do {
        let m = m(item \<mapsto> \<lparr>idata = d, iprev = 0, inext = lhead l\<rparr>);
        m \<leftarrow> (if lhead l \<noteq> 0 then set_prev m (lhead l) item else Some m);
        let l = l\<lparr>lhead := item\<rparr>;
        let l = (if ltail l = 0 then l\<lparr>ltail := item\<rparr> else l);
        Some (item, m, l) })"

definition listaddtail :: "'a items \<Rightarrow> list_hdr \<Rightarrow> addr \<Rightarrow> 'a \<Rightarrow> (addr \<times> 'a items \<times> list_hdr) option" where
  "listaddtail m l item d =
     (if item = 0 then Some (0, m, l)
      else do {
        let m = m(item \<mapsto> \<lparr>idata = d, iprev = ltail l, inext = 0\<rparr>);
        m \<leftarrow> (if ltail l \<noteq> 0 then set_next m (ltail l) item else Some m);
        let l = l\<lparr>ltail := item\<rparr>;
        let l = (if lhead l = 0 then l\<lparr>lhead := item\<rparr> else l);
        Some (item, m, l) })"

text \<open>The data of the removed item, \<^const>\<open>None\<close> inside when the list is empty.\<close>

definition listdelhead :: "'a items \<Rightarrow> list_hdr \<Rightarrow> ('a option \<times> 'a items \<times> list_hdr) option" where
  "listdelhead m l =
     (let item = lhead l
      in if item = 0 then Some (None, m, l)
         else do {
           it \<leftarrow> m item;
           let l = l\<lparr>lhead := inext it\<rparr>;
           m \<leftarrow> (if lhead l \<noteq> 0 then set_prev m (lhead l) 0 else Some m);
           let m = m(item := None);
           let l = (if ltail l = item then l\<lparr>ltail := 0\<rparr> else l);
           Some (Some (idata it), m, l) })"

definition listdeltail :: "'a items \<Rightarrow> list_hdr \<Rightarrow> ('a option \<times> 'a items \<times> list_hdr) option" where
  "listdeltail m l =
     (let item = ltail l
      in if item = 0 then Some (None, m, l)
         else do {
           it \<leftarrow> m item;
           let l = l\<lparr>ltail := iprev it\<rparr>;
           m \<leftarrow> (if ltail l \<noteq> 0 then set_next m (ltail l) 0 else Some m);
           let m = m(item := None);
           let l = (if lhead l = item then l\<lparr>lhead := 0\<rparr> else l);
           Some (Some (idata it), m, l) })"

definition listdel :: "'a items \<Rightarrow> list_hdr \<Rightarrow> addr \<Rightarrow> ('a items \<times> list_hdr) option" where
  "listdel m l item = do {
     it \<leftarrow> m item;
     m \<leftarrow> (if iprev it \<noteq> 0 then set_next m (iprev it) (inext it) else Some m);
     m \<leftarrow> (if inext it \<noteq> 0 then set_prev m (inext it) (iprev it) else Some m);
     let l = (if item = lhead l then l\<lparr>lhead := inext it\<rparr> else l);
     let l = (if item = ltail l then l\<lparr>ltail := iprev it\<rparr> else l);
     Some (m(item := None), l) }"

text \<open>\<open>listiter\<close>; the callback gets the item and its data and returns whether to stop.\<close>

partial_function (option) iter_from ::
  "'a items \<Rightarrow> (addr \<Rightarrow> 'a \<Rightarrow> 's \<Rightarrow> bool \<times> 's) \<Rightarrow> addr \<Rightarrow> 's \<Rightarrow> 's option" where
  [code]: "iter_from m fn p s =
     (if p = 0 then Some s
      else Option.bind (m p) (\<lambda>it.
        let (stop, s') = fn p (idata it) s in if stop then Some s' else iter_from m fn (inext it) s'))"

definition listiter :: "'a items \<Rightarrow> list_hdr \<Rightarrow> (addr \<Rightarrow> 'a \<Rightarrow> 's \<Rightarrow> bool \<times> 's) \<Rightarrow> 's \<Rightarrow> 's option" where
  "listiter m l fn s = iter_from m fn (lhead l) s"

definition listemptyp :: "list_hdr \<Rightarrow> bool" where
  "listemptyp l \<longleftrightarrow> lhead l = 0"

section \<open>Lists in the store\<close>

text \<open>
  \<open>lseg m p xs z q\<close>: starting at address \<open>p\<close> the store holds the items \<open>xs\<close>, the first with
  previous pointer \<open>q\<close> and the last followed by \<open>z\<close>; \<open>lend\<close> is the address of the last item.
\<close>

fun lseg :: "'a items \<Rightarrow> addr \<Rightarrow> addr \<Rightarrow> (addr \<times> 'a) list \<Rightarrow> addr \<Rightarrow> bool" where
  "lseg m q p [] z \<longleftrightarrow> p = z"
| "lseg m q p ((a, d) # xs) z \<longleftrightarrow> p = a \<and> a \<noteq> 0 \<and>
     (\<exists>n. m a = Some \<lparr>idata = d, iprev = q, inext = n\<rparr> \<and> lseg m a n xs z)"

definition lend :: "addr \<Rightarrow> (addr \<times> 'a) list \<Rightarrow> addr" where
  "lend q xs = (if xs = [] then q else fst (last xs))"

definition dll :: "'a items \<Rightarrow> list_hdr \<Rightarrow> (addr \<times> 'a) list \<Rightarrow> bool" where
  "dll m l xs \<longleftrightarrow> distinct (map fst xs) \<and> lseg m 0 (lhead l) xs 0 \<and> ltail l = lend 0 xs"

lemma lend_simps [simp]: "lend q [] = q" "lend q (x # xs) = lend (fst x) xs" "lend q (xs @ [x]) = fst x"
  "lend q (xs @ ys) = lend (lend q xs) ys"
  by (auto simp: lend_def)

lemma lseg_append: "lseg m q p (xs @ ys) z \<longleftrightarrow> (\<exists>r. lseg m q p xs r \<and> lseg m (lend q xs) r ys z)"
proof (induction xs arbitrary: q p)
  case (Cons x xs)
  then show ?case by (cases x) (simp, blast)
qed simp

lemma lseg_frame: "lseg m q p xs z \<Longrightarrow> \<forall>a \<in> fst ` set xs. m' a = m a \<Longrightarrow> lseg m' q p xs z"
proof (induction xs arbitrary: q p)
  case (Cons x xs)
  obtain a d where x: "x = (a, d)" by (cases x)
  obtain n where n: "p = a" "a \<noteq> 0" "m a = Some \<lparr>idata = d, iprev = q, inext = n\<rparr>" "lseg m a n xs z"
    using Cons.prems(1) x by auto
  have "lseg m' a n xs z" by (rule Cons.IH [OF n(4)]) (use Cons.prems(2) in simp)
  then show ?case using n x Cons.prems(2) by simp
qed simp

lemma lseg_nonzero: "lseg m q p xs z \<Longrightarrow> 0 \<notin> fst ` set xs"
proof (induction xs arbitrary: q p)
  case (Cons x xs)
  obtain a d where x: "x = (a, d)" by (cases x)
  obtain n where "a \<noteq> 0" "lseg m a n xs z" using Cons.prems x by auto
  then show ?case using Cons.IH x by auto
qed simp

lemma lseg_head: "lseg m q p xs z \<Longrightarrow> p = (if xs = [] then z else fst (hd xs))"
  by (cases xs; cases "hd xs") auto

text \<open>Changing the pointers at the two ends of a segment.\<close>

lemma lseg_set_prev:
  assumes "lseg m q p ((a, d) # xs) z" "distinct (map fst ((a, d) # xs))"
  shows "\<exists>m'. set_prev m a q' = Some m' \<and> lseg m' q' p ((a, d) # xs) z \<and> (\<forall>b. b \<noteq> a \<longrightarrow> m' b = m b)"
proof -
  obtain n where n: "m a = Some \<lparr>idata = d, iprev = q, inext = n\<rparr>" "lseg m a n xs z" "p = a" "a \<noteq> 0" using assms(1) by auto
  let ?m = "m(a \<mapsto> \<lparr>idata = d, iprev = q', inext = n\<rparr>)"
  have "lseg ?m a n xs z" by (rule lseg_frame [OF n(2)]) (use assms(2) in auto)
  then show ?thesis using n by (intro exI [of _ ?m]) (auto simp: set_prev_def)
qed

lemma lseg_set_next:
  assumes "lseg m q p (xs @ [(a, d)]) z" "distinct (map fst (xs @ [(a, d)]))"
  shows "\<exists>m'. set_next m a z' = Some m' \<and> lseg m' q p (xs @ [(a, d)]) z' \<and> (\<forall>b. b \<noteq> a \<longrightarrow> m' b = m b)"
proof -
  have n: "m a = Some \<lparr>idata = d, iprev = lend q xs, inext = z\<rparr>" "lseg m q p xs a" "a \<noteq> 0" using assms(1) by (auto simp: lseg_append)
  let ?m = "m(a \<mapsto> \<lparr>idata = d, iprev = lend q xs, inext = z'\<rparr>)"
  have "lseg ?m q p xs a" by (rule lseg_frame [OF n(2)]) (use assms(2) in auto)
  then show ?thesis using n by (intro exI [of _ ?m]) (auto simp: set_next_def lseg_append)
qed

lemma dll_new: "dll m listnew []"
  by (simp add: dll_def listnew_def)

lemma dll_frame: "dll m l xs \<Longrightarrow> \<forall>a \<in> fst ` set xs. m' a = m a \<Longrightarrow> dll m' l xs"
  using lseg_frame [of m 0 "lhead l" xs 0 m'] by (simp add: dll_def)

lemma dll_empty:
  assumes "dll m l xs"
  shows "listemptyp l \<longleftrightarrow> xs = []"
proof -
  have l: "lseg m 0 (lhead l) xs 0" using assms by (simp add: dll_def)
  show ?thesis
  proof (cases xs)
    case Nil
    then show ?thesis using l by (simp add: listemptyp_def)
  next
    case (Cons x ys)
    then show ?thesis using l by (cases x) (simp add: listemptyp_def)
  qed
qed


section \<open>The operations\<close>

lemma lseg_dom: "lseg m q p xs z \<Longrightarrow> a \<in> fst ` set xs \<Longrightarrow> m a \<noteq> None"
proof (induction xs arbitrary: q p)
  case (Cons x xs)
  obtain b d where x: "x = (b, d)" by (cases x)
  obtain n where "m b = Some \<lparr>idata = d, iprev = q, inext = n\<rparr>" "lseg m b n xs z" using Cons.prems(1) x by auto
  then show ?case using Cons.IH Cons.prems(2) x by auto
qed simp

lemma dll_dom: "dll m l xs \<Longrightarrow> m a = None \<Longrightarrow> a \<notin> fst ` set xs"
  using lseg_dom unfolding dll_def by metis

lemma lend_zero: "lseg m q p xs z \<Longrightarrow> lend 0 xs = 0 \<longleftrightarrow> xs = []"
  using lseg_nonzero [of m q p xs z] last_in_set [of xs] by (auto simp: lend_def)

lemma fresh_seg: "lseg m q p xs z \<Longrightarrow> a \<notin> fst ` set xs \<Longrightarrow> lseg (m(a := v)) q p xs z"
  by (rule lseg_frame) auto

lemma addhead_ok:
  assumes dl: "dll m l xs" and a: "a \<noteq> 0" "m a = None"
  shows "\<exists>m' l'. listaddhead m l a d = Some (a, m', l') \<and> dll m' l' ((a, d) # xs) \<and>
    (\<forall>b. b \<noteq> a \<and> b \<notin> fst ` set xs \<longrightarrow> m' b = m b)"
proof -
  have l: "distinct (map fst xs)" "lseg m 0 (lhead l) xs 0" "ltail l = lend 0 xs" using dl by (auto simp: dll_def)
  note na = dll_dom [OF dl a(2)]
  note tz = lend_zero [OF l(2)]
  let ?m = "m(a \<mapsto> \<lparr>idata = d, iprev = 0, inext = lhead l\<rparr>)"
  have s: "lseg ?m 0 (lhead l) xs 0" by (rule fresh_seg [OF l(2) na])
  show ?thesis
  proof (cases xs)
    case Nil
    then show ?thesis using l a by (simp add: listaddhead_def dll_def)
  next
    case (Cons x ys)
    obtain b e where x: "x = (b, e)" by (cases x)
    have b: "lhead l = b" "b \<noteq> 0" "b \<noteq> a" using l(2) Cons x na by auto
    obtain m' where m': "set_prev ?m b a = Some m'" "lseg m' a (lhead l) xs 0" "\<forall>c. c \<noteq> b \<longrightarrow> m' c = ?m c"
      using lseg_set_prev [OF s [unfolded Cons x], of a] l(1) Cons x by auto
    have "m' a = Some \<lparr>idata = d, iprev = 0, inext = lhead l\<rparr>" using m'(3) b(3) by simp
    then have "dll m' (l\<lparr>lhead := a\<rparr>) ((a, d) # xs)" using m'(2) l(1,3) na a(1) Cons by (simp add: dll_def)
    then show ?thesis using m' b l(3) tz Cons x a(1) by (auto simp: listaddhead_def)
  qed
qed

lemma addtail_ok:
  assumes dl: "dll m l xs" and a: "a \<noteq> 0" "m a = None"
  shows "\<exists>m' l'. listaddtail m l a d = Some (a, m', l') \<and> dll m' l' (xs @ [(a, d)]) \<and>
    (\<forall>b. b \<noteq> a \<and> b \<notin> fst ` set xs \<longrightarrow> m' b = m b)"
proof -
  have l: "distinct (map fst xs)" "lseg m 0 (lhead l) xs 0" "ltail l = lend 0 xs" using dl by (auto simp: dll_def)
  note na = dll_dom [OF dl a(2)]
  note tz = lend_zero [OF l(2)]
  let ?m = "m(a \<mapsto> \<lparr>idata = d, iprev = ltail l, inext = 0\<rparr>)"
  have s: "lseg ?m 0 (lhead l) xs 0" by (rule fresh_seg [OF l(2) na])
  show ?thesis
  proof (cases xs rule: rev_cases)
    case Nil
    then show ?thesis using l a by (simp add: listaddtail_def dll_def)
  next
    case (snoc ys x)
    obtain b e where x: "x = (b, e)" by (cases x)
    have b: "ltail l = b" "b \<noteq> 0" "b \<noteq> a" using l(3) tz snoc x na by auto
    have hd: "lhead l \<noteq> 0" using dll_empty [OF dl] snoc by (simp add: listemptyp_def)
    obtain m' where m': "set_next ?m b a = Some m'" "lseg m' 0 (lhead l) xs a" "\<forall>c. c \<noteq> b \<longrightarrow> m' c = ?m c"
      using lseg_set_next [OF s [unfolded snoc x], of a] l(1) snoc x by auto
    have "m' a = Some \<lparr>idata = d, iprev = b, inext = 0\<rparr>" using m'(3) b(1,3) by simp
    then have "lseg m' 0 (lhead l) (xs @ [(a, d)]) 0" using m'(2) a(1) snoc x unfolding lseg_append by auto
    then have "dll m' (l\<lparr>ltail := a\<rparr>) (xs @ [(a, d)])" using l(1) na by (simp add: dll_def)
    then show ?thesis using m' b hd snoc x a(1) by (auto simp: listaddtail_def)
  qed
qed

text \<open>Redirecting the next pointer of the last item, and the previous pointer of the first.\<close>

lemma set_next_last:
  assumes "lseg m 0 p ys r" "distinct (map fst ys)"
  shows "\<exists>m'. (if lend 0 ys \<noteq> 0 then set_next m (lend 0 ys) n else Some m) = Some m' \<and>
    (ys \<noteq> [] \<longrightarrow> lseg m' 0 p ys n) \<and> (\<forall>b. b \<notin> fst ` set ys \<longrightarrow> m' b = m b)"
proof (cases ys rule: rev_cases)
  case (snoc us x)
  obtain b e where x: "x = (b, e)" by (cases x)
  have "distinct (map fst (us @ [(b, e)]))" using assms(2) snoc x by auto
  then show ?thesis using lseg_set_next [OF assms(1) [unfolded snoc x], of n] lend_zero [OF assms(1)] snoc x by auto
qed simp

lemma set_prev_first:
  assumes "lseg m q n zs 0" "distinct (map fst zs)"
  shows "\<exists>m'. (if n \<noteq> 0 then set_prev m n p else Some m) = Some m' \<and> lseg m' p n zs 0 \<and>
    (\<forall>b. b \<notin> fst ` set zs \<longrightarrow> m' b = m b)"
proof (cases zs)
  case Nil
  then show ?thesis using assms(1) by simp
next
  case (Cons x us)
  obtain b e where x: "x = (b, e)" by (cases x)
  have nb: "n = b" "b \<noteq> 0" using assms(1) Cons x by auto
  have "distinct (map fst ((b, e) # us))" using assms(2) Cons x by auto
  then show ?thesis using lseg_set_prev [OF assms(1) [unfolded Cons x], of p] nb Cons x by auto
qed

lemma dll_split:
  assumes "dll m l (ys @ (a, d) # zs)"
  shows "\<exists>n. lseg m 0 (lhead l) ys a \<and> m a = Some \<lparr>idata = d, iprev = lend 0 ys, inext = n\<rparr> \<and> lseg m a n zs 0 \<and> a \<noteq> 0"
    and "distinct (map fst ys)" "distinct (map fst zs)" "a \<notin> fst ` set ys" "a \<notin> fst ` set zs"
    and "fst ` set ys \<inter> fst ` set zs = {}" "ltail l = lend a zs"
  using assms by (auto simp: dll_def lseg_append)

lemma item_del_ok:
  assumes dl: "dll m l (ys @ (a, d) # zs)"
  shows "\<exists>m' l'. listdel m l a = Some (m', l') \<and> dll m' l' (ys @ zs) \<and>
    m' a = None \<and> (\<forall>b. b \<notin> fst ` set (ys @ (a, d) # zs) \<longrightarrow> m' b = m b)"
proof -
  note l = dll_split(2-) [OF dl]
  let ?p = "lend 0 ys"
  obtain n where n: "lseg m 0 (lhead l) ys a" "m a = Some \<lparr>idata = d, iprev = ?p, inext = n\<rparr>" "lseg m a n zs 0" "a \<noteq> 0"
    using dll_split(1) [OF dl] by blast
  obtain m1 where m1: "(if ?p \<noteq> 0 then set_next m ?p n else Some m) = Some m1" "ys \<noteq> [] \<longrightarrow> lseg m1 0 (lhead l) ys n"
    "\<forall>b. b \<notin> fst ` set ys \<longrightarrow> m1 b = m b" using set_next_last [OF n(1) l(1)] by blast
  have sz: "lseg m1 a n zs 0" by (rule lseg_frame [OF n(3)]) (use m1(3) l(5) in blast)
  obtain m2 where m2: "(if n \<noteq> 0 then set_prev m1 n ?p else Some m1) = Some m2" "lseg m2 ?p n zs 0" 
    "\<forall>b. b \<notin> fst ` set zs \<longrightarrow> m2 b = m1 b" using set_prev_first [OF sz l(2)] by blast
  let ?m = "m2(a := None)"
  let ?l = "if a = lhead l then l\<lparr>lhead := n\<rparr> else l"
  let ?l' = "if a = ltail ?l then ?l\<lparr>ltail := ?p\<rparr> else ?l"
  have del: "listdel m l a = Some (?m, ?l')" 
    by (simp only: listdel_def n(2) Option.bind.simps listitem.select_convs m1(1) m2(1) Let_def)
  have sz2: "lseg ?m ?p n zs 0" by (rule fresh_seg [OF m2(2) l(4)])
  have sy: "lseg ?m 0 (lhead l) ys n" if "ys \<noteq> []"
  proof -
    have "lseg m2 0 (lhead l) ys n" by (rule lseg_frame [of m1]) (use m1(2) m2(3) l(5) that in blast)+
    then show ?thesis by (rule fresh_seg) (rule l(3))
  qed
  have "ys \<noteq> [] \<Longrightarrow> lhead l \<noteq> a" using lseg_head [OF n(1)] l(3) hd_in_set [of ys] by (auto simp: image_iff)
  then have hd: "lhead ?l' = (if ys = [] then n else lhead l)" using n(1) by (cases "ys = []") auto
  have "lend a zs = a \<longleftrightarrow> zs = []" using l(4) last_in_set [of zs] by (auto simp: lend_def image_iff)
  then have tl: "ltail ?l' = lend 0 (ys @ zs)" using l(6) by (auto simp: lend_def)
  have "lseg ?m 0 (lhead ?l') (ys @ zs) 0"
    unfolding hd lseg_append using sy sz2 by (cases "ys = []") auto
  then have "dll ?m ?l' (ys @ zs)" using tl l by (simp add: dll_def)
  moreover have "?m b = m b" if "b \<notin> fst ` set (ys @ (a, d) # zs)" for b
    using that m1(3) m2(3) by (auto simp: image_iff)
  ultimately show ?thesis using del by (intro exI [of _ ?m] exI [of _ ?l']) simp
qed

lemma delhead_empty: "dll m l [] \<Longrightarrow> listdelhead m l = Some (None, m, l)"
  and deltail_empty: "dll m l [] \<Longrightarrow> listdeltail m l = Some (None, m, l)"
  by (simp_all add: dll_def listdelhead_def listdeltail_def)

text \<open>Removing an end of the list is removing the item there.\<close>

lemma delhead_is_del:
  assumes dl: "dll m l ((a, d) # zs)" and del: "listdel m l a = Some (m', l')"
  shows "listdelhead m l = Some (Some d, m', l')"
proof -
  obtain n where n: "lhead l = a" "m a = Some \<lparr>idata = d, iprev = 0, inext = n\<rparr>" "a \<noteq> 0" "lseg m a n zs 0"
    using dl by (auto simp: dll_def)
  show ?thesis using del n by (cases "n = 0") (auto simp: listdel_def listdelhead_def Let_def bind_eq_Some_conv)
qed

lemma deltail_is_del:
  assumes dl: "dll m l (ys @ [(a, d)])" and del: "listdel m l a = Some (m', l')"
  shows "listdeltail m l = Some (Some d, m', l')"
proof -
  obtain n where n: "ltail l = a" "m a = Some \<lparr>idata = d, iprev = lend 0 ys, inext = 0\<rparr>" "a \<noteq> 0"
    using dl by (auto simp: dll_def lseg_append)
  have "a = lhead l \<Longrightarrow> ys = []"
    using dll_split(1,4) [OF dl] lseg_head [of m 0 "lhead l" ys a] hd_in_set [of ys] by (cases "ys = []") auto
  then show ?thesis using del n lend_zero [of m 0 "lhead l" ys a] dll_split(1) [OF dl]
    by (cases "lend 0 ys = 0") (auto simp: listdel_def listdeltail_def Let_def bind_eq_Some_conv)
qed

lemma addbefore_ok:
  assumes dl: "dll m l (ys @ (b, e) # zs)" and a: "a \<noteq> 0" "m a = None"
  shows "\<exists>m' l'. listaddbefore m l a b d = Some (a, m', l') \<and> dll m' l' (ys @ (a, d) # (b, e) # zs) \<and>
    (\<forall>c. c \<noteq> a \<and> c \<notin> fst ` set (ys @ (b, e) # zs) \<longrightarrow> m' c = m c)"
proof -
  note l = dll_split(2-) [OF dl]
  note na = dll_dom [OF dl a(2)]
  let ?p = "lend 0 ys"
  obtain n where n: "lseg m 0 (lhead l) ys b" "m b = Some \<lparr>idata = e, iprev = ?p, inext = n\<rparr>" "lseg m b n zs 0" "b \<noteq> 0"
    using dll_split(1) [OF dl] by blast
  let ?m = "m(a \<mapsto> \<lparr>idata = d, iprev = ?p, inext = b\<rparr>)"
  have s: "lseg ?m 0 (lhead l) ys b" by (rule fresh_seg [OF n(1)]) (use na in auto)
  obtain m1 where m1: "(if ?p \<noteq> 0 then set_next ?m ?p a else Some ?m) = Some m1" "ys \<noteq> [] \<longrightarrow> lseg m1 0 (lhead l) ys a"
    "\<forall>c. c \<notin> fst ` set ys \<longrightarrow> m1 c = ?m c" using set_next_last [OF s l(1)] by blast
  have "lseg ?m ?p b ((b, e) # zs) 0" by (rule fresh_seg) (use n na in auto)
  then have "lseg m1 ?p b ((b, e) # zs) 0" 
  proof (rule lseg_frame, intro ballI)
    fix c assume "c \<in> fst ` set ((b, e) # zs)"
    then have "c \<notin> fst ` set ys" using l(3,5) by auto
    then show "m1 c = ?m c" using m1(3) by blast
  qed
  from lseg_set_prev [OF this, of a] obtain m2 where m2: "set_prev m1 b a = Some m2" "lseg m2 a b ((b, e) # zs) 0"
    "\<forall>c. c \<noteq> b \<longrightarrow> m2 c = m1 c" using l by auto
  let ?l = "if ?p \<noteq> 0 then l else l\<lparr>lhead := a\<rparr>"
  have p0: "?p = 0 \<longleftrightarrow> ys = []" by (rule lend_zero [OF n(1)])
  have op: "listaddbefore m l a b d = Some (a, m2, ?l)"
    using a(1) n(2) m1(1) m2(1) by (cases "?p = 0") (auto simp: listaddbefore_def)
  have "m2 a = Some \<lparr>idata = d, iprev = ?p, inext = b\<rparr>" using m2(3) m1(3) na by auto
  then have "lseg m2 ?p a ((a, d) # (b, e) # zs) 0" using m2(2) a(1) by simp
  moreover have "ys \<noteq> [] \<longrightarrow> lseg m2 0 (lhead l) ys a"
  proof
    assume "ys \<noteq> []"
    with m1(2) have "lseg m1 0 (lhead l) ys a" by simp
    then show "lseg m2 0 (lhead l) ys a" by (rule lseg_frame) (use m2(3) l(3) in \<open>auto simp: image_iff\<close>)
  qed
  ultimately have "lseg m2 0 (lhead ?l) (ys @ (a, d) # (b, e) # zs) 0"
    unfolding lseg_append using p0 by (cases "ys = []") auto
  then have "dll m2 ?l (ys @ (a, d) # (b, e) # zs)" using l na by (auto simp: dll_def)
  moreover have "m2 c = m c" if "c \<noteq> a \<and> c \<notin> fst ` set (ys @ (b, e) # zs)" for c
    using that m2(3) m1(3) by (auto simp: image_iff)
  ultimately show ?thesis using op by (intro exI [of _ m2] exI [of _ ?l]) simp
qed

lemma addafter_ok:
  assumes dl: "dll m l (ys @ (b, e) # zs)" and a: "a \<noteq> 0" "m a = None"
  shows "\<exists>m' l'. listaddafter m l a b d = Some (a, m', l') \<and> dll m' l' (ys @ (b, e) # (a, d) # zs) \<and>
    (\<forall>c. c \<noteq> a \<and> c \<notin> fst ` set (ys @ (b, e) # zs) \<longrightarrow> m' c = m c)"
proof -
  note l = dll_split(2-) [OF dl]
  note na = dll_dom [OF dl a(2)]
  obtain n where n: "lseg m 0 (lhead l) ys b" "m b = Some \<lparr>idata = e, iprev = lend 0 ys, inext = n\<rparr>" "lseg m b n zs 0" "b \<noteq> 0"
    using dll_split(1) [OF dl] by blast
  let ?m = "m(a \<mapsto> \<lparr>idata = d, iprev = b, inext = n\<rparr>)"
  have "lseg ?m b n zs 0" by (rule fresh_seg [OF n(3)]) (use na in auto)
  from set_prev_first [OF this l(2), of a] obtain m1 where m1: "(if n \<noteq> 0 then set_prev ?m n a else Some ?m) = Some m1"
    "lseg m1 a n zs 0" "\<forall>c. c \<notin> fst ` set zs \<longrightarrow> m1 c = ?m c" by blast
  have "lseg m 0 (lhead l) (ys @ [(b, e)]) n" using n by (auto simp: lseg_append)
  then have "lseg ?m 0 (lhead l) (ys @ [(b, e)]) n" by (rule fresh_seg) (use na in auto)
  then have "lseg m1 0 (lhead l) (ys @ [(b, e)]) n" 
  proof (rule lseg_frame, intro ballI)
    fix c assume "c \<in> fst ` set (ys @ [(b, e)])"
    then have "c \<notin> fst ` set zs" using l(4,5) by auto
    then show "m1 c = ?m c" using m1(3) by blast
  qed
  from lseg_set_next [OF this, of a] obtain m2 where m2: "set_next m1 b a = Some m2" 
    "lseg m2 0 (lhead l) (ys @ [(b, e)]) a" "\<forall>c. c \<noteq> b \<longrightarrow> m2 c = m1 c" using l by auto
  let ?l = "if n \<noteq> 0 then l else l\<lparr>ltail := a\<rparr>"
  have n0: "n = 0 \<longleftrightarrow> zs = []" using lseg_head [OF n(3)] lseg_nonzero [OF n(3)] by (cases zs) auto
  have op: "listaddafter m l a b d = Some (a, m2, ?l)"
    using a(1) n(2) m1(1) m2(1) by (cases "n = 0") (auto simp: listaddafter_def)
  have "m2 a = Some \<lparr>idata = d, iprev = b, inext = n\<rparr>" using m2(3) m1(3) na by auto
  moreover have "lseg m2 a n zs 0" by (rule lseg_frame [OF m1(2)]) (use m2(3) l(4) in auto)
  ultimately have "lseg m2 0 (lhead ?l) ((ys @ [(b, e)]) @ (a, d) # zs) 0"
    using m2(2) a(1) unfolding lseg_append [of _ _ _ "ys @ [(b, e)]"] by auto
  then have "dll m2 ?l (ys @ (b, e) # (a, d) # zs)" using l na n0 by (auto simp: dll_def lend_def)
  moreover have "m2 c = m c" if "c \<noteq> a \<and> c \<notin> fst ` set (ys @ (b, e) # zs)" for c
    using that m2(3) m1(3) by (auto simp: image_iff)
  ultimately show ?thesis using op by (intro exI [of _ m2] exI [of _ ?l]) simp
qed

text \<open>\<open>listiter\<close> is a fold over the items that the callback may stop.\<close>

fun iter_spec :: "(addr \<Rightarrow> 'a \<Rightarrow> 's \<Rightarrow> bool \<times> 's) \<Rightarrow> (addr \<times> 'a) list \<Rightarrow> 's \<Rightarrow> 's" where
  "iter_spec fn [] s = s"
| "iter_spec fn ((a, d) # xs) s = (let (stop, s') = fn a d s in if stop then s' else iter_spec fn xs s')"

lemma iter_from_seg: "lseg m q p xs 0 \<Longrightarrow> iter_from m fn p s = Some (iter_spec fn xs s)"
proof (induction xs arbitrary: q p s)
  case (Cons x xs)
  obtain a d where x: "x = (a, d)" by (cases x)
  obtain n where "p = a" "a \<noteq> 0" "m a = Some \<lparr>idata = d, iprev = q, inext = n\<rparr>" "lseg m a n xs 0"
    using Cons.prems x by auto
  then show ?case using Cons.IH x by (subst iter_from.simps) (auto split: prod.split)
qed (simp add: iter_from.simps)

lemma listiter_ok: "dll m l xs \<Longrightarrow> listiter m l fn s = Some (iter_spec fn xs s)"
  unfolding listiter_def dll_def by (auto intro: iter_from_seg)


section \<open>Histories\<close>

text \<open>
  A store that holds one list and nothing else, driven by a sequence of operations. The address
  in an adding operation is what \<open>malloc\<close> returns there: 0, or an address that is not in use.
\<close>

datatype 'a list_op =
    AddHead addr 'a | AddTail addr 'a | AddBefore addr addr 'a | AddAfter addr addr 'a
  | DelHead | DelTail | Del addr

datatype 'a list_res = Item addr | Data "'a option" | Void

fun list_exec :: "'a list_op \<Rightarrow> 'a items \<times> list_hdr \<Rightarrow> ('a list_res \<times> 'a items \<times> list_hdr) option" where
  "list_exec (AddHead a d) (m, l) = do { (r, s) \<leftarrow> listaddhead m l a d; Some (Item r, s) }"
| "list_exec (AddTail a d) (m, l) = do { (r, s) \<leftarrow> listaddtail m l a d; Some (Item r, s) }"
| "list_exec (AddBefore a b d) (m, l) = do { (r, s) \<leftarrow> listaddbefore m l a b d; Some (Item r, s) }"
| "list_exec (AddAfter a b d) (m, l) = do { (r, s) \<leftarrow> listaddafter m l a b d; Some (Item r, s) }"
| "list_exec DelHead (m, l) = do { (r, s) \<leftarrow> listdelhead m l; Some (Data r, s) }"
| "list_exec DelTail (m, l) = do { (r, s) \<leftarrow> listdeltail m l; Some (Data r, s) }"
| "list_exec (Del a) (m, l) = do { s \<leftarrow> listdel m l a; Some (Void, s) }"

text \<open>The same on a sequence of items; \<^const>\<open>None\<close> when the caller breaks the rules.\<close>

definition seq_add ::
  "addr \<Rightarrow> bool \<Rightarrow> (addr \<times> 'a) list \<Rightarrow> (addr \<times> 'a) list \<Rightarrow> ('a list_res \<times> (addr \<times> 'a) list) option" where
  "seq_add a ok xs ys = (if a \<in> fst ` set xs \<or> \<not> ok then None else Some (Item a, if a = 0 then xs else ys))"

fun seq_op :: "'a list_op \<Rightarrow> (addr \<times> 'a) list \<Rightarrow> ('a list_res \<times> (addr \<times> 'a) list) option" where
  "seq_op (AddHead a d) xs = seq_add a True xs ((a, d) # xs)"
| "seq_op (AddTail a d) xs = seq_add a True xs (xs @ [(a, d)])"
| "seq_op (AddBefore a b d) xs = seq_add a (b \<in> fst ` set xs) xs
     (takeWhile (\<lambda>x. fst x \<noteq> b) xs @ (a, d) # dropWhile (\<lambda>x. fst x \<noteq> b) xs)"
| "seq_op (AddAfter a b d) xs = seq_add a (b \<in> fst ` set xs) xs
     (takeWhile (\<lambda>x. fst x \<noteq> b) xs @ hd (dropWhile (\<lambda>x. fst x \<noteq> b) xs) # (a, d) # tl (dropWhile (\<lambda>x. fst x \<noteq> b) xs))"
| "seq_op DelHead xs = Some (if xs = [] then (Data None, []) else (Data (Some (snd (hd xs))), tl xs))"
| "seq_op DelTail xs = Some (if xs = [] then (Data None, []) else (Data (Some (snd (last xs))), butlast xs))"
| "seq_op (Del a) xs = (if a \<in> fst ` set xs then Some (Void, filter (\<lambda>x. fst x \<noteq> a) xs) else None)"

definition list_rep :: "'a items \<times> list_hdr \<Rightarrow> (addr \<times> 'a) list \<Rightarrow> bool" where
  "list_rep s xs \<longleftrightarrow> dll (fst s) (snd s) xs \<and> (\<forall>a. a \<notin> fst ` set xs \<longrightarrow> fst s a = None)"

lemma split_at:
  assumes "b \<in> fst ` set xs"
  shows "\<exists>ys e zs. xs = ys @ (b, e) # zs \<and> takeWhile (\<lambda>x. fst x \<noteq> b) xs = ys \<and> dropWhile (\<lambda>x. fst x \<noteq> b) xs = (b, e) # zs"
  using assms
proof (induction xs)
  case (Cons x xs)
  show ?case
  proof (cases "fst x = b")
    case True
    then show ?thesis by (cases x) auto
  next
    case False
    then have "b \<in> fst ` set xs" using Cons.prems by auto
    from Cons.IH [OF this] obtain ys e zs where
      "xs = ys @ (b, e) # zs" "takeWhile (\<lambda>x. fst x \<noteq> b) xs = ys" "dropWhile (\<lambda>x. fst x \<noteq> b) xs = (b, e) # zs" by blast
    then show ?thesis using False by (intro exI [of _ "x # ys"] exI [of _ e] exI [of _ zs]) auto
  qed
qed simp

lemma exec_add:
  assumes "list_rep (m, l) xs" and "seq_add a ok xs ys = Some (r, xs')"
    and zero: "f m l 0 = Some (0, m, l)"
    and ok: "ok \<Longrightarrow> a \<noteq> 0 \<Longrightarrow> m a = None \<Longrightarrow> \<exists>m' l'. f m l a = Some (a, m', l') \<and> dll m' l' ys \<and>
      (\<forall>b. b \<noteq> a \<and> b \<notin> fst ` set xs \<longrightarrow> m' b = m b)"
    and sub: "ok \<Longrightarrow> fst ` set ys = insert a (fst ` set xs)"
  shows "\<exists>s. do { (r, s) \<leftarrow> f m l a; Some (Item r, s) } = Some (r, s) \<and> list_rep s xs'"
proof (cases "a = 0")
  case True
  then show ?thesis using assms(1,2) zero by (auto simp: seq_add_def split: if_splits)
next
  case False
  have a: "a \<notin> fst ` set xs" ok "r = Item a" "xs' = ys" using assms(2) False by (auto simp: seq_add_def split: if_splits)
  then obtain m' l' where "f m l a = Some (a, m', l')" "dll m' l' ys" "\<forall>b. b \<noteq> a \<and> b \<notin> fst ` set xs \<longrightarrow> m' b = m b"
    using ok False assms(1) by (auto simp: list_rep_def)
  then show ?thesis using a sub assms(1) by (auto simp: list_rep_def)
qed

lemma exec_del:
  assumes "list_rep (m, l) (ys @ (a, d) # zs)"
  shows "\<exists>m' l'. listdel m l a = Some (m', l') \<and> list_rep (m', l') (ys @ zs)"
proof -
  have dl: "dll m l (ys @ (a, d) # zs)" and n: "\<forall>b. b \<notin> fst ` set (ys @ (a, d) # zs) \<longrightarrow> m b = None"
    using assms by (auto simp: list_rep_def)
  obtain m' l' where m: "listdel m l a = Some (m', l')" "dll m' l' (ys @ zs)" "m' a = None"
    "\<forall>b. b \<notin> fst ` set (ys @ (a, d) # zs) \<longrightarrow> m' b = m b" using item_del_ok [OF dl] by blast
  have "m' b = None" if "b \<notin> fst ` set (ys @ zs)" for b
    using that m(3,4) n by (cases "b = a") auto
  then show ?thesis using m(1,2) by (auto simp: list_rep_def)
qed

lemma list_step:
  assumes rep: "list_rep (m, l) xs" and sp: "seq_op p xs = Some (r, xs')"
  shows "\<exists>s. list_exec p (m, l) = Some (r, s) \<and> list_rep s xs'"
proof -
  have dl: "dll m l xs" using rep by (simp add: list_rep_def)
  show ?thesis
  proof (cases p)
    case (AddHead a d)
    then show ?thesis using exec_add [OF rep, of a True _ r xs' "\<lambda>m l a. listaddhead m l a d"] sp addhead_ok [OF dl]
      by (simp add: listaddhead_def [of _ _ 0])
  next
    case (AddTail a d)
    then show ?thesis using exec_add [OF rep, of a True _ r xs' "\<lambda>m l a. listaddtail m l a d"] sp addtail_ok [OF dl]
      by (simp add: listaddtail_def [of _ _ 0])
  next
    case (AddBefore a b d)
    then have b: "b \<in> fst ` set xs" using sp by (auto simp: seq_add_def split: if_splits)
    obtain ys e zs where x: "xs = ys @ (b, e) # zs" "takeWhile (\<lambda>x. fst x \<noteq> b) xs = ys" "dropWhile (\<lambda>x. fst x \<noteq> b) xs = (b, e) # zs"
      using split_at [OF b] by blast
    have e: "seq_add a True xs (ys @ (a, d) # (b, e) # zs) = Some (r, xs')" using sp AddBefore b x(2,3) by simp
    have ok: "\<exists>m' l'. listaddbefore m l a b d = Some (a, m', l') \<and> dll m' l' (ys @ (a, d) # (b, e) # zs) \<and>
      (\<forall>c. c \<noteq> a \<and> c \<notin> fst ` set xs \<longrightarrow> m' c = m c)" if "a \<noteq> 0" "m a = None"
      using addbefore_ok [OF dl [unfolded x(1)] that, of d] unfolding x(1) .
    show ?thesis using exec_add [OF rep e, of "\<lambda>m l a. listaddbefore m l a b d"] ok x(1) AddBefore
      by (auto simp: listaddbefore_def [of _ _ 0])
  next
    case (AddAfter a b d)
    then have b: "b \<in> fst ` set xs" using sp by (auto simp: seq_add_def split: if_splits)
    obtain ys e zs where x: "xs = ys @ (b, e) # zs" "takeWhile (\<lambda>x. fst x \<noteq> b) xs = ys" "dropWhile (\<lambda>x. fst x \<noteq> b) xs = (b, e) # zs"
      using split_at [OF b] by blast
    have e: "seq_add a True xs (ys @ (b, e) # (a, d) # zs) = Some (r, xs')" using sp AddAfter b x(2,3) by simp
    have ok: "\<exists>m' l'. listaddafter m l a b d = Some (a, m', l') \<and> dll m' l' (ys @ (b, e) # (a, d) # zs) \<and>
      (\<forall>c. c \<noteq> a \<and> c \<notin> fst ` set xs \<longrightarrow> m' c = m c)" if "a \<noteq> 0" "m a = None"
      using addafter_ok [OF dl [unfolded x(1)] that, of d] unfolding x(1) .
    show ?thesis using exec_add [OF rep e, of "\<lambda>m l a. listaddafter m l a b d"] ok x(1) AddAfter
      by (auto simp: listaddafter_def [of _ _ 0])
  next
    case DelHead
    show ?thesis
    proof (cases xs)
      case Nil
      then show ?thesis using DelHead sp rep dl by (auto simp: delhead_empty)
    next
      case (Cons x zs)
      then obtain a d where x: "xs = [] @ (a, d) # zs" by (cases x) simp
      obtain m' l' where "listdel m l a = Some (m', l')" "list_rep (m', l') ([] @ zs)" using exec_del [OF rep [unfolded x]] by blast
      then show ?thesis using delhead_is_del [of m l a d zs m' l'] dl x DelHead sp by simp
    qed
  next
    case DelTail
    show ?thesis
    proof (cases xs rule: rev_cases)
      case Nil
      then show ?thesis using DelTail sp rep dl by (auto simp: deltail_empty)
    next
      case (snoc ys x)
      then obtain a d where x: "xs = ys @ [(a, d)]" by (cases x) simp
      obtain m' l' where "listdel m l a = Some (m', l')" "list_rep (m', l') (ys @ [])" using exec_del [OF rep [unfolded x]] by blast
      then show ?thesis using deltail_is_del [of m l ys a d m' l'] dl x DelTail sp by simp
    qed
  next
    case (Del a)
    then have a: "a \<in> fst ` set xs" "r = Void" "xs' = filter (\<lambda>x. fst x \<noteq> a) xs" using sp by (auto split: if_splits)
    obtain ys d zs where x: "xs = ys @ (a, d) # zs" using split_at [OF a(1)] by blast
    have "filter (\<lambda>x. fst x \<noteq> a) ys = ys" "filter (\<lambda>x. fst x \<noteq> a) zs = zs"
      using dll_split(4,5) [OF dl [unfolded x]] by (auto intro!: filter_True)
    then have xs': "xs' = ys @ zs" using a(3) x by simp
    obtain m' l' where "listdel m l a = Some (m', l')" "list_rep (m', l') (ys @ zs)" using exec_del [OF rep [unfolded x]] by blast
    then show ?thesis using Del a(2) xs' by simp
  qed
qed


interpretation lists: simulation list_rep list_exec seq_op
proof unfold_locales
  fix c a p r a'
  assume "list_rep c a" "seq_op p a = Some (r, a')"
  then show "\<exists>c'. list_exec p c = Some (r, c') \<and> list_rep c' a'" 
    using list_step [of "fst c" "snd c" a p r a'] by simp
qed

text \<open>
  C9: starting from a new list, every sequence of the list operations that respects the rules of
  the interface (an added item is at an unused address, the item named in an operation is in the
  list) runs without touching memory outside the list's items, returns what the same operations
  return on a plain sequence, and leaves a list whose items, read forwards by \<open>listiter\<close>, are that
  sequence; \<open>listemptyp\<close> tells whether it is empty.
\<close>

theorem list_history_refines:
  assumes "run_ops seq_op ops [] = Some (rs, xs)"
  shows "\<exists>m l. run_ops list_exec ops (Map.empty, listnew) = Some (rs, (m, l)) \<and> dll m l xs \<and>
    listiter m l (\<lambda>a d acc. (False, acc @ [(a, d)])) [] = Some xs \<and> (listemptyp l \<longleftrightarrow> xs = [])"
proof -
  have i: "list_rep (Map.empty, listnew) []" by (simp add: list_rep_def dll_new)
  obtain m l where "run_ops list_exec ops (Map.empty, listnew) = Some (rs, (m, l))" "list_rep (m, l) xs"
    using lists.run_refines [OF i assms] by (metis surj_pair)
  moreover have "iter_spec (\<lambda>a d acc. (False, acc @ [(a, d)])) xs ys = ys @ xs" for ys
    by (induction xs arbitrary: ys) auto
  ultimately show ?thesis
    using listiter_ok [of m l xs "\<lambda>a d acc. (False, acc @ [(a, d)])" "[]"] dll_empty [of m l xs] by (auto simp: list_rep_def)
qed

theorem list_history_refines_witness:
  "\<exists>m l. run_ops list_exec [AddTail 8 (1::nat), AddHead 16 2, AddAfter 24 16 3, AddBefore 32 8 4, AddTail 0 9, Del 16, DelTail]
      (Map.empty, listnew) = Some ([Item 8, Item 16, Item 24, Item 32, Item 0, Void, Data (Some 1)], (m, l)) \<and>
    dll m l [(24, 3), (32, 4)] \<and>
    listiter m l (\<lambda>a d acc. (False, acc @ [(a, d)])) [] = Some [(24, 3), (32, 4)] \<and> (listemptyp l \<longleftrightarrow> False)"
  using list_history_refines [of "[AddTail 8 (1::nat), AddHead 16 2, AddAfter 24 16 3, AddBefore 32 8 4, AddTail 0 9, Del 16, DelTail]"
    "[Item 8, Item 16, Item 24, Item 32, Item 0, Void, Data (Some 1)]" "[(24, 3), (32, 4)]"]
  by (simp add: seq_add_def)

end
