(* ===== verification/Util_Hash.thy ===== *)
theory Util_Hash
  imports Milko_Prelude
begin

text \<open>
  Hash tables: \<open>lib/util/hash.c\<close>, and the prime numbers of \<open>lib/util/arlamath.c\<close> that a growing
  table takes as its sizes.

  A table is an array of buckets; a bucket has a chain of elements and a length field of its own. A
  chain is the sequence of the element pointers that the \<open>Hashentry\<close> cells of the bucket hold, in
  the order of their \<open>next\<close> pointers: an entry is linked at the front and unlinked through its
  \<open>prev\<close> pointer. The functions \<open>cmp\<close> and \<open>hash\<close> that the table was created with are
  arguments, because they read the objects the table points to, and these may change.

  Memory: \<open>mem n\<close> tells whether the two allocations for a table of \<open>n\<close> buckets succeed and
  \<open>ent x n\<close> whether the allocation of the entry for \<open>x\<close> in a table of \<open>n\<close> buckets does. Within one
  call each of them happens at most once, because the tables of one call have increasing sizes.
\<close>

section \<open>arlamath.c\<close>

definition INT_MAX :: int where "INT_MAX = 2147483647"

text \<open>The product \<open>i * i\<close> overflows an \<open>int\<close> when \<open>p\<close> is near \<open>INT_MAX\<close>.\<close>

function isprime_loop :: "int \<Rightarrow> int \<Rightarrow> bool option" where
  "isprime_loop p i =
     (if i < p
      then let q = p div i
           in if i * q = p then Some False
              else if i * i > INT_MAX then None
              else if i * i > p then Some True
              else isprime_loop p (i + 1)
      else Some True)"
  by auto
termination by (relation "measure (\<lambda>(p, i). nat (p - i))") auto

declare isprime_loop.simps [simp del]

definition arlautil_isprime :: "int \<Rightarrow> bool option" where
  "arlautil_isprime p = isprime_loop p 2"

function findprime_loop :: "int \<Rightarrow> int option" where
  "findprime_loop p =
     (case arlautil_isprime p of
        None \<Rightarrow> None
      | Some True \<Rightarrow> Some p
      | Some False \<Rightarrow> if p + 2 > INT_MAX then None else findprime_loop (p + 2))"
  by auto
termination by (relation "measure (\<lambda>p. nat (INT_MAX - p))") auto

declare findprime_loop.simps [simp del]

definition arlautil_findprime :: "int \<Rightarrow> int option" where
  "arlautil_findprime p =
     (if p mod 2 = 0
      then if p + 1 > INT_MAX then None else findprime_loop (p + 1)
      else findprime_loop p)"

section \<open>Model of hash.c\<close>

record 'a ht_bucket =
  chain :: "'a list"
  blen :: int

record 'a hashtab =
  grow :: bool
  hsz :: int
  maxbucketlen :: int
  tab :: "'a ht_bucket list"

definition HASHTAB_INITAL_SIZE :: int where "HASHTAB_INITAL_SIZE = 17"
definition HASHTAB_MAX_BUCKET_LEN :: int where "HASHTAB_MAX_BUCKET_LEN = 20"

text \<open>The outer \<^const>\<open>None\<close> is the failed assertion, the inner one a null pointer.\<close>

definition hashtabnewf :: "(int \<Rightarrow> bool) \<Rightarrow> int \<Rightarrow> bool \<Rightarrow> 'a hashtab option option" where
  "hashtabnewf mem sz flags = do {
     cassert (sz > 0 \<or> flags);
     let sz = (if sz = 0 \<and> flags then HASHTAB_INITAL_SIZE else sz);
     Some (if \<not> mem sz then None
           else Some \<lparr>grow = flags, hsz = sz, maxbucketlen = HASHTAB_MAX_BUCKET_LEN,
                      tab = replicate (nat sz) \<lparr>chain = [], blen = 0\<rparr>\<rparr>) }"

definition hashtabnew :: "(int \<Rightarrow> bool) \<Rightarrow> int \<Rightarrow> 'a hashtab option option" where
  "hashtabnew mem sz = hashtabnewf mem sz False"

text \<open>The index \<open>hash (ptr) % htab->sz\<close>; the remainder by 0 is undefined.\<close>

definition hash_slot :: "('a \<Rightarrow> u32) \<Rightarrow> 'a hashtab \<Rightarrow> 'a \<Rightarrow> nat" where
  "hash_slot hash t x = nat (uint (hash x) mod hsz t)"

definition bucket_at :: "'a hashtab \<Rightarrow> nat \<Rightarrow> 'a ht_bucket option" where
  "bucket_at t i = (if hsz t > 0 \<and> i < length (tab t) then Some (tab t ! i) else None)"

definition hash_search :: "('a \<Rightarrow> 'a \<Rightarrow> int) \<Rightarrow> ('a \<Rightarrow> u32) \<Rightarrow> 'a hashtab \<Rightarrow> 'a \<Rightarrow> 'a option option" where
  "hash_search cmp hash t x = do {
     b \<leftarrow> bucket_at t (hash_slot hash t x);
     Some (find (\<lambda>y. cmp x y = 0) (chain b)) }"

definition hashtabsearch :: "('a \<Rightarrow> 'a \<Rightarrow> int) \<Rightarrow> ('a \<Rightarrow> u32) \<Rightarrow> 'a hashtab \<Rightarrow> 'a \<Rightarrow> 'a option option" where
  "hashtabsearch cmp hash t x = hash_search cmp hash t x"

text \<open>\<open>hashtabcleantab\<close>: the condition may have an effect on its argument \<open>arg\<close>.\<close>

fun clean_chain :: "('a \<Rightarrow> 's \<Rightarrow> (bool \<times> 's) option) \<Rightarrow> 'a list \<Rightarrow> int \<Rightarrow> 's \<Rightarrow> ('a list \<times> int \<times> 's) option" where
  "clean_chain cond [] len arg = Some ([], len, arg)"
| "clean_chain cond (g # gs) len arg = do {
     (c, arg) \<leftarrow> cond g arg;
     if c then do { cassert (len > 0); clean_chain cond gs (len - 1) arg }
     else do { (gs, len, arg) \<leftarrow> clean_chain cond gs len arg; Some (g # gs, len, arg) } }"

fun clean_tab :: "('a \<Rightarrow> 's \<Rightarrow> (bool \<times> 's) option) \<Rightarrow> 'a ht_bucket list \<Rightarrow> 's \<Rightarrow> ('a ht_bucket list \<times> 's) option" where
  "clean_tab cond [] arg = Some ([], arg)"
| "clean_tab cond (h # hs) arg = do {
     (gs, len, arg) \<leftarrow> clean_chain cond (chain h) (blen h) arg;
     (hs, arg) \<leftarrow> clean_tab cond hs arg;
     Some (\<lparr>chain = gs, blen = len\<rparr> # hs, arg) }"

definition hashtabcleantab :: "'a hashtab \<Rightarrow> ('a \<Rightarrow> 's \<Rightarrow> (bool \<times> 's) option) \<Rightarrow> 's \<Rightarrow> ('a hashtab \<times> 's) option" where
  "hashtabcleantab t cond arg = do { (hs, arg) \<leftarrow> clean_tab cond (tab t) arg; Some (t\<lparr>tab := hs\<rparr>, arg) }"

definition true_cond :: "'a \<Rightarrow> unit \<Rightarrow> (bool \<times> unit) option" where
  "true_cond x u = Some (True, u)"

text \<open>Nothing is left of a released table; its assertions are.\<close>

definition hashtabrelease :: "'a hashtab \<Rightarrow> unit option" where
  "hashtabrelease t = do { (t, u) \<leftarrow> hashtabcleantab t true_cond (); Some u }"

text \<open>
  \<open>_might_resize\<close> moves every element to a table of about twice the size with \<open>_add\<close>, here the
  argument \<open>add\<close>; the tables then exchange their arrays.
\<close>

definition resize_cond :: "('a hashtab \<Rightarrow> 'a \<Rightarrow> (bool \<times> 'a option \<times> 'a hashtab) option) \<Rightarrow> 'a \<Rightarrow> 'a hashtab \<Rightarrow> (bool \<times> 'a hashtab) option" where
  "resize_cond add x h = do { (_, _, h) \<leftarrow> add h x; Some (True, h) }"

definition might_resize ::
  "('a hashtab \<Rightarrow> 'a \<Rightarrow> (bool \<times> 'a option \<times> 'a hashtab) option) \<Rightarrow> (int \<Rightarrow> bool) \<Rightarrow> 'a hashtab \<Rightarrow> int \<Rightarrow> 'a hashtab option" where
  "might_resize add mem t bucket_len =
     (if bucket_len > maxbucketlen t
      then do {
        cassert (hsz t * 2 \<le> INT_MAX);
        new_size \<leftarrow> arlautil_findprime (hsz t * 2);
        cassert (new_size > hsz t);
        r \<leftarrow> hashtabnewf mem new_size (grow t);
        case r of
          None \<Rightarrow> Some t
        | Some nt \<Rightarrow> do {
            (t, nt) \<leftarrow> hashtabcleantab t (resize_cond add) nt;
            hashtabrelease (nt\<lparr>tab := tab t, hsz := hsz t\<rparr>);
            Some (t\<lparr>tab := tab nt, hsz := hsz nt\<rparr>) } }
      else Some t)"

text \<open>
  \<open>_add\<close> returns whether it succeeded (a non-null pointer), the element it freed, and the table.
  It calls itself through \<open>_might_resize\<close>; the number bounds the depth of these calls.
\<close>

primrec hash_add ::
  "nat \<Rightarrow> ('a \<Rightarrow> 'a \<Rightarrow> int) \<Rightarrow> ('a \<Rightarrow> u32) \<Rightarrow> ('a \<Rightarrow> int \<Rightarrow> bool) \<Rightarrow> (int \<Rightarrow> bool) \<Rightarrow> bool \<Rightarrow>
   'a hashtab \<Rightarrow> 'a \<Rightarrow> (bool \<times> 'a option \<times> 'a hashtab) option" where
  "hash_add 0 cmp hash ent mem unique t x = None"
| "hash_add (Suc k) cmp hash ent mem unique t x = do {
     h \<leftarrow> hash_search cmp hash t x;
     let i = hash_slot hash t x;
     b \<leftarrow> bucket_at t i;
     case h of
       Some y \<Rightarrow>
         if unique then Some (False, None, t)
         else Some (True, Some y, t\<lparr>tab := (tab t)[i := b\<lparr>chain :=
                takeWhile (\<lambda>y. cmp x y \<noteq> 0) (chain b) @ x # tl (dropWhile (\<lambda>y. cmp x y \<noteq> 0) (chain b))\<rparr>]\<rparr>)
     | None \<Rightarrow>
         if \<not> ent x (hsz t) then Some (False, None, t)
         else do {
           let b = b\<lparr>chain := x # chain b, blen := blen b + 1\<rparr>;
           let t = t\<lparr>tab := (tab t)[i := b]\<rparr>;
           t \<leftarrow> (if grow t then might_resize (hash_add k cmp hash ent mem True) mem t (blen b) else Some t);
           Some (True, None, t) } }"

definition hashtabaddreplace ::
  "nat \<Rightarrow> ('a \<Rightarrow> 'a \<Rightarrow> int) \<Rightarrow> ('a \<Rightarrow> u32) \<Rightarrow> ('a \<Rightarrow> int \<Rightarrow> bool) \<Rightarrow> (int \<Rightarrow> bool) \<Rightarrow>
   'a hashtab \<Rightarrow> 'a \<Rightarrow> (bool \<times> 'a option \<times> 'a hashtab) option" where
  "hashtabaddreplace k cmp hash ent mem t x = hash_add k cmp hash ent mem False t x"

definition hashtabadd ::
  "nat \<Rightarrow> ('a \<Rightarrow> 'a \<Rightarrow> int) \<Rightarrow> ('a \<Rightarrow> u32) \<Rightarrow> ('a \<Rightarrow> int \<Rightarrow> bool) \<Rightarrow> (int \<Rightarrow> bool) \<Rightarrow>
   'a hashtab \<Rightarrow> 'a \<Rightarrow> (bool \<times> 'a option \<times> 'a hashtab) option" where
  "hashtabadd k cmp hash ent mem t x = hash_add k cmp hash ent mem True t x"

text \<open>\<open>_hashtabdel\<close>: the status, the element whose entry was unlinked (freed when \<open>freep\<close>), the table.\<close>

definition hashtabdel :: "('a \<Rightarrow> 'a \<Rightarrow> int) \<Rightarrow> ('a \<Rightarrow> u32) \<Rightarrow> 'a hashtab \<Rightarrow> 'a \<Rightarrow> (int \<times> 'a option \<times> 'a hashtab) option" where
  "hashtabdel cmp hash t x = do {
     h \<leftarrow> hash_search cmp hash t x;
     let i = hash_slot hash t x;
     b \<leftarrow> bucket_at t i;
     case h of
       Some y \<Rightarrow> Some (0, Some y, t\<lparr>tab := (tab t)[i := b\<lparr>chain :=
                  takeWhile (\<lambda>y. cmp x y \<noteq> 0) (chain b) @ tl (dropWhile (\<lambda>y. cmp x y \<noteq> 0) (chain b))\<rparr>]\<rparr>)
     | None \<Rightarrow> Some (-1, None, t) }"

text \<open>\<open>hashtabforeach\<close> stops when the function returns true.\<close>

fun foreach_loop :: "('a \<Rightarrow> 's \<Rightarrow> bool \<times> 's) \<Rightarrow> 'a list \<Rightarrow> 's \<Rightarrow> 's" where
  "foreach_loop f [] s = s"
| "foreach_loop f (g # gs) s = (let (stop, s) = f g s in if stop then s else foreach_loop f gs s)"

definition hashtabforeach :: "'a hashtab \<Rightarrow> ('a \<Rightarrow> 's \<Rightarrow> bool \<times> 's) \<Rightarrow> 's \<Rightarrow> 's" where
  "hashtabforeach t f s = foreach_loop f (concat (map chain (tab t))) s"

subsection \<open>Hash functions on strings\<close>

text \<open>A string is the bytes before the terminating 0; a plain \<open>char\<close> is signed.\<close>

fun hashadd_loop :: "u32 \<Rightarrow> bytes \<Rightarrow> u32" where
  "hashadd_loop i [] = i"
| "hashadd_loop i (c # s) = hashadd_loop (i + scast c) s"

definition hashadd :: "bytes \<Rightarrow> u32" where
  "hashadd s = hashadd_loop 0 s"








section \<open>Primes\<close>

definition no_divisor :: "int \<Rightarrow> bool" where
  "no_divisor p \<longleftrightarrow> (\<forall>d. 2 \<le> d \<and> d < p \<longrightarrow> \<not> d dvd p)"

text \<open>Below the square of 46340 the loop never leaves the range of an \<open>int\<close>.\<close>

lemma small_divisor:
  assumes "d dvd p" "2 \<le> d" "d < p" "p < i * i" "0 < (i :: int)"
  shows "\<exists>e. 2 \<le> e \<and> e < i \<and> e dvd p"
proof (cases "d < i")
  case False
  obtain e where e: "p = d * e" using assms(1) by (rule dvdE)
  have e1: "1 < e"
  proof (rule ccontr)
    assume "\<not> 1 < e"
    then have "d * e \<le> d * 1" using assms(2) by (intro mult_left_mono) auto
    then show False using e assms(3) by simp
  qed
  have "e < i"
  proof (rule ccontr)
    assume "\<not> e < i"
    then have "i * i \<le> d * e" using False assms(5) by (intro mult_mono) auto
    then show False using e assms(4) by simp
  qed
  then show ?thesis using e e1 by (intro exI [of _ e]) auto
qed (use assms in blast)

lemma isprime_loop_ok:
  assumes "2 \<le> i" "\<forall>d. 2 \<le> d \<and> d < i \<longrightarrow> \<not> d dvd p" "(i - 1) * (i - 1) \<le> p" "p < 46340 * 46340"
  shows "isprime_loop p i = Some (no_divisor p)"
  using assms(1-3)
proof (induction "nat (p - i)" arbitrary: i rule: less_induct)
  case less
  show ?case
  proof (cases "i < p")
    case False
    then show ?thesis using less.prems(2) by (subst isprime_loop.simps) (auto simp: no_divisor_def)
  next
    case True
    have dv: "i * (p div i) = p \<longleftrightarrow> i dvd p" by (metis dvd_mult_div_cancel dvd_triv_left)
    have "i - 1 < 46340"
    proof (rule ccontr)
      assume "\<not> i - 1 < 46340"
      then have "46340 * 46340 \<le> (i - 1) * (i - 1)" by (intro mult_mono) auto
      then show False using less.prems(3) assms(4) by linarith
    qed
    then have "i * i \<le> 46340 * 46340" using less.prems(1) by (intro mult_mono) auto
    then have mx: "\<not> i * i > INT_MAX" by (simp add: INT_MAX_def)
    show ?thesis
    proof (cases "i dvd p")
      case True
      then show ?thesis using \<open>i < p\<close> less.prems(1) dv by (subst isprime_loop.simps) (auto simp: no_divisor_def)
    next
      case nd: False
      show ?thesis
      proof (cases "p < i * i")
        case True
        then have "no_divisor p" using small_divisor [of _ p i] less.prems(1,2) unfolding no_divisor_def by force
        then show ?thesis using True \<open>i < p\<close> dv nd mx by (subst isprime_loop.simps) simp
      next
        case False
        have "\<forall>d. 2 \<le> d \<and> d < i + 1 \<longrightarrow> \<not> d dvd p" using less.prems(2) nd
          by (metis zless_add1_eq)
        then have "isprime_loop p (i + 1) = Some (no_divisor p)"
          using False True less.prems(1) by (intro less.hyps) auto
        then show ?thesis using False True dv nd mx by (subst isprime_loop.simps) simp
      qed
    qed
  qed
qed

lemma isprime_ok: "1 \<le> p \<Longrightarrow> p < 46340 * 46340 \<Longrightarrow> arlautil_isprime p = Some (no_divisor p)"
  unfolding arlautil_isprime_def by (rule isprime_loop_ok) auto

lemma findprime_loop_ok:
  assumes "1 \<le> p" "p \<le> r" "even (r - p)" "no_divisor r" "r < 46340 * 46340"
  shows "\<exists>q. findprime_loop p = Some q \<and> p \<le> q \<and> q \<le> r \<and> no_divisor q \<and> even (q - p)"
  using assms
proof (induction "nat (r - p)" arbitrary: p rule: less_induct)
  case less
  have i: "arlautil_isprime p = Some (no_divisor p)" using less.prems by (intro isprime_ok) auto
  show ?case
  proof (cases "no_divisor p")
    case True
    then show ?thesis using i less.prems by (subst findprime_loop.simps) simp
  next
    case False
    then have "p \<noteq> r" "p \<noteq> r - 1" using less.prems by auto
    then have "p + 2 \<le> r" using less.prems(2) by linarith
    moreover have "even (r - (p + 2))" using less.prems(3) by (simp add: algebra_simps)
    ultimately obtain q where q: "findprime_loop (p + 2) = Some q" "p + 2 \<le> q" "q \<le> r" "no_divisor q" "even (q - (p + 2))"
      using less.hyps [of "p + 2"] less.prems by auto
    have "\<not> INT_MAX < p + 2" using \<open>p + 2 \<le> r\<close> less.prems(5) by (simp add: INT_MAX_def)
    moreover have "even (q - p)" using q(5) by (simp add: algebra_simps)
    ultimately show ?thesis using i False q by (subst findprime_loop.simps) simp
  qed
qed

lemma prime_131101: "no_divisor 131101"
proof -
  have "isprime_loop 131101 2 = Some True" by code_simp
  then show ?thesis using isprime_ok [of 131101] by (simp add: arlautil_isprime_def)
qed

lemma findprime_ok:
  assumes "1 \<le> p" "p \<le> 2 * 65536"
  shows "\<exists>q. arlautil_findprime p = Some q \<and> p \<le> q \<and> q \<le> 131101 \<and> odd q \<and> no_divisor q"
proof (cases "even p")
  case True
  have "\<exists>q. findprime_loop (p + 1) = Some q \<and> p + 1 \<le> q \<and> q \<le> 131101 \<and> no_divisor q \<and> even (q - (p + 1))"
    using assms prime_131101 True by (intro findprime_loop_ok) auto
  then show ?thesis using True assms by (auto simp: arlautil_findprime_def INT_MAX_def even_iff_mod_2_eq_zero [symmetric])
next
  case False
  have "\<exists>q. findprime_loop p = Some q \<and> p \<le> q \<and> q \<le> 131101 \<and> no_divisor q \<and> even (q - p)"
    using assms prime_131101 False by (intro findprime_loop_ok) auto
  then show ?thesis using False by (auto simp: arlautil_findprime_def even_iff_mod_2_eq_zero [symmetric])
qed

section \<open>Tables as finite maps\<close>

definition hmem :: "'a hashtab \<Rightarrow> 'a set" where
  "hmem t = (\<Union>b \<in> set (tab t). set (chain b))"

text \<open>Every element is in the bucket that its hash value selects, once; lengths are never too small.\<close>

definition hash_inv :: "('a \<Rightarrow> u32) \<Rightarrow> 'a hashtab \<Rightarrow> bool" where
  "hash_inv hash t \<longleftrightarrow> hsz t > 0 \<and> length (tab t) = nat (hsz t) \<and>
     (\<forall>i < length (tab t). distinct (chain (tab t ! i)) \<and> int (length (chain (tab t ! i))) \<le> blen (tab t ! i) \<and>
        (\<forall>x \<in> set (chain (tab t ! i)). hash_slot hash t x = i))"

lemma slot_less: "hash_inv hash t \<Longrightarrow> hash_slot hash t x < length (tab t)"
  by (auto simp: hash_inv_def hash_slot_def nat_less_iff)

lemma bucket_at_slot: "hash_inv hash t \<Longrightarrow> bucket_at t (hash_slot hash t x) = Some (tab t ! hash_slot hash t x)"
  using slot_less [of hash t x] by (simp add: bucket_at_def hash_inv_def)

lemma hmem_slot:
  assumes "hash_inv hash t"
  shows "y \<in> hmem t \<longleftrightarrow> y \<in> set (chain (tab t ! hash_slot hash t y))"
proof
  assume "y \<in> hmem t"
  then obtain b where "b \<in> set (tab t)" "y \<in> set (chain b)" by (auto simp: hmem_def)
  then obtain i where i: "i < length (tab t)" "y \<in> set (chain (tab t ! i))" by (metis in_set_conv_nth)
  then have "hash_slot hash t y = i" using assms by (simp add: hash_inv_def)
  then show "y \<in> set (chain (tab t ! hash_slot hash t y))" using i by simp
next
  assume "y \<in> set (chain (tab t ! hash_slot hash t y))"
  then show "y \<in> hmem t" using slot_less [OF assms, of y] unfolding hmem_def by (meson UN_I nth_mem)
qed

lemma hash_slot_tab [simp]: "hash_slot hash (t\<lparr>tab := bs\<rparr>) x = hash_slot hash t x"
  by (simp add: hash_slot_def)

text \<open>One bucket changes.\<close>

lemma bucket_update:
  assumes inv: "hash_inv hash t" and b: "distinct (chain b)" "int (length (chain b)) \<le> blen b"
    "\<forall>y \<in> set (chain b). hash_slot hash t y = hash_slot hash t x"
  shows "hash_inv hash (t\<lparr>tab := (tab t)[hash_slot hash t x := b]\<rparr>)"
    and "y \<in> hmem (t\<lparr>tab := (tab t)[hash_slot hash t x := b]\<rparr>) \<longleftrightarrow>
      (if hash_slot hash t y = hash_slot hash t x then y \<in> set (chain b) else y \<in> hmem t)"
proof -
  show i: "hash_inv hash (t\<lparr>tab := (tab t)[hash_slot hash t x := b]\<rparr>)"
    unfolding hash_inv_def
  proof (intro conjI allI impI)
    fix i assume "i < length (tab (t\<lparr>tab := (tab t)[hash_slot hash t x := b]\<rparr>))"
    then have i: "i < length (tab t)" by simp
    have c: "tab (t\<lparr>tab := (tab t)[hash_slot hash t x := b]\<rparr>) ! i = (if i = hash_slot hash t x then b else tab t ! i)"
      using i by (simp add: nth_list_update)
    show "distinct (chain (tab (t\<lparr>tab := (tab t)[hash_slot hash t x := b]\<rparr>) ! i))"
      "int (length (chain (tab (t\<lparr>tab := (tab t)[hash_slot hash t x := b]\<rparr>) ! i))) \<le> blen (tab (t\<lparr>tab := (tab t)[hash_slot hash t x := b]\<rparr>) ! i)"
      "\<forall>y \<in> set (chain (tab (t\<lparr>tab := (tab t)[hash_slot hash t x := b]\<rparr>) ! i)). hash_slot hash (t\<lparr>tab := (tab t)[hash_slot hash t x := b]\<rparr>) y = i"
      unfolding c using inv i b by (auto simp: hash_inv_def)
  qed (use inv in \<open>simp_all add: hash_inv_def\<close>)
  show "y \<in> hmem (t\<lparr>tab := (tab t)[hash_slot hash t x := b]\<rparr>) \<longleftrightarrow>
      (if hash_slot hash t y = hash_slot hash t x then y \<in> set (chain b) else y \<in> hmem t)"
  proof (cases "hash_slot hash t y = hash_slot hash t x")
    case True
    then show ?thesis using hmem_slot [OF i, of y] slot_less [OF inv, of x] by simp
  next
    case False
    then have "tab (t\<lparr>tab := (tab t)[hash_slot hash t x := b]\<rparr>) ! hash_slot hash t y = tab t ! hash_slot hash t y" by simp
    then show ?thesis using hmem_slot [OF i, of y] False unfolding hmem_slot [OF inv, of y] hash_slot_tab by simp
  qed
qed

lemma find_Some_split:
  assumes "find P xs = Some y"
  shows "\<exists>us vs. xs = us @ y # vs \<and> (\<forall>z \<in> set us. \<not> P z) \<and> P y"
  using assms
proof (induction xs)
  case (Cons x xs)
  show ?case
  proof (cases "P x")
    case True
    then show ?thesis using Cons.prems by (intro exI [of _ "[]"] exI [of _ xs]) auto
  next
    case False
    then obtain us vs where "xs = us @ y # vs" "\<forall>z \<in> set us. \<not> P z" "P y" using Cons by auto
    then show ?thesis using False by (intro exI [of _ "x # us"] exI [of _ vs]) auto
  qed
qed simp

text \<open>The finite map from keys to elements that a table represents.\<close>

definition hash_rep :: "('a \<Rightarrow> u32) \<Rightarrow> ('a \<Rightarrow> 'k) \<Rightarrow> 'a hashtab \<Rightarrow> ('k \<rightharpoonup> 'a) \<Rightarrow> bool" where
  "hash_rep hash key t M \<longleftrightarrow> hash_inv hash t \<and> (\<forall>k y. M k = Some y \<longleftrightarrow> y \<in> hmem t \<and> key y = k)"

definition map_add_elem :: "('a \<Rightarrow> 'k) \<Rightarrow> bool \<Rightarrow> bool \<Rightarrow> ('k \<rightharpoonup> 'a) \<Rightarrow> 'a \<Rightarrow> bool \<times> 'a option \<times> ('k \<rightharpoonup> 'a)" where
  "map_add_elem key unique e M x =
     (case M (key x) of
        Some y \<Rightarrow> if unique then (False, None, M) else (True, Some y, M(key x \<mapsto> x))
      | None \<Rightarrow> if e then (True, None, M(key x \<mapsto> x)) else (False, None, M))"

text \<open>The elements of a table in the order of the buckets.\<close>

lemma distinct_buckets:
  "(\<forall>i < length bs. distinct (chain (bs ! i)) \<and> (\<forall>x \<in> set (chain (bs ! i)). g x = i)) \<Longrightarrow> distinct (concat (map chain bs))"
proof (induction bs rule: rev_induct)
  case (snoc b bs)
  have b: "distinct (chain b)" "\<forall>x \<in> set (chain b). g x = length bs"
    using snoc.prems [rule_format, of "length bs"] by auto
  have bs: "distinct (chain (bs ! i))" "\<forall>x \<in> set (chain (bs ! i)). g x = i" if "i < length bs" for i
    using snoc.prems [rule_format, of i] that by (auto simp: nth_append)
  have "g x < length bs" if x: "x \<in> set (concat (map chain bs))" for x
  proof -
    obtain c where "c \<in> set bs" "x \<in> set (chain c)" using x by auto
    then obtain i where "i < length bs" "x \<in> set (chain (bs ! i))" by (metis in_set_conv_nth)
    then show ?thesis using bs(2) [of i] by simp
  qed
  then have "set (concat (map chain bs)) \<inter> set (chain b) = {}" using b(2) by fastforce
  moreover have "distinct (concat (map chain bs))" using snoc.IH bs by blast
  ultimately show ?case using b(1) by simp
qed simp

lemma hash_inv_distinct: "hash_inv hash t \<Longrightarrow> distinct (concat (map chain (tab t)))"
  by (rule distinct_buckets [where g = "hash_slot hash t"]) (auto simp: hash_inv_def)

lemma set_buckets: "set (concat (map chain (tab t))) = hmem t"
  by (auto simp: hmem_def)

text \<open>Moving elements with a condition that always asks for the removal is a fold.\<close>

fun add_all :: "('a hashtab \<Rightarrow> 'a \<Rightarrow> (bool \<times> 'a option \<times> 'a hashtab) option) \<Rightarrow> 'a list \<Rightarrow> 'a hashtab \<Rightarrow> 'a hashtab option" where
  "add_all add [] nt = Some nt"
| "add_all add (x # xs) nt = do { (_, _, nt) \<leftarrow> add nt x; add_all add xs nt }"

lemma add_all_append: "add_all add (xs @ ys) nt = Option.bind (add_all add xs nt) (add_all add ys)"
  by (induction xs arbitrary: nt) (auto split: Option.bind_split)

lemma clean_chain_resize:
  "int (length gs) \<le> len \<Longrightarrow> clean_chain (resize_cond add) gs len nt =
     map_option (\<lambda>nt. ([], len - int (length gs), nt)) (add_all add gs nt)"
proof (induction gs arbitrary: len nt)
  case (Cons g gs)
  then show ?case by (cases "add nt g") (auto simp: resize_cond_def cassert_def algebra_simps)
qed simp

lemma clean_tab_resize:
  "\<forall>b \<in> set bs. int (length (chain b)) \<le> blen b \<Longrightarrow> clean_tab (resize_cond add) bs nt =
     map_option (\<lambda>nt. (map (\<lambda>b. \<lparr>chain = [], blen = blen b - int (length (chain b))\<rparr>) bs, nt)) (add_all add (concat (map chain bs)) nt)"
proof (induction bs arbitrary: nt)
  case (Cons b bs)
  then show ?case by (cases "add_all add (chain b) nt") (auto simp: clean_chain_resize add_all_append option.map_comp comp_def split: Option.bind_split)
qed simp

lemma clean_empty: "\<forall>b \<in> set bs. chain b = [] \<Longrightarrow> \<exists>bs'. clean_tab cond bs s = Some (bs', s)"
proof (induction bs)
  case (Cons b bs)
  then obtain bs' where "clean_tab cond bs s = Some (bs', s)" by auto
  then show ?case using Cons.prems by simp
qed simp

lemma resize_is_fold:
  assumes inv: "hash_inv hash t" and b: "n > maxbucketlen t" "hsz t * 2 \<le> INT_MAX"
    "arlautil_findprime (hsz t * 2) = Some p" "p > hsz t" "hashtabnewf mem p (grow t) = Some (Some nt)"
  shows "might_resize add mem (t :: 'a hashtab) n =
    map_option (\<lambda>nt. t\<lparr>tab := tab nt, hsz := hsz nt\<rparr>) (add_all add (concat (map chain (tab t))) nt)"
proof -
  have l: "\<forall>b \<in> set (tab t). int (length (chain b)) \<le> blen b" using inv unfolding hash_inv_def by (metis in_set_conv_nth)
  let ?bs = "map (\<lambda>b. \<lparr>chain = [], blen = blen b - int (length (chain b))\<rparr>) (tab t) :: 'a ht_bucket list"
  obtain bs' where "clean_tab true_cond ?bs () = Some (bs', ())" using clean_empty [of ?bs true_cond "()"] by auto
  then have r: "hashtabrelease (nt'\<lparr>tab := ?bs, hsz := h\<rparr>) = Some ()" for nt' h
    by (simp add: hashtabrelease_def hashtabcleantab_def)
  show ?thesis using b r by (cases "add_all add (concat (map chain (tab t))) nt")
      (simp_all add: might_resize_def hashtabcleantab_def clean_tab_resize [OF l])
qed

text \<open>
  The comparison and the hash function of a table agree on a key; this is what the users of the
  tables have to provide.
\<close>

locale hash_keys =
  fixes cmp :: "'a \<Rightarrow> 'a \<Rightarrow> int" and hash :: "'a \<Rightarrow> u32" and key :: "'a \<Rightarrow> 'k"
  assumes cmp_key: "cmp x y = 0 \<longleftrightarrow> key x = key y"
    and hash_key: "key x = key y \<Longrightarrow> hash x = hash y"
begin

lemma slot_key: "key x = key y \<Longrightarrow> hash_slot hash t x = hash_slot hash t y"
  using hash_key [of x y] by (simp add: hash_slot_def)

lemma rep_inv: "hash_rep hash key t M \<Longrightarrow> hash_inv hash t"
  by (simp add: hash_rep_def)

lemma chain_find:
  assumes rep: "hash_rep hash key t M"
  shows "find (\<lambda>y. cmp x y = 0) (chain (tab t ! hash_slot hash t x)) = M (key x)"
proof (cases "find (\<lambda>y. cmp x y = 0) (chain (tab t ! hash_slot hash t x))")
  case None
  then have "\<forall>y \<in> set (chain (tab t ! hash_slot hash t x)). key x \<noteq> key y" by (auto simp: find_None_iff cmp_key)
  moreover have "y \<in> set (chain (tab t ! hash_slot hash t x)) \<and> key x = key y" if "M (key x) = Some y" for y
    using that rep hmem_slot [OF rep_inv [OF rep], of y] slot_key [of x y t] by (simp add: hash_rep_def)
  ultimately have "M (key x) \<noteq> Some y" for y by blast
  then show ?thesis using None by (cases "M (key x)") auto
next
  case (Some y)
  then have y: "y \<in> set (chain (tab t ! hash_slot hash t x))" "key x = key y"
    by (auto simp: find_Some_iff cmp_key)
  then have "y \<in> hmem t" unfolding hmem_slot [OF rep_inv [OF rep]] using slot_key [of x y t] by simp
  then have "M (key x) = Some y" using rep y(2) by (simp add: hash_rep_def)
  then show ?thesis using Some by simp
qed

lemma search_ok: "hash_rep hash key t M \<Longrightarrow> hashtabsearch cmp hash t x = Some (M (key x))"
  using rep_inv [of t M] chain_find [of t M x] by (simp add: hashtabsearch_def hash_search_def bucket_at_slot)

lemma search_ok': "hash_rep hash key t M \<Longrightarrow> hash_search cmp hash t x = Some (M (key x))"
  using search_ok [of t M x] by (simp add: hashtabsearch_def)

lemma new_rep:
  assumes "hashtabnewf mem sz g = Some (Some t)" and "sz \<ge> 0"
  shows "hash_rep hash key t Map.empty" "grow t = g"
proof -
  obtain n where n: "n > 0" and t: "t = \<lparr>grow = g, hsz = n, maxbucketlen = HASHTAB_MAX_BUCKET_LEN, tab = replicate (nat n) \<lparr>chain = [], blen = 0\<rparr>\<rparr>"
    using assms by (cases "sz = 0") (auto simp: hashtabnewf_def HASHTAB_INITAL_SIZE_def cassert_def bind_eq_Some_conv split: if_splits)
  have "hash_inv hash t" using n by (simp add: hash_inv_def t)
  moreover have "hmem t = {}" by (auto simp: hmem_def t)
  ultimately show "hash_rep hash key t Map.empty" by (simp add: hash_rep_def)
  show "grow t = g" by (simp add: t)
qed

lemma add_new:
  assumes rep: "hash_rep hash key t M" and new: "M (key x) = None"
    and n: "n = blen (tab t ! hash_slot hash t x) + 1"
  shows "hash_rep hash key (t\<lparr>tab := (tab t)[hash_slot hash t x :=
    (tab t ! hash_slot hash t x)\<lparr>chain := x # chain (tab t ! hash_slot hash t x), blen := n\<rparr>]\<rparr>) (M(key x \<mapsto> x))"
proof -
  let ?b = "tab t ! hash_slot hash t x"
  let ?b' = "?b\<lparr>chain := x # chain ?b, blen := n\<rparr>"
  note inv = rep_inv [OF rep]
  have M: "M k = Some y \<longleftrightarrow> y \<in> hmem t \<and> key y = k" for k y using rep by (simp add: hash_rep_def)
  have nk: "y \<notin> hmem t" if "key y = key x" for y using M [of "key x" y] new that by simp
  then have nx: "x \<notin> hmem t" by simp
  have b: "distinct (chain ?b)" "int (length (chain ?b)) \<le> blen ?b" "\<forall>y \<in> set (chain ?b). hash_slot hash t y = hash_slot hash t x"
    using inv slot_less [OF inv, of x] by (auto simp: hash_inv_def)
  have b': "distinct (chain ?b')" "int (length (chain ?b')) \<le> blen ?b'" "\<forall>y \<in> set (chain ?b'). hash_slot hash t y = hash_slot hash t x"
    using b nx n hmem_slot [OF inv, of x] by auto
  have m: "y \<in> hmem (t\<lparr>tab := (tab t)[hash_slot hash t x := ?b']\<rparr>) \<longleftrightarrow> y = x \<or> y \<in> hmem t" for y
    unfolding bucket_update(2) [OF inv b'] using hmem_slot [OF inv, of y] by auto
  have "(M(key x \<mapsto> x)) k = Some y \<longleftrightarrow> (y = x \<or> y \<in> hmem t) \<and> key y = k" for k y
    using M [of k y] nk [of y] by (cases "k = key x") auto
  then show ?thesis unfolding hash_rep_def m using bucket_update(1) [OF inv b'] by simp
qed

text \<open>The entry of a key in its chain.\<close>

lemma chain_split:
  assumes rep: "hash_rep hash key t M" and y: "M (key x) = Some y"
  shows "\<exists>us vs. chain (tab t ! hash_slot hash t x) = us @ y # vs \<and>
    takeWhile (\<lambda>y. cmp x y \<noteq> 0) (us @ y # vs) = us \<and> dropWhile (\<lambda>y. cmp x y \<noteq> 0) (us @ y # vs) = y # vs \<and>
    (\<forall>z \<in> set us \<union> set vs. key z \<noteq> key x) \<and> key y = key x"
proof -
  let ?c = "chain (tab t ! hash_slot hash t x)"
  note inv = rep_inv [OF rep]
  have f: "find (\<lambda>y. cmp x y = 0) ?c = Some y" using chain_find [OF rep, of x] y by simp
  obtain us vs where uv: "?c = us @ y # vs" "\<forall>z \<in> set us. cmp x z \<noteq> 0" "cmp x y = 0"
    using find_Some_split [OF f] by blast
  have "z = y" if "z \<in> set ?c" "key z = key x" for z
  proof -
    have "z \<in> hmem t" using that slot_key [of z x t] unfolding hmem_slot [OF inv] by simp
    then have "M (key x) = Some z" using rep that(2) unfolding hash_rep_def by blast
    then show ?thesis using y by simp
  qed
  moreover have "distinct ?c" using inv slot_less [OF inv, of x] by (simp add: hash_inv_def)
  ultimately have "\<forall>z \<in> set us \<union> set vs. key z \<noteq> key x" using uv(1) by auto
  moreover have "takeWhile (\<lambda>y. cmp x y \<noteq> 0) (us @ y # vs) = us" "dropWhile (\<lambda>y. cmp x y \<noteq> 0) (us @ y # vs) = y # vs"
    using uv(2,3) by (simp_all add: takeWhile_append2 dropWhile_append2)
  ultimately show ?thesis using uv(1,3) cmp_key [of x y] by (intro exI [of _ us] exI [of _ vs]) simp
qed

lemma chain_replace:
  assumes rep: "hash_rep hash key t M" and y: "M (key x) = Some y"
    and c: "chain (tab t ! hash_slot hash t x) = us @ y # vs" "\<forall>z \<in> set us \<union> set vs. key z \<noteq> key x" "key y = key x"
    and new: "ws = [] \<or> ws = [x]"
  shows "hash_rep hash key (t\<lparr>tab := (tab t)[hash_slot hash t x := (tab t ! hash_slot hash t x)\<lparr>chain := us @ ws @ vs\<rparr>]\<rparr>)
    (M(key x := (if ws = [] then None else Some x)))"
proof -
  let ?b = "tab t ! hash_slot hash t x"
  let ?b' = "?b\<lparr>chain := us @ ws @ vs\<rparr>"
  note inv = rep_inv [OF rep]
  have M: "M k = Some y \<longleftrightarrow> y \<in> hmem t \<and> key y = k" for k y using rep by (simp add: hash_rep_def)
  have b: "distinct (chain ?b)" "int (length (chain ?b)) \<le> blen ?b" "\<forall>y \<in> set (chain ?b). hash_slot hash t y = hash_slot hash t x"
    using inv slot_less [OF inv, of x] by (auto simp: hash_inv_def)
  have b': "distinct (chain ?b')" "int (length (chain ?b')) \<le> blen ?b'" "\<forall>y \<in> set (chain ?b'). hash_slot hash t y = hash_slot hash t x"
  proof -
    have "x \<notin> set us" "x \<notin> set vs" using c(2) by blast+
    then show "distinct (chain ?b')" using b(1) new unfolding c(1) by (elim disjE) simp_all
    show "int (length (chain ?b')) \<le> blen ?b'" using b(2) new unfolding c(1) by (elim disjE) simp_all
    show "\<forall>y \<in> set (chain ?b'). hash_slot hash t y = hash_slot hash t x"
      using b(3) new unfolding c(1) by (elim disjE) simp_all
  qed
  have m: "z \<in> hmem (t\<lparr>tab := (tab t)[hash_slot hash t x := ?b']\<rparr>) \<longleftrightarrow>
    (if key z = key x then ws = [x] \<and> z = x else z \<in> hmem t)" for z
  proof (cases "hash_slot hash t z = hash_slot hash t x")
    case True
    then have "z \<in> hmem t \<longleftrightarrow> z \<in> set (us @ y # vs)" using hmem_slot [OF inv, of z] c(1) by simp
    then show ?thesis unfolding bucket_update(2) [OF inv b'] using True c(2,3) new by auto
  next
    case False
    then have "key z \<noteq> key x" using slot_key [of z x t] by auto
    then show ?thesis unfolding bucket_update(2) [OF inv b'] using False by simp
  qed
  have "(M(key x := (if ws = [] then None else Some x))) k = Some z \<longleftrightarrow>
    (if key z = key x then ws = [x] \<and> z = x else z \<in> hmem t) \<and> key z = k" for k z
    using M [of k z] new by (cases "k = key x") auto
  then show ?thesis unfolding hash_rep_def m using bucket_update(1) [OF inv b'] by simp
qed

lemma del_ok:
  assumes rep: "hash_rep hash key t M"
  shows "\<exists>t'. hashtabdel cmp hash t x = Some (if M (key x) = None then - 1 else 0, M (key x), t') \<and>
    hash_rep hash key t' (M(key x := None)) \<and> grow t' = grow t"
proof (cases "M (key x)")
  case None
  then have "M(key x := None) = M" by (simp add: fun_upd_idem)
  then show ?thesis using None search_ok' [OF rep, of x] bucket_at_slot [OF rep_inv [OF rep], of x] rep by (simp add: hashtabdel_def)
next
  case (Some y)
  from chain_split [OF rep Some] obtain us vs where c: "chain (tab t ! hash_slot hash t x) = us @ y # vs"
    "takeWhile (\<lambda>y. cmp x y \<noteq> 0) (us @ y # vs) = us" "dropWhile (\<lambda>y. cmp x y \<noteq> 0) (us @ y # vs) = y # vs"
    "\<forall>z \<in> set us \<union> set vs. key z \<noteq> key x" "key y = key x" by blast
  show ?thesis using chain_replace [OF rep Some c(1,4,5), of "[]"] Some search_ok' [OF rep, of x] bucket_at_slot [OF rep_inv [OF rep], of x] c(1-3)
    by (simp add: hashtabdel_def Let_def)
qed

text \<open>What adding does to the map; \<open>e\<close> tells whether the entry can be allocated.\<close>

lemma add_found:
  assumes rep: "hash_rep hash key t M" and y: "M (key x) = Some y"
  shows "\<exists>t'. hash_add (Suc k) cmp hash ent mem u t x = Some (if u then (False, None, t) else (True, Some y, t')) \<and>
    hash_rep hash key t' (M(key x \<mapsto> x)) \<and> grow t' = grow t \<and> hsz t' = hsz t"
proof -
  from chain_split [OF rep y] obtain us vs where c: "chain (tab t ! hash_slot hash t x) = us @ y # vs"
    "takeWhile (\<lambda>y. cmp x y \<noteq> 0) (us @ y # vs) = us" "dropWhile (\<lambda>y. cmp x y \<noteq> 0) (us @ y # vs) = y # vs"
    "\<forall>z \<in> set us \<union> set vs. key z \<noteq> key x" "key y = key x" by blast
  show ?thesis using chain_replace [OF rep y c(1,4,5), of "[x]"] y search_ok' [OF rep, of x] bucket_at_slot [OF rep_inv [OF rep], of x] c(1-3)
    by (cases u) (auto simp: Let_def)
qed

lemma add_fixed:
  assumes rep: "hash_rep hash key t M" and "\<not> grow t"
    and "map_add_elem key u (ent x (hsz t)) M x = (r, fr, M')"
  shows "\<exists>t'. hash_add (Suc k) cmp hash ent mem u t x = Some (r, fr, t') \<and> hash_rep hash key t' M' \<and> \<not> grow t'"
proof (cases "M (key x)")
  case None
  let ?n = "blen (tab t ! hash_slot hash t x) + 1"
  show ?thesis using assms None search_ok' [OF rep, of x] bucket_at_slot [OF rep_inv [OF rep], of x] add_new [OF rep None refl]
    by (cases "ent x (hsz t)") (auto simp: Let_def map_add_elem_def)
next
  case (Some y)
  obtain t' where "hash_add (Suc k) cmp hash ent mem u t x = Some (if u then (False, None, t) else (True, Some y, t'))"
    "hash_rep hash key t' (M(key x \<mapsto> x))" "grow t' = grow t" using add_found [OF rep Some] by blast
  then show ?thesis using assms Some by (cases u) (auto simp: map_add_elem_def simp del: hash_add.simps)
qed

text \<open>
  A growing table. Allocation fails for tables with more than 65536 buckets; this bounds how often
  one call can grow the table.
\<close>

lemma add_all_ok:
  assumes add: "\<And>t M x. hash_rep hash key t M \<Longrightarrow> P t \<Longrightarrow> M (key x) = None \<Longrightarrow>
      \<exists>r fr t'. add t x = Some (r, fr, t') \<and> hash_rep hash key t' (M(key x \<mapsto> x)) \<and> P t'"
  shows "hash_rep hash key t M \<Longrightarrow> P t \<Longrightarrow> distinct (map key xs) \<Longrightarrow> \<forall>x \<in> set xs. M (key x) = None \<Longrightarrow>
    \<exists>t'. add_all add xs t = Some t' \<and> hash_rep hash key t' (M ++ map_of (map (\<lambda>x. (key x, x)) xs)) \<and> P t'"
proof (induction xs arbitrary: t M)
  case (Cons x xs)
  let ?m = "map_of (map (\<lambda>x. (key x, x)) xs)"
  obtain r fr t1 where 1: "add t x = Some (r, fr, t1)" "hash_rep hash key t1 (M(key x \<mapsto> x))" "P t1"
    using add [OF Cons.prems(1,2), of x] Cons.prems(4) by auto
  have "\<forall>y \<in> set xs. (M(key x \<mapsto> x)) (key y) = None" using Cons.prems(3,4) by (auto simp: image_iff)
  moreover have "distinct (map key xs)" using Cons.prems(3) by simp
  ultimately obtain t' where t': "add_all add xs t1 = Some t'" "hash_rep hash key t' (M(key x \<mapsto> x) ++ ?m)" "P t'"
    using Cons.IH [OF 1(2,3)] by blast
  have "key x \<notin> dom ?m" using Cons.prems(3) by (auto simp: dom_map_of_conv_image_fst)
  then have e: "M(key x \<mapsto> x) ++ ?m = M ++ map_of (map (\<lambda>x. (key x, x)) (x # xs))" by (simp add: map_add_upd_left)
  have "add_all add (x # xs) t = Some t'" using 1(1) t'(1) by simp
  then show ?case using t'(2,3) unfolding e by blast
qed simp

lemma rep_map_of:
  assumes rep: "hash_rep hash key t M"
  shows "map_of (map (\<lambda>x. (key x, x)) (concat (map chain (tab t)))) = M"
    and "distinct (map key (concat (map chain (tab t))))"
proof -
  let ?xs = "concat (map chain (tab t))"
  have M: "M k = Some y \<longleftrightarrow> y \<in> set ?xs \<and> key y = k" for k y using rep unfolding set_buckets by (simp add: hash_rep_def)
  have "inj_on key (set ?xs)" by (rule inj_onI) (metis M option.inject)
  then show d: "distinct (map key ?xs)" using hash_inv_distinct [OF rep_inv [OF rep]] unfolding distinct_map by blast
  have d': "distinct (map fst (map (\<lambda>x. (key x, x)) ?xs))" using d by (simp add: comp_def)
  have e: "map_of (map (\<lambda>x. (key x, x)) ?xs) k = Some y \<longleftrightarrow> M k = Some y" for k y
    unfolding map_of_eq_Some_iff [OF d'] M by auto
  show "map_of (map (\<lambda>x. (key x, x)) ?xs) = M"
  proof
    fix k
    show "map_of (map (\<lambda>x. (key x, x)) ?xs) k = M k"
    proof (cases "M k")
      case None
      then have "map_of (map (\<lambda>x. (key x, x)) ?xs) k \<noteq> Some y" for y using e [of k y] by simp
      then show ?thesis using None by (cases "map_of (map (\<lambda>x. (key x, x)) ?xs) k") auto
    next
      case (Some y)
      then show ?thesis unfolding Some e by simp
    qed
  qed
qed

lemma resize_ok:
  assumes rep: "hash_rep hash key t M" and mem: "\<forall>n > 65536. \<not> mem n" and sz: "hsz t \<le> 65536"
    and add: "\<And>nt N x. hash_rep hash key nt N \<Longrightarrow> hsz t < hsz nt \<and> hsz nt \<le> 65536 \<Longrightarrow> N (key x) = None \<Longrightarrow>
      \<exists>r fr nt'. add nt x = Some (r, fr, nt') \<and> hash_rep hash key nt' (N(key x \<mapsto> x)) \<and> hsz t < hsz nt' \<and> hsz nt' \<le> 65536"
  shows "\<exists>t'. might_resize add mem t n = Some t' \<and> hash_rep hash key t' M \<and> hsz t \<le> hsz t' \<and> hsz t' \<le> 65536 \<and> grow t' = grow t"
proof (cases "n > maxbucketlen t")
  case True
  note inv = rep_inv [OF rep]
  have pos: "hsz t > 0" using inv by (simp add: hash_inv_def)
  obtain p where p: "arlautil_findprime (hsz t * 2) = Some p" "hsz t * 2 \<le> p"
    using findprime_ok [of "hsz t * 2"] pos sz by auto
  have i: "hsz t * 2 \<le> INT_MAX" "p > hsz t" "p > 0" using pos sz p(2) by (auto simp: INT_MAX_def)
  show ?thesis
  proof (cases "mem p")
    case False
    then have "hashtabnewf mem p (grow t) = Some (None :: 'a hashtab option)" using i(3) by (simp add: hashtabnewf_def)
    then show ?thesis using True i p rep sz by (simp add: might_resize_def)
  next
    case True
    then have p6: "p \<le> 65536" using mem by (meson not_le)
    define nt :: "'a hashtab" where "nt = \<lparr>grow = grow t, hsz = p, maxbucketlen = HASHTAB_MAX_BUCKET_LEN,
      tab = replicate (nat p) \<lparr>chain = [], blen = 0\<rparr>\<rparr>"
    have new: "hashtabnewf mem p (grow t) = Some (Some nt)" using True i(3) by (simp add: hashtabnewf_def nt_def)
    have r: "hash_rep hash key nt Map.empty" using new_rep(1) [OF new] i(3) by simp
    have hn: "hsz t < hsz nt \<and> hsz nt \<le> 65536" using i(2) p6 by (simp add: nt_def)
    have "\<exists>nt'. add_all add (concat (map chain (tab t))) nt = Some nt' \<and>
      hash_rep hash key nt' (Map.empty ++ map_of (map (\<lambda>x. (key x, x)) (concat (map chain (tab t))))) \<and> hsz t < hsz nt' \<and> hsz nt' \<le> 65536"
      by (rule add_all_ok [where P = "\<lambda>nt. hsz t < hsz nt \<and> hsz nt \<le> 65536", OF add r hn rep_map_of(2) [OF rep]]) simp_all
    then obtain nt' where nt': "add_all add (concat (map chain (tab t))) nt = Some nt'" "hash_rep hash key nt' M" "hsz t < hsz nt'" "hsz nt' \<le> 65536"
      unfolding rep_map_of(1) [OF rep] empty_map_add by blast
    have "hash_rep hash key (t\<lparr>tab := tab nt', hsz := hsz nt'\<rparr>) M"
      using nt'(2) by (simp add: hash_rep_def hash_inv_def hmem_def hash_slot_def)
    then show ?thesis using resize_is_fold [OF inv \<open>n > maxbucketlen t\<close> i(1) p(1) i(2) new] nt' by simp
  qed
qed (use rep sz in \<open>simp add: might_resize_def\<close>)

lemma add_grow_ok:
  assumes mem: "\<forall>n > 65536. \<not> mem n" and ent: "\<forall>y n. ent y n"
  shows "hash_rep hash key t M \<Longrightarrow> hsz t \<le> 65536 \<Longrightarrow> nat (65536 - hsz t) < k \<Longrightarrow> map_add_elem key u True M x = (r, fr, M') \<Longrightarrow>
    \<exists>t'. hash_add k cmp hash ent mem u t x = Some (r, fr, t') \<and> hash_rep hash key t' M' \<and> hsz t \<le> hsz t' \<and> hsz t' \<le> 65536 \<and> grow t' = grow t"
proof (induction k arbitrary: t M x u r fr M')
  case (Suc k)
  note rep = Suc.prems(1)
  show ?case
  proof (cases "M (key x)")
    case (Some y)
    obtain t' where "hash_add (Suc k) cmp hash ent mem u t x = Some (if u then (False, None, t) else (True, Some y, t'))"
      "hash_rep hash key t' (M(key x \<mapsto> x))" "grow t' = grow t" "hsz t' = hsz t" using add_found [OF rep Some] by blast
    then show ?thesis using Suc.prems Some by (cases u) (auto simp: map_add_elem_def simp del: hash_add.simps)
  next
    case None
    define b where "b = (tab t ! hash_slot hash t x)\<lparr>chain := x # chain (tab t ! hash_slot hash t x), blen := blen (tab t ! hash_slot hash t x) + 1\<rparr>"
    define t1 where "t1 = t\<lparr>tab := (tab t)[hash_slot hash t x := b]\<rparr>"
    have r1: "hash_rep hash key t1 (M(key x \<mapsto> x))" unfolding t1_def b_def by (rule add_new [OF rep None refl])
    have h1: "hsz t1 = hsz t" "grow t1 = grow t" by (simp_all add: t1_def)
    have "\<exists>t'. might_resize (hash_add k cmp hash ent mem True) mem t1 (blen b) = Some t' \<and> hash_rep hash key t' (M(key x \<mapsto> x)) \<and>
      hsz t1 \<le> hsz t' \<and> hsz t' \<le> 65536 \<and> grow t' = grow t1"
    proof (rule resize_ok [OF r1 mem])
      show "hsz t1 \<le> 65536" using Suc.prems(2) h1 by simp
      fix nt :: "'a hashtab" and N y
      assume nt: "hash_rep hash key nt N" "hsz t1 < hsz nt \<and> hsz nt \<le> 65536" "N (key y) = None"
      have "nat (65536 - hsz nt) < k" using Suc.prems(3) nt(2) h1 by linarith
      moreover have "map_add_elem key True True N y = (True, None, N(key y \<mapsto> y))" using nt(3) by (simp add: map_add_elem_def)
      ultimately obtain nt' where "hash_add k cmp hash ent mem True nt y = Some (True, None, nt')" "hash_rep hash key nt' (N(key y \<mapsto> y))"
        "hsz nt \<le> hsz nt'" "hsz nt' \<le> 65536" using Suc.IH [OF nt(1) conjunct2 [OF nt(2)]] by blast
      then show "\<exists>r fr nt'. hash_add k cmp hash ent mem True nt y = Some (r, fr, nt') \<and> hash_rep hash key nt' (N(key y \<mapsto> y)) \<and> hsz t1 < hsz nt' \<and> hsz nt' \<le> 65536"
        using nt(2) by (intro exI [of _ True] exI [of _ None] exI [of _ nt']) simp
    qed
    then obtain t' where t': "might_resize (hash_add k cmp hash ent mem True) mem t1 (blen b) = Some t'" "hash_rep hash key t' (M(key x \<mapsto> x))"
      "hsz t1 \<le> hsz t'" "hsz t' \<le> 65536" "grow t' = grow t1" by blast
    have s: "hash_search cmp hash t x = Some None" using search_ok' [OF rep, of x] None by simp
    note bk = bucket_at_slot [OF rep_inv [OF rep], of x]
    have "hash_add (Suc k) cmp hash ent mem u t x = Some (True, None, if grow t then t' else t1)"
      using s bk ent t'(1) by (simp add: b_def [symmetric] t1_def [symmetric] h1 Let_def)
    then show ?thesis using Suc.prems(2,4) None t' r1 h1 by (auto simp: map_add_elem_def simp del: hash_add.simps)
  qed
qed simp

end

section \<open>Histories\<close>

text \<open>
  The operations on a table without \<open>HASHTAB_GROW\<close>, as all tables of the server are. The flag of an
  adding operation tells whether its entry can be allocated.
\<close>

datatype 'a hash_op = HAdd 'a bool | HAddReplace 'a bool | HDel 'a | HSearch 'a

datatype 'a hash_res = Added bool "'a option" | Deleted int "'a option" | Found "'a option"

fun hash_exec :: "('a \<Rightarrow> 'a \<Rightarrow> int) \<Rightarrow> ('a \<Rightarrow> u32) \<Rightarrow> 'a hash_op \<Rightarrow> 'a hashtab \<Rightarrow> ('a hash_res \<times> 'a hashtab) option" where
  "hash_exec cmp hash (HAdd x e) t = do {
     (r, fr, t) \<leftarrow> hashtabadd 1 cmp hash (\<lambda>_ _. e) (\<lambda>_. True) t x; Some (Added r fr, t) }"
| "hash_exec cmp hash (HAddReplace x e) t = do {
     (r, fr, t) \<leftarrow> hashtabaddreplace 1 cmp hash (\<lambda>_ _. e) (\<lambda>_. True) t x; Some (Added r fr, t) }"
| "hash_exec cmp hash (HDel x) t = do { (r, y, t) \<leftarrow> hashtabdel cmp hash t x; Some (Deleted r y, t) }"
| "hash_exec cmp hash (HSearch x) t = do { y \<leftarrow> hashtabsearch cmp hash t x; Some (Found y, t) }"

fun map_op :: "('a \<Rightarrow> 'k) \<Rightarrow> 'a hash_op \<Rightarrow> ('k \<rightharpoonup> 'a) \<Rightarrow> ('a hash_res \<times> ('k \<rightharpoonup> 'a)) option" where
  "map_op key (HAdd x e) M = (let (r, fr, M) = map_add_elem key True e M x in Some (Added r fr, M))"
| "map_op key (HAddReplace x e) M = (let (r, fr, M) = map_add_elem key False e M x in Some (Added r fr, M))"
| "map_op key (HDel x) M = Some (Deleted (if M (key x) = None then - 1 else 0) (M (key x)), M(key x := None))"
| "map_op key (HSearch x) M = Some (Found (M (key x)), M)"

sublocale hash_keys \<subseteq> tables: simulation "\<lambda>t M. hash_rep hash key t M \<and> \<not> grow t" "hash_exec cmp hash" "map_op key"
proof unfold_locales
  fix t M p r M'
  assume rep: "hash_rep hash key t M \<and> \<not> grow t" and sp: "map_op key p M = Some (r, M')"
  show "\<exists>t'. hash_exec cmp hash p t = Some (r, t') \<and> (hash_rep hash key t' M' \<and> \<not> grow t')"
  proof (cases p)
    case (HAdd x e)
    obtain b fr where m: "map_add_elem key True e M x = (b, fr, M')" "r = Added b fr"
      using sp HAdd by (auto split: prod.splits)
    from add_fixed [of t M True "\<lambda>_ _. e" x b fr M' 0 "\<lambda>_. True"] rep m
    show ?thesis using HAdd by (auto simp: hashtabadd_def simp del: hash_add.simps)
  next
    case (HAddReplace x e)
    obtain b fr where m: "map_add_elem key False e M x = (b, fr, M')" "r = Added b fr"
      using sp HAddReplace by (auto split: prod.splits)
    from add_fixed [of t M False "\<lambda>_ _. e" x b fr M' 0 "\<lambda>_. True"] rep m
    show ?thesis using HAddReplace by (auto simp: hashtabaddreplace_def simp del: hash_add.simps)
  next
    case (HDel x)
    then show ?thesis using del_ok [of t M x] rep sp by auto
  next
    case (HSearch x)
    then show ?thesis using search_ok [of t M x] rep sp by auto
  qed
qed

context hash_keys
begin

lemma history_ok:
  assumes "hash_rep hash key t M" "\<not> grow t" "run_ops (map_op key) ops M = Some (rs, M')"
  shows "\<exists>t'. run_ops (hash_exec cmp hash) ops t = Some (rs, t') \<and> hash_rep hash key t' M'"
  using tables.run_refines [of t M ops rs M'] assms by blast

end

lemma foreach_collect: "foreach_loop (\<lambda>x acc. (False, acc @ [x])) xs ys = ys @ xs"
  by (induction xs arbitrary: ys) auto

text \<open>
  C8: on a new table, with a comparison and a hash function that agree on a key, every sequence of
  additions, replacements, deletions and searches returns what the same operations return on a
  finite map from keys to elements; failed allocations of an entry are reported and change nothing.
  Afterwards a search finds exactly the elements of the map and \<open>hashtabforeach\<close> visits each of
  them once.
\<close>

theorem hash_history_refines:
  assumes "hash_keys cmp hash key" and "sz > 0" and "run_ops (map_op key) ops Map.empty = Some (rs, M)"
  shows "\<exists>t t'. hashtabnew (\<lambda>_. True) sz = Some (Some t) \<and> run_ops (hash_exec cmp hash) ops t = Some (rs, t') \<and>
    (\<forall>x. hashtabsearch cmp hash t' x = Some (M (key x))) \<and>
    distinct (hashtabforeach t' (\<lambda>x acc. (False, acc @ [x])) []) \<and>
    set (hashtabforeach t' (\<lambda>x acc. (False, acc @ [x])) []) = ran M"
proof -
  let ?t = "\<lparr>grow = False, hsz = sz, maxbucketlen = HASHTAB_MAX_BUCKET_LEN, tab = replicate (nat sz) \<lparr>chain = [], blen = 0\<rparr>\<rparr>"
  have new: "hashtabnew (\<lambda>_. True) sz = Some (Some ?t)" using assms(2) by (simp add: hashtabnew_def hashtabnewf_def)
  have i: "hash_rep hash key ?t Map.empty \<and> \<not> grow ?t"
    using hash_keys.new_rep [OF assms(1) new [unfolded hashtabnew_def]] assms(2) by simp
  obtain t' where t': "run_ops (hash_exec cmp hash) ops ?t = Some (rs, t')" "hash_rep hash key t' M"
    using hash_keys.history_ok [OF assms(1) _ _ assms(3), of ?t] i by blast
  have "hmem t' = ran M" using t'(2) by (auto simp: hash_rep_def ran_def)
  then show ?thesis
    using new t' hash_keys.search_ok [OF assms(1) t'(2)] hash_inv_distinct [OF hash_keys.rep_inv [OF assms(1) t'(2)]] set_buckets [of t']
    by (auto simp: hashtabforeach_def foreach_collect)
qed

theorem hash_history_refines_witness:
  "\<exists>t t'. hashtabnew (\<lambda>_. True) 3 = Some (Some t) \<and>
    run_ops (hash_exec (\<lambda>x y. fst x - fst y) (\<lambda>x. word_of_int (fst x)))
      [HAdd (1, 10) True, HAdd (4, 40) True, HAdd (1, 11) True, HAddReplace (4, 41) True, HAdd (7, 70) False,
       HDel (1 :: int, 0 :: int), HDel (1, 0), HSearch (4, 0)] t =
      Some ([Added True None, Added True None, Added False None, Added True (Some (4, 40)), Added False None,
        Deleted 0 (Some (1, 10)), Deleted (- 1) None, Found (Some (4, 41))], t') \<and>
    (\<forall>x. hashtabsearch (\<lambda>x y. fst x - fst y) (\<lambda>x. word_of_int (fst x)) t' x = Some ([4 :: int \<mapsto> (4, 41)] (fst x))) \<and>
    distinct (hashtabforeach t' (\<lambda>x acc. (False, acc @ [x])) []) \<and>
    set (hashtabforeach t' (\<lambda>x acc. (False, acc @ [x])) []) = ran [4 :: int \<mapsto> (4 :: int, 41 :: int)]"
proof (rule hash_history_refines)
  show "hash_keys (\<lambda>x y. fst x - fst y) (\<lambda>x. word_of_int (fst x)) (fst :: int \<times> int \<Rightarrow> int)" by unfold_locales auto
  show "run_ops (map_op fst) [HAdd (1, 10) True, HAdd (4, 40) True, HAdd (1, 11) True, HAddReplace (4, 41) True, HAdd (7, 70) False,
       HDel (1, 0), HDel (1, 0), HSearch (4, 0)] Map.empty = Some ([Added True None, Added True None, Added False None, Added True (Some (4, 40)), Added False None,
        Deleted 0 (Some (1, 10)), Deleted (- 1) None, Found (Some (4, 41))], [4 :: int \<mapsto> (4 :: int, 41 :: int)])"
    by (simp add: map_add_elem_def fun_upd_def fun_eq_iff)
qed simp

section \<open>Growing tables\<close>




text \<open>A growing table whose elements are all in one bucket.\<close>

definition one_bucket :: "u32 \<Rightarrow> int \<Rightarrow> 'a list \<Rightarrow> int \<Rightarrow> 'a hashtab" where
  "one_bucket h p xs n = \<lparr>grow = True, hsz = p, maxbucketlen = HASHTAB_MAX_BUCKET_LEN,
     tab = (replicate (nat p) \<lparr>chain = [], blen = 0\<rparr>)[nat (uint h mod p) := \<lparr>chain = xs, blen = n\<rparr>]\<rparr>"

lemma one_bucket_new:
  assumes "p > 0"
  shows "hashtabnewf mem p True = Some (if mem p then Some (one_bucket h p [] 0) else None)"
proof -
  have "(replicate m b)[i := b] = replicate m b" for m i and b :: "'a ht_bucket"
    by (cases "i < m") (auto intro!: nth_equalityI simp: nth_list_update)
  then show ?thesis using assms by (simp add: hashtabnewf_def one_bucket_def)
qed

lemma one_bucket_slot [simp]: "hash_slot hash (one_bucket h p xs n) x = nat (uint (hash x) mod p)"
  by (simp add: hash_slot_def one_bucket_def)

lemma one_bucket_at: "p > 0 \<Longrightarrow> bucket_at (one_bucket h p xs n) (nat (uint h mod p)) = Some \<lparr>chain = xs, blen = n\<rparr>"
  by (simp add: bucket_at_def one_bucket_def nat_less_iff)

lemma one_bucket_update: "(one_bucket h p xs n)\<lparr>tab := (tab (one_bucket h p xs n))[nat (uint h mod p) := \<lparr>chain = ys, blen = m\<rparr>]\<rparr> = one_bucket h p ys m"
  by (simp add: one_bucket_def)

lemma one_bucket_fields [simp]: "grow (one_bucket h p xs n)" "hsz (one_bucket h p xs n) = p" "maxbucketlen (one_bucket h p xs n) = 20"
  by (simp_all add: one_bucket_def HASHTAB_MAX_BUCKET_LEN_def)

lemma one_bucket_elems: "p > 0 \<Longrightarrow> concat (map chain (tab (one_bucket h p xs n))) = xs"
proof -
  assume p: "p > 0"
  have "nat (uint h mod p) < nat p" using p by (simp add: nat_less_iff)
  then show ?thesis by (simp add: one_bucket_def map_update list_update_append upd_conv_take_nth_drop)
qed

lemma one_bucket_add:
  assumes "p > 0" "hash x = h" "\<forall>y \<in> set xs. cmp x y \<noteq> 0" "\<forall>n. ent x n"
  shows "hash_add (Suc k) cmp hash ent mem u (one_bucket h p xs n) x =
    map_option (\<lambda>t. (True, None, t)) (might_resize (hash_add k cmp hash ent mem True) mem (one_bucket h p (x # xs) (n + 1)) (n + 1))"
proof -
  have "find (\<lambda>y. cmp x y = 0) xs = None" using assms(3) by (simp add: find_None_iff)
  then have s: "hash_search cmp hash (one_bucket h p xs n) x = Some None" using assms one_bucket_at [OF assms(1), of h xs n] by (simp add: hash_search_def)
  show ?thesis using s assms(2,4) one_bucket_at [OF assms(1), of h xs n] one_bucket_update [of h p xs n "x # xs" "n + 1"]
    by (cases "might_resize (hash_add k cmp hash ent mem True) mem (one_bucket h p (x # xs) (n + 1)) (n + 1)") (auto simp: Let_def)
qed

lemma one_bucket_inv: 
  assumes "p > 0" "distinct xs" "\<forall>x \<in> set xs. hash x = h" "int (length xs) \<le> n"
  shows "hash_inv hash (one_bucket h p xs n)"
  using assms by (auto simp: hash_inv_def one_bucket_def hash_slot_def nth_list_update nat_less_iff split: if_splits)





definition cycle :: "('a \<Rightarrow> 'a \<Rightarrow> int) \<Rightarrow> ('a \<Rightarrow> u32) \<Rightarrow> 'a \<Rightarrow> 'a hashtab \<Rightarrow> 'a hashtab option" where
  "cycle cmp hash x t = do {
     (_, _, t) \<leftarrow> hashtabadd 2 cmp hash (\<lambda>_ _. True) (\<lambda>_. True) t x;
     (_, _, t) \<leftarrow> hashtabdel cmp hash t x;
     Some t }"

lemma cycle_once:
  assumes "p > 0" "cmp x x = 0" "n < 20"
  shows "cycle cmp hash x (one_bucket (hash x) p [] n) = Some (one_bucket (hash x) p [] (n + 1))"
proof -
  have "might_resize f (\<lambda>_. True) (one_bucket (hash x) p [x] (n + 1)) (n + 1) = Some (one_bucket (hash x) p [x] (n + 1))" for f
    using assms(3) by (simp add: might_resize_def)
  then have a: "hash_add 2 cmp hash (\<lambda>_ _. True) (\<lambda>_. True) True (one_bucket (hash x) p [] n) x = Some (True, None, one_bucket (hash x) p [x] (n + 1))"
    using one_bucket_add [of p hash x "hash x" "[]" cmp "\<lambda>_ _. True" 1 "\<lambda>_. True" True n] assms(1) by (simp add: numeral_2_eq_2)
  have "hashtabdel cmp hash (one_bucket (hash x) p [x] (n + 1)) x = Some (0, Some x, one_bucket (hash x) p [] (n + 1))"
    using assms(2) one_bucket_at [OF assms(1), of "hash x" "[x]" "n + 1"] one_bucket_update [of "hash x" p "[x]" "n + 1" "[]" "n + 1"]
    by (simp add: hashtabdel_def hash_search_def)
  with a show ?thesis by (simp add: cycle_def hashtabadd_def del: hash_add.simps)
qed

lemma cycles:
  assumes "p > 0" "cmp x x = 0"
  shows "k \<le> 20 \<Longrightarrow> ((\<lambda>t. Option.bind t (cycle cmp hash x)) ^^ k) (Some (one_bucket (hash x) p [] 0)) = Some (one_bucket (hash x) p [] (int k))"
proof (induction k)
  case (Suc k)
  then show ?case using cycle_once [of p cmp x "int k" hash] assms by (simp add: add.commute)
qed simp

text \<open>
  C32: \<open>_hashtabdel\<close> does not decrement the length of the bucket, which is the number a growing table
  looks at. Adding and deleting one element twenty times leaves an empty table of 17 buckets; adding
  the same element once more makes a table of 37 buckets for this single element.
\<close>

theorem hash_spurious_growth:
  assumes x: "cmp x x = 0"
  shows "\<exists>t t' t''. hashtabnewf (\<lambda>_. True) 0 True = Some (Some t) \<and>
    ((\<lambda>t. Option.bind t (cycle cmp hash x)) ^^ 20) (Some t) = Some t' \<and> hmem t' = {} \<and> hsz t' = 17 \<and>
    hashtabadd 2 cmp hash (\<lambda>_ _. True) (\<lambda>_. True) t' x = Some (True, None, t'') \<and> hmem t'' = {x} \<and> hsz t'' = 37"
proof -
  let ?t = "\<lambda>n. one_bucket (hash x) 17 [] n" and ?u = "one_bucket (hash x) 37 [x] 1"
  have new: "hashtabnewf (\<lambda>_. True) 0 True = Some (Some (?t 0))"
    using one_bucket_new [of 17 "\<lambda>_. True" "hash x"] by (simp add: hashtabnewf_def HASHTAB_INITAL_SIZE_def)
  have inv: "hash_inv hash (one_bucket (hash x) 17 [x] 21)" by (rule one_bucket_inv) auto
  have prime: "arlautil_findprime (hsz (one_bucket (hash x) 17 [x] 21) * 2) = Some 37" unfolding one_bucket_fields by code_simp
  have "hash_add (Suc 0) cmp hash (\<lambda>_ _. True) (\<lambda>_. True) True (one_bucket (hash x) 37 [] 0) x = Some (True, None, ?u)"
    using one_bucket_add [of 37 hash x "hash x" "[]" cmp "\<lambda>_ _. True" 0 "\<lambda>_. True" True 0] by (simp add: might_resize_def)
  then have "might_resize (hash_add (Suc 0) cmp hash (\<lambda>_ _. True) (\<lambda>_. True) True) (\<lambda>_. True) (one_bucket (hash x) 17 [x] 21) 21 =
    Some ((one_bucket (hash x) 17 [x] 21)\<lparr>tab := tab ?u, hsz := 37\<rparr>)"
    using resize_is_fold [OF inv _ _ prime, of 21 "\<lambda>_. True" "one_bucket (hash x) 37 [] 0" "hash_add (Suc 0) cmp hash (\<lambda>_ _. True) (\<lambda>_. True) True"] one_bucket_new [of 37 "\<lambda>_. True" "hash x"]
      one_bucket_elems [of 17 "hash x" "[x]" 21] by (simp add: INT_MAX_def del: hash_add.simps)
  then have add: "hashtabadd 2 cmp hash (\<lambda>_ _. True) (\<lambda>_. True) (?t 20) x = Some (True, None, (one_bucket (hash x) 17 [x] 21)\<lparr>tab := tab ?u, hsz := 37\<rparr>)"
    using one_bucket_add [of 17 hash x "hash x" "[]" cmp "\<lambda>_ _. True" "Suc 0" "\<lambda>_. True" True 20]
    by (simp add: hashtabadd_def numeral_2_eq_2 del: hash_add.simps)
  have "hmem (?t 20) = {}" "hmem ?u = {x}" using one_bucket_elems [of 17 "hash x" "[]" 20] one_bucket_elems [of 37 "hash x" "[x]" 1]
    by (simp_all add: set_buckets [symmetric] del: set_concat)
  then show ?thesis using new cycles [of 17 cmp x 20 hash] x add
    by (intro exI [of _ "?t 0"] exI [of _ "?t 20"] exI [of _ "(one_bucket (hash x) 17 [x] 21)\<lparr>tab := tab ?u, hsz := 37\<rparr>"]) (simp add: hmem_def)
qed

theorem hash_spurious_growth_witness:
  "\<exists>t t' t''. hashtabnewf (\<lambda>_. True) 0 True = Some (Some t) \<and>
    ((\<lambda>t. Option.bind t (cycle (-) word_of_int 5)) ^^ 20) (Some t) = Some t' \<and> hmem t' = {} \<and> hsz t' = 17 \<and>
    hashtabadd 2 (-) word_of_int (\<lambda>_ _. True) (\<lambda>_. True) t' 5 = Some (True, None, t'') \<and> hmem t'' = {5 :: int} \<and> hsz t'' = 37"
  by (rule hash_spurious_growth) simp

section \<open>Hash functions on strings\<close>






section \<open>Tables as sets of elements with different keys\<close>

text \<open>The view of a client that knows which elements its table holds.\<close>

definition hash_set :: "('a \<Rightarrow> u32) \<Rightarrow> ('a \<Rightarrow> 'k) \<Rightarrow> 'a hashtab \<Rightarrow> 'a set \<Rightarrow> bool" where
  "hash_set hash key t S \<longleftrightarrow> hash_inv hash t \<and> \<not> grow t \<and> hmem t = S \<and> inj_on key S"

lemma hash_set_cong:
  assumes "hash_set hash key t S" and "\<forall>x \<in> S. hash' x = hash x \<and> key' x = key x"
  shows "hash_set hash' key' t S"
proof -
  have inv: "hash_inv hash t" and S: "hmem t = S" using assms(1) by (auto simp: hash_set_def)
  have "hash_slot hash' t x = i" if "i < length (tab t)" "x \<in> set (chain (tab t ! i))" for i x
  proof -
    have "x \<in> S" using that S unfolding hmem_def by (meson UN_I nth_mem)
    then have "hash_slot hash' t x = hash_slot hash t x" using assms(2) by (simp add: hash_slot_def)
    then show ?thesis using inv that by (simp add: hash_inv_def)
  qed
  then have "hash_inv hash' t" using inv by (simp add: hash_inv_def)
  moreover have "inj_on key' S" using assms inj_on_cong [of S key' key] by (simp add: hash_set_def)
  ultimately show ?thesis using assms(1) by (simp add: hash_set_def)
qed

text \<open>The map from keys to elements.\<close>

definition set_map :: "('a \<Rightarrow> 'k) \<Rightarrow> 'a set \<Rightarrow> 'k \<rightharpoonup> 'a" where
  "set_map key S = (\<lambda>k. if k \<in> key ` S then Some (the_inv_into S key k) else None)"

lemma set_map_iff:
  assumes "inj_on key S"
  shows "set_map key S k = Some y \<longleftrightarrow> y \<in> S \<and> key y = k"
proof (cases "k \<in> key ` S")
  case True
  then obtain z where z: "z \<in> S" "key z = k" by auto
  then have "the_inv_into S key k = z" using the_inv_into_f_f [OF assms z(1)] by simp
  then show ?thesis using True z inj_onD [OF assms, of y z] by (auto simp: set_map_def)
qed (auto simp: set_map_def)

lemma set_map_None: "set_map key S k = None \<longleftrightarrow> (\<forall>y \<in> S. key y \<noteq> k)"
  by (auto simp: set_map_def)

lemma ran_set_map: "inj_on key S \<Longrightarrow> ran (set_map key S) = S"
  using set_map_iff [of key S] by (auto simp: ran_def)

lemma chain_hmem: "bucket_at t i = Some b \<Longrightarrow> y \<in> set (chain b) \<Longrightarrow> y \<in> hmem t"
  unfolding bucket_at_def hmem_def by (auto split: if_splits)

text \<open>An operation compares its argument with the elements of the table only.\<close>

lemma hash_ops_cong:
  assumes "\<forall>y \<in> hmem t. cmp x y = 0 \<longleftrightarrow> cmp' x y = 0"
  shows "hashtabsearch cmp hash t x = hashtabsearch cmp' hash t x"
    and "hashtabdel cmp hash t x = hashtabdel cmp' hash t x"
    and "\<not> grow t \<Longrightarrow> hashtabadd (Suc k) cmp hash ent mem t x = hashtabadd (Suc k) cmp' hash ent mem t x"
proof -
  have c: "find (\<lambda>y. cmp x y = 0) (chain b) = find (\<lambda>y. cmp' x y = 0) (chain b)"
    "takeWhile (\<lambda>y. cmp x y \<noteq> 0) (chain b) = takeWhile (\<lambda>y. cmp' x y \<noteq> 0) (chain b)"
    "dropWhile (\<lambda>y. cmp x y \<noteq> 0) (chain b) = dropWhile (\<lambda>y. cmp' x y \<noteq> 0) (chain b)"
    if "bucket_at t i = Some b" for i b
    using assms chain_hmem [OF that] by (auto intro!: find_cong takeWhile_cong dropWhile_cong)
  then have s: "hash_search cmp hash t x = hash_search cmp' hash t x"
    by (cases "bucket_at t (hash_slot hash t x)") (simp_all add: hash_search_def)
  show "hashtabsearch cmp hash t x = hashtabsearch cmp' hash t x" using s by (simp add: hashtabsearch_def)
  show "hashtabdel cmp hash t x = hashtabdel cmp' hash t x"
  proof (cases "bucket_at t (hash_slot hash t x)")
    case (Some b)
    show ?thesis unfolding hashtabdel_def Let_def s Some Option.bind.simps c(2,3) [OF Some] by (rule refl)
  qed (simp add: hashtabdel_def s)
  show "\<not> grow t \<Longrightarrow> hashtabadd (Suc k) cmp hash ent mem t x = hashtabadd (Suc k) cmp' hash ent mem t x"
  proof (cases "bucket_at t (hash_slot hash t x)")
    case (Some b)
    assume "\<not> grow t"
    then show ?thesis unfolding hashtabadd_def hash_add.simps Let_def s Some Option.bind.simps c(2,3) [OF Some] by simp
  qed (simp add: hashtabadd_def s)
qed

context hash_keys
begin

lemma set_rep:
  assumes "hash_set hash key t S"
  shows "hash_rep hash key t (set_map key S)"
  using assms set_map_iff [of key S] by (auto simp: hash_set_def hash_rep_def)

lemma rep_set:
  assumes "hash_rep hash key t M" "\<not> grow t"
  shows "hash_set hash key t (ran M)"
proof -
  have M: "M k = Some y \<longleftrightarrow> y \<in> hmem t \<and> key y = k" for k y using assms by (simp add: hash_rep_def)
  have "hmem t = ran M" using M by (auto simp: ran_def)
  moreover have "inj_on key (ran M)" by (rule inj_onI) (metis M calculation option.inject)
  ultimately show ?thesis using assms by (simp add: hash_set_def hash_rep_def)
qed

lemma set_search_hit:
  "hash_set hash key t S \<Longrightarrow> y \<in> S \<Longrightarrow> key y = key x \<Longrightarrow> hashtabsearch cmp hash t x = Some (Some y)"
  using search_ok [OF set_rep, of t S x] set_map_iff [of key S "key x" y] by (simp add: hash_set_def)

lemma set_search_miss:
  "hash_set hash key t S \<Longrightarrow> \<forall>y \<in> S. key y \<noteq> key x \<Longrightarrow> hashtabsearch cmp hash t x = Some None"
  using search_ok [OF set_rep, of t S x] set_map_None [of key S "key x"] by simp

lemma set_add:
  assumes "hash_set hash key t S" "\<forall>y \<in> S. key y \<noteq> key x"
  shows "\<exists>t'. hashtabadd (Suc k) cmp hash (\<lambda>_ _. True) mem t x = Some (True, None, t') \<and> hash_set hash key t' (insert x S)"
proof -
  let ?M = "set_map key S"
  have g: "\<not> grow t" and inj: "inj_on key S" using assms(1) by (auto simp: hash_set_def)
  have n: "?M (key x) = None" using assms(2) by (simp add: set_map_None)
  have "map_add_elem key True True ?M x = (True, None, ?M(key x \<mapsto> x))" using n by (simp add: map_add_elem_def)
  from add_fixed [OF set_rep [OF assms(1)] g, of True "\<lambda>_ _. True", OF this] obtain t' where
    t': "hash_add (Suc k) cmp hash (\<lambda>_ _. True) mem True t x = Some (True, None, t')" "hash_rep hash key t' (?M(key x \<mapsto> x))" "\<not> grow t'" by blast
  have "ran (?M(key x \<mapsto> x)) = insert x S" using ran_map_upd [of ?M "key x" x] n ran_set_map [OF inj] by simp
  then show ?thesis using rep_set [OF t'(2,3)] t'(1) by (auto simp: hashtabadd_def simp del: hash_add.simps)
qed

lemma set_del:
  assumes "hash_set hash key t S" "y \<in> S" "key y = key x"
  shows "\<exists>t'. hashtabdel cmp hash t x = Some (0, Some y, t') \<and> hash_set hash key t' (S - {y})"
proof -
  let ?M = "set_map key S"
  have g: "\<not> grow t" and inj: "inj_on key S" using assms(1) by (auto simp: hash_set_def)
  have y: "?M (key x) = Some y" using assms(2,3) set_map_iff [OF inj] by simp
  obtain t' where t': "hashtabdel cmp hash t x = Some (0, Some y, t')" "hash_rep hash key t' (?M(key x := None))" "grow t' = grow t"
    using del_ok [OF set_rep [OF assms(1)], of x] y by auto
  have "ran (?M(key x := None)) = S - {y}"
  proof -
    have "z \<in> ran (?M(key x := None)) \<longleftrightarrow> z \<in> S \<and> key z \<noteq> key x" for z
      using set_map_iff [OF inj] by (auto simp: ran_def)
    moreover have "key z \<noteq> key x \<longleftrightarrow> z \<noteq> y" if "z \<in> S" for z using inj_onD [OF inj, of z y] that assms(2,3) by auto
    ultimately show ?thesis by auto
  qed
  then show ?thesis using rep_set [OF t'(2)] t'(1,3) g by auto
qed

end

lemma new_set:
  assumes "hashtabnew mem sz = Some (Some t)"
  shows "hash_set hash key t {}"
proof -
  have sz: "sz > 0" and t: "t = \<lparr>grow = False, hsz = sz, maxbucketlen = HASHTAB_MAX_BUCKET_LEN, tab = replicate (nat sz) \<lparr>chain = [], blen = 0\<rparr>\<rparr>"
    using assms by (auto simp: hashtabnew_def hashtabnewf_def cassert_def bind_eq_Some_conv split: if_splits)
  show ?thesis using sz by (auto simp: t hash_set_def hash_inv_def hmem_def)
qed

end
