(* ===== verification/Ropa.thy ===== *)
theory Ropa
  imports Util_List Util_Hash Util_Heap
begin

text \<open>
  The callback database of the file server: \<open>milko/lib/ropa/ropa.c\<close>.

  A client that fetches a file gets a promise (a callback) that the server tells it when the file
  changes. A \<open>ropa_cb\<close> is a fid with outstanding promises, a \<open>ropa_client\<close> a cache manager, and a
  \<open>ropa_ccpair\<close> one promise to one client. The objects are in three arrays and on three lists in
  the order of their last use; hash tables find clients by address and by UUID, callbacks by fid
  and promises by client and callback; a heap orders the promises by the time they expire.

  The model: an object is its index. A list is the sequence of its items, a pair of the address of
  the item and the index of the object, as \<open>Util_List\<close> shows for the operations of \<open>list.c\<close>; a
  pointer to an item is its address, 0 the null pointer; deleting an item that is not on the list
  (a pointer to freed memory) is \<^const>\<open>None\<close>. Hash tables and the heap are those of \<open>Util_Hash\<close>
  and \<open>Util_Heap\<close>; the comparison functions read the objects, so they get the state. A key that
  the code builds on the stack for a search is a constructor of its own.

  The network and the clock are the argument \<open>env\<close>: the results of the remote procedure calls, of
  \<open>rx_NewConnection\<close> and of \<open>gettimeofday\<close> depend on a counter of external calls. Allocation of list
  items and hash entries succeeds. Every entry point runs to its end: the switch to another thread
  that can happen inside a remote procedure call is not modelled.
\<close>

section \<open>Data\<close>

record afs_fid =
  Volume :: u32
  Vnode :: u32
  Unique :: u32

definition AFS_MAX_INTERFACE_ADDR :: nat where "AFS_MAX_INTERFACE_ADDR = 32"
definition AFSCBMAX :: nat where "AFSCBMAX = 50"
definition ROPA_MTU :: int where "ROPA_MTU = 1500"
definition DEFAULT_TIMEOUT :: int where "DEFAULT_TIMEOUT = 600"
definition RXGEN_OPCODE :: int where "RXGEN_OPCODE = - 455"
definition RX_CALL_DEAD :: int where "RX_CALL_DEAD = - 1"
definition ENETDOWN :: int where "ENETDOWN = 100"
definition CBSHARED :: int where "CBSHARED = 2"
definition CBDROPPED :: int where "CBDROPPED = 3"
definition CALLBACK_VERSION :: int where "CALLBACK_VERSION = 1"

record ropa_addr =
  addr_c :: "nat option"
  addr_in :: u32
  subnetmask :: u32
  mtu :: int

datatype ropa_state = ROPAC_FREE | ROPAC_LOOKUP_U | ROPAC_LOOKUP | ROPAC_DEAD | ROPAC_PLAIN | ROPAC_UUID

text \<open>A connection to the address it was made for, or a pointer to a destroyed one.\<close>

datatype rx_conn = NoConn | Conn u32 u16 | Destroyed

text \<open>Of a UUID only the six bytes of \<open>node\<close> are ever looked at.\<close>

record ropa_client =
  cstate :: ropa_state
  flookup :: bool
  fwaiting :: bool
  numberOfInterfaces :: nat
  uuid :: bytes
  addr :: "ropa_addr list"
  port :: u16
  conn :: rx_conn
  callbacks :: "(nat \<times> nat) list"
  cref :: int
  cli :: nat

record ropa_ccpair =
  client :: "nat option"
  cc_cb :: "nat option"
  cb_li :: nat
  expire :: int
  ccli :: nat

record ropa_cb =
  fid :: afs_fid
  ccpairs :: "(nat \<times> nat) list"
  cbref :: int
  cbli :: nat

datatype addr_ref = Addr nat nat | AddrKey u32 u16
datatype client_ref = Cli nat | UuidKey bytes
datatype cb_ref = Cb nat | FidKey afs_fid
datatype cc_ref = Cc nat | CcKey nat nat

record interfaceAddr =
  ifNumber :: nat
  ifUuid :: bytes
  ifAddr :: "(u32 \<times> u32 \<times> int) list"

text \<open>What the server did on the network: a callback message to an address, and its result.\<close>

datatype ropa_event = CallBackRPC u32 u16 "afs_fid list" int | WhoAreYouRPC u32 u16 | InitRPC u32 u16

record ropa_env =
  client_ptr :: "nat \<Rightarrow> u32"
  now :: "nat \<Rightarrow> int"
  rpc_callback :: "nat \<Rightarrow> int"
  rpc_who :: "nat \<Rightarrow> int \<times> interfaceAddr"
  rpc_init :: "nat \<Rightarrow> int"
  conn_ok :: "nat \<Rightarrow> bool"

record ropa =
  clients :: "nat \<Rightarrow> ropa_client"
  cbs :: "nat \<Rightarrow> ropa_cb"
  ccs :: "nat \<Rightarrow> ropa_ccpair"
  ht_clients_ip :: "addr_ref hashtab"
  ht_clients_uuid :: "client_ref hashtab"
  ht_callbacks :: "cb_ref hashtab"
  ht_ccpairs :: "cc_ref hashtab"
  lru_clients :: "(nat \<times> nat) list"
  lru_ccpair :: "(nat \<times> nat) list"
  lru_callback :: "(nat \<times> nat) list"
  heap_ccpairs :: "nat heap"
  num_clients :: nat
  num_callbacks :: nat
  num_ccpair :: nat
  nitems :: nat
  ncalls :: nat
  sent :: "ropa_event list"

abbreviation upd_client :: "nat \<Rightarrow> (ropa_client \<Rightarrow> ropa_client) \<Rightarrow> ropa \<Rightarrow> ropa" where
  "upd_client c f st \<equiv> st\<lparr>clients := (clients st)(c := f (clients st c))\<rparr>"

abbreviation upd_cb :: "nat \<Rightarrow> (ropa_cb \<Rightarrow> ropa_cb) \<Rightarrow> ropa \<Rightarrow> ropa" where
  "upd_cb b f st \<equiv> st\<lparr>cbs := (cbs st)(b := f (cbs st b))\<rparr>"

abbreviation upd_cc :: "nat \<Rightarrow> (ropa_ccpair \<Rightarrow> ropa_ccpair) \<Rightarrow> ropa \<Rightarrow> ropa" where
  "upd_cc k f st \<equiv> st\<lparr>ccs := (ccs st)(k := f (ccs st k))\<rparr>"

section \<open>Comparison and hash functions\<close>

text \<open>\<open>uuid_magic_eq\<close> is a \<open>memcmp\<close>: zero exactly for equal bytes; the sign is not used.\<close>

definition uuid_magic_eq :: "bytes \<Rightarrow> bytes \<Rightarrow> int" where
  "uuid_magic_eq u v = (if take 6 u = take 6 v then 0 else 1)"

text \<open>The client an address belongs to: its addresses in use and its port.\<close>

fun addr_null :: "ropa \<Rightarrow> addr_ref \<Rightarrow> bool" where
  "addr_null st (Addr c i) \<longleftrightarrow> addr_c (addr (clients st c) ! i) = None"
| "addr_null st (AddrKey h p) \<longleftrightarrow> False"

fun addr_faces :: "ropa \<Rightarrow> addr_ref \<Rightarrow> u32 list" where
  "addr_faces st (Addr c i) =
     (case addr_c (addr (clients st c) ! i) of
        None \<Rightarrow> []
      | Some c \<Rightarrow> map addr_in (take (numberOfInterfaces (clients st c)) (addr (clients st c))))"
| "addr_faces st (AddrKey h p) = [h]"

fun addr_port :: "ropa \<Rightarrow> addr_ref \<Rightarrow> u16" where
  "addr_port st (Addr c i) =
     (case addr_c (addr (clients st c) ! i) of None \<Rightarrow> 0 | Some c \<Rightarrow> port (clients st c))"
| "addr_port st (AddrKey h p) = p"

fun addr_addr :: "ropa \<Rightarrow> addr_ref \<Rightarrow> u32" where
  "addr_addr st (Addr c i) = addr_in (addr (clients st c) ! i)"
| "addr_addr st (AddrKey h p) = h"

definition clients_cmp_ip :: "ropa \<Rightarrow> addr_ref \<Rightarrow> addr_ref \<Rightarrow> int" where
  "clients_cmp_ip st p1 p2 =
     (if (\<exists>a \<in> set (addr_faces st p1). \<exists>b \<in> set (addr_faces st p2). a = b \<and> addr_port st p1 = addr_port st p2)
      then 0 else 1)"

definition clients_hash_ip :: "ropa \<Rightarrow> addr_ref \<Rightarrow> u32" where
  "clients_hash_ip st p = addr_addr st p + ucast (addr_port st p)"

fun ref_uuid :: "ropa \<Rightarrow> client_ref \<Rightarrow> bytes" where
  "ref_uuid st (Cli c) = uuid (clients st c)"
| "ref_uuid st (UuidKey u) = u"

definition clients_cmp_uuid :: "ropa \<Rightarrow> client_ref \<Rightarrow> client_ref \<Rightarrow> int" where
  "clients_cmp_uuid st p1 p2 = uuid_magic_eq (ref_uuid st p1) (ref_uuid st p2)"

definition clients_hash_uuid :: "ropa \<Rightarrow> client_ref \<Rightarrow> u32" where
  "clients_hash_uuid st p =
     (let n = (\<lambda>i. scast (ref_uuid st p ! i) :: u32)
      in n 0 + push_bit 6 (n 1) + push_bit 12 (n 2) + push_bit 18 (n 3) + push_bit 24 (n 4) +
         (push_bit 30 (n 5) AND 3))"

fun ref_fid :: "ropa \<Rightarrow> cb_ref \<Rightarrow> afs_fid" where
  "ref_fid st (Cb b) = fid (cbs st b)"
| "ref_fid st (FidKey f) = f"

definition callbacks_cmp :: "ropa \<Rightarrow> cb_ref \<Rightarrow> cb_ref \<Rightarrow> int" where
  "callbacks_cmp st p1 p2 =
     (let f1 = ref_fid st p1; f2 = ref_fid st p2
      in if Volume f1 - Volume f2 \<noteq> 0 \<or> Vnode f1 - Vnode f2 \<noteq> 0 \<or> Unique f1 - Unique f2 \<noteq> 0 then 1 else 0)"

definition callbacks_hash :: "ropa \<Rightarrow> cb_ref \<Rightarrow> u32" where
  "callbacks_hash st p = (let f = ref_fid st p in Volume f + Vnode f + Unique f)"

fun cc_pair :: "ropa \<Rightarrow> cc_ref \<Rightarrow> nat option \<times> nat option" where
  "cc_pair st (Cc k) = (client (ccs st k), cc_cb (ccs st k))"
| "cc_pair st (CcKey c b) = (Some c, Some b)"

definition ccpairs_cmp :: "ropa \<Rightarrow> cc_ref \<Rightarrow> cc_ref \<Rightarrow> int" where
  "ccpairs_cmp st p1 p2 =
     (if snd (cc_pair st p1) \<noteq> snd (cc_pair st p2) \<or> fst (cc_pair st p1) \<noteq> fst (cc_pair st p2) then 1 else 0)"

text \<open>The hash value uses the address of the client; the callback pointer is followed.\<close>

definition ccpairs_hash :: "ropa_env \<Rightarrow> ropa \<Rightarrow> cc_ref \<Rightarrow> u32" where
  "ccpairs_hash env st p =
     (case cc_pair st p of (c, b) \<Rightarrow>
        (case c of None \<Rightarrow> 0 | Some c \<Rightarrow> client_ptr env c) +
        (case b of None \<Rightarrow> 0 | Some b \<Rightarrow> callbacks_hash st (Cb b)))"

definition ccpair_cmp_time :: "ropa \<Rightarrow> nat \<Rightarrow> nat \<Rightarrow> int" where
  "ccpair_cmp_time st k1 k2 = to_int32 (expire (ccs st k1) - expire (ccs st k2))"

text \<open>The hash table operations of this module.\<close>

abbreviation hadd :: "('a \<Rightarrow> 'a \<Rightarrow> int) \<Rightarrow> ('a \<Rightarrow> u32) \<Rightarrow> 'a hashtab \<Rightarrow> 'a \<Rightarrow> (bool \<times> 'a option \<times> 'a hashtab) option" where
  "hadd cmp hash t x \<equiv> hashtabadd 1 cmp hash (\<lambda>_ _. True) (\<lambda>_. True) t x"

text \<open>A search by address follows the client pointer of every entry it passes.\<close>

definition ip_guard :: "ropa \<Rightarrow> addr_ref \<Rightarrow> bool" where
  "ip_guard st x \<longleftrightarrow> \<not> addr_null st x \<and>
     (case bucket_at (ht_clients_ip st) (hash_slot (clients_hash_ip st) (ht_clients_ip st) x) of
        None \<Rightarrow> True
      | Some b \<Rightarrow> list_all (\<lambda>y. \<not> addr_null st y) (takeWhile (\<lambda>y. clients_cmp_ip st x y \<noteq> 0) (chain b)))"

definition ip_search :: "ropa \<Rightarrow> addr_ref \<Rightarrow> addr_ref option option" where
  "ip_search st x = do {
     cassert (ip_guard st x);
     hashtabsearch (clients_cmp_ip st) (clients_hash_ip st) (ht_clients_ip st) x }"

definition ip_add :: "addr_ref \<Rightarrow> ropa \<Rightarrow> ropa option" where
  "ip_add x st = do {
     cassert (ip_guard st x);
     (_, _, t) \<leftarrow> hadd (clients_cmp_ip st) (clients_hash_ip st) (ht_clients_ip st) x;
     Some (st\<lparr>ht_clients_ip := t\<rparr>) }"

definition ip_del :: "addr_ref \<Rightarrow> ropa \<Rightarrow> (int \<times> ropa) option" where
  "ip_del x st = do {
     cassert (ip_guard st x);
     (ret, _, t) \<leftarrow> hashtabdel (clients_cmp_ip st) (clients_hash_ip st) (ht_clients_ip st) x;
     Some (ret, st\<lparr>ht_clients_ip := t\<rparr>) }"

section \<open>Lists\<close>

definition seq_del :: "nat \<Rightarrow> (nat \<times> nat) list \<Rightarrow> (nat \<times> nat) list option" where
  "seq_del a xs = do { (r, ys) \<leftarrow> seq_op (Del a) xs; Some ys }"

definition client_addhead :: "nat \<Rightarrow> ropa \<Rightarrow> ropa" where
  "client_addhead c st =
     (let n = nitems st + 1
      in upd_client c (\<lambda>x. x\<lparr>cli := n\<rparr>) (st\<lparr>nitems := n, lru_clients := (n, c) # lru_clients st\<rparr>))"

definition client_addtail :: "nat \<Rightarrow> ropa \<Rightarrow> ropa" where
  "client_addtail c st =
     (let n = nitems st + 1
      in upd_client c (\<lambda>x. x\<lparr>cli := n\<rparr>) (st\<lparr>nitems := n, lru_clients := lru_clients st @ [(n, c)]\<rparr>))"

definition client_unlink :: "nat \<Rightarrow> ropa \<Rightarrow> ropa option" where
  "client_unlink c st = do { l \<leftarrow> seq_del (cli (clients st c)) (lru_clients st); Some (st\<lparr>lru_clients := l\<rparr>) }"

definition cb_addhead :: "nat \<Rightarrow> ropa \<Rightarrow> ropa" where
  "cb_addhead b st =
     (let n = nitems st + 1
      in upd_cb b (\<lambda>x. x\<lparr>cbli := n\<rparr>) (st\<lparr>nitems := n, lru_callback := (n, b) # lru_callback st\<rparr>))"

definition cb_addtail :: "nat \<Rightarrow> ropa \<Rightarrow> ropa" where
  "cb_addtail b st =
     (let n = nitems st + 1
      in upd_cb b (\<lambda>x. x\<lparr>cbli := n\<rparr>) (st\<lparr>nitems := n, lru_callback := lru_callback st @ [(n, b)]\<rparr>))"

definition cb_unlink :: "nat \<Rightarrow> ropa \<Rightarrow> ropa option" where
  "cb_unlink b st = do { l \<leftarrow> seq_del (cbli (cbs st b)) (lru_callback st); Some (st\<lparr>lru_callback := l\<rparr>) }"

definition cc_addhead :: "nat \<Rightarrow> ropa \<Rightarrow> ropa" where
  "cc_addhead k st =
     (let n = nitems st + 1
      in upd_cc k (\<lambda>x. x\<lparr>ccli := n\<rparr>) (st\<lparr>nitems := n, lru_ccpair := (n, k) # lru_ccpair st\<rparr>))"

definition cc_addtail :: "nat \<Rightarrow> ropa \<Rightarrow> ropa" where
  "cc_addtail k st =
     (let n = nitems st + 1
      in upd_cc k (\<lambda>x. x\<lparr>ccli := n\<rparr>) (st\<lparr>nitems := n, lru_ccpair := lru_ccpair st @ [(n, k)]\<rparr>))"

definition cc_unlink :: "nat \<Rightarrow> ropa \<Rightarrow> ropa option" where
  "cc_unlink k st = do { l \<leftarrow> seq_del (ccli (ccs st k)) (lru_ccpair st); Some (st\<lparr>lru_ccpair := l\<rparr>) }"

text \<open>An external call: its number, and the counter moved on.\<close>

definition ext_call :: "ropa \<Rightarrow> nat \<times> ropa" where
  "ext_call st = (ncalls st, st\<lparr>ncalls := ncalls st + 1\<rparr>)"

section \<open>Creating the objects\<close>

definition client_inuse_p :: "ropa_client \<Rightarrow> bool" where
  "client_inuse_p c =
     (if cstate c = ROPAC_FREE then False
      else if cstate c = ROPAC_DEAD \<and> callbacks c = [] then False
      else True)"

definition callback_inuse_p :: "ropa_cb \<Rightarrow> bool" where
  "callback_inuse_p b \<longleftrightarrow> ccpairs b \<noteq> []"

definition ccpairs_inuse_p :: "ropa_ccpair \<Rightarrow> bool" where
  "ccpairs_inuse_p k \<longleftrightarrow> client k \<noteq> None"

definition cleared_addr :: ropa_addr where
  "cleared_addr = \<lparr>addr_c = None, addr_in = 0, subnetmask = 0, mtu = 0\<rparr>"

definition zero_client :: ropa_client where
  "zero_client = \<lparr>cstate = ROPAC_FREE, flookup = False, fwaiting = False, numberOfInterfaces = 0, uuid = replicate 6 0,
     addr = replicate AFS_MAX_INTERFACE_ADDR cleared_addr, port = 0, conn = NoConn, callbacks = [], cref = 0, cli = 0\<rparr>"

definition zero_cb :: ropa_cb where
  "zero_cb = \<lparr>fid = \<lparr>Volume = 0, Vnode = 0, Unique = 0\<rparr>, ccpairs = [], cbref = 0, cbli = 0\<rparr>"

definition zero_cc :: ropa_ccpair where
  "zero_cc = \<lparr>client = None, cc_cb = None, cb_li = 0, expire = 0, ccli = 0\<rparr>"

definition create_clients :: "nat \<Rightarrow> ropa \<Rightarrow> ropa" where
  "create_clients n st =
     (let st = st\<lparr>clients := (\<lambda>_. zero_client)\<rparr>;
          st = fold client_addtail [0..<n] st
      in st\<lparr>num_clients := num_clients st + n\<rparr>)"

definition create_callbacks :: "nat \<Rightarrow> ropa \<Rightarrow> ropa" where
  "create_callbacks n st =
     (let st = st\<lparr>cbs := (\<lambda>_. zero_cb)\<rparr>;
          st = fold cb_addtail [0..<n] st
      in st\<lparr>num_callbacks := num_callbacks st + n\<rparr>)"

definition create_ccpairs :: "nat \<Rightarrow> ropa \<Rightarrow> ropa" where
  "create_ccpairs n st =
     (let st = st\<lparr>ccs := (\<lambda>_. zero_cc)\<rparr>;
          st = fold cc_addtail [0..<n] st
      in st\<lparr>num_ccpair := num_ccpair st + n\<rparr>)"

section \<open>References\<close>

definition client_ref :: "nat \<Rightarrow> ropa \<Rightarrow> ropa option" where
  "client_ref c st = do {
     cassert (cref (clients st c) \<ge> 0);
     st \<leftarrow> (if cli (clients st c) \<noteq> 0 then client_unlink c st else Some st);
     let st = upd_client c (\<lambda>x. x\<lparr>cref := cref x + 1\<rparr>) st;
     Some (if cli (clients st c) \<noteq> 0 then client_addhead c st else st) }"

definition callback_ref :: "nat \<Rightarrow> ropa \<Rightarrow> ropa option" where
  "callback_ref b st = do {
     cassert (cbref (cbs st b) \<ge> 0);
     st \<leftarrow> (if cbli (cbs st b) \<noteq> 0 then cb_unlink b st else Some st);
     let st = upd_cb b (\<lambda>x. x\<lparr>cbref := cbref x + 1\<rparr>) st;
     Some (if cbli (cbs st b) \<noteq> 0 then cb_addhead b st else st) }"

definition clear_addr :: "nat \<Rightarrow> nat \<Rightarrow> ropa \<Rightarrow> ropa" where
  "clear_addr c i st = upd_client c (\<lambda>x. x\<lparr>addr := (addr x)[i := cleared_addr]\<rparr>) st"

definition set_addr :: "nat \<Rightarrow> nat \<Rightarrow> u32 \<Rightarrow> u32 \<Rightarrow> int \<Rightarrow> ropa \<Rightarrow> ropa" where
  "set_addr c i a m t st =
     upd_client c (\<lambda>x. x\<lparr>addr := (addr x)[i := \<lparr>addr_c = Some c, addr_in = a, subnetmask = m, mtu = t\<rparr>]\<rparr>) st"

fun del_addrs :: "nat \<Rightarrow> nat list \<Rightarrow> ropa \<Rightarrow> ropa option" where
  "del_addrs c [] st = Some st"
| "del_addrs c (i # is) st = do { (_, st) \<leftarrow> ip_del (Addr c i) st; del_addrs c is st }"

fun add_addrs :: "nat \<Rightarrow> nat list \<Rightarrow> (u32 \<times> u32 \<times> int) list \<Rightarrow> ropa \<Rightarrow> ropa option" where
  "add_addrs c [] as st = Some st"
| "add_addrs c (i # is) as st = do {
     cassert (i < length as);
     let (a, m, t) = as ! i;
     st \<leftarrow> ip_add (Addr c i) (set_addr c i a m t st);
     add_addrs c is as st }"

definition client_update_interfaces :: "nat \<Rightarrow> u32 \<Rightarrow> interfaceAddr \<Rightarrow> ropa \<Rightarrow> ropa option" where
  "client_update_interfaces c host rem st = do {
     let n = min (ifNumber rem) AFS_MAX_INTERFACE_ADDR;
     st \<leftarrow> del_addrs c [0..<numberOfInterfaces (clients st c)] st;
     st \<leftarrow> add_addrs c [0..<n] (ifAddr rem) st;
     let found_addr = list_ex (\<lambda>(a, _, _). a = host) (take n (ifAddr rem));
     (i, st) \<leftarrow> (if \<not> found_addr \<and> n < AFS_MAX_INTERFACE_ADDR
                 then do {
                   st \<leftarrow> ip_add (Addr c n) (set_addr c n host 0xffffff00 ROPA_MTU st);
                   Some (n + 1, st) }
                 else Some (n, st));
     let st = upd_client c (\<lambda>x. x\<lparr>numberOfInterfaces := i\<rparr>) st;
     Some (fold (clear_addr c) [i..<AFS_MAX_INTERFACE_ADDR] st) }"

definition client_init :: "nat \<Rightarrow> u32 \<Rightarrow> u16 \<Rightarrow> bytes option \<Rightarrow> interfaceAddr option \<Rightarrow> ropa \<Rightarrow> ropa option" where
  "client_init c host prt u rem st = do {
     let st = upd_client c (\<lambda>x. x\<lparr>port := prt\<rparr>) st;
     st \<leftarrow> (case rem of
              Some r \<Rightarrow> client_update_interfaces c host r st
            | None \<Rightarrow> do {
                st \<leftarrow> del_addrs c [0..<numberOfInterfaces (clients st c)] st;
                let st = upd_client c (\<lambda>x. x\<lparr>numberOfInterfaces := 1\<rparr>) st;
                ip_add (Addr c 0) (set_addr c 0 host 0xffffff00 ROPA_MTU st) });
     case u of
       None \<Rightarrow> Some st
     | Some u \<Rightarrow> do {
         let st = upd_client c (\<lambda>x. x\<lparr>uuid := u\<rparr>) st;
         (_, _, t) \<leftarrow> hadd (clients_cmp_uuid st) (clients_hash_uuid st) (ht_clients_uuid st) (Cli c);
         Some (st\<lparr>ht_clients_uuid := t\<rparr>) } }"

fun disconnect_addrs :: "nat \<Rightarrow> nat list \<Rightarrow> ropa \<Rightarrow> ropa option" where
  "disconnect_addrs c [] st = Some st"
| "disconnect_addrs c (i # is) st = do {
     (ret, st) \<leftarrow> ip_del (Addr c i) st;
     cassert (ret = 0);
     disconnect_addrs c is (clear_addr c i st) }"

definition disconnect_client :: "nat \<Rightarrow> ropa \<Rightarrow> ropa option" where
  "disconnect_client c st = do {
     cassert (cref (clients st c) = 0);
     st \<leftarrow> (if cli (clients st c) \<noteq> 0
            then do { st \<leftarrow> client_unlink c st; Some (upd_client c (\<lambda>x. x\<lparr>cli := 0\<rparr>) st) }
            else Some st);
     st \<leftarrow> disconnect_addrs c [0..<numberOfInterfaces (clients st c)] st;
     let st = upd_client c (\<lambda>x. x\<lparr>numberOfInterfaces := 0, port := 0, cstate := ROPAC_FREE\<rparr>) st;
     (ret, _, t) \<leftarrow> hashtabdel (clients_cmp_uuid st) (clients_hash_uuid st) (ht_clients_uuid st) (Cli c);
     cassert (ret = 0);
     Some (client_addtail c (st\<lparr>ht_clients_uuid := t\<rparr>)) }"

definition client_deref :: "nat \<Rightarrow> ropa \<Rightarrow> ropa option" where
  "client_deref c st =
     (let st = upd_client c (\<lambda>x. x\<lparr>cref := cref x - 1\<rparr>) st
      in if cref (clients st c) = 0 then disconnect_client c st else Some st)"

definition callback_deref :: "nat \<Rightarrow> ropa \<Rightarrow> ropa option" where
  "callback_deref b st =
     (let st = upd_cb b (\<lambda>x. x\<lparr>cbref := cbref x - 1\<rparr>) st
      in if cbref (cbs st b) = 0
         then do {
           (ret, _, t) \<leftarrow> hashtabdel (callbacks_cmp st) (callbacks_hash st) (ht_callbacks st) (Cb b);
           cassert (ret = 0);
           let st = st\<lparr>ht_callbacks := t\<rparr>;
           st \<leftarrow> (if cbli (cbs st b) \<noteq> 0 then cb_unlink b st else Some st);
           cassert (ccpairs (cbs st b) = []);
           let st = upd_cb b (\<lambda>x. x\<lparr>fid := \<lparr>Volume = 0, Vnode = 0, Unique = 0\<rparr>\<rparr>) st;
           Some (cb_addtail b st) }
         else Some st)"

section \<open>Breaking promises\<close>

text \<open>
  \<open>notify_client\<close>: its result is not used by any caller. A failed call destroys the connection but
  leaves the pointer in \<open>c->conn\<close>; the next notification of the client uses it.
\<close>

definition callback_rpc :: "ropa_env \<Rightarrow> u32 \<Rightarrow> u16 \<Rightarrow> afs_fid list \<Rightarrow> ropa \<Rightarrow> int \<times> ropa" where
  "callback_rpc env a p fids st =
     (let (n, st) = ext_call st; ret = rpc_callback env n
      in (ret, st\<lparr>sent := sent st @ [CallBackRPC a p fids ret]\<rparr>))"

fun notify_loop :: "ropa_env \<Rightarrow> nat \<Rightarrow> nat list \<Rightarrow> afs_fid list \<Rightarrow> ropa \<Rightarrow> ropa option" where
  "notify_loop env c [] fids st = Some st"
| "notify_loop env c (i # is) fids st = do {
     let p = port (clients st c);
     let a = addr_in (addr (clients st c) ! i);
     let (n, st) = ext_call st;
     cassert (conn_ok env n);
     let st = upd_client c (\<lambda>x. x\<lparr>conn := Conn a p\<rparr>) st;
     let (ret, st) = callback_rpc env a p fids st;
     if ret \<noteq> 0 then notify_loop env c is fids (upd_client c (\<lambda>x. x\<lparr>conn := Destroyed\<rparr>) st)
     else Some st }"

definition notify_client :: "ropa_env \<Rightarrow> nat \<Rightarrow> afs_fid list \<Rightarrow> ropa \<Rightarrow> ropa option" where
  "notify_client env c fids st =
     (case conn (clients st c) of
        NoConn \<Rightarrow> notify_loop env c [0..<numberOfInterfaces (clients st c)] fids st
      | Destroyed \<Rightarrow> None
      | Conn a p \<Rightarrow>
          (let (ret, st) = callback_rpc env a p fids st
           in if ret = 0 then Some st
              else notify_loop env c [0..<numberOfInterfaces (clients st c)] fids st))"

definition ccpair_heap :: "ropa \<Rightarrow> nat heap" where
  "ccpair_heap st = (heap_ccpairs st)\<lparr>hcmp := ccpair_cmp_time st\<rparr>"

definition break_ccpair :: "ropa_env \<Rightarrow> nat \<Rightarrow> bool \<Rightarrow> ropa \<Rightarrow> ropa option" where
  "break_ccpair env k notify_clientp st = do {
     let st = upd_cc k (\<lambda>x. x\<lparr>expire := 0\<rparr>) st;
     st \<leftarrow> (if ccli (ccs st k) \<noteq> 0 then cc_unlink k st else Some st);
     c \<leftarrow> client (ccs st k);
     b \<leftarrow> cc_cb (ccs st k);
     st \<leftarrow> (if notify_clientp then notify_client env c [fid (cbs st b)] st else Some st);
     st \<leftarrow> (if cb_li (ccs st k) \<noteq> 0
            then do {
              l \<leftarrow> seq_del (cb_li (ccs st k)) (ccpairs (cbs st b));
              Some (upd_cc k (\<lambda>x. x\<lparr>cb_li := 0\<rparr>) (upd_cb b (\<lambda>x. x\<lparr>ccpairs := l\<rparr>) st)) }
            else Some st);
     (ret, _, t) \<leftarrow> hashtabdel (ccpairs_cmp st) (ccpairs_hash env st) (ht_ccpairs st) (Cc k);
     cassert (ret = 0);
     let st = st\<lparr>ht_ccpairs := t\<rparr>;
     st \<leftarrow> client_deref c st;
     let st = upd_cc k (\<lambda>x. x\<lparr>client := None\<rparr>) st;
     st \<leftarrow> callback_deref b st;
     let st = upd_cc k (\<lambda>x. x\<lparr>cc_cb := None\<rparr>) st;
     (_, h) \<leftarrow> heap_remove (ccpair_heap st) (cells (heap_ccpairs st) (Cell k));
     Some (cc_addtail k (st\<lparr>heap_ccpairs := h\<rparr>)) }"

definition update_callback_time :: "int \<Rightarrow> int \<Rightarrow> int \<times> int \<times> int" where
  "update_callback_time t ty = (CALLBACK_VERSION, t, ty)"

definition update_callback :: "ropa_env \<Rightarrow> nat \<Rightarrow> int \<Rightarrow> ropa \<Rightarrow> (int \<times> int \<times> int) \<times> ropa" where
  "update_callback env k ty st =
     (let (n, st) = ext_call st in (update_callback_time (to_int32 (expire (ccs st k) - now env n)) ty, st))"

text \<open>
  \<open>break_ccpairs\<close>, for the promises on the client's own list. The list is never filled. The
  first \<open>realloc\<close> of \<open>add_to_cb\<close> gives one byte for a fid, so a promise on the list would be
  written outside the block: \<^const>\<open>None\<close>.
\<close>

definition break_ccpairs :: "ropa_env \<Rightarrow> nat \<Rightarrow> bool \<Rightarrow> ropa \<Rightarrow> ropa option" where
  "break_ccpairs env c notify_clientp st = do {
     cassert (callbacks (clients st c) = []);
     if notify_clientp then notify_client env c [] st else Some st }"

definition break_client :: "ropa_env \<Rightarrow> nat \<Rightarrow> bool \<Rightarrow> ropa \<Rightarrow> ropa option" where
  "break_client env c notify_clientp st = do {
     st \<leftarrow> client_ref c st;
     st \<leftarrow> break_ccpairs env c notify_clientp st;
     client_deref c st }"

text \<open>The loop of \<open>break_callback\<close>; the number bounds its rounds.\<close>

fun break_loop :: "nat \<Rightarrow> ropa_env \<Rightarrow> nat \<Rightarrow> nat option \<Rightarrow> bool \<Rightarrow> nat option \<Rightarrow> ropa \<Rightarrow> (nat option \<times> ropa) option" where
  "break_loop 0 env b caller break_own own st = None"
| "break_loop (Suc n) env b caller break_own own st =
     (case ccpairs (cbs st b) of
        [] \<Rightarrow> Some (own, st)
      | (_, k) # l \<Rightarrow> do {
          let st = upd_cb b (\<lambda>x. x\<lparr>ccpairs := l\<rparr>) st;
          cassert (cc_cb (ccs st k) = Some b);
          let st = upd_cc k (\<lambda>x. x\<lparr>cb_li := 0\<rparr>) st;
          if break_own
          then do { st \<leftarrow> break_ccpair env k (client (ccs st k) \<noteq> caller) st; break_loop n env b caller break_own own st }
          else if client (ccs st k) = caller
          then break_loop n env b caller break_own (Some k) st
          else do { st \<leftarrow> break_ccpair env k True st; break_loop n env b caller break_own own st } })"

definition break_callback :: "ropa_env \<Rightarrow> nat \<Rightarrow> nat option \<Rightarrow> bool \<Rightarrow> ropa \<Rightarrow> ropa option" where
  "break_callback env b caller break_own st = do {
     st \<leftarrow> callback_ref b st;
     st \<leftarrow> (case caller of None \<Rightarrow> Some st | Some c \<Rightarrow> client_ref c st);
     (own, st) \<leftarrow> break_loop (Suc (length (ccpairs (cbs st b)))) env b caller break_own None st;
     let st = (case own of
                 None \<Rightarrow> st
               | Some k \<Rightarrow>
                   (let n = nitems st + 1
                    in upd_cc k (\<lambda>x. x\<lparr>cb_li := n\<rparr>) (upd_cb b (\<lambda>x. x\<lparr>ccpairs := (n, k) # ccpairs x\<rparr>) (st\<lparr>nitems := n\<rparr>))));
     st \<leftarrow> callback_deref b st;
     case caller of None \<Rightarrow> Some st | Some c \<Rightarrow> client_deref c st }"

section \<open>Clients\<close>

definition uuid_init_simple :: "u32 \<Rightarrow> bytes" where
  "uuid_init_simple host = [ucast (0xff AND host), ucast (0xff AND drop_bit 8 host), ucast (0xff AND drop_bit 16 host),
     ucast (0xff AND drop_bit 24 host), 0xaa, 0x77]"

definition client_query_notalkback :: "u32 \<Rightarrow> u16 \<Rightarrow> ropa \<Rightarrow> nat option option" where
  "client_query_notalkback host p st = do {
     a \<leftarrow> ip_search st (AddrKey host p);
     case a of
       Some (Addr c i) \<Rightarrow> do {
         c \<leftarrow> addr_c (addr (clients st c) ! i);
         cassert (numberOfInterfaces (clients st c) \<noteq> 0);
         Some (Some c) }
     | _ \<Rightarrow> Some None }"

definition obtain_client :: "ropa_env \<Rightarrow> ropa \<Rightarrow> (nat \<times> ropa) option" where
  "obtain_client env st = do {
     (l, c) \<leftarrow> (if lru_clients st = [] then None else Some (butlast (lru_clients st), snd (last (lru_clients st))));
     let st = upd_client c (\<lambda>x. x\<lparr>cli := 0\<rparr>) (st\<lparr>lru_clients := l\<rparr>);
     st \<leftarrow> (if client_inuse_p (clients st c) then break_client env c True st else Some st);
     st \<leftarrow> (if cli (clients st c) \<noteq> 0
            then do { st \<leftarrow> client_unlink c st; Some (upd_client c (\<lambda>x. x\<lparr>cli := 0\<rparr>) st) }
            else Some st);
     Some (c, st) }"

text \<open>
  The states of the lookup in \<open>client_query\<close>: the client asked for, its state afterwards, the
  result. \<open>remote\<close> is whatever the variable holds after a call of \<open>WhoAreYou\<close> that failed.
\<close>

definition query_dead :: "nat \<Rightarrow> ropa \<Rightarrow> nat \<times> int \<times> ropa" where
  "query_dead c st = (c, ENETDOWN, client_addtail c (upd_client c (\<lambda>x. x\<lparr>cstate := ROPAC_DEAD\<rparr>) st))"

definition query_lookup :: "ropa_env \<Rightarrow> nat \<Rightarrow> u32 \<Rightarrow> u16 \<Rightarrow> ropa \<Rightarrow> (nat \<times> int \<times> ropa) option" where
  "query_lookup env c host p st = do {
     let st = upd_client c (\<lambda>x. x\<lparr>cstate := ROPAC_LOOKUP\<rparr>) st;
     let (n, st) = ext_call st;
     let st = st\<lparr>sent := sent st @ [InitRPC host p]\<rparr>;
     let ret = rpc_init env n;
     if ret = RX_CALL_DEAD then Some (query_dead c st)
     else do { st \<leftarrow> client_init c host p (Some (uuid_init_simple host)) None st; Some (c, ret, st) } }"

definition query_lookup_u :: "ropa_env \<Rightarrow> nat \<Rightarrow> u32 \<Rightarrow> u16 \<Rightarrow> ropa \<Rightarrow> (nat \<times> int \<times> ropa) option" where
  "query_lookup_u env c host p st = do {
     let (n, st) = ext_call st;
     let st = st\<lparr>sent := sent st @ [WhoAreYouRPC host p]\<rparr>;
     let (ret, remote) = rpc_who env n;
     if ret = RXGEN_OPCODE then query_lookup env c host p st
     else if ret = RX_CALL_DEAD then Some (query_dead c st)
     else do {
       r \<leftarrow> hashtabsearch (clients_cmp_uuid st) (clients_hash_uuid st) (ht_clients_uuid st) (UuidKey (ifUuid remote));
       case r of
         Some (Cli c_new) \<Rightarrow> do {
           st \<leftarrow> client_update_interfaces c_new host remote st;
           st \<leftarrow> disconnect_client c st;
           st \<leftarrow> client_unlink c_new st;
           Some (c_new, ret, upd_client c_new (\<lambda>x. x\<lparr>cli := 0\<rparr>) st) }
       | _ \<Rightarrow> do {
           st \<leftarrow> client_init c host p (Some (ifUuid remote)) None st;
           let (n, st) = ext_call st;
           Some (c, rpc_init env n, st\<lparr>sent := sent st @ [InitRPC host p]\<rparr>) } } }"

definition client_query :: "ropa_env \<Rightarrow> u32 \<Rightarrow> u16 \<Rightarrow> ropa \<Rightarrow> (nat option \<times> ropa) option" where
  "client_query env host p st = do {
     r \<leftarrow> client_query_notalkback host p st;
     case r of
       None \<Rightarrow> do {
         (c, st) \<leftarrow> obtain_client env st;
         cassert (cstate (clients st c) = ROPAC_FREE \<and> cli (clients st c) = 0);
         let st = upd_client c (\<lambda>x. x\<lparr>cstate := ROPAC_LOOKUP_U, flookup := True\<rparr>) st;
         st \<leftarrow> client_init c host p None None st;
         let (n, st) = ext_call st;
         cassert (conn_ok env n);
         (c, ret, st) \<leftarrow> query_lookup_u env c host p st;
         let st = upd_client c (\<lambda>x. x\<lparr>flookup := False, fwaiting := False\<rparr>) st;
         if ret \<noteq> 0 then do { cassert (cli (clients st c) \<noteq> 0); Some (None, st) }
         else do { cassert (cli (clients st c) = 0); Some (Some c, client_addhead c st) } }
     | Some c \<Rightarrow> do {
         cassert (\<not> flookup (clients st c));
         cassert (cli (clients st c) \<noteq> 0);
         Some (Some c, st) } }"

section \<open>Entry points\<close>

definition add_client :: "ropa_env \<Rightarrow> nat \<Rightarrow> nat \<Rightarrow> ropa \<Rightarrow> (nat \<times> ropa) option" where
  "add_client env b c st = do {
     r \<leftarrow> hashtabsearch (ccpairs_cmp st) (ccpairs_hash env st) (ht_ccpairs st) (CcKey c b);
     case r of
       Some (Cc k) \<Rightarrow> do { st \<leftarrow> cc_unlink k st; Some (k, cc_addhead k st) }
     | _ \<Rightarrow> do {
         st \<leftarrow> callback_ref b st;
         st \<leftarrow> client_ref c st;
         (l, k) \<leftarrow> (if lru_ccpair st = [] then None else Some (butlast (lru_ccpair st), snd (last (lru_ccpair st))));
         let st = upd_cc k (\<lambda>x. x\<lparr>ccli := 0\<rparr>) (st\<lparr>lru_ccpair := l\<rparr>);
         st \<leftarrow> (if ccpairs_inuse_p (ccs st k) then break_ccpair env k True st else Some st);
         let (n, st) = ext_call st;
         let st = upd_cc k (\<lambda>x. x\<lparr>expire := now env n + 3600\<rparr>) st;
         (_, h) \<leftarrow> heap_insert True (ccpair_heap st) k (Some k);
         let st = st\<lparr>heap_ccpairs := h\<rparr>;
         let i = nitems st + 1;
         let st = upd_cb b (\<lambda>x. x\<lparr>ccpairs := ccpairs x @ [(i, k)]\<rparr>) (st\<lparr>nitems := i\<rparr>);
         let st = upd_cc k (\<lambda>x. x\<lparr>cb_li := i, client := Some c, cc_cb := Some b\<rparr>) st;
         let st = cc_addhead k st;
         (_, _, t) \<leftarrow> hadd (ccpairs_cmp st) (ccpairs_hash env st) (ht_ccpairs st) (Cc k);
         Some (k, st\<lparr>ht_ccpairs := t\<rparr>) } }"

definition obtain_callback :: "ropa_env \<Rightarrow> afs_fid \<Rightarrow> ropa \<Rightarrow> (nat \<times> ropa) option" where
  "obtain_callback env f st = do {
     (l, b) \<leftarrow> (if lru_callback st = [] then None else Some (butlast (lru_callback st), snd (last (lru_callback st))));
     let st = upd_cb b (\<lambda>x. x\<lparr>cbli := 0\<rparr>) (st\<lparr>lru_callback := l\<rparr>);
     st \<leftarrow> (if callback_inuse_p (cbs st b)
            then do { st \<leftarrow> break_callback env b None False st; callback_ref b st }
            else do { st \<leftarrow> callback_ref b st; Some (cb_addhead b st) });
     let st = upd_cb b (\<lambda>x. x\<lparr>fid := f\<rparr>) st;
     (_, _, t) \<leftarrow> hadd (callbacks_cmp st) (callbacks_hash st) (ht_callbacks st) (Cb b);
     Some (b, st\<lparr>ht_callbacks := t\<rparr>) }"

definition ropa_getcallback ::
  "ropa_env \<Rightarrow> u32 \<Rightarrow> u16 \<Rightarrow> afs_fid \<Rightarrow> bool \<Rightarrow> ropa \<Rightarrow> (int \<times> (int \<times> int \<times> int) \<times> ropa) option" where
  "ropa_getcallback env host p f rwvol st = do {
     (r, st) \<leftarrow> client_query env host p st;
     case r of
       None \<Rightarrow> Some (0, update_callback_time DEFAULT_TIMEOUT CBSHARED, st)
     | Some c \<Rightarrow> do {
         let callback_fid = (if rwvol then f else \<lparr>Volume = Volume f, Vnode = 0, Unique = 0\<rparr>);
         r \<leftarrow> hashtabsearch (callbacks_cmp st) (callbacks_hash st) (ht_callbacks st) (FidKey callback_fid);
         (b, st) \<leftarrow> (case r of
                       Some (Cb b) \<Rightarrow> do { st \<leftarrow> callback_ref b st; Some (b, st) }
                     | _ \<Rightarrow> obtain_callback env callback_fid st);
         (k, st) \<leftarrow> add_client env b c st;
         st \<leftarrow> callback_deref b st;
         let (cb, st) = update_callback env k CBSHARED st;
         Some (0, cb, st) } }"

definition break_fid :: "ropa_env \<Rightarrow> afs_fid \<Rightarrow> nat option \<Rightarrow> bool \<Rightarrow> ropa \<Rightarrow> (int \<times> ropa) option" where
  "break_fid env f c break_own st = do {
     r \<leftarrow> hashtabsearch (callbacks_cmp st) (callbacks_hash st) (ht_callbacks st) (FidKey f);
     case r of
       Some (Cb b) \<Rightarrow> do { st \<leftarrow> break_callback env b c break_own st; Some (0, st) }
     | _ \<Rightarrow> Some (- 1, st) }"

definition ropa_break_callback :: "ropa_env \<Rightarrow> u32 \<Rightarrow> u16 \<Rightarrow> afs_fid \<Rightarrow> bool \<Rightarrow> ropa \<Rightarrow> ropa option" where
  "ropa_break_callback env a p f break_own st = do {
     c \<leftarrow> client_query_notalkback a p st;
     case c of
       None \<Rightarrow> Some st
     | Some c \<Rightarrow> do { (_, st) \<leftarrow> break_fid env f (Some c) break_own st; Some st } }"

definition ropa_break_volume_callback :: "ropa_env \<Rightarrow> u32 \<Rightarrow> ropa \<Rightarrow> ropa option" where
  "ropa_break_volume_callback env volume st = do {
     (_, st) \<leftarrow> break_fid env \<lparr>Volume = volume, Vnode = 0, Unique = 0\<rparr> None False st;
     Some st }"

fun drop_loop :: "ropa_env \<Rightarrow> nat \<Rightarrow> afs_fid list \<Rightarrow> ropa \<Rightarrow> ropa option" where
  "drop_loop env c [] st = Some st"
| "drop_loop env c (f # fs) st = do {
     r \<leftarrow> hashtabsearch (callbacks_cmp st) (callbacks_hash st) (ht_callbacks st) (FidKey f);
     st \<leftarrow> (case r of
              Some (Cb b) \<Rightarrow> do {
                r \<leftarrow> hashtabsearch (ccpairs_cmp st) (ccpairs_hash env st) (ht_ccpairs st) (CcKey c b);
                case r of Some (Cc k) \<Rightarrow> break_ccpair env k False st | _ \<Rightarrow> Some st }
            | _ \<Rightarrow> Some st);
     drop_loop env c fs st }"

definition ropa_drop_callbacks :: "ropa_env \<Rightarrow> u32 \<Rightarrow> u16 \<Rightarrow> afs_fid list \<Rightarrow> ropa \<Rightarrow> (int \<times> ropa) option" where
  "ropa_drop_callbacks env a p fids st =
     (if length fids > AFSCBMAX then Some (EINVAL, st)
      else do {
        (r, st) \<leftarrow> client_query env a p st;
        case r of
          None \<Rightarrow> Some (0, st)
        | Some c \<Rightarrow> do { st \<leftarrow> drop_loop env c fids st; Some (0, st) } })"

definition ropa_break_client :: "ropa_env \<Rightarrow> u32 \<Rightarrow> u16 \<Rightarrow> ropa \<Rightarrow> ropa option" where
  "ropa_break_client env host p st = do {
     (r, st) \<leftarrow> client_query env host p st;
     case r of None \<Rightarrow> Some st | Some c \<Rightarrow> break_client env c True st }"

text \<open>
  One round of the inner loop of the thread \<open>heapcleaner\<close>: whether the thread goes on without
  waiting, and the state. It waits when there is no promise or when the first one is not expired.
\<close>

definition heapcleaner_round :: "ropa_env \<Rightarrow> ropa \<Rightarrow> (bool \<times> ropa) option" where
  "heapcleaner_round env st =
     (case heap_head (heap_ccpairs st) of
        None \<Rightarrow> Some (False, st)
      | Some k \<Rightarrow>
          (let (n, st) = ext_call st
           in if now env n < expire (ccs st k) then Some (False, st)
              else do { st \<leftarrow> break_ccpair env k True st; Some (True, st) }))"

fun heapcleaner :: "nat \<Rightarrow> ropa_env \<Rightarrow> ropa \<Rightarrow> ropa option" where
  "heapcleaner 0 env st = None"
| "heapcleaner (Suc n) env st = do {
     (go, st) \<leftarrow> heapcleaner_round env st;
     if go then heapcleaner n env st else Some st }"

text \<open>\<open>ropa_init\<close>; a failed allocation ends the process.\<close>

definition ropa_init :: "nat \<Rightarrow> nat \<Rightarrow> nat \<Rightarrow> int \<Rightarrow> int \<Rightarrow> int \<Rightarrow> ropa option" where
  "ropa_init num_cb num_cli num_cc hashsz_cb hashsz_cli hashsz_cc = do {
     tcb \<leftarrow> hashtabnew (\<lambda>_. True) hashsz_cb; tcb \<leftarrow> tcb;
     tip \<leftarrow> hashtabnew (\<lambda>_. True) hashsz_cli; tip \<leftarrow> tip;
     tuu \<leftarrow> hashtabnew (\<lambda>_. True) hashsz_cli; tuu \<leftarrow> tuu;
     tcc \<leftarrow> hashtabnew (\<lambda>_. True) hashsz_cc; tcc \<leftarrow> tcc;
     h \<leftarrow> heap_new (True, True) num_cc (\<lambda>_ _. 0) (\<lambda>_. 0); h \<leftarrow> h;
     let st = \<lparr>clients = (\<lambda>_. zero_client), cbs = (\<lambda>_. zero_cb), ccs = (\<lambda>_. zero_cc),
               ht_clients_ip = tip, ht_clients_uuid = tuu, ht_callbacks = tcb, ht_ccpairs = tcc,
               lru_clients = [], lru_ccpair = [], lru_callback = [], heap_ccpairs = h,
               num_clients = 0, num_callbacks = 0, num_ccpair = 0, nitems = 0, ncalls = 0, sent = []\<rparr>;
     Some (create_ccpairs num_cc (create_callbacks num_cb (create_clients num_cli st))) }"

end
