(* ===== verification/Ropa_Inv.thy ===== *)
theory Ropa_Inv
  imports Ropa
begin

text \<open>
  The invariant of the callback database: the links between the objects, their lists and the hash
  tables, the reference counters, and the heap. The state falls into three groups, clients (\<open>cinv\<close>),
  callbacks (\<open>binv\<close>) and promises (\<open>kinv\<close>); each operation changes one group and leaves the others
  alone (\<open>cframe\<close>, \<open>bframe\<close>).
\<close>

section \<open>Lists of items\<close>

text \<open>
  The items of a list and the pointers that objects keep to their items: \<open>items_ok N m l li\<close> for
  objects below \<open>N\<close>, items up to \<open>m\<close>, the list \<open>l\<close> and the pointer \<open>li k\<close> of object \<open>k\<close>.
\<close>

definition items_ok :: "nat \<Rightarrow> nat \<Rightarrow> (nat \<times> nat) list \<Rightarrow> (nat \<Rightarrow> nat) \<Rightarrow> bool" where
  "items_ok N m l li \<longleftrightarrow> distinct (map fst l) \<and> distinct (map snd l) \<and>
     (\<forall>(i, k) \<in> set l. 0 < i \<and> i \<le> m \<and> li k = i \<and> k < N) \<and>
     (\<forall>k < N. li k \<noteq> 0 \<longrightarrow> (li k, k) \<in> set l)"

lemma items_mono: "items_ok N m l li \<Longrightarrow> m \<le> m' \<Longrightarrow> items_ok N m' l li"
  unfolding items_ok_def by fastforce

lemma items_cong: "items_ok N m l li \<Longrightarrow> \<forall>k < N. li' k = li k \<Longrightarrow> items_ok N m l li'"
  unfolding items_ok_def by fastforce

lemma items_mem: "items_ok N m l li \<Longrightarrow> (i, k) \<in> set l \<longleftrightarrow> k < N \<and> li k = i \<and> i \<noteq> 0"
  unfolding items_ok_def by fastforce

lemma items_objs: "items_ok N m l li \<Longrightarrow> k \<in> snd ` set l \<longleftrightarrow> k < N \<and> li k \<noteq> 0"
proof -
  assume ok: "items_ok N m l li"
  have "k \<in> snd ` set l \<longleftrightarrow> (\<exists>i. (i, k) \<in> set l)" by force
  then show ?thesis unfolding items_mem [OF ok] by auto
qed

definition drop_obj :: "nat \<Rightarrow> (nat \<times> nat) list \<Rightarrow> (nat \<times> nat) list" where
  "drop_obj k l = filter (\<lambda>x. snd x \<noteq> k) l"

lemma set_drop_obj [simp]: "set (drop_obj k l) = {x \<in> set l. snd x \<noteq> k}"
  by (auto simp: drop_obj_def)

lemma items_drop:
  assumes ok: "items_ok N m l li"
  shows "items_ok N m (drop_obj k l) (li(k := 0))"
proof -
  have "distinct (map fst (drop_obj k l))" "distinct (map snd (drop_obj k l))"
    using ok by (auto simp: items_ok_def drop_obj_def distinct_map_filter)
  moreover have "\<forall>(i, j) \<in> set (drop_obj k l). 0 < i \<and> i \<le> m \<and> (li(k := 0)) j = i \<and> j < N"
    using ok by (auto simp: items_ok_def)
  moreover have "\<forall>j < N. (li(k := 0)) j \<noteq> 0 \<longrightarrow> ((li(k := 0)) j, j) \<in> set (drop_obj k l)"
    using ok by (auto simp: items_ok_def)
  ultimately show ?thesis unfolding items_ok_def by blast
qed

lemma items_unlink:
  assumes ok: "items_ok N m l li" and k: "k < N" "li k \<noteq> 0"
  shows "seq_del (li k) l = Some (drop_obj k l)"
proof -
  have m: "(li k, k) \<in> set l" using items_mem [OF ok] k by simp
  then have i: "li k \<in> fst ` set l" by force
  have "fst x \<noteq> li k \<longleftrightarrow> snd x \<noteq> k" if "x \<in> set l" for x
    using items_mem [OF ok, of "fst x" "snd x"] that m ok k unfolding items_ok_def
    by (metis eq_key_imp_eq_value prod.collapse)
  then have "filter (\<lambda>x. fst x \<noteq> li k) l = drop_obj k l" unfolding drop_obj_def by (intro filter_cong) auto
  then show ?thesis using i by (simp add: seq_del_def)
qed

lemma items_addhead:
  assumes "items_ok N m l li" "k < N" "li k = 0"
  shows "items_ok N (m + 1) ((m + 1, k) # l) (li(k := m + 1))"
proof -
  have "k \<notin> snd ` set l" using items_objs [OF assms(1)] assms(3) by blast
  moreover have "m + 1 \<notin> fst ` set l" using assms(1) unfolding items_ok_def by fastforce
  ultimately show ?thesis using assms unfolding items_ok_def by fastforce
qed

lemma items_addtail:
  assumes "items_ok N m l li" "k < N" "li k = 0"
  shows "items_ok N (m + 1) (l @ [(m + 1, k)]) (li(k := m + 1))"
proof -
  have "k \<notin> snd ` set l" using items_objs [OF assms(1)] assms(3) by blast
  moreover have "m + 1 \<notin> fst ` set l" using assms(1) unfolding items_ok_def by fastforce
  ultimately show ?thesis using assms unfolding items_ok_def by fastforce
qed

text \<open>Objects in use come before the free ones.\<close>

definition lru_sorted :: "(nat \<Rightarrow> bool) \<Rightarrow> (nat \<times> nat) list \<Rightarrow> bool" where
  "lru_sorted P l \<longleftrightarrow> (\<exists>us fs. l = us @ fs \<and> (\<forall>x \<in> set us. P (snd x)) \<and> (\<forall>x \<in> set fs. \<not> P (snd x)))"

lemma sorted_drop: "lru_sorted P l \<Longrightarrow> lru_sorted P (drop_obj k l)"
  unfolding lru_sorted_def drop_obj_def by (metis (no_types, lifting) filter_append filter_is_subset subsetD)

lemma sorted_head: "lru_sorted P l \<Longrightarrow> P k \<Longrightarrow> lru_sorted P ((i, k) # l)"
  unfolding lru_sorted_def by (metis append_Cons set_ConsD snd_conv)

lemma sorted_tail: "lru_sorted P l \<Longrightarrow> \<not> P k \<Longrightarrow> lru_sorted P (l @ [(i, k)])"
  unfolding lru_sorted_def by (metis append_assoc rotate1.simps(2) set_ConsD set_rotate1 snd_conv)

lemma sorted_cong: "lru_sorted P l \<Longrightarrow> \<forall>k \<in> snd ` set l. P' k = P k \<Longrightarrow> lru_sorted P' l"
  unfolding lru_sorted_def
proof (elim exE conjE)
  fix us fs assume "\<forall>k \<in> snd ` set l. P' k = P k" "l = us @ fs" "\<forall>x \<in> set us. P (snd x)" "\<forall>x \<in> set fs. \<not> P (snd x)"
  then show "\<exists>us fs. l = us @ fs \<and> (\<forall>x \<in> set us. P' (snd x)) \<and> (\<forall>x \<in> set fs. \<not> P' (snd x))"
    by (intro exI [of _ us] exI [of _ fs]) auto
qed

lemma sorted_last:
  assumes "lru_sorted P l" "k \<in> snd ` set l" "\<not> P k"
  shows "l \<noteq> [] \<and> \<not> P (snd (last l))"
proof -
  obtain us fs where l: "l = us @ fs" "\<forall>x \<in> set us. P (snd x)" "\<forall>x \<in> set fs. \<not> P (snd x)" using assms(1) by (auto simp: lru_sorted_def)
  then have "fs \<noteq> []" using assms(2,3) by auto
  then show ?thesis using l by simp
qed

lemma sorted_butlast: "lru_sorted P l \<Longrightarrow> lru_sorted P (butlast l)"
  unfolding lru_sorted_def
proof (elim exE conjE)
  fix us fs assume "l = us @ fs" "\<forall>x \<in> set us. P (snd x)" "\<forall>x \<in> set fs. \<not> P (snd x)"
  then show "\<exists>us fs. butlast l = us @ fs \<and> (\<forall>x \<in> set us. P (snd x)) \<and> (\<forall>x \<in> set fs. \<not> P (snd x))"
    by (intro exI [of _ "if fs = [] then butlast us else us"] exI [of _ "butlast fs"])
      (auto simp: butlast_append dest: in_set_butlastD)
qed

text \<open>Taking the last item off a list.\<close>

lemma items_butlast:
  assumes ok: "items_ok N m l li" and ne: "l \<noteq> []"
  shows "butlast l = drop_obj (snd (last l)) l" and "snd (last l) < N" and "li (snd (last l)) \<noteq> 0"
    and "items_ok N m (butlast l) (li(snd (last l) := 0))"
proof -
  have l: "l = butlast l @ [last l]" using ne by simp
  have "distinct (map snd (butlast l @ [last l]))" using ok l unfolding items_ok_def by metis
  then have "\<forall>x \<in> set (butlast l). snd x \<noteq> snd (last l)" by (auto simp: image_iff)
  then have "filter (\<lambda>x. snd x \<noteq> snd (last l)) (butlast l @ [last l]) = butlast l" by simp
  then show b: "butlast l = drop_obj (snd (last l)) l" unfolding drop_obj_def using l by metis
  have "(fst (last l), snd (last l)) \<in> set l" using ne by simp
  then show "snd (last l) < N" "li (snd (last l)) \<noteq> 0" unfolding items_mem [OF ok] by simp_all
  show "items_ok N m (butlast l) (li(snd (last l) := 0))" unfolding b by (rule items_drop [OF ok])
qed

section \<open>Keys of the hash tables\<close>

definition uuid_key :: "ropa \<Rightarrow> client_ref \<Rightarrow> bytes" where
  "uuid_key st r = take 6 (ref_uuid st r)"

definition ip_key :: "ropa \<Rightarrow> addr_ref \<Rightarrow> u32 \<times> u16" where
  "ip_key st r = (addr_addr st r, addr_port st r)"

definition key_cmp :: "('a \<Rightarrow> 'k) \<Rightarrow> 'a \<Rightarrow> 'a \<Rightarrow> int" where
  "key_cmp key x y = (if key x = key y then 0 else 1)"

interpretation uuid_tab: hash_keys "clients_cmp_uuid st" "clients_hash_uuid st" "uuid_key st" for st
proof unfold_locales
  fix x y
  show "clients_cmp_uuid st x y = 0 \<longleftrightarrow> uuid_key st x = uuid_key st y"
    by (simp add: clients_cmp_uuid_def uuid_magic_eq_def uuid_key_def)
  assume e: "uuid_key st x = uuid_key st y"
  show "clients_hash_uuid st x = clients_hash_uuid st y"
  proof (cases "length (ref_uuid st x) < 6 \<or> length (ref_uuid st y) < 6")
    case True
    moreover have "min (length (ref_uuid st x)) 6 = min (length (ref_uuid st y)) 6"
      using arg_cong [OF e, of length] by (simp add: uuid_key_def)
    ultimately have "length (ref_uuid st x) < 6" "length (ref_uuid st y) < 6" by (auto simp: min_def split: if_splits)
    then have "ref_uuid st x = ref_uuid st y" using e by (simp add: uuid_key_def)
    then show ?thesis by (simp add: clients_hash_uuid_def)
  next
    case False
    then have "ref_uuid st x ! i = ref_uuid st y ! i" if "i < 6" for i
      using e that unfolding uuid_key_def by (metis nth_take)
    then show ?thesis by (simp add: clients_hash_uuid_def Let_def)
  qed
qed

interpretation cb_tab: hash_keys "callbacks_cmp st" "callbacks_hash st" "ref_fid st" for st
proof unfold_locales
  fix x y
  show "callbacks_cmp st x y = 0 \<longleftrightarrow> ref_fid st x = ref_fid st y" by (auto simp: callbacks_cmp_def Let_def)
  assume "ref_fid st x = ref_fid st y"
  then show "callbacks_hash st x = callbacks_hash st y" by (simp add: callbacks_hash_def)
qed

interpretation cc_tab: hash_keys "ccpairs_cmp st" "ccpairs_hash env st" "cc_pair st" for env st
proof unfold_locales
  show "ccpairs_cmp st x y = 0 \<longleftrightarrow> cc_pair st x = cc_pair st y" for x y by (auto simp: ccpairs_cmp_def prod_eq_iff)
  show "cc_pair st x = cc_pair st y \<Longrightarrow> ccpairs_hash env st x = ccpairs_hash env st y" for x y by (simp add: ccpairs_hash_def)
qed

interpretation ip_tab: hash_keys "key_cmp (ip_key st)" "clients_hash_ip st" "ip_key st" for st
  by unfold_locales (auto simp: key_cmp_def clients_hash_ip_def ip_key_def)

text \<open>The heap of promises: the laws of the comparison hold as long as the times fit in 31 bits.\<close>

definition expire_ok :: "ropa \<Rightarrow> nat \<Rightarrow> bool" where
  "expire_ok st k \<longleftrightarrow> 0 \<le> expire (ccs st k) \<and> expire (ccs st k) < 2 ^ 31"

interpretation cc_heap: heap_cmp "ccpair_cmp_time st" "\<lambda>k. expire (ccs st k)" "expire_ok st" for st
proof unfold_locales
  have c: "ccpair_cmp_time st a b = expire (ccs st a) - expire (ccs st b)" if "expire_ok st a" "expire_ok st b" for a b
    using that unfolding expire_ok_def ccpair_cmp_time_def by (intro to_int32_id) auto
  show "ccpair_cmp_time st a b > 0 \<longleftrightarrow> expire (ccs st b) < expire (ccs st a)" if "expire_ok st a" "expire_ok st b" for a b
    using c [OF that] by simp
  show "ccpair_cmp_time st v a < ccpair_cmp_time st v b \<longleftrightarrow> expire (ccs st b) < expire (ccs st a)"
    if "expire_ok st v" "expire_ok st a" "expire_ok st b" for v a b
    using c that by simp
qed

section \<open>Clients\<close>

definition live :: "ropa \<Rightarrow> nat \<Rightarrow> bool" where
  "live st c \<longleftrightarrow> c < num_clients st \<and> cstate (clients st c) \<noteq> ROPAC_FREE"

text \<open>
  A client is free, or it is live: known by its UUID and by one address. \<open>f c\<close> is the number of
  references to client \<open>c\<close>.
\<close>

definition client_wf :: "ropa \<Rightarrow> nat \<Rightarrow> bool" where
  "client_wf st c \<longleftrightarrow> length (addr (clients st c)) = AFS_MAX_INTERFACE_ADDR \<and>
     callbacks (clients st c) = [] \<and>
     (if live st c then numberOfInterfaces (clients st c) = 1 \<and> addr_c (addr (clients st c) ! 0) = Some c \<and> \<not> flookup (clients st c)
      else numberOfInterfaces (clients st c) = 0)"

definition client_tabs :: "ropa \<Rightarrow> nat set \<Rightarrow> nat set \<Rightarrow> bool" where
  "client_tabs st I J \<longleftrightarrow>
     hash_set (clients_hash_uuid st) (uuid_key st) (ht_clients_uuid st) (Cli ` I) \<and>
     hash_set (clients_hash_ip st) (ip_key st) (ht_clients_ip st) ((\<lambda>c. Addr c 0) ` J)"

definition cinv :: "ropa \<Rightarrow> (nat \<Rightarrow> nat) \<Rightarrow> bool" where
  "cinv st f \<longleftrightarrow>
     items_ok (num_clients st) (nitems st) (lru_clients st) (\<lambda>c. cli (clients st c)) \<and>
     lru_sorted (live st) (lru_clients st) \<and>
     (\<forall>c < num_clients st. cli (clients st c) \<noteq> 0 \<and> cref (clients st c) = int (f c) \<and> client_wf st c \<and> conn (clients st c) \<noteq> Destroyed) \<and>
     (\<forall>c. 0 < f c \<longrightarrow> live st c) \<and>
     client_tabs st (Collect (live st)) (Collect (live st))"

text \<open>What the operations on clients leave alone.\<close>

definition cframe :: "ropa \<Rightarrow> ropa \<Rightarrow> bool" where
  "cframe st st' \<longleftrightarrow> cbs st' = cbs st \<and> ccs st' = ccs st \<and> ht_callbacks st' = ht_callbacks st \<and> ht_ccpairs st' = ht_ccpairs st \<and>
     lru_ccpair st' = lru_ccpair st \<and> lru_callback st' = lru_callback st \<and> heap_ccpairs st' = heap_ccpairs st \<and>
     num_clients st' = num_clients st \<and> num_callbacks st' = num_callbacks st \<and> num_ccpair st' = num_ccpair st \<and>
     nitems st \<le> nitems st'"

lemma cframe_refl [simp]: "cframe st st" by (simp add: cframe_def)

lemma cframe_trans: "cframe a b \<Longrightarrow> cframe b c \<Longrightarrow> cframe a c"
  by (auto simp: cframe_def)

definition quiet :: "ropa \<Rightarrow> ropa \<Rightarrow> bool" where
  "quiet st st' \<longleftrightarrow> ncalls st' = ncalls st \<and> sent st' = sent st"

text \<open>The parts of a client that are not links, counters or the connection.\<close>

definition cview :: "ropa_client \<Rightarrow> ropa_client" where
  "cview x = x\<lparr>cref := 0, cli := 0, conn := NoConn\<rparr>"

lemma cview_fields:
  assumes "cview x = cview y"
  shows "cstate x = cstate y" "numberOfInterfaces x = numberOfInterfaces y" "uuid x = uuid y" "addr x = addr y"
    "port x = port y" "callbacks x = callbacks y" "flookup x = flookup y" "fwaiting x = fwaiting y"
  using assms by (cases x; cases y; simp add: cview_def)+

definition same_clients :: "ropa \<Rightarrow> ropa \<Rightarrow> nat set \<Rightarrow> bool" where
  "same_clients st st' A \<longleftrightarrow> (\<forall>c \<in> A. cview (clients st' c) = cview (clients st c))"

definition same_conn :: "ropa \<Rightarrow> ropa \<Rightarrow> bool" where
  "same_conn st st' \<longleftrightarrow> (\<forall>c. conn (clients st' c) = conn (clients st c))"

lemma live_cong: "num_clients st' = num_clients st \<Longrightarrow> cview (clients st' c) = cview (clients st c) \<Longrightarrow> live st' c = live st c"
  by (auto simp: live_def dest: cview_fields)

lemma client_wf_cong: "num_clients st' = num_clients st \<Longrightarrow> cview (clients st' c) = cview (clients st c) \<Longrightarrow> client_wf st' c = client_wf st c"
  unfolding client_wf_def using cview_fields [of "clients st' c" "clients st c"] live_cong [of st' st c] by simp

lemma addr_key_cong:
  assumes "client_wf st c" "live st c" "cview (clients st' c) = cview (clients st c)"
  shows "ip_key st' (Addr c 0) = ip_key st (Addr c 0)" "clients_hash_ip st' (Addr c 0) = clients_hash_ip st (Addr c 0)"
  using assms cview_fields [of "clients st' c" "clients st c"] by (auto simp: client_wf_def ip_key_def clients_hash_ip_def)

lemma client_tabs_cong:
  assumes t: "client_tabs st I J" and tabs: "ht_clients_uuid st' = ht_clients_uuid st" "ht_clients_ip st' = ht_clients_ip st"
    and same: "same_clients st st' (I \<union> J)" and wf: "\<forall>c \<in> J. client_wf st c \<and> live st c"
  shows "client_tabs st' I J"
  unfolding client_tabs_def tabs
proof
  show "hash_set (clients_hash_uuid st') (uuid_key st') (ht_clients_uuid st) (Cli ` I)"
  proof (rule hash_set_cong)
    show "hash_set (clients_hash_uuid st) (uuid_key st) (ht_clients_uuid st) (Cli ` I)" using t by (simp add: client_tabs_def)
    have "uuid (clients st' c) = uuid (clients st c)" if "c \<in> I" for c
      using same that cview_fields(3) [of "clients st' c" "clients st c"] by (simp add: same_clients_def)
    then show "\<forall>x \<in> Cli ` I. clients_hash_uuid st' x = clients_hash_uuid st x \<and> uuid_key st' x = uuid_key st x"
      by (auto simp: clients_hash_uuid_def uuid_key_def)
  qed
  show "hash_set (clients_hash_ip st') (ip_key st') (ht_clients_ip st) ((\<lambda>c. Addr c 0) ` J)"
  proof (rule hash_set_cong)
    show "hash_set (clients_hash_ip st) (ip_key st) (ht_clients_ip st) ((\<lambda>c. Addr c 0) ` J)" using t by (simp add: client_tabs_def)
    show "\<forall>x \<in> (\<lambda>c. Addr c 0) ` J. clients_hash_ip st' x = clients_hash_ip st x \<and> ip_key st' x = ip_key st x"
    proof
      fix x assume "x \<in> (\<lambda>c. Addr c 0) ` J"
      then obtain c where c: "x = Addr c 0" "c \<in> J" by blast
      then have "cview (clients st' c) = cview (clients st c)" using same by (simp add: same_clients_def)
      then show "clients_hash_ip st' x = clients_hash_ip st x \<and> ip_key st' x = ip_key st x"
        using addr_key_cong [of st c st'] wf c by blast
    qed
  qed
qed

text \<open>Only links and counters of clients change.\<close>

lemma cinv_links:
  assumes inv: "cinv st f"
    and eq: "num_clients st' = num_clients st" "ht_clients_uuid st' = ht_clients_uuid st" "ht_clients_ip st' = ht_clients_ip st"
    and same: "same_clients st st' UNIV"
    and items: "items_ok (num_clients st) (nitems st') (lru_clients st') (\<lambda>c. cli (clients st' c))"
    and sorted: "lru_sorted (live st) (lru_clients st')"
    and refs: "\<forall>c < num_clients st. cli (clients st' c) \<noteq> 0 \<and> cref (clients st' c) = int (f' c) \<and> conn (clients st' c) \<noteq> Destroyed"
    and pos: "\<forall>c. 0 < f' c \<longrightarrow> live st c"
  shows "cinv st' f'"
proof -
  have lv: "live st' = live st" using live_cong [OF eq(1)] same by (auto simp: same_clients_def)
  have wf: "client_wf st' c = client_wf st c" for c using client_wf_cong [OF eq(1)] same by (auto simp: same_clients_def)
  have "client_tabs st' (Collect (live st)) (Collect (live st))"
  proof (rule client_tabs_cong [OF _ eq(2,3)])
    show "client_tabs st (Collect (live st)) (Collect (live st))" using inv by (simp add: cinv_def)
    show "same_clients st st' (Collect (live st) \<union> Collect (live st))" using same by (simp add: same_clients_def)
    show "\<forall>c \<in> Collect (live st). client_wf st c \<and> live st c" using inv by (auto simp: cinv_def live_def)
  qed
  then show ?thesis using inv items sorted refs pos unfolding cinv_def eq lv wf by simp
qed

lemma client_ref_ok:
  assumes inv: "cinv st f" and lv: "live st c"
  shows "\<exists>st'. client_ref c st = Some st' \<and> cinv st' (f(c := f c + 1)) \<and> cframe st st' \<and> quiet st st' \<and>
    same_clients st st' UNIV \<and> same_conn st st'"
proof -
  have c: "c < num_clients st" using lv by (simp add: live_def)
  have ok: "items_ok (num_clients st) (nitems st) (lru_clients st) (\<lambda>c. cli (clients st c))"
    and r: "cli (clients st c) \<noteq> 0" "cref (clients st c) = int (f c)" using inv c by (auto simp: cinv_def)
  let ?m = "nitems st + 1" and ?x = "clients st c"
  let ?st = "st\<lparr>clients := (clients st)(c := ?x\<lparr>cref := cref ?x + 1, cli := ?m\<rparr>), nitems := ?m, lru_clients := (?m, c) # drop_obj c (lru_clients st)\<rparr>"
  have "client_ref c st = Some ?st"
    using r items_unlink [OF ok c] by (simp add: client_ref_def client_unlink_def client_addhead_def Let_def)
  moreover have same: "same_clients st ?st UNIV" by (auto simp: same_clients_def cview_def)
  moreover have "cinv ?st (f(c := f c + 1))"
  proof (rule cinv_links [OF inv])
    have "(\<lambda>d. cli (clients ?st d)) = (\<lambda>d. cli (clients st d))(c := 0, c := ?m)" by auto
    then show "items_ok (num_clients st) (nitems ?st) (lru_clients ?st) (\<lambda>d. cli (clients ?st d))"
      using items_addhead [OF items_drop [OF ok, of c], of c] c by simp
    show "lru_sorted (live st) (lru_clients ?st)" using inv lv by (auto simp: cinv_def intro: sorted_head sorted_drop)
    show "\<forall>d < num_clients st. cli (clients ?st d) \<noteq> 0 \<and> cref (clients ?st d) = int ((f(c := f c + 1)) d) \<and> conn (clients ?st d) \<noteq> Destroyed"
      using inv by (auto simp: cinv_def)
    show "\<forall>d. 0 < (f(c := f c + 1)) d \<longrightarrow> live st d" using inv lv by (auto simp: cinv_def)
  qed (use same in simp_all)
  moreover have "cframe st ?st" "quiet st ?st" "same_conn st ?st" by (auto simp: cframe_def quiet_def same_conn_def)
  ultimately show ?thesis by blast
qed

text \<open>Addresses of live clients compare by address and port.\<close>

definition wf_ref :: "ropa \<Rightarrow> addr_ref \<Rightarrow> bool" where
  "wf_ref st r \<longleftrightarrow> \<not> addr_null st r \<and> addr_faces st r = [addr_addr st r]"

lemma cmp_ip_key: "wf_ref st x \<Longrightarrow> wf_ref st y \<Longrightarrow> clients_cmp_ip st x y = 0 \<longleftrightarrow> key_cmp (ip_key st) x y = 0"
  by (auto simp: wf_ref_def clients_cmp_ip_def key_cmp_def ip_key_def)

lemma wf_ref_key [simp]: "wf_ref st (AddrKey h p)"
  by (simp add: wf_ref_def)

lemma wf_ref_addr:
  assumes "addr_c (addr (clients st c) ! 0) = Some c" "numberOfInterfaces (clients st c) = 1" "length (addr (clients st c)) = AFS_MAX_INTERFACE_ADDR"
  shows "wf_ref st (Addr c 0)"
proof -
  obtain a as where "addr (clients st c) = a # as" using assms(3) by (cases "addr (clients st c)") (auto simp: AFS_MAX_INTERFACE_ADDR_def)
  then show ?thesis using assms by (simp add: wf_ref_def)
qed

lemma ip_guard_ok:
  assumes "wf_ref st x" "\<forall>y \<in> hmem (ht_clients_ip st). wf_ref st y"
  shows "ip_guard st x"
proof -
  have "\<not> addr_null st y" if "bucket_at (ht_clients_ip st) i = Some b" "y \<in> set (takeWhile P (chain b))" for i b y P
    using assms(2) chain_hmem [OF that(1), of y] set_takeWhileD [OF that(2)] by (simp add: wf_ref_def)
  then show ?thesis using assms(1) by (auto simp: ip_guard_def wf_ref_def list_all_iff split: option.split)
qed

lemma ip_ops:
  assumes "wf_ref st x" "hash_set (clients_hash_ip st) (ip_key st) (ht_clients_ip st) S" "\<forall>y \<in> S. wf_ref st y"
  shows "ip_search st x = hashtabsearch (key_cmp (ip_key st)) (clients_hash_ip st) (ht_clients_ip st) x"
    and "ip_del x st = do { (ret, _, t) \<leftarrow> hashtabdel (key_cmp (ip_key st)) (clients_hash_ip st) (ht_clients_ip st) x; Some (ret, st\<lparr>ht_clients_ip := t\<rparr>) }"
    and "ip_add x st = do { (_, _, t) \<leftarrow> hadd (key_cmp (ip_key st)) (clients_hash_ip st) (ht_clients_ip st) x; Some (st\<lparr>ht_clients_ip := t\<rparr>) }"
proof -
  have S: "hmem (ht_clients_ip st) = S" "\<not> grow (ht_clients_ip st)" using assms(2) by (auto simp: hash_set_def)
  have g: "ip_guard st x" using ip_guard_ok [OF assms(1)] assms(3) S(1) by simp
  have c: "\<forall>y \<in> hmem (ht_clients_ip st). clients_cmp_ip st x y = 0 \<longleftrightarrow> key_cmp (ip_key st) x y = 0"
    using assms(1,3) cmp_ip_key S(1) by blast
  note o = hash_ops_cong [of "ht_clients_ip st" "clients_cmp_ip st" x "key_cmp (ip_key st)", OF c]
  show "ip_search st x = hashtabsearch (key_cmp (ip_key st)) (clients_hash_ip st) (ht_clients_ip st) x"
    using g o(1) by (simp add: ip_search_def)
  show "ip_del x st = do { (ret, _, t) \<leftarrow> hashtabdel (key_cmp (ip_key st)) (clients_hash_ip st) (ht_clients_ip st) x; Some (ret, st\<lparr>ht_clients_ip := t\<rparr>) }"
    using g o(2) by (simp add: ip_del_def)
  show "ip_add x st = do { (_, _, t) \<leftarrow> hadd (key_cmp (ip_key st)) (clients_hash_ip st) (ht_clients_ip st) x; Some (st\<lparr>ht_clients_ip := t\<rparr>) }"
    using g o(3) [OF S(2), of 0] by (simp add: ip_add_def)
qed

lemma ip_search_ok:
  assumes "wf_ref st x" "hash_set (clients_hash_ip st) (ip_key st) (ht_clients_ip st) S" "\<forall>y \<in> S. wf_ref st y"
  shows "y \<in> S \<Longrightarrow> ip_key st y = ip_key st x \<Longrightarrow> ip_search st x = Some (Some y)"
    and "\<forall>y \<in> S. ip_key st y \<noteq> ip_key st x \<Longrightarrow> ip_search st x = Some None"
  using ip_ops(1) [OF assms] ip_tab.set_search_hit [OF assms(2)] ip_tab.set_search_miss [OF assms(2)] by auto

lemma ip_del_ok:
  assumes "wf_ref st x" "hash_set (clients_hash_ip st) (ip_key st) (ht_clients_ip st) S" "\<forall>y \<in> S. wf_ref st y" "x \<in> S"
  shows "\<exists>t. ip_del x st = Some (0, st\<lparr>ht_clients_ip := t\<rparr>) \<and> hash_set (clients_hash_ip st) (ip_key st) t (S - {x})"
  using ip_ops(2) [OF assms(1-3)] ip_tab.set_del [OF assms(2,4) refl] by auto

lemma ip_add_ok:
  assumes "wf_ref st x" "hash_set (clients_hash_ip st) (ip_key st) (ht_clients_ip st) S" "\<forall>y \<in> S. wf_ref st y" "\<forall>y \<in> S. ip_key st y \<noteq> ip_key st x"
  shows "\<exists>t. ip_add x st = Some (st\<lparr>ht_clients_ip := t\<rparr>) \<and> hash_set (clients_hash_ip st) (ip_key st) t (insert x S)"
  using ip_ops(3) [OF assms(1-3)] ip_tab.set_add [OF assms(2,4), of 0 "\<lambda>_. True"] by auto

lemma cinv_wf_ref:
  assumes "cinv st f" "live st c"
  shows "wf_ref st (Addr c 0)"
  using assms by (intro wf_ref_addr) (auto simp: cinv_def client_wf_def live_def)

lemma wf_ref_cong: "cview (clients st' c) = cview (clients st c) \<Longrightarrow> addr_c (addr (clients st c) ! 0) = Some c \<Longrightarrow>
    wf_ref st (Addr c 0) \<Longrightarrow> wf_ref st' (Addr c 0)"
  using cview_fields [of "clients st' c" "clients st c"] by (simp add: wf_ref_def)

lemma disconnect_steps:
  assumes "cref (clients s1 c) = 0" "cli (clients s1 c) \<noteq> 0" "client_unlink c s1 = Some s"
    "upd_client c (\<lambda>x. x\<lparr>cli := 0\<rparr>) s = s2" "disconnect_addrs c [0..<numberOfInterfaces (clients s2 c)] s2 = Some s4"
    "upd_client c (\<lambda>x. x\<lparr>numberOfInterfaces := 0, port := 0, cstate := ROPAC_FREE\<rparr>) s4 = s5"
    "hashtabdel (clients_cmp_uuid s5) (clients_hash_uuid s5) (ht_clients_uuid s5) (Cli c) = Some (0, y, t)"
  shows "disconnect_client c s1 = Some (client_addtail c (s5\<lparr>ht_clients_uuid := t\<rparr>))"
proof -
  have "ht_clients_uuid s4 = ht_clients_uuid s5" using assms(6) by auto
  then show ?thesis unfolding disconnect_client_def using assms by (simp add: Let_def)
qed

lemma disconnect_ok:
  assumes inv: "cinv st f" and lv: "live st c" and fc: "f c = 1"
    and st1: "st1 = upd_client c (\<lambda>x. x\<lparr>cref := cref x - 1\<rparr>) st"
  shows "\<exists>st'. disconnect_client c st1 = Some st' \<and> cinv st' (f(c := 0)) \<and> cframe st st' \<and> quiet st st' \<and>
    same_clients st st' (- {c}) \<and> same_conn st st' \<and> \<not> live st' c"
proof -
  have c: "c < num_clients st" using lv by (simp add: live_def)
  let ?x = "clients st c" and ?l = "lru_clients st" and ?m = "nitems st + 1"
  let ?L = "Collect (live st)"
  have ok: "items_ok (num_clients st) (nitems st) ?l (\<lambda>c. cli (clients st c))"
    and r: "cli ?x \<noteq> 0" "cref ?x = 1" "numberOfInterfaces ?x = 1" "addr_c (addr ?x ! 0) = Some c"
    and tabs: "client_tabs st ?L ?L"
    using inv c lv fc by (auto simp: cinv_def client_wf_def)
  define st2 where "st2 = st\<lparr>clients := (clients st)(c := ?x\<lparr>cref := 0, cli := 0\<rparr>), lru_clients := drop_obj c ?l\<rparr>"
  have same2: "same_clients st st2 UNIV" by (auto simp: same_clients_def st2_def cview_def)
  have wfl: "\<forall>d \<in> ?L. client_wf st d \<and> live st d" using inv by (auto simp: cinv_def live_def)
  have tabs2: "client_tabs st2 ?L ?L"
    by (rule client_tabs_cong [OF tabs]) (use same2 wfl in \<open>auto simp: st2_def same_clients_def\<close>)
  have wf2: "\<forall>y \<in> (\<lambda>c. Addr c 0) ` ?L. wf_ref st2 y"
    using cinv_wf_ref [OF inv] same2 wfl wf_ref_cong [of st2 _ st] by (auto simp: same_clients_def client_wf_def)
  obtain t where t: "ip_del (Addr c 0) st2 = Some (0, st2\<lparr>ht_clients_ip := t\<rparr>)"
    "hash_set (clients_hash_ip st2) (ip_key st2) t ((\<lambda>c. Addr c 0) ` ?L - {Addr c 0})"
    using ip_del_ok [of st2 "Addr c 0", OF _ _ wf2] wf2 tabs2 lv unfolding client_tabs_def by auto
  let ?y = "?x\<lparr>cref := 0, cli := 0, addr := (addr ?x)[0 := cleared_addr], numberOfInterfaces := 0, port := 0, cstate := ROPAC_FREE\<rparr>"
  define st5 where "st5 = st\<lparr>clients := (clients st)(c := ?y), lru_clients := drop_obj c ?l, ht_clients_ip := t\<rparr>"
  have "hash_set (clients_hash_uuid st5) (uuid_key st5) (ht_clients_uuid st5) (Cli ` ?L)"
  proof (rule hash_set_cong)
    show "hash_set (clients_hash_uuid st2) (uuid_key st2) (ht_clients_uuid st5) (Cli ` ?L)"
      using tabs2 by (simp add: client_tabs_def st2_def st5_def)
  qed (auto simp: clients_hash_uuid_def uuid_key_def st2_def st5_def)
  from uuid_tab.set_del [OF this, of "Cli c" "Cli c"] lv obtain t2 where
    t2: "hashtabdel (clients_cmp_uuid st5) (clients_hash_uuid st5) (ht_clients_uuid st5) (Cli c) = Some (0, Some (Cli c), t2)"
    "hash_set (clients_hash_uuid st5) (uuid_key st5) t2 (Cli ` ?L - {Cli c})" by auto
  define st6 where "st6 = st\<lparr>clients := (clients st)(c := ?y\<lparr>cli := ?m\<rparr>), nitems := ?m, lru_clients := drop_obj c ?l @ [(?m, c)], ht_clients_ip := t, ht_clients_uuid := t2\<rparr>"
  have u: "client_unlink c st1 = Some (st1\<lparr>lru_clients := drop_obj c ?l\<rparr>)"
    using items_unlink [OF ok c] r by (simp add: client_unlink_def st1)
  have s2: "upd_client c (\<lambda>x. x\<lparr>cli := 0\<rparr>) (st1\<lparr>lru_clients := drop_obj c ?l\<rparr>) = st2"
    using r(2) by (simp add: st1 st2_def)
  have s5: "upd_client c (\<lambda>x. x\<lparr>numberOfInterfaces := 0, port := 0, cstate := ROPAC_FREE\<rparr>) (clear_addr c 0 (st2\<lparr>ht_clients_ip := t\<rparr>)) = st5"
    by (simp add: st5_def st2_def clear_addr_def)
  have d: "disconnect_addrs c [0..<numberOfInterfaces (clients st2 c)] st2 = Some (clear_addr c 0 (st2\<lparr>ht_clients_ip := t\<rparr>))"
    using t(1) r(3) by (simp add: st2_def)
  have s6: "client_addtail c (st5\<lparr>ht_clients_uuid := t2\<rparr>) = st6" by (simp add: client_addtail_def st5_def st6_def)
  have "disconnect_client c st1 = Some st6"
    using disconnect_steps [OF _ _ u s2 d s5 t2(1)] r s6 by (simp add: st1)
  have lv6: "live st6 d \<longleftrightarrow> live st d \<and> d \<noteq> c" for d by (auto simp: live_def st6_def)
  have L6: "Collect (live st6) = ?L - {c}" using lv6 by auto
  have same6: "same_clients st st6 (- {c})" by (auto simp: same_clients_def st6_def)
  have tabs6: "client_tabs st6 (?L - {c}) (?L - {c})"
    unfolding client_tabs_def
  proof
    show "hash_set (clients_hash_uuid st6) (uuid_key st6) (ht_clients_uuid st6) (Cli ` (?L - {c}))"
    proof (rule hash_set_cong)
      show "hash_set (clients_hash_uuid st5) (uuid_key st5) (ht_clients_uuid st6) (Cli ` (?L - {c}))"
        using t2(2) by (simp add: st6_def image_set_diff inj_def)
    qed (auto simp: clients_hash_uuid_def uuid_key_def st6_def st5_def)
    show "hash_set (clients_hash_ip st6) (ip_key st6) (ht_clients_ip st6) ((\<lambda>c. Addr c 0) ` (?L - {c}))"
    proof (rule hash_set_cong)
      show "hash_set (clients_hash_ip st2) (ip_key st2) (ht_clients_ip st6) ((\<lambda>c. Addr c 0) ` (?L - {c}))"
        using t(2) by (simp add: st6_def image_set_diff inj_def)
      show "\<forall>x \<in> (\<lambda>c. Addr c 0) ` (?L - {c}). clients_hash_ip st6 x = clients_hash_ip st2 x \<and> ip_key st6 x = ip_key st2 x"
        using wfl by (auto simp: st6_def st2_def clients_hash_ip_def ip_key_def client_wf_def)
    qed
  qed
  have wf6: "client_wf st6 d" if "d < num_clients st" for d
  proof (cases "d = c")
    case True
    have "client_wf st c" using inv c by (simp add: cinv_def)
    then show ?thesis using lv6 [of c] True by (simp add: client_wf_def st6_def)
  next
    case False
    have "client_wf st d" using inv that by (simp add: cinv_def)
    moreover have "cview (clients st6 d) = cview (clients st d)" using same6 False by (simp add: same_clients_def)
    ultimately show ?thesis using client_wf_cong [of st6 st d] by (simp add: st6_def)
  qed
  have items6: "items_ok (num_clients st6) (nitems st6) (lru_clients st6) (\<lambda>d. cli (clients st6 d))"
  proof -
    have "(\<lambda>d. cli (clients st6 d)) = (\<lambda>d. cli (clients st d))(c := 0, c := ?m)" by (auto simp: st6_def)
    then show ?thesis using items_addtail [OF items_drop [OF ok, of c], of c] c by (simp add: st6_def)
  qed
  have sorted6: "lru_sorted (live st6) (lru_clients st6)"
  proof -
    have "lru_sorted (live st) (drop_obj c ?l)" using inv by (auto simp: cinv_def intro: sorted_drop)
    then have "lru_sorted (live st6) (drop_obj c ?l)" by (rule sorted_cong) (use lv6 in auto)
    then show ?thesis using lv6 [of c] by (auto simp: st6_def intro: sorted_tail)
  qed
  have refs6: "\<forall>d < num_clients st6. cli (clients st6 d) \<noteq> 0 \<and> cref (clients st6 d) = int ((f(c := 0)) d) \<and> client_wf st6 d \<and> conn (clients st6 d) \<noteq> Destroyed"
    using wf6 inv by (auto simp: cinv_def st6_def)
  have "\<forall>d. 0 < (f(c := 0)) d \<longrightarrow> live st6 d" using inv lv6 by (auto simp: cinv_def)
  then have "cinv st6 (f(c := 0))" unfolding cinv_def L6 using items6 sorted6 refs6 tabs6 by blast
  moreover have "cframe st st6" "quiet st st6" "same_conn st st6" by (auto simp: cframe_def quiet_def same_conn_def st6_def)
  ultimately show ?thesis using \<open>disconnect_client c st1 = Some st6\<close> same6 lv6 [of c] by blast
qed

lemma client_deref_ok:
  assumes inv: "cinv st f" and fc: "f c > 0"
  shows "\<exists>st'. client_deref c st = Some st' \<and> cinv st' (f(c := f c - 1)) \<and> cframe st st' \<and> quiet st st' \<and>
    same_clients st st' (if f c = 1 then - {c} else UNIV) \<and> same_conn st st' \<and> (f c = 1 \<longrightarrow> \<not> live st' c)"
proof -
  have lv: "live st c" using inv fc by (simp add: cinv_def)
  then have c: "c < num_clients st" by (simp add: live_def)
  let ?st = "upd_client c (\<lambda>x. x\<lparr>cref := cref x - 1\<rparr>) st"
  have r: "cref (clients st c) = int (f c)" using inv c by (simp add: cinv_def)
  show ?thesis
  proof (cases "f c = 1")
    case True
    then show ?thesis using disconnect_ok [OF inv lv True refl] r by (simp add: client_deref_def)
  next
    case False
    have same: "same_clients st ?st UNIV" by (auto simp: same_clients_def cview_def)
    have "cinv ?st (f(c := f c - 1))"
    proof (rule cinv_links [OF inv _ _ _ same])
      have "(\<lambda>d. cli (clients ?st d)) = (\<lambda>d. cli (clients st d))" by auto
      then show "items_ok (num_clients st) (nitems ?st) (lru_clients ?st) (\<lambda>d. cli (clients ?st d))" using inv by (simp add: cinv_def)
      show "\<forall>d < num_clients st. cli (clients ?st d) \<noteq> 0 \<and> cref (clients ?st d) = int ((f(c := f c - 1)) d) \<and> conn (clients ?st d) \<noteq> Destroyed"
        using inv fc by (auto simp: cinv_def)
    qed (use inv in \<open>auto simp: cinv_def\<close>)
    then show ?thesis using r False fc same by (simp add: client_deref_def cframe_def quiet_def same_conn_def)
  qed
qed

section \<open>Callbacks\<close>

text \<open>\<open>g b\<close> is the number of references to callback \<open>b\<close>; a callback with references is in the hash table.\<close>

definition binv :: "ropa \<Rightarrow> (nat \<Rightarrow> nat) \<Rightarrow> bool" where
  "binv st g \<longleftrightarrow>
     items_ok (num_callbacks st) (nitems st) (lru_callback st) (\<lambda>b. cbli (cbs st b)) \<and>
     lru_sorted (\<lambda>b. 0 < g b) (lru_callback st) \<and>
     (\<forall>b < num_callbacks st. cbli (cbs st b) \<noteq> 0 \<and> cbref (cbs st b) = int (g b)) \<and>
     (\<forall>b. 0 < g b \<longrightarrow> b < num_callbacks st) \<and>
     hash_set (callbacks_hash st) (ref_fid st) (ht_callbacks st) (Cb ` {b. 0 < g b})"

definition bframe :: "ropa \<Rightarrow> ropa \<Rightarrow> bool" where
  "bframe st st' \<longleftrightarrow> clients st' = clients st \<and> ccs st' = ccs st \<and> ht_clients_ip st' = ht_clients_ip st \<and> ht_clients_uuid st' = ht_clients_uuid st \<and>
     ht_ccpairs st' = ht_ccpairs st \<and> lru_ccpair st' = lru_ccpair st \<and> lru_clients st' = lru_clients st \<and> heap_ccpairs st' = heap_ccpairs st \<and>
     num_clients st' = num_clients st \<and> num_callbacks st' = num_callbacks st \<and> num_ccpair st' = num_ccpair st \<and>
     nitems st \<le> nitems st' \<and> (\<forall>b. ccpairs (cbs st' b) = ccpairs (cbs st b))"

lemma bframe_refl [simp]: "bframe st st" by (simp add: bframe_def)

lemma bframe_trans: "bframe a b \<Longrightarrow> bframe b c \<Longrightarrow> bframe a c"
  by (auto simp: bframe_def)

lemma cb_table_cong:
  assumes "hash_set (callbacks_hash st) (ref_fid st) t (Cb ` A)" "\<forall>b \<in> A. fid (cbs st' b) = fid (cbs st b)"
  shows "hash_set (callbacks_hash st') (ref_fid st') t (Cb ` A)"
  by (rule hash_set_cong [OF assms(1)]) (use assms(2) in \<open>auto simp: callbacks_hash_def\<close>)

lemma callback_ref_ok:
  assumes inv: "binv st g" and gb: "g b > 0"
  shows "\<exists>st'. callback_ref b st = Some st' \<and> binv st' (g(b := g b + 1)) \<and> bframe st st' \<and> quiet st st' \<and> (\<forall>d. fid (cbs st' d) = fid (cbs st d))"
proof -
  have b: "b < num_callbacks st" using inv gb by (simp add: binv_def)
  have ok: "items_ok (num_callbacks st) (nitems st) (lru_callback st) (\<lambda>b. cbli (cbs st b))"
    and r: "cbli (cbs st b) \<noteq> 0" "cbref (cbs st b) = int (g b)" using inv b by (auto simp: binv_def)
  let ?m = "nitems st + 1" and ?x = "cbs st b"
  let ?st = "st\<lparr>cbs := (cbs st)(b := ?x\<lparr>cbref := cbref ?x + 1, cbli := ?m\<rparr>), nitems := ?m, lru_callback := (?m, b) # drop_obj b (lru_callback st)\<rparr>"
  have "callback_ref b st = Some ?st"
    using r items_unlink [OF ok b] by (simp add: callback_ref_def cb_unlink_def cb_addhead_def Let_def)
  moreover have "binv ?st (g(b := g b + 1))"
    unfolding binv_def
  proof (intro conjI)
    have "(\<lambda>d. cbli (cbs ?st d)) = (\<lambda>d. cbli (cbs st d))(b := 0, b := ?m)" by auto
    then show "items_ok (num_callbacks ?st) (nitems ?st) (lru_callback ?st) (\<lambda>d. cbli (cbs ?st d))"
      using items_addhead [OF items_drop [OF ok, of b], of b] b by simp
    have "lru_sorted (\<lambda>b. 0 < g b) (drop_obj b (lru_callback st))" using inv by (auto simp: binv_def intro: sorted_drop)
    then have "lru_sorted (\<lambda>d. 0 < (g(b := g b + 1)) d) (drop_obj b (lru_callback st))" by (rule sorted_cong) auto
    then have "lru_sorted (\<lambda>d. 0 < (g(b := g b + 1)) d) ((?m, b) # drop_obj b (lru_callback st))" by (rule sorted_head) simp
    then show "lru_sorted (\<lambda>d. 0 < (g(b := g b + 1)) d) (lru_callback ?st)" by simp
    show "\<forall>d < num_callbacks ?st. cbli (cbs ?st d) \<noteq> 0 \<and> cbref (cbs ?st d) = int ((g(b := g b + 1)) d)"
      "\<forall>d. 0 < (g(b := g b + 1)) d \<longrightarrow> d < num_callbacks ?st" using inv b by (auto simp: binv_def)
    have "{d. 0 < (g(b := g b + 1)) d} = {d. 0 < g d}" using gb by auto
    moreover have "hash_set (callbacks_hash ?st) (ref_fid ?st) (ht_callbacks st) (Cb ` {d. 0 < g d})"
      by (rule cb_table_cong [of st]) (use inv in \<open>auto simp: binv_def\<close>)
    ultimately show "hash_set (callbacks_hash ?st) (ref_fid ?st) (ht_callbacks ?st) (Cb ` {d. 0 < (g(b := g b + 1)) d})" by simp
  qed
  moreover have "bframe st ?st" "quiet st ?st" "\<forall>d. fid (cbs ?st d) = fid (cbs st d)" by (auto simp: bframe_def quiet_def)
  ultimately show ?thesis by blast
qed

lemma callback_deref_ok:
  assumes inv: "binv st g" and gb: "g b > 0" and emp: "g b = 1 \<Longrightarrow> ccpairs (cbs st b) = []"
  shows "\<exists>st'. callback_deref b st = Some st' \<and> binv st' (g(b := g b - 1)) \<and> bframe st st' \<and> quiet st st' \<and>
    (\<forall>d. d \<noteq> b \<or> g b > 1 \<longrightarrow> fid (cbs st' d) = fid (cbs st d))"
proof -
  have b: "b < num_callbacks st" using inv gb by (simp add: binv_def)
  have ok: "items_ok (num_callbacks st) (nitems st) (lru_callback st) (\<lambda>b. cbli (cbs st b))"
    and r: "cbli (cbs st b) \<noteq> 0" "cbref (cbs st b) = int (g b)"
    and ht: "hash_set (callbacks_hash st) (ref_fid st) (ht_callbacks st) (Cb ` {b. 0 < g b})" using inv b by (auto simp: binv_def)
  let ?m = "nitems st + 1" and ?x = "cbs st b"
  let ?st = "upd_cb b (\<lambda>x. x\<lparr>cbref := cbref x - 1\<rparr>) st"
  have ht': "hash_set (callbacks_hash ?st) (ref_fid ?st) (ht_callbacks st) (Cb ` {d. 0 < g d})"
    by (rule cb_table_cong [OF ht]) auto
  show ?thesis
  proof (cases "g b = 1")
    case True
    obtain t where t: "hashtabdel (callbacks_cmp ?st) (callbacks_hash ?st) (ht_callbacks st) (Cb b) = Some (0, Some (Cb b), t)"
      "hash_set (callbacks_hash ?st) (ref_fid ?st) t (Cb ` {d. 0 < g d} - {Cb b})"
      using cb_tab.set_del [OF ht', of "Cb b" "Cb b"] gb by auto
    let ?z = "\<lparr>Volume = 0, Vnode = 0, Unique = 0\<rparr>"
    let ?s = "st\<lparr>cbs := (cbs st)(b := ?x\<lparr>cbref := 0, fid := ?z, cbli := ?m\<rparr>), nitems := ?m, ht_callbacks := t, lru_callback := drop_obj b (lru_callback st) @ [(?m, b)]\<rparr>"
    have "callback_deref b st = Some ?s"
      using r True t(1) emp items_unlink [OF ok b] by (simp add: callback_deref_def cb_unlink_def cb_addtail_def Let_def)
    moreover have "binv ?s (g(b := g b - 1))"
      unfolding binv_def
    proof (intro conjI)
      have "(\<lambda>d. cbli (cbs ?s d)) = (\<lambda>d. cbli (cbs st d))(b := 0, b := ?m)" by auto
      then show "items_ok (num_callbacks ?s) (nitems ?s) (lru_callback ?s) (\<lambda>d. cbli (cbs ?s d))"
        using items_addtail [OF items_drop [OF ok, of b], of b] b by simp
      have "lru_sorted (\<lambda>b. 0 < g b) (drop_obj b (lru_callback st))" using inv by (auto simp: binv_def intro: sorted_drop)
      then have "lru_sorted (\<lambda>d. 0 < (g(b := g b - 1)) d) (drop_obj b (lru_callback st))" by (rule sorted_cong) auto
      then have "lru_sorted (\<lambda>d. 0 < (g(b := g b - 1)) d) (drop_obj b (lru_callback st) @ [(?m, b)])"
        by (rule sorted_tail) (use True in simp)
      then show "lru_sorted (\<lambda>d. 0 < (g(b := g b - 1)) d) (lru_callback ?s)" by simp
      show "\<forall>d < num_callbacks ?s. cbli (cbs ?s d) \<noteq> 0 \<and> cbref (cbs ?s d) = int ((g(b := g b - 1)) d)"
        "\<forall>d. 0 < (g(b := g b - 1)) d \<longrightarrow> d < num_callbacks ?s" using inv b True by (auto simp: binv_def)
      have "Cb ` {d. 0 < (g(b := g b - 1)) d} = Cb ` {d. 0 < g d} - {Cb b}" using True by auto
      moreover have "hash_set (callbacks_hash ?s) (ref_fid ?s) t (Cb ` ({d. 0 < g d} - {b}))"
        by (rule cb_table_cong [of ?st]) (use t(2) in \<open>auto simp: image_set_diff inj_def\<close>)
      ultimately show "hash_set (callbacks_hash ?s) (ref_fid ?s) (ht_callbacks ?s) (Cb ` {d. 0 < (g(b := g b - 1)) d})"
        by (simp add: image_set_diff inj_def)
    qed
    moreover have "bframe st ?s" "quiet st ?s" "\<forall>d. d \<noteq> b \<or> g b > 1 \<longrightarrow> fid (cbs ?s d) = fid (cbs st d)"
      using True by (auto simp: bframe_def quiet_def)
    ultimately show ?thesis by blast
  next
    case False
    have "callback_deref b st = Some ?st" using r False gb by (simp add: callback_deref_def)
    moreover have "binv ?st (g(b := g b - 1))"
      unfolding binv_def
    proof (intro conjI)
      have "(\<lambda>d. cbli (cbs ?st d)) = (\<lambda>d. cbli (cbs st d))" by auto
      then show "items_ok (num_callbacks ?st) (nitems ?st) (lru_callback ?st) (\<lambda>d. cbli (cbs ?st d))" using ok by simp
      have "lru_sorted (\<lambda>b. 0 < g b) (lru_callback st)" using inv by (simp add: binv_def)
      then have "lru_sorted (\<lambda>d. 0 < (g(b := g b - 1)) d) (lru_callback st)" by (rule sorted_cong) (use False gb in auto)
      then show "lru_sorted (\<lambda>d. 0 < (g(b := g b - 1)) d) (lru_callback ?st)" by simp
      show "\<forall>d < num_callbacks ?st. cbli (cbs ?st d) \<noteq> 0 \<and> cbref (cbs ?st d) = int ((g(b := g b - 1)) d)"
        "\<forall>d. 0 < (g(b := g b - 1)) d \<longrightarrow> d < num_callbacks ?st" using inv gb by (auto simp: binv_def)
      have "{d. 0 < (g(b := g b - 1)) d} = {d. 0 < g d}" using False gb by auto
      then show "hash_set (callbacks_hash ?st) (ref_fid ?st) (ht_callbacks ?st) (Cb ` {d. 0 < (g(b := g b - 1)) d})"
        using ht' by simp
    qed
    moreover have "bframe st ?st" "quiet st ?st" "\<forall>d. fid (cbs ?st d) = fid (cbs st d)" by (auto simp: bframe_def quiet_def)
    ultimately show ?thesis by blast
  qed
qed

end
