(* ===== verification/Ropa_Break.thy ===== *)
theory Ropa_Break
  imports Ropa_Inv
begin

text \<open>
  Breaking one promise (\<open>break_ccpair\<close>, \<open>ropa.c\<close>): the invariant of the promises, what a broken
  promise leaves behind, and the one message that goes to its client.
\<close>

section \<open>Promises\<close>

definition inuse :: "ropa \<Rightarrow> nat set" where
  "inuse st = {k. client (ccs st k) \<noteq> None}"

definition helem :: "nat \<Rightarrow> nat heap_element" where
  "helem k = \<lparr>el_data = Some k, el_ptr = Some (Cell k)\<rparr>"

definition blink :: "ropa \<Rightarrow> nat \<Rightarrow> nat \<Rightarrow> nat" where
  "blink st b k = (if cc_cb (ccs st k) = Some b then cb_li (ccs st k) else 0)"

text \<open>A promise in use that is not on the list of its callback is in \<open>W\<close>.\<close>

definition pair_wf :: "ropa \<Rightarrow> nat set \<Rightarrow> nat \<Rightarrow> bool" where
  "pair_wf st W k \<longleftrightarrow>
     (if k \<in> inuse st then k < num_ccpair st \<and> cc_cb (ccs st k) \<noteq> None \<and> (cb_li (ccs st k) = 0 \<longleftrightarrow> k \<in> W)
      else cc_cb (ccs st k) = None \<and> cb_li (ccs st k) = 0)"

definition kinv :: "ropa_env \<Rightarrow> ropa \<Rightarrow> nat set \<Rightarrow> bool" where
  "kinv env st W \<longleftrightarrow>
     items_ok (num_ccpair st) (nitems st) (lru_ccpair st) (\<lambda>k. ccli (ccs st k)) \<and>
     lru_sorted (\<lambda>k. k \<in> inuse st) (lru_ccpair st) \<and>
     (\<forall>k < num_ccpair st. ccli (ccs st k) \<noteq> 0) \<and>
     (\<forall>k. pair_wf st W k) \<and>
     (\<forall>b. items_ok (num_ccpair st) (nitems st) (ccpairs (cbs st b)) (blink st b)) \<and>
     hash_set (ccpairs_hash env st) (cc_pair st) (ht_ccpairs st) (Cc ` inuse st) \<and>
     heap_inv (\<lambda>k. expire (ccs st k)) (expire_ok st) (heap_ccpairs st) (image_mset helem (mset_set (inuse st))) \<and>
     max_sz (heap_ccpairs st) = num_ccpair st"

definition pcount :: "ropa \<Rightarrow> nat \<Rightarrow> nat" where
  "pcount st c = card {k. client (ccs st k) = Some c}"

definition bcount :: "ropa \<Rightarrow> nat \<Rightarrow> nat" where
  "bcount st b = card {k. cc_cb (ccs st k) = Some b}"

definition ropa_inv :: "ropa_env \<Rightarrow> ropa \<Rightarrow> nat set \<Rightarrow> (nat \<Rightarrow> nat) \<Rightarrow> (nat \<Rightarrow> nat) \<Rightarrow> bool" where
  "ropa_inv env st W rb rc \<longleftrightarrow>
     cinv st (\<lambda>c. pcount st c + rc c) \<and> binv st (\<lambda>b. bcount st b + rb b) \<and> kinv env st W"

lemma cinv_cong:
  assumes "cinv st f" "clients st' = clients st" "ht_clients_ip st' = ht_clients_ip st" "ht_clients_uuid st' = ht_clients_uuid st"
    "lru_clients st' = lru_clients st" "num_clients st' = num_clients st" "nitems st \<le> nitems st'"
  shows "cinv st' f"
  by (rule cinv_links [OF assms(1)]) (use assms items_mono in \<open>auto simp: cinv_def same_clients_def\<close>)

lemma binv_cong:
  assumes inv: "binv st g" and cb: "\<And>b. cbli (cbs st' b) = cbli (cbs st b)" "\<And>b. cbref (cbs st' b) = cbref (cbs st b)"
      "\<And>b. fid (cbs st' b) = fid (cbs st b)"
    and eq: "ht_callbacks st' = ht_callbacks st" "lru_callback st' = lru_callback st" "num_callbacks st' = num_callbacks st" "nitems st \<le> nitems st'"
  shows "binv st' g"
proof -
  have "hash_set (callbacks_hash st') (ref_fid st') (ht_callbacks st) (Cb ` {b. 0 < g b})"
    by (rule cb_table_cong [of st]) (use inv cb in \<open>auto simp: binv_def\<close>)
  then show ?thesis using inv eq cb items_mono by (auto simp: binv_def)
qed

lemma finite_inuse: "kinv env st W \<Longrightarrow> finite (inuse st)"
  by (rule finite_subset [of _ "{..<num_ccpair st}"]) (auto simp: kinv_def pair_wf_def split: if_splits)

lemma kinv_finite:
  assumes "kinv env st W"
  shows "finite {k. client (ccs st k) = Some c}" "finite {k. cc_cb (ccs st k) = Some b}"
proof -
  note f = finite_inuse [OF assms]
  show "finite {k. client (ccs st k) = Some c}" by (rule finite_subset [OF _ f]) (auto simp: inuse_def)
  have "k \<in> inuse st" if "cc_cb (ccs st k) = Some b" for k
    using assms that by (auto simp: kinv_def pair_wf_def split: if_splits)
  then show "finite {k. cc_cb (ccs st k) = Some b}" by (intro finite_subset [OF _ f]) auto
qed

lemma heap_inv_hcmp [simp]: "heap_inv key valid (h\<lparr>hcmp := c\<rparr>) M = heap_inv key valid h M"
  by (simp add: heap_inv_def settled_def elems_def indexed_def)

section \<open>Notifications\<close>

definition env_ok :: "ropa_env \<Rightarrow> bool" where
  "env_ok env \<longleftrightarrow> (\<forall>n. rpc_callback env n = 0 \<and> conn_ok env n)"

definition rpc_target :: "ropa_client \<Rightarrow> u32 \<times> u16" where
  "rpc_target x = (case conn x of Conn a p \<Rightarrow> (a, p) | _ \<Rightarrow> (addr_in (addr x ! 0), port x))"

lemma notify_ok:
  assumes inv: "cinv st f" and lv: "live st c" and env: "env_ok env"
  shows "\<exists>st'. notify_client env c fids st = Some st' \<and> cinv st' f \<and> cframe st st' \<and>
    sent st' = sent st @ [CallBackRPC (fst (rpc_target (clients st c))) (snd (rpc_target (clients st c))) fids 0] \<and>
    same_clients st st' UNIV \<and> (\<forall>d. d \<noteq> c \<longrightarrow> conn (clients st' d) = conn (clients st d)) \<and>
    rpc_target (clients st' c) = rpc_target (clients st c)"
proof -
  have c: "c < num_clients st" using lv by (simp add: live_def)
  let ?x = "clients st c"
  have r: "conn ?x \<noteq> Destroyed" "numberOfInterfaces ?x = 1" using inv c lv by (auto simp: cinv_def client_wf_def)
  let ?ev = "\<lambda>a p. CallBackRPC a p fids 0"
  have fin: "cinv st' f \<and> cframe st st' \<and> same_clients st st' UNIV"
    if st': "st' = st\<lparr>clients := (clients st)(c := ?x\<lparr>conn := v\<rparr>), ncalls := n, sent := s\<rparr>" "v \<noteq> Destroyed" for st' v n s
  proof -
    have same: "same_clients st st' UNIV" by (auto simp: st' same_clients_def cview_def)
    have li: "(\<lambda>d. cli (clients st' d)) = (\<lambda>d. cli (clients st d))" by (auto simp: st')
    have "cinv st' f"
    proof (rule cinv_links [OF inv _ _ _ same])
      show "items_ok (num_clients st) (nitems st') (lru_clients st') (\<lambda>d. cli (clients st' d))"
        unfolding li using inv by (simp add: cinv_def st')
      show "\<forall>d < num_clients st. cli (clients st' d) \<noteq> 0 \<and> cref (clients st' d) = int (f d) \<and> conn (clients st' d) \<noteq> Destroyed"
        using inv that(2) by (simp add: cinv_def st')
    qed (use inv in \<open>auto simp: cinv_def st'\<close>)
    then show ?thesis using same by (simp add: st' cframe_def)
  qed
  show ?thesis
  proof (cases "conn ?x")
    case NoConn
    let ?a = "addr_in (addr ?x ! 0)" and ?p = "port ?x"
    let ?st = "st\<lparr>clients := (clients st)(c := ?x\<lparr>conn := Conn ?a ?p\<rparr>), ncalls := ncalls st + 2, sent := sent st @ [?ev ?a ?p]\<rparr>"
    have "notify_client env c fids st = Some ?st"
      using NoConn r env by (simp add: notify_client_def ext_call_def callback_rpc_def env_ok_def Let_def)
    then show ?thesis using fin [where v = "Conn ?a ?p", OF refl, where n = "ncalls st + 2" and s = "sent st @ [?ev ?a ?p]"] NoConn by (simp add: rpc_target_def)
  next
    case (Conn a p)
    let ?st = "st\<lparr>clients := (clients st)(c := ?x\<lparr>conn := Conn a p\<rparr>), ncalls := ncalls st + 1, sent := sent st @ [?ev a p]\<rparr>"
    have "(clients st)(c := ?x\<lparr>conn := Conn a p\<rparr>) = clients st" using Conn by (auto simp: fun_eq_iff)
    then have "notify_client env c fids st = Some ?st"
      using Conn env by (simp add: notify_client_def ext_call_def callback_rpc_def env_ok_def Let_def)
    then show ?thesis using fin [where v = "Conn a p", OF refl, where n = "ncalls st + 1" and s = "sent st @ [?ev a p]"] Conn by (simp add: rpc_target_def)
  qed (use r in simp)
qed

section \<open>Breaking one promise\<close>

lemma drop_obj_id: "k \<notin> snd ` set l \<Longrightarrow> drop_obj k l = l"
  by (auto simp: drop_obj_def filter_id_conv)

lemma cc_table_cong:
  assumes "hash_set (ccpairs_hash env st) (cc_pair st) t (Cc ` A)"
    and "\<forall>k \<in> A. client (ccs st' k) = client (ccs st k) \<and> cc_cb (ccs st' k) = cc_cb (ccs st k) \<and>
      (\<forall>b. cc_cb (ccs st k) = Some b \<longrightarrow> fid (cbs st' b) = fid (cbs st b))"
  shows "hash_set (ccpairs_hash env st') (cc_pair st') t (Cc ` A)"
proof (rule hash_set_cong [OF assms(1)], rule ballI)
  fix x assume "x \<in> Cc ` A"
  then obtain k where k: "x = Cc k" "k \<in> A" by blast
  then show "ccpairs_hash env st' x = ccpairs_hash env st x \<and> cc_pair st' x = cc_pair st x"
    using assms(2) by (auto simp: ccpairs_hash_def callbacks_hash_def split: option.split)
qed

lemma kinv_blink:
  assumes "kinv env st W" "(i, k) \<in> set (ccpairs (cbs st b))"
  shows "k \<in> inuse st" "cc_cb (ccs st k) = Some b" "cb_li (ccs st k) = i" "i \<noteq> 0" "k \<notin> W"
proof -
  have "items_ok (num_ccpair st) (nitems st) (ccpairs (cbs st b)) (blink st b)" using assms(1) by (simp add: kinv_def)
  then have "blink st b k = i" "i \<noteq> 0" using assms(2) items_mem by blast+
  then show c: "cc_cb (ccs st k) = Some b" "cb_li (ccs st k) = i" "i \<noteq> 0" by (auto simp: blink_def split: if_splits)
  have w: "pair_wf st W k" using assms(1) by (simp add: kinv_def)
  then show "k \<in> inuse st" using c by (auto simp: pair_wf_def split: if_splits)
  then show "k \<notin> W" using w c by (simp add: pair_wf_def)
qed

lemma kinv_remove:
  assumes inv: "kinv env st W" and k: "k \<in> inuse st"
    and ccs': "\<forall>j. j \<noteq> k \<longrightarrow> ccs st' j = ccs st j" "client (ccs st' k) = None" "cc_cb (ccs st' k) = None" "cb_li (ccs st' k) = 0" "ccli (ccs st' k) = nitems st'"
    and lru: "lru_ccpair st' = drop_obj k (lru_ccpair st) @ [(nitems st', k)]" "nitems st < nitems st'"
    and num: "num_ccpair st' = num_ccpair st"
    and lists: "\<forall>b. ccpairs (cbs st' b) = drop_obj k (ccpairs (cbs st b))"
    and tab: "hash_set (ccpairs_hash env st') (cc_pair st') (ht_ccpairs st') (Cc ` (inuse st - {k}))"
    and heap: "heap_inv (\<lambda>k. expire (ccs st' k)) (expire_ok st') (heap_ccpairs st') (image_mset helem (mset_set (inuse st - {k})))"
      "max_sz (heap_ccpairs st') = num_ccpair st"
  shows "kinv env st' (W - {k})" and "inuse st' = inuse st - {k}"
proof -
  have "client (ccs st' j) = (if j = k then None else client (ccs st j))" for j using ccs' by simp
  then show U: "inuse st' = inuse st - {k}" by (auto simp: inuse_def split: if_splits)
  have kn: "k < num_ccpair st" using inv k by (auto simp: kinv_def pair_wf_def)
  have ok: "items_ok (num_ccpair st) (nitems st) (lru_ccpair st) (\<lambda>k. ccli (ccs st k))" using inv by (simp add: kinv_def)
  have "items_ok (num_ccpair st) (nitems st' - 1) (drop_obj k (lru_ccpair st)) ((\<lambda>k. ccli (ccs st k))(k := 0))"
    using items_mono [OF items_drop [OF ok]] lru(2) by simp
  from items_addtail [OF this kn] have "items_ok (num_ccpair st) (nitems st') (lru_ccpair st') ((\<lambda>k. ccli (ccs st k))(k := nitems st'))"
    using lru by simp
  moreover have "(\<lambda>k. ccli (ccs st k))(k := nitems st') = (\<lambda>k. ccli (ccs st' k))" using ccs'(1,5) by auto
  ultimately have items: "items_ok (num_ccpair st') (nitems st') (lru_ccpair st') (\<lambda>k. ccli (ccs st' k))" using num by simp
  have "lru_sorted (\<lambda>j. j \<in> inuse st) (drop_obj k (lru_ccpair st))" using inv by (auto simp: kinv_def intro: sorted_drop)
  then have "lru_sorted (\<lambda>j. j \<in> inuse st') (drop_obj k (lru_ccpair st))" by (rule sorted_cong) (use U in auto)
  then have sorted: "lru_sorted (\<lambda>j. j \<in> inuse st') (lru_ccpair st')" unfolding lru(1) by (rule sorted_tail) (use U in simp)
  have "ccli (ccs st' j) \<noteq> 0" if "j < num_ccpair st'" for j
    using that inv ccs'(1,5) num lru(2) by (cases "j = k") (auto simp: kinv_def)
  moreover have "pair_wf st' (W - {k}) j" for j
  proof (cases "j = k")
    case True
    then show ?thesis using ccs' U by (simp add: pair_wf_def)
  next
    case False
    have "pair_wf st W j" using inv by (simp add: kinv_def)
    then show ?thesis using False ccs'(1) U num by (simp add: pair_wf_def)
  qed
  moreover have "items_ok (num_ccpair st') (nitems st') (ccpairs (cbs st' b)) (blink st' b)" for b
  proof -
    have "items_ok (num_ccpair st) (nitems st) (ccpairs (cbs st b)) (blink st b)" using inv by (simp add: kinv_def)
    then have "items_ok (num_ccpair st) (nitems st') (drop_obj k (ccpairs (cbs st b))) ((blink st b)(k := 0))"
      using items_mono items_drop lru(2) by (meson less_imp_le)
    moreover have "(blink st b)(k := 0) = blink st' b" using ccs' by (auto simp: blink_def)
    ultimately show ?thesis using lists num by simp
  qed
  ultimately show "kinv env st' (W - {k})" unfolding kinv_def U using items sorted [unfolded U] tab heap num by auto
qed

lemma counts_remove:
  assumes inv: "kinv env st W" and k: "client (ccs st k) = Some c" "cc_cb (ccs st k) = Some b"
    and ccs': "\<forall>j. j \<noteq> k \<longrightarrow> ccs st' j = ccs st j" "client (ccs st' k) = None" "cc_cb (ccs st' k) = None"
  shows "pcount st' = (pcount st)(c := pcount st c - 1)" "bcount st' = (bcount st)(b := bcount st b - 1)"
    "pcount st c > 0" "bcount st b > 0"
proof -
  note fin = kinv_finite [OF inv]
  have "{j. client (ccs st' j) = Some d} = {j. client (ccs st j) = Some d} - {k}" for d
    using ccs' by (auto simp: set_eq_iff) (metis option.distinct(1))+
  then show "pcount st' = (pcount st)(c := pcount st c - 1)"
    using k(1) fin(1) by (auto simp: pcount_def fun_eq_iff card_Diff_singleton)
  have "{j. cc_cb (ccs st' j) = Some d} = {j. cc_cb (ccs st j) = Some d} - {k}" for d
    using ccs' by (auto simp: set_eq_iff) (metis option.distinct(1))+
  then show "bcount st' = (bcount st)(b := bcount st b - 1)"
    using k(2) fin(2) by (auto simp: bcount_def fun_eq_iff card_Diff_singleton)
  show "pcount st c > 0" "bcount st b > 0" using k fin by (auto simp: pcount_def bcount_def card_gt_0_iff)
qed


lemma break_steps:
  assumes "upd_cc k (\<lambda>x. x\<lparr>expire := 0\<rparr>) st = s0"
    "(if ccli (ccs s0 k) \<noteq> 0 then cc_unlink k s0 else Some s0) = Some s1"
    "client (ccs s1 k) = Some c" "cc_cb (ccs s1 k) = Some b"
    "(if nt then notify_client env c [fid (cbs s1 b)] s1 else Some s1) = Some s2"
    "(if cb_li (ccs s2 k) \<noteq> 0
      then do {
        l \<leftarrow> seq_del (cb_li (ccs s2 k)) (ccpairs (cbs s2 b));
        Some (upd_cc k (\<lambda>x. x\<lparr>cb_li := 0\<rparr>) (upd_cb b (\<lambda>x. x\<lparr>ccpairs := l\<rparr>) s2)) }
      else Some s2) = Some s3"
    "hashtabdel (ccpairs_cmp s3) (ccpairs_hash env s3) (ht_ccpairs s3) (Cc k) = Some (0, y, t)"
    "client_deref c (s3\<lparr>ht_ccpairs := t\<rparr>) = Some s5"
    "callback_deref b (upd_cc k (\<lambda>x. x\<lparr>client := None\<rparr>) s5) = Some s7"
    "upd_cc k (\<lambda>x. x\<lparr>cc_cb := None\<rparr>) s7 = s8"
    "heap_remove (ccpair_heap s8) (cells (heap_ccpairs s8) (Cell k)) = Some (r, h)"
  shows "break_ccpair env k nt st = Some (cc_addtail k (s8\<lparr>heap_ccpairs := h\<rparr>))"
proof -
  have h8: "heap_ccpairs s7 = heap_ccpairs s8" using assms(10) by auto
  show ?thesis unfolding break_ccpair_def Let_def assms(1)
    by (simp only: assms Option.bind.simps prod.case cassert_True if_True simp_thms h8 refl)
qed

text \<open>
  \<open>broke\<close>: one promise is gone, everything else that the other operations look at is as before.
\<close>

definition broke :: "nat \<Rightarrow> ropa \<Rightarrow> ropa \<Rightarrow> bool" where
  "broke k st st' \<longleftrightarrow>
     (\<forall>j. j \<noteq> k \<longrightarrow> ccs st' j = ccs st j) \<and> client (ccs st' k) = None \<and> cc_cb (ccs st' k) = None \<and>
     (\<forall>b. ccpairs (cbs st' b) = drop_obj k (ccpairs (cbs st b))) \<and>
     num_clients st' = num_clients st \<and> num_callbacks st' = num_callbacks st \<and> num_ccpair st' = num_ccpair st"

definition notice :: "ropa \<Rightarrow> nat \<Rightarrow> afs_fid \<Rightarrow> ropa_event" where
  "notice st c f = CallBackRPC (fst (rpc_target (clients st c))) (snd (rpc_target (clients st c))) [f] 0"

definition same_targets :: "ropa \<Rightarrow> ropa \<Rightarrow> bool" where
  "same_targets st st' \<longleftrightarrow> (\<forall>d. rpc_target (clients st' d) = rpc_target (clients st d))"

definition same_client :: "ropa \<Rightarrow> ropa \<Rightarrow> nat \<Rightarrow> bool" where
  "same_client st st' d \<longleftrightarrow> cview (clients st' d) = cview (clients st d) \<and> rpc_target (clients st' d) = rpc_target (clients st d)"

lemma same_client_trans: "same_client a b d \<Longrightarrow> same_client b c d \<Longrightarrow> same_client a c d"
  by (simp add: same_client_def)

lemma rpc_target_cong: "cview x = cview y \<Longrightarrow> conn x = conn y \<Longrightarrow> rpc_target x = rpc_target y"
  using cview_fields [of x y] by (simp add: rpc_target_def split: rx_conn.split)

lemma maybe_notify_ok:
  assumes inv: "cinv st f" and lv: "live st c" and env: "nt \<Longrightarrow> env_ok env"
  shows "\<exists>st'. (if nt then notify_client env c [x] st else Some st) = Some st' \<and> cinv st' f \<and> cframe st st' \<and>
    sent st' = sent st @ (if nt then [notice st c x] else []) \<and> same_clients st st' UNIV \<and> same_targets st st'"
proof (cases nt)
  case True
  from notify_ok [OF inv lv env [OF True], of "[x]"] obtain st' where
    st': "notify_client env c [x] st = Some st'" "cinv st' f" "cframe st st'"
      "sent st' = sent st @ [CallBackRPC (fst (rpc_target (clients st c))) (snd (rpc_target (clients st c))) [x] 0]"
      "same_clients st st' UNIV" "\<forall>d. d \<noteq> c \<longrightarrow> conn (clients st' d) = conn (clients st d)"
      "rpc_target (clients st' c) = rpc_target (clients st c)" by blast
  then have "rpc_target (clients st' d) = rpc_target (clients st d)" for d
    using rpc_target_cong [of "clients st' d" "clients st d"] by (cases "d = c") (auto simp: same_clients_def)
  then show ?thesis using True st' by (simp add: notice_def same_targets_def)
next
  case False
  then show ?thesis using inv by (simp add: same_clients_def same_targets_def)
qed

text \<open>The state after a promise is taken off the lists, up to the clients.\<close>

definition unhooked :: "nat \<Rightarrow> nat \<Rightarrow> ropa \<Rightarrow> ropa \<Rightarrow> bool" where
  "unhooked k b st s \<longleftrightarrow>
     cbs s = (cbs st)(b := (cbs st b)\<lparr>ccpairs := drop_obj k (ccpairs (cbs st b))\<rparr>) \<and>
     ccs s = (ccs st)(k := (ccs st k)\<lparr>expire := 0, cb_li := 0\<rparr>) \<and>
     ht_callbacks s = ht_callbacks st \<and> ht_ccpairs s = ht_ccpairs st \<and> lru_ccpair s = drop_obj k (lru_ccpair st) \<and>
     lru_callback s = lru_callback st \<and> heap_ccpairs s = heap_ccpairs st \<and> num_clients s = num_clients st \<and>
     num_callbacks s = num_callbacks st \<and> num_ccpair s = num_ccpair st \<and> nitems st \<le> nitems s"

lemma break_front:
  assumes inv: "cinv st f" "kinv env st W" and k: "client (ccs st k) = Some c" "cc_cb (ccs st k) = Some b"
    and lv: "live st c" and env: "nt \<Longrightarrow> env_ok env"
  defines "s0 \<equiv> upd_cc k (\<lambda>x. x\<lparr>expire := 0\<rparr>) st"
  defines "s1 \<equiv> s0\<lparr>lru_ccpair := drop_obj k (lru_ccpair st)\<rparr>"
  shows "(if ccli (ccs s0 k) \<noteq> 0 then cc_unlink k s0 else Some s0) = Some s1 \<and> (\<exists>s2 s3.
      (if nt then notify_client env c [fid (cbs s1 b)] s1 else Some s1) = Some s2 \<and>
      (if cb_li (ccs s2 k) \<noteq> 0
       then do {
         l \<leftarrow> seq_del (cb_li (ccs s2 k)) (ccpairs (cbs s2 b));
         Some (upd_cc k (\<lambda>x. x\<lparr>cb_li := 0\<rparr>) (upd_cb b (\<lambda>x. x\<lparr>ccpairs := l\<rparr>) s2)) }
       else Some s2) = Some s3 \<and>
      cinv s3 f \<and> unhooked k b st s3 \<and> sent s3 = sent st @ (if nt then [notice st c (fid (cbs st b))] else []) \<and>
      same_clients st s3 UNIV \<and> same_targets st s3)"
proof -
  have kn: "k < num_ccpair st" using inv(2) k(1) by (auto simp: kinv_def pair_wf_def inuse_def split: if_splits)
  have kl: "ccli (ccs st k) \<noteq> 0" and ok: "items_ok (num_ccpair st) (nitems st) (lru_ccpair st) (\<lambda>k. ccli (ccs st k))"
    and okb: "items_ok (num_ccpair st) (nitems st) (ccpairs (cbs st b)) (blink st b)" using inv(2) kn by (auto simp: kinv_def)
  have e1: "(if ccli (ccs s0 k) \<noteq> 0 then cc_unlink k s0 else Some s0) = Some s1"
    using kl items_unlink [OF ok kn kl] by (simp add: s1_def s0_def cc_unlink_def)
  have ci1: "cinv s1 f" by (rule cinv_cong [OF inv(1)]) (simp_all add: s1_def s0_def)
  have lv1: "live s1 c" using lv by (simp add: live_def s1_def s0_def)
  obtain s2 where e2: "(if nt then notify_client env c [fid (cbs s1 b)] s1 else Some s1) = Some s2" "cinv s2 f" "cframe s1 s2"
    "sent s2 = sent s1 @ (if nt then [notice s1 c (fid (cbs s1 b))] else [])" "same_clients s1 s2 UNIV" "same_targets s1 s2"
    using maybe_notify_ok [where x = "fid (cbs s1 b)", OF ci1 lv1 env] by blast
  let ?s3 = "upd_cc k (\<lambda>x. x\<lparr>cb_li := 0\<rparr>) (upd_cb b (\<lambda>x. x\<lparr>ccpairs := drop_obj k (ccpairs (cbs st b))\<rparr>) s2)"
  have f2: "cbs s2 = cbs st" "ccs s2 = (ccs st)(k := (ccs st k)\<lparr>expire := 0\<rparr>)"
    using e2(3) by (simp_all add: cframe_def s1_def s0_def)
  have e3: "(if cb_li (ccs s2 k) \<noteq> 0
      then do {
        l \<leftarrow> seq_del (cb_li (ccs s2 k)) (ccpairs (cbs s2 b));
        Some (upd_cc k (\<lambda>x. x\<lparr>cb_li := 0\<rparr>) (upd_cb b (\<lambda>x. x\<lparr>ccpairs := l\<rparr>) s2)) }
      else Some s2) = Some ?s3"
  proof (cases "cb_li (ccs st k) = 0")
    case True
    then have "k \<notin> snd ` set (ccpairs (cbs st b))" using items_objs [OF okb, of k] k(2) by (simp add: blink_def)
    then have "drop_obj k (ccpairs (cbs st b)) = ccpairs (cbs st b)" by (rule drop_obj_id)
    moreover have "(ccs st k)\<lparr>expire := 0, cb_li := 0\<rparr> = (ccs st k)\<lparr>expire := 0\<rparr>" using True by (cases "ccs st k") simp
    ultimately have "?s3 = s2" using f2 by (cases s2) simp
    then show ?thesis using True f2 by simp
  next
    case False
    then show ?thesis using items_unlink [OF okb kn] k(2) f2 by (simp add: blink_def)
  qed
  have "cinv ?s3 f" by (rule cinv_cong [OF e2(2)]) simp_all
  moreover have "unhooked k b st ?s3" using e2(3) by (simp add: unhooked_def cframe_def s1_def s0_def)
  ultimately show ?thesis using e1 e2 e3 by (auto simp: s1_def s0_def notice_def same_clients_def same_targets_def)
qed

lemma expire_heap_remove:
  assumes heap: "heap_inv (\<lambda>k. expire (ccs st k)) (expire_ok st) h (image_mset helem (mset_set A))" and fin: "finite A" and k: "k \<in> A"
    and same: "\<forall>j. j \<noteq> k \<longrightarrow> expire (ccs st' j) = expire (ccs st j)"
  shows "\<exists>h'. heap_remove (h\<lparr>hcmp := ccpair_cmp_time st'\<rparr>) (cells h (Cell k)) = Some (0, h') \<and>
    heap_inv (\<lambda>k. expire (ccs st' k)) (expire_ok st') h' (image_mset helem (mset_set (A - {k}))) \<and> max_sz h' = max_sz h"
proof -
  let ?M = "image_mset helem (mset_set A)" and ?h = "h\<lparr>hcmp := ccpair_cmp_time st'\<rparr>"
  have M: "?M - {#helem k#} = image_mset helem (mset_set (A - {k}))" 
    using k fin by (simp add: mset_set_Diff image_mset_Diff)
  have "?M = add_mset (helem k) (image_mset helem (mset_set (A - {k})))" using k fin by (simp add: mset_set.remove)
  then have e: "helem k \<in># ?M" by simp
  have good: "\<forall>e \<in># ?M. good (expire_ok st) e" using heap by (auto simp: heap_inv_def settled_def)
  have "\<forall>e \<in># image_mset helem (mset_set (A - {k})). ekey (\<lambda>k. expire (ccs st k)) e = ekey (\<lambda>k. expire (ccs st' k)) e \<and> good (expire_ok st') e"
  proof
    fix e assume "e \<in># image_mset helem (mset_set (A - {k}))"
    then obtain j where j: "e = helem j" "j \<in> A" "j \<noteq> k" using fin by auto
    then have "good (expire_ok st) (helem j)" using good fin by auto
    then show "ekey (\<lambda>k. expire (ccs st k)) e = ekey (\<lambda>k. expire (ccs st' k)) e \<and> good (expire_ok st') e"
      using same j by (auto simp: good_def helem_def ekey_def expire_ok_def)
  qed
  then show ?thesis using cc_heap.heap_remove_upto [of "\<lambda>k. expire (ccs st k)" "expire_ok st" ?h ?M st' k k] heap e M
    by (auto simp: helem_def)
qed

lemma last_promise:
  assumes inv: "kinv env st W" and k: "cc_cb (ccs st k) = Some b" and one: "bcount st b + n = 1"
  shows "drop_obj k (ccpairs (cbs st b)) = []"
proof -
  let ?A = "{j. cc_cb (ccs st j) = Some b}"
  have "card ?A > 0" using k kinv_finite(2) [OF inv, of b] by (auto simp: card_gt_0_iff)
  then have "card ?A = 1" using one by (simp add: bcount_def)
  then have "?A = {k}" using k by (metis (mono_tags, lifting) card_1_singletonE mem_Collect_eq singletonD)
  then have "snd x = k" if "x \<in> set (ccpairs (cbs st b))" for x using kinv_blink(2) [OF inv, of "fst x" "snd x" b] that by auto
  then show ?thesis by (simp add: drop_obj_def filter_empty_conv)
qed

lemma break_back:
  assumes inv: "kinv env st W" "binv st (\<lambda>b. bcount st b + rb b)" "cinv s3 f" and k: "client (ccs st k) = Some c" "cc_cb (ccs st k) = Some b"
    and fc: "f c > 0" and f3: "unhooked k b st s3"
  defines "g \<equiv> \<lambda>b. bcount st b + rb b"
  shows "\<exists>t s5 s7 s8 h. hashtabdel (ccpairs_cmp s3) (ccpairs_hash env s3) (ht_ccpairs s3) (Cc k) = Some (0, Some (Cc k), t) \<and>
    client_deref c (s3\<lparr>ht_ccpairs := t\<rparr>) = Some s5 \<and> callback_deref b (upd_cc k (\<lambda>x. x\<lparr>client := None\<rparr>) s5) = Some s7 \<and>
    s8 = upd_cc k (\<lambda>x. x\<lparr>cc_cb := None\<rparr>) s7 \<and>
    heap_remove (ccpair_heap s8) (cells (heap_ccpairs s8) (Cell k)) = Some (0, h) \<and>
    hash_set (ccpairs_hash env s3) (cc_pair s3) t (Cc ` (inuse st - {k})) \<and> ht_ccpairs s8 = t \<and>
    heap_inv (\<lambda>k. expire (ccs s8 k)) (expire_ok s8) h (image_mset helem (mset_set (inuse st - {k}))) \<and> max_sz h = num_ccpair st \<and>
    cinv s8 (f(c := f c - 1)) \<and> binv s8 (g(b := g b - 1)) \<and>
    ccs s8 = (ccs st)(k := (ccs st k)\<lparr>expire := 0, cb_li := 0, client := None, cc_cb := None\<rparr>) \<and>
    lru_ccpair s8 = drop_obj k (lru_ccpair st) \<and> nitems st \<le> nitems s8 \<and> num_ccpair s8 = num_ccpair st \<and> num_clients s8 = num_clients st \<and>
    num_callbacks s8 = num_callbacks st \<and> (\<forall>d. ccpairs (cbs s8 d) = ccpairs (cbs s3 d)) \<and> sent s8 = sent s3 \<and>
    (\<forall>d. d \<noteq> b \<or> g b > 1 \<longrightarrow> fid (cbs s8 d) = fid (cbs st d)) \<and>
    same_clients s3 s8 (if f c = 1 then - {c} else UNIV) \<and> same_conn s3 s8 \<and> (f c = 1 \<longrightarrow> \<not> live s8 c)"
proof -
  note f3 = f3 [unfolded unhooked_def]
  have ku: "k \<in> inuse st" using k(1) by (simp add: inuse_def)
  have gb: "g b > 0" using k kinv_finite [OF inv(1)] by (auto simp: g_def bcount_def card_gt_0_iff)
  have "hash_set (ccpairs_hash env st) (cc_pair st) (ht_ccpairs st) (Cc ` inuse st)" using inv(1) by (simp add: kinv_def)
  then have "hash_set (ccpairs_hash env s3) (cc_pair s3) (ht_ccpairs st) (Cc ` inuse st)" by (rule cc_table_cong) (auto simp: f3)
  moreover have im: "Cc ` inuse st - {Cc k} = Cc ` (inuse st - {k})" by auto
  ultimately obtain t where e4: "hashtabdel (ccpairs_cmp s3) (ccpairs_hash env s3) (ht_ccpairs s3) (Cc k) = Some (0, Some (Cc k), t)"
    and t: "hash_set (ccpairs_hash env s3) (cc_pair s3) t (Cc ` (inuse st - {k}))"
    using cc_tab.set_del [of env s3 "ht_ccpairs st" "Cc ` inuse st" "Cc k" "Cc k"] ku f3 by auto
  have "cinv (s3\<lparr>ht_ccpairs := t\<rparr>) f" by (rule cinv_cong [OF inv(3)]) simp_all
  from client_deref_ok [OF this fc] obtain s5 where e5: "client_deref c (s3\<lparr>ht_ccpairs := t\<rparr>) = Some s5" "cinv s5 (f(c := f c - 1))"
    "cframe (s3\<lparr>ht_ccpairs := t\<rparr>) s5" "quiet (s3\<lparr>ht_ccpairs := t\<rparr>) s5" "same_clients (s3\<lparr>ht_ccpairs := t\<rparr>) s5 (if f c = 1 then - {c} else UNIV)"
    "same_conn (s3\<lparr>ht_ccpairs := t\<rparr>) s5" "f c = 1 \<longrightarrow> \<not> live s5 c" by blast
  let ?s6 = "upd_cc k (\<lambda>x. x\<lparr>client := None\<rparr>) s5"
  have f5: "cbs s5 = cbs s3" "ccs s5 = ccs s3" "ht_callbacks s5 = ht_callbacks st" "lru_callback s5 = lru_callback st" "num_callbacks s5 = num_callbacks st" "nitems s3 \<le> nitems s5"
    "ht_ccpairs s5 = t" "heap_ccpairs s5 = heap_ccpairs st" "lru_ccpair s5 = lru_ccpair s3" "num_clients s5 = num_clients st" "num_ccpair s5 = num_ccpair st"
    using e5(3) f3 by (simp_all add: cframe_def)
  have bi6: "binv ?s6 g" unfolding g_def by (rule binv_cong [OF inv(2)]) (use f3 f5 in auto)
  have emp: "ccpairs (cbs ?s6 b) = []" if "g b = 1" using last_promise [OF inv(1) k(2)] that f3 f5 by (simp add: g_def)
  from callback_deref_ok [OF bi6 gb emp] obtain s7 where e7: "callback_deref b ?s6 = Some s7" "binv s7 (g(b := g b - 1))" "bframe ?s6 s7" "quiet ?s6 s7"
    "\<forall>d. d \<noteq> b \<or> g b > 1 \<longrightarrow> fid (cbs s7 d) = fid (cbs ?s6 d)" by blast
  define s8 where "s8 = upd_cc k (\<lambda>x. x\<lparr>cc_cb := None\<rparr>) s7"
  have f8: "ccs s8 = (ccs st)(k := (ccs st k)\<lparr>expire := 0, cb_li := 0, client := None, cc_cb := None\<rparr>)" "heap_ccpairs s8 = heap_ccpairs st"
    "lru_ccpair s8 = drop_obj k (lru_ccpair st)" "ht_ccpairs s8 = t" "nitems st \<le> nitems s8" "num_ccpair s8 = num_ccpair st" "num_clients s8 = num_clients st"
    "num_callbacks s8 = num_callbacks st" "clients s8 = clients s5" "ht_clients_ip s8 = ht_clients_ip s5" "ht_clients_uuid s8 = ht_clients_uuid s5" "lru_clients s8 = lru_clients s5"
    "nitems s5 \<le> nitems s8" "\<forall>d. ccpairs (cbs s8 d) = ccpairs (cbs s3 d)" "cbs s8 = cbs s7" "sent s8 = sent s3"
    using e7(3,4) e5(4) f3 f5 by (auto simp: bframe_def quiet_def s8_def)
  have "cinv s8 (f(c := f c - 1))" by (rule cinv_cong [OF e5(2)]) (use f8 f5 in simp_all)
  moreover have "binv s8 (g(b := g b - 1))" by (rule binv_cong [OF e7(2)]) (simp_all add: s8_def)
  moreover have heap: "heap_inv (\<lambda>k. expire (ccs st k)) (expire_ok st) (heap_ccpairs st) (image_mset helem (mset_set (inuse st)))"
    and "max_sz (heap_ccpairs st) = num_ccpair st" using inv(1) by (auto simp: kinv_def)
  moreover from this obtain h where "heap_remove (ccpair_heap s8) (cells (heap_ccpairs s8) (Cell k)) = Some (0, h)"
    "heap_inv (\<lambda>k. expire (ccs s8 k)) (expire_ok s8) h (image_mset helem (mset_set (inuse st - {k})))" "max_sz h = num_ccpair st"
    using expire_heap_remove [OF heap finite_inuse [OF inv(1)] ku, of s8] f8 by (auto simp: ccpair_heap_def)
  moreover have "\<forall>d. d \<noteq> b \<or> g b > 1 \<longrightarrow> fid (cbs s8 d) = fid (cbs st d)" using e7(5) f8(15) f5(1) f3 by simp
  moreover have "same_clients s3 s8 (if f c = 1 then - {c} else UNIV)" "same_conn s3 s8"
    using e5(5,6) by (simp_all add: same_clients_def same_conn_def f8(9))
  moreover have "f c = 1 \<longrightarrow> \<not> live s8 c" using e5(7) f5 f8 by (simp add: live_def)
  ultimately show ?thesis using e4 t e5(1) e7(1) s8_def f8(1,3-8,14,16)
    by (intro exI [of _ t] exI [of _ s5] exI [of _ s7] exI [of _ s8] exI [of _ h] conjI) assumption+
qed

lemma expire_cong:
  assumes "heap_inv (\<lambda>k. expire (ccs st k)) (expire_ok st) h M" "\<forall>k. expire (ccs st' k) = expire (ccs st k)"
  shows "heap_inv (\<lambda>k. expire (ccs st' k)) (expire_ok st') h M"
proof -
  have "(\<lambda>k. expire (ccs st' k)) = (\<lambda>k. expire (ccs st k))" "expire_ok st' = expire_ok st" using assms(2) by (auto simp: expire_ok_def)
  then show ?thesis using assms(1) by simp
qed

lemma break_run:
  assumes inv: "ropa_inv env st W rb rc" and k: "client (ccs st k) = Some c" "cc_cb (ccs st k) = Some b"
    and env: "nt \<Longrightarrow> env_ok env"
  defines "f \<equiv> \<lambda>c. pcount st c + rc c" and "g \<equiv> \<lambda>b. bcount st b + rb b"
  shows "\<exists>s9. break_ccpair env k nt st = Some s9 \<and> cinv s9 (f(c := f c - 1)) \<and> binv s9 (g(b := g b - 1)) \<and>
    (\<forall>d. ccpairs (cbs s9 d) = (if d = b then drop_obj k (ccpairs (cbs st b)) else ccpairs (cbs st d))) \<and>
    hash_set (ccpairs_hash env st) (cc_pair st) (ht_ccpairs s9) (Cc ` (inuse st - {k})) \<and>
    heap_inv (\<lambda>k. expire (ccs s9 k)) (expire_ok s9) (heap_ccpairs s9) (image_mset helem (mset_set (inuse st - {k}))) \<and>
    max_sz (heap_ccpairs s9) = num_ccpair st \<and>
    ccs s9 = (ccs st)(k := (ccs st k)\<lparr>expire := 0, cb_li := 0, client := None, cc_cb := None, ccli := nitems s9\<rparr>) \<and>
    lru_ccpair s9 = drop_obj k (lru_ccpair st) @ [(nitems s9, k)] \<and> nitems st < nitems s9 \<and> num_ccpair s9 = num_ccpair st \<and>
    num_clients s9 = num_clients st \<and> num_callbacks s9 = num_callbacks st \<and>
    sent s9 = sent st @ (if nt then [notice st c (fid (cbs st b))] else []) \<and>
    (\<forall>d. d \<noteq> b \<or> g b > 1 \<longrightarrow> fid (cbs s9 d) = fid (cbs st d)) \<and>
    (\<forall>d. if d = c \<and> f c = 1 then \<not> live s9 d else same_client st s9 d)"
proof -
  have ci: "cinv st f" and bi: "binv st (\<lambda>b. bcount st b + rb b)" and ki: "kinv env st W" using inv by (auto simp: ropa_inv_def f_def)
  have ku: "k \<in> inuse st" using k(1) by (simp add: inuse_def)
  have fc: "f c > 0" using k kinv_finite [OF ki] by (auto simp: f_def pcount_def card_gt_0_iff)
  have lv: "live st c" using ci fc(1) by (simp add: cinv_def)
  define s0 where "s0 = upd_cc k (\<lambda>x. x\<lparr>expire := 0\<rparr>) st"
  define s1 where "s1 = s0\<lparr>lru_ccpair := drop_obj k (lru_ccpair st)\<rparr>"
  obtain s2 s3 where e: "(if ccli (ccs s0 k) \<noteq> 0 then cc_unlink k s0 else Some s0) = Some s1"
      "(if nt then notify_client env c [fid (cbs s1 b)] s1 else Some s1) = Some s2"
      "(if cb_li (ccs s2 k) \<noteq> 0
       then do {
         l \<leftarrow> seq_del (cb_li (ccs s2 k)) (ccpairs (cbs s2 b));
         Some (upd_cc k (\<lambda>x. x\<lparr>cb_li := 0\<rparr>) (upd_cb b (\<lambda>x. x\<lparr>ccpairs := l\<rparr>) s2)) }
       else Some s2) = Some s3"
    and ci3: "cinv s3 f" and uh: "unhooked k b st s3" and sent3: "sent s3 = sent st @ (if nt then [notice st c (fid (cbs st b))] else [])"
    and same3: "same_clients st s3 UNIV" and tg3: "same_targets st s3"
    using break_front [OF ci ki k lv env] unfolding s1_def s0_def by blast
  obtain t s5 s7 s8 h where a: "hashtabdel (ccpairs_cmp s3) (ccpairs_hash env s3) (ht_ccpairs s3) (Cc k) = Some (0, Some (Cc k), t)"
    "client_deref c (s3\<lparr>ht_ccpairs := t\<rparr>) = Some s5" "callback_deref b (upd_cc k (\<lambda>x. x\<lparr>client := None\<rparr>) s5) = Some s7"
    "s8 = upd_cc k (\<lambda>x. x\<lparr>cc_cb := None\<rparr>) s7" "heap_remove (ccpair_heap s8) (cells (heap_ccpairs s8) (Cell k)) = Some (0, h)"
    and t: "hash_set (ccpairs_hash env s3) (cc_pair s3) t (Cc ` (inuse st - {k}))" "ht_ccpairs s8 = t"
    and h: "heap_inv (\<lambda>k. expire (ccs s8 k)) (expire_ok s8) h (image_mset helem (mset_set (inuse st - {k})))" "max_sz h = num_ccpair st"
    and ci8: "cinv s8 (f(c := f c - 1))" and bi8: "binv s8 (g(b := g b - 1))"
    and cc8: "ccs s8 = (ccs st)(k := (ccs st k)\<lparr>expire := 0, cb_li := 0, client := None, cc_cb := None\<rparr>)"
    and f8: "lru_ccpair s8 = drop_obj k (lru_ccpair st)" "nitems st \<le> nitems s8" "num_ccpair s8 = num_ccpair st" "num_clients s8 = num_clients st"
      "num_callbacks s8 = num_callbacks st" "\<forall>d. ccpairs (cbs s8 d) = ccpairs (cbs s3 d)" "sent s8 = sent s3"
    and fid8: "\<forall>d. d \<noteq> b \<or> g b > 1 \<longrightarrow> fid (cbs s8 d) = fid (cbs st d)"
    and same8: "same_clients s3 s8 (if f c = 1 then - {c} else UNIV)" "same_conn s3 s8" "f c = 1 \<longrightarrow> \<not> live s8 c"
    using break_back [OF ki bi ci3 k fc uh] unfolding g_def by blast
  define s9 where "s9 = cc_addtail k (s8\<lparr>heap_ccpairs := h\<rparr>)"
  have run: "break_ccpair env k nt st = Some s9" unfolding s9_def
    by (rule break_steps [OF s0_def [symmetric] e(1) _ _ e(2,3) a(1-3) a(4) [symmetric] a(5)]) (use k in \<open>simp_all add: s1_def s0_def\<close>)
  have f9: "ccs s9 = (ccs s8)(k := (ccs s8 k)\<lparr>ccli := nitems s9\<rparr>)" "nitems s9 = nitems s8 + 1" "lru_ccpair s9 = drop_obj k (lru_ccpair st) @ [(nitems s9, k)]"
    "heap_ccpairs s9 = h" "cbs s9 = cbs s8" "clients s9 = clients s8" "ht_ccpairs s9 = t" "num_ccpair s9 = num_ccpair st" "num_clients s9 = num_clients st"
    "num_callbacks s9 = num_callbacks st" "sent s9 = sent s8" "ht_clients_ip s9 = ht_clients_ip s8" "ht_clients_uuid s9 = ht_clients_uuid s8"
    "lru_clients s9 = lru_clients s8" "ht_callbacks s9 = ht_callbacks s8" "lru_callback s9 = lru_callback s8"
    using f8 t(2) by (simp_all add: s9_def cc_addtail_def Let_def)
  have "cinv s9 (f(c := f c - 1))" by (rule cinv_cong [OF ci8]) (use f9 f8 in simp_all)
  moreover have "binv s9 (g(b := g b - 1))" by (rule binv_cong [OF bi8]) (use f9 f8 in simp_all)
  moreover have "hash_set (ccpairs_hash env st) (cc_pair st) (ht_ccpairs s9) (Cc ` (inuse st - {k}))"
    unfolding f9(7) by (rule cc_table_cong [OF t(1)]) (use uh in \<open>auto simp: unhooked_def\<close>)
  moreover have "heap_inv (\<lambda>k. expire (ccs s9 k)) (expire_ok s9) (heap_ccpairs s9) (image_mset helem (mset_set (inuse st - {k})))"
    by (rule expire_cong [OF h(1) [folded f9(4)]]) (simp add: f9)
  moreover have "if d = c \<and> f c = 1 then \<not> live s9 d else same_client st s9 d" for d
    using rpc_target_cong [of "clients s8 d" "clients s3 d"] same3 tg3 same8 f9(6,9) f8(4)
    by (auto simp: same_client_def same_clients_def same_conn_def same_targets_def live_def split: if_splits)
  moreover have "ccpairs (cbs s9 d) = (if d = b then drop_obj k (ccpairs (cbs st b)) else ccpairs (cbs st d))" for d
    using f9(5) f8(6) uh by (simp add: unhooked_def)
  moreover have "ccs s9 = (ccs st)(k := (ccs st k)\<lparr>expire := 0, cb_li := 0, client := None, cc_cb := None, ccli := nitems s9\<rparr>)"
    using f9(1) cc8 by simp
  ultimately show ?thesis using run f9(2,3,4,5,8-11) f8(2,7) h(2) sent3 fid8
    by (intro exI [of _ s9] conjI) auto
qed

lemma break_ccpair_ok:
  assumes inv: "ropa_inv env st W rb rc" and k: "client (ccs st k) = Some c" "cc_cb (ccs st k) = Some b"
    and env: "nt \<Longrightarrow> env_ok env"
  shows "\<exists>st'. break_ccpair env k nt st = Some st' \<and> ropa_inv env st' (W - {k}) rb rc \<and> broke k st st' \<and>
    inuse st' = inuse st - {k} \<and>
    (\<forall>d. d \<noteq> b \<or> bcount st b + rb b > 1 \<longrightarrow> fid (cbs st' d) = fid (cbs st d)) \<and>
    sent st' = sent st @ (if nt then [notice st c (fid (cbs st b))] else []) \<and>
    (\<forall>d. if d = c \<and> pcount st c + rc c = 1 then \<not> live st' d else same_client st st' d)"
proof -
  define f where "f = (\<lambda>c. pcount st c + rc c)"
  define g where "g = (\<lambda>b. bcount st b + rb b)"
  have ki: "kinv env st W" and ku: "k \<in> inuse st" using inv k by (auto simp: ropa_inv_def inuse_def)
  obtain s9 where run: "break_ccpair env k nt st = Some s9" and ci: "cinv s9 (f(c := f c - 1))" and bi: "binv s9 (g(b := g b - 1))"
    and l9: "\<forall>d. ccpairs (cbs s9 d) = (if d = b then drop_obj k (ccpairs (cbs st b)) else ccpairs (cbs st d))"
    and t: "hash_set (ccpairs_hash env st) (cc_pair st) (ht_ccpairs s9) (Cc ` (inuse st - {k}))"
    and h: "heap_inv (\<lambda>k. expire (ccs s9 k)) (expire_ok s9) (heap_ccpairs s9) (image_mset helem (mset_set (inuse st - {k})))"
      "max_sz (heap_ccpairs s9) = num_ccpair st"
    and cc: "ccs s9 = (ccs st)(k := (ccs st k)\<lparr>expire := 0, cb_li := 0, client := None, cc_cb := None, ccli := nitems s9\<rparr>)"
    and lru: "lru_ccpair s9 = drop_obj k (lru_ccpair st) @ [(nitems s9, k)]" "nitems st < nitems s9" and num: "num_ccpair s9 = num_ccpair st"
      "num_clients s9 = num_clients st" "num_callbacks s9 = num_callbacks st"
    and sent: "sent s9 = sent st @ (if nt then [notice st c (fid (cbs st b))] else [])"
    and fid: "\<forall>d. d \<noteq> b \<or> g b > 1 \<longrightarrow> fid (cbs s9 d) = fid (cbs st d)"
    and same: "\<forall>d. if d = c \<and> f c = 1 then \<not> live s9 d else same_client st s9 d"
    using break_run [OF inv k env] unfolding f_def g_def by blast
  have lists: "\<forall>d. ccpairs (cbs s9 d) = drop_obj k (ccpairs (cbs st d))"
  proof
    fix d
    have "drop_obj k (ccpairs (cbs st d)) = ccpairs (cbs st d)" if "d \<noteq> b"
      using kinv_blink(2) [OF ki, of _ k d] k(2) that by (intro drop_obj_id) force
    then show "ccpairs (cbs s9 d) = drop_obj k (ccpairs (cbs st d))" using l9 by simp
  qed
  have cc9: "\<forall>j. j \<noteq> k \<longrightarrow> ccs s9 j = ccs st j" "client (ccs s9 k) = None" "cc_cb (ccs s9 k) = None" "cb_li (ccs s9 k) = 0" "ccli (ccs s9 k) = nitems s9"
    using cc by simp_all
  note cnt = counts_remove [OF ki k cc9(1-3)]
  have "fid (cbs s9 d) = fid (cbs st d)" if "j \<noteq> k" "cc_cb (ccs st j) = Some d" for j d
  proof (cases "d = b")
    case True
    then have "card {k, j} \<le> bcount st b" unfolding bcount_def using that k(2) kinv_finite(2) [OF ki, of b] by (intro card_mono) auto
    then show ?thesis using fid that(1) by (simp add: g_def)
  qed (use fid in simp)
  then have "hash_set (ccpairs_hash env s9) (cc_pair s9) (ht_ccpairs s9) (Cc ` (inuse st - {k}))"
    by (intro cc_table_cong [OF t]) (auto simp: cc9(1))
  note K = kinv_remove [OF ki ku cc9 lru num(1) lists this h]
  have "f(c := f c - 1) = (\<lambda>c. pcount s9 c + rc c)" "g(b := g b - 1) = (\<lambda>b. bcount s9 b + rb b)"
    using cnt by (auto simp: f_def g_def)
  then have "ropa_inv env s9 (W - {k}) rb rc" using ci bi K(1) by (simp add: ropa_inv_def)
  moreover have "broke k st s9" using cc9 lists num by (simp add: broke_def)
  ultimately show ?thesis using run K(2) fid same sent by (intro exI [of _ s9] conjI) (simp_all add: f_def g_def)
qed

end
