(* ===== verification/Ropa_Sweep.thy ===== *)
theory Ropa_Sweep
  imports Ropa_Break
begin

text \<open>
  Breaking every promise of a callback (\<open>break_callback\<close>, \<open>ropa.c\<close>): which promises remain, who is
  told and which clients the server forgets.
\<close>

section \<open>Breaking every promise of a callback\<close>

lemma pairs_inj:
  assumes "kinv env st W" "client (ccs st j) = client (ccs st k)" "cc_cb (ccs st j) = cc_cb (ccs st k)" "k \<in> inuse st"
  shows "j = k"
proof -
  have "inj_on (cc_pair st) (Cc ` inuse st)" using assms(1) by (auto simp: kinv_def hash_set_def)
  moreover have "j \<in> inuse st" using assms(2,4) by (simp add: inuse_def)
  ultimately show ?thesis using assms(2,3,4) by (auto simp: inj_on_def)
qed

lemma cb_objs_distinct: "kinv env st W \<Longrightarrow> distinct (map snd (ccpairs (cbs st b)))"
  by (auto simp: kinv_def items_ok_def)

definition unhook :: "nat \<Rightarrow> nat \<Rightarrow> (nat \<times> nat) list \<Rightarrow> ropa \<Rightarrow> ropa" where
  "unhook b k l st = upd_cc k (\<lambda>x. x\<lparr>cb_li := 0\<rparr>) (upd_cb b (\<lambda>x. x\<lparr>ccpairs := l\<rparr>) st)"

lemma unhook_ok:
  assumes inv: "ropa_inv env st W rb rc" and l: "ccpairs (cbs st b) = (i, k) # l"
  shows "ropa_inv env (unhook b k l st) (insert k W) rb rc"
proof -
  let ?s = "unhook b k l st"
  have ki: "kinv env st W" using inv by (simp add: ropa_inv_def)
  note m = kinv_blink [OF ki, of i k b, unfolded l, simplified]
  have D: "drop_obj k ((i, k) # l) = l" using cb_objs_distinct [OF ki, of b] l by (force simp: drop_obj_def filter_id_conv)
  have c: "client (ccs ?s j) = client (ccs st j)" "cc_cb (ccs ?s j) = cc_cb (ccs st j)" "expire (ccs ?s j) = expire (ccs st j)"
    "ccli (ccs ?s j) = ccli (ccs st j)" "fid (cbs ?s d) = fid (cbs st d)" for j d by (simp_all add: unhook_def)
  have U: "inuse ?s = inuse st" by (simp add: inuse_def c)
  have P: "pcount ?s = pcount st" "bcount ?s = bcount st" by (simp_all add: pcount_def bcount_def c fun_eq_iff)
  have cl: "cbli (cbs ?s d) = cbli (cbs st d)" "cbref (cbs ?s d) = cbref (cbs st d)" for d by (simp_all add: unhook_def)
  have "cinv st (\<lambda>c. pcount st c + rc c)" using inv by (simp add: ropa_inv_def)
  then have "cinv ?s (\<lambda>c. pcount ?s c + rc c)" unfolding P by (rule cinv_cong) (simp_all add: unhook_def)
  moreover have "binv st (\<lambda>b. bcount st b + rb b)" using inv by (simp add: ropa_inv_def)
  then have "binv ?s (\<lambda>b. bcount ?s b + rb b)" unfolding P by (rule binv_cong [OF _ cl c(5)]) (simp_all add: unhook_def)
  moreover have "items_ok (num_ccpair st) (nitems st) (ccpairs (cbs ?s d)) (blink ?s d)" for d
  proof (cases "d = b")
    case True
    have "items_ok (num_ccpair st) (nitems st) ((i, k) # l) (blink st b)" using ki l by (auto simp: kinv_def) metis
    then have "items_ok (num_ccpair st) (nitems st) l ((blink st b)(k := 0))" using items_drop D by metis
    moreover have "(blink st b)(k := 0) = blink ?s b" by (auto simp: blink_def unhook_def)
    ultimately show ?thesis using True by (simp add: unhook_def)
  next
    case False
    then have "blink ?s d = blink st d" using m by (auto simp: blink_def unhook_def)
    then show ?thesis using False ki by (simp add: kinv_def unhook_def)
  qed
  moreover have "pair_wf ?s (insert k W) j" for j
  proof -
    have "pair_wf st W j" using ki by (simp add: kinv_def)
    then show ?thesis using m by (cases "j = k") (simp_all add: pair_wf_def U c, simp_all add: unhook_def)
  qed
  moreover have "hash_set (ccpairs_hash env ?s) (cc_pair ?s) (ht_ccpairs st) (Cc ` inuse st)"
    by (rule cc_table_cong [of env st]) (use ki in \<open>simp_all add: kinv_def c\<close>)
  moreover have "heap_inv (\<lambda>k. expire (ccs ?s k)) (expire_ok ?s) (heap_ccpairs st) (image_mset helem (mset_set (inuse st)))"
    by (rule expire_cong [of st]) (use ki in \<open>simp_all add: kinv_def c\<close>)
  ultimately show ?thesis using ki U by (simp add: ropa_inv_def kinv_def c) (simp add: unhook_def)
qed

lemma break_head_ok:
  assumes inv: "ropa_inv env st W rb rc" and l: "ccpairs (cbs st b) = (i, k) # l" and rb: "rb b > 0"
    and c: "client (ccs st k) = Some c" and env: "nt \<Longrightarrow> env_ok env"
  shows "\<exists>st'. break_ccpair env k nt (unhook b k l st) = Some st' \<and> ropa_inv env st' W rb rc \<and>
    (\<forall>j. j \<noteq> k \<longrightarrow> ccs st' j = ccs st j) \<and> client (ccs st' k) = None \<and> cc_cb (ccs st' k) = None \<and>
    (\<forall>d. ccpairs (cbs st' d) = (if d = b then l else ccpairs (cbs st d))) \<and> (\<forall>d. fid (cbs st' d) = fid (cbs st d)) \<and>
    num_clients st' = num_clients st \<and> num_callbacks st' = num_callbacks st \<and> num_ccpair st' = num_ccpair st \<and>
    sent st' = sent st @ (if nt then [notice st c (fid (cbs st b))] else []) \<and>
    (\<forall>d. if d = c \<and> pcount st c + rc c = 1 then \<not> live st' d else same_client st st' d)"
proof -
  let ?s = "unhook b k l st"
  have ki: "kinv env st W" using inv by (simp add: ropa_inv_def)
  note m = kinv_blink [OF ki, of i k b, unfolded l, simplified]
  have c': "client (ccs ?s k) = Some c" "cc_cb (ccs ?s k) = Some b" using c m by (simp_all add: unhook_def)
  have pc: "pcount ?s c = pcount st c" unfolding pcount_def unhook_def by (rule arg_cong [where f = card]) auto
  have bc: "bcount ?s b \<ge> 1"
    using c'(2) kinv_finite(2) [of env ?s "insert k W" b] unhook_ok [OF inv l] by (auto simp: ropa_inv_def bcount_def Suc_le_eq card_gt_0_iff)
  from break_ccpair_ok [OF unhook_ok [OF inv l] c' env] obtain st' where
    st': "break_ccpair env k nt ?s = Some st'" "ropa_inv env st' (insert k W - {k}) rb rc" "broke k ?s st'"
    "\<forall>d. d \<noteq> b \<or> bcount ?s b + rb b > 1 \<longrightarrow> fid (cbs st' d) = fid (cbs ?s d)"
    "sent st' = sent ?s @ (if nt then [notice ?s c (fid (cbs ?s b))] else [])"
    "\<forall>d. if d = c \<and> pcount st c + rc c = 1 then \<not> live st' d else same_client ?s st' d" unfolding pc by blast
  have W: "insert k W - {k} = W" using m by auto
  have D: "ccpairs (cbs st' d) = (if d = b then l else ccpairs (cbs st d))" for d
  proof -
    have "k \<notin> snd ` set (ccpairs (cbs ?s d))"
      using cb_objs_distinct [OF ki, of b] l kinv_blink(2) [OF ki, of _ k d] m(2) by (cases "d = b") (force simp: unhook_def)+
    from drop_obj_id [OF this] show ?thesis using st'(3) by (simp add: broke_def) (simp add: unhook_def)
  qed
  have F: "fid (cbs ?s d) = fid (cbs st d)" for d by (simp add: unhook_def)
  have "fid (cbs st' d) = fid (cbs st d)" for d using st'(4) bc rb F by auto
  then show ?thesis using st' D unfolding W
    by (intro exI [of _ st']) (auto simp: broke_def unhook_def same_client_def notice_def split: if_splits)
qed

text \<open>
  \<open>swept b ks brk\<close>: of the promises \<open>ks\<close> on the list of callback \<open>b\<close> those in \<open>brk\<close> are gone and the
  others are off the list.
\<close>

definition swept :: "nat \<Rightarrow> nat list \<Rightarrow> (nat \<Rightarrow> bool) \<Rightarrow> ropa \<Rightarrow> ropa \<Rightarrow> bool" where
  "swept b ks brk st st' \<longleftrightarrow>
     (\<forall>j. j \<notin> set ks \<longrightarrow> ccs st' j = ccs st j) \<and>
     (\<forall>k \<in> set ks. if brk k then client (ccs st' k) = None \<and> cc_cb (ccs st' k) = None else ccs st' k = (ccs st k)\<lparr>cb_li := 0\<rparr>) \<and>
     (\<forall>d. ccpairs (cbs st' d) = (if d = b then [] else ccpairs (cbs st d))) \<and> (\<forall>d. fid (cbs st' d) = fid (cbs st d)) \<and>
     num_clients st' = num_clients st \<and> num_callbacks st' = num_callbacks st \<and> num_ccpair st' = num_ccpair st"

lemma swept_cons:
  assumes "\<forall>j. j \<noteq> k \<longrightarrow> ccs st1 j = ccs st j" "distinct (k # ks)"
    "if brk k then client (ccs st1 k) = None \<and> cc_cb (ccs st1 k) = None else ccs st1 k = (ccs st k)\<lparr>cb_li := 0\<rparr>"
    "\<forall>d. ccpairs (cbs st1 d) = (if d = b then l else ccpairs (cbs st d))" "\<forall>d. fid (cbs st1 d) = fid (cbs st d)"
    "num_clients st1 = num_clients st" "num_callbacks st1 = num_callbacks st" "num_ccpair st1 = num_ccpair st"
    "swept b ks brk st1 st'"
  shows "swept b (k # ks) brk st st'"
proof -
  have "if brk j then client (ccs st' j) = None \<and> cc_cb (ccs st' j) = None else ccs st' j = (ccs st j)\<lparr>cb_li := 0\<rparr>" if j: "j \<in> set (k # ks)" for j
  proof (cases "j = k")
    case True
    then have "ccs st' j = ccs st1 k" using assms(2,9) by (simp add: swept_def)
    then show ?thesis using assms(3) True by simp
  next
    case False
    then have "j \<in> set ks" using j by simp
    then show ?thesis using assms(1,9) False by (auto simp: swept_def)
  qed
  then show ?thesis using assms by (simp add: swept_def)
qed

lemma break_loop_ok:
  assumes "ropa_inv env st W rb rc" "rb b > 0" "env_ok env" "\<forall>c. caller = Some c \<longrightarrow> rc c > 0"
    "ks = map snd (ccpairs (cbs st b))" "length ks < n"
    "\<forall>k \<in> set ks. client (ccs st k) = Some (hold k) \<and> brk k = (bo \<or> Some (hold k) \<noteq> caller)"
  shows "\<exists>st'. break_loop n env b caller bo own st =
      Some (if filter (\<lambda>k. \<not> brk k) ks = [] then own else Some (last (filter (\<lambda>k. \<not> brk k) ks)), st') \<and>
    ropa_inv env st' (W \<union> {k \<in> set ks. \<not> brk k}) rb rc \<and> swept b ks brk st st' \<and>
    sent st' = sent st @ map (\<lambda>k. notice st (hold k) (fid (cbs st b))) (filter (\<lambda>k. Some (hold k) \<noteq> caller) ks) \<and>
    (\<forall>d. if d \<in> hold ` {k \<in> set ks. brk k} \<and> pcount st d + rc d = 1 then \<not> live st' d else same_client st st' d)"
  using assms
proof (induction n arbitrary: st W own ks)
  case 0
  then show ?case by simp
next
  case (Suc n)
  note inv = Suc.prems(1) and rb = Suc.prems(2) and ks = Suc.prems(5) and h = Suc.prems(7)
  show ?case
  proof (cases "ccpairs (cbs st b)")
    case Nil
    then show ?thesis using inv ks by (auto simp: swept_def same_client_def)
  next
    case (Cons x l)
    obtain i k where x: "x = (i, k)" by (cases x)
    note l = Cons [unfolded x]
    have ks': "ks = k # map snd l" using ks l by simp
    have ki: "kinv env st W" using inv by (simp add: ropa_inv_def)
    note m = kinv_blink [OF ki, of i k b, unfolded l, simplified]
    have dist: "distinct (k # map snd l)" using cb_objs_distinct [OF ki, of b] l by simp
    have hk: "client (ccs st k) = Some (hold k)" "brk k = (bo \<or> Some (hold k) \<noteq> caller)" using h ks' by auto
    have other: "hold j \<noteq> hold k" if "j \<in> set (map snd l)" for j
    proof
      assume eq: "hold j = hold k"
      have "j \<in> snd ` set (ccpairs (cbs st b))" using that l by simp
      then have "cc_cb (ccs st j) = Some b" using kinv_blink(2) [OF ki] by force
      moreover have "client (ccs st j) = Some (hold j)" using h ks' that by auto
      ultimately have "j = k" using pairs_inj [OF ki, of j k] hk m eq by simp
      then show False using that dist by simp
    qed
    have run: "break_loop (Suc n) env b caller bo own st =
        (if brk k then do { st \<leftarrow> break_ccpair env k (Some (hold k) \<noteq> caller) (unhook b k l st); break_loop n env b caller bo own st }
         else break_loop n env b caller bo (Some k) (unhook b k l st))"
      using l m(2) hk by (auto simp: Let_def unhook_def)
    show ?thesis
    proof (cases "brk k")
      case True
      have "hold k = c \<Longrightarrow> Some (hold k) = caller \<Longrightarrow> rc c > 0" for c using Suc.prems(4) by auto
      from break_head_ok [OF inv l rb hk(1) Suc.prems(3)] obtain s where
        s: "break_ccpair env k (Some (hold k) \<noteq> caller) (unhook b k l st) = Some s" "ropa_inv env s W rb rc"
          "\<forall>j. j \<noteq> k \<longrightarrow> ccs s j = ccs st j" "client (ccs s k) = None \<and> cc_cb (ccs s k) = None"
          "\<forall>d. ccpairs (cbs s d) = (if d = b then l else ccpairs (cbs st d))" "\<forall>d. fid (cbs s d) = fid (cbs st d)"
          "num_clients s = num_clients st" "num_callbacks s = num_callbacks st" "num_ccpair s = num_ccpair st"
          "sent s = sent st @ (if Some (hold k) \<noteq> caller then [notice st (hold k) (fid (cbs st b))] else [])"
          "\<forall>d. if d = hold k \<and> pcount st (hold k) + rc (hold k) = 1 then \<not> live s d else same_client st s d" by blast
      have len: "length (map snd l) < n" using Suc.prems(6) ks' by simp
      have h': "\<forall>j \<in> set (map snd l). client (ccs s j) = Some (hold j) \<and> brk j = (bo \<or> Some (hold j) \<noteq> caller)"
      proof
        fix j assume "j \<in> set (map snd l)"
        then show "client (ccs s j) = Some (hold j) \<and> brk j = (bo \<or> Some (hold j) \<noteq> caller)"
          using h ks' s(3) dist by (cases "j = k") (simp_all del: set_map)
      qed
      have ks1: "map snd l = map snd (ccpairs (cbs s b))" using s(5) by simp
      from Suc.IH [OF s(2) rb Suc.prems(3,4) ks1 len h', of own] obtain st' where
        st': "break_loop n env b caller bo own s =
            Some (if filter (\<lambda>k. \<not> brk k) (map snd l) = [] then own else Some (last (filter (\<lambda>k. \<not> brk k) (map snd l))), st')"
          "ropa_inv env st' (W \<union> {k \<in> set (map snd l). \<not> brk k}) rb rc" "swept b (map snd l) brk s st'"
          "sent st' = sent s @ map (\<lambda>k. notice s (hold k) (fid (cbs s b))) (filter (\<lambda>k. Some (hold k) \<noteq> caller) (map snd l))"
          "\<forall>d. if d \<in> hold ` {k \<in> set (map snd l). brk k} \<and> pcount s d + rc d = 1 then \<not> live st' d else same_client s st' d" by blast
      have sw: "swept b ks brk st st'" unfolding ks' by (rule swept_cons [OF s(3) dist _ s(5-9) st'(3)]) (use s(4) True in simp)
      have not: "notice s (hold j) (fid (cbs s b)) = notice st (hold j) (fid (cbs st b))" if "j \<in> set (map snd l)" for j
        using s(6) s(11) [rule_format, of "hold j"] other [OF that] by (simp add: notice_def same_client_def)
      have pc: "pcount s d = pcount st d" if "d \<noteq> hold k" for d
        using counts_remove(1) [OF ki hk(1) m(2) s(3)] s(4) that by simp
      have kept: "if d \<in> hold ` {k \<in> set ks. brk k} \<and> pcount st d + rc d = 1 then \<not> live st' d else same_client st st' d" for d
      proof (cases "d = hold k")
        case d: True
        then have out: "d \<notin> hold ` {k \<in> set (map snd l). brk k}" using other d by blast
        then have "same_client s st' d" using st'(5) by simp
        moreover from this have "live st' d \<longleftrightarrow> live s d" using st'(3) by (intro live_cong) (simp_all add: swept_def same_client_def)
        moreover have "d \<in> hold ` {k \<in> set ks. brk k}" using d ks' True by simp
        ultimately show ?thesis using s(11) [rule_format, of d] d same_client_trans [of st s d st'] by (simp split: if_splits)
      next
        case d: False
        then have "same_client st s d" using s(11) by simp
        moreover have "d \<in> hold ` {k \<in> set ks. brk k} \<longleftrightarrow> d \<in> hold ` {k \<in> set (map snd l). brk k}" using d by (auto simp: ks')
        ultimately show ?thesis using st'(5) [rule_format, of d] pc [OF d] same_client_trans [of st s d st'] by (simp split: if_splits)
      qed
      have "{j \<in> set ks. \<not> brk j} = {j \<in> set (map snd l). \<not> brk j}" "filter (\<lambda>j. \<not> brk j) ks = filter (\<lambda>j. \<not> brk j) (map snd l)"
        using ks' True by auto
      then show ?thesis using run True s(1,10) st' sw not kept by (intro exI [of _ st'] conjI) (simp_all add: ks' cong: map_cong)
    next
      case False
      then have own: "\<not> bo" "Some (hold k) = caller" using hk by auto
      let ?s = "unhook b k l st"
      have s: "ropa_inv env ?s (insert k W) rb rc" by (rule unhook_ok [OF inv l])
      have len: "length (map snd l) < n" using Suc.prems(6) ks' by simp
      have h': "\<forall>j \<in> set (map snd l). client (ccs ?s j) = Some (hold j) \<and> brk j = (bo \<or> Some (hold j) \<noteq> caller)"
        using h unfolding ks' unhook_def by simp
      have ks1: "map snd l = map snd (ccpairs (cbs ?s b))" by (simp add: unhook_def)
      have pc: "pcount ?s d = pcount st d" for d unfolding pcount_def unhook_def by (rule arg_cong [where f = card]) auto
      have eq: "same_client ?s st' d = same_client st st' d" "notice ?s c f = notice st c f" "sent ?s = sent st" "fid (cbs ?s d) = fid (cbs st d)" for st' d c f
        by (simp_all add: same_client_def unhook_def notice_def)
      from Suc.IH [OF s rb Suc.prems(3,4) ks1 len h', of "Some k"] obtain st' where
        st': "break_loop n env b caller bo (Some k) ?s =
            Some (if filter (\<lambda>k. \<not> brk k) (map snd l) = [] then Some k else Some (last (filter (\<lambda>k. \<not> brk k) (map snd l))), st')"
          "ropa_inv env st' (insert k W \<union> {k \<in> set (map snd l). \<not> brk k}) rb rc" "swept b (map snd l) brk ?s st'"
          "sent st' = sent st @ map (\<lambda>k. notice st (hold k) (fid (cbs st b))) (filter (\<lambda>k. Some (hold k) \<noteq> caller) (map snd l))"
          "\<forall>d. if d \<in> hold ` {k \<in> set (map snd l). brk k} \<and> pcount st d + rc d = 1 then \<not> live st' d else same_client st st' d" unfolding pc eq by blast
      have sw: "swept b ks brk st st'" unfolding ks'
        by (rule swept_cons [OF _ dist _ _ _ _ _ _ st'(3)]) (use False in \<open>simp_all add: unhook_def\<close>)
      have W: "W \<union> {j \<in> set ks. \<not> brk j} = insert k W \<union> {k \<in> set (map snd l). \<not> brk k}" using ks' False by auto
      have "filter (\<lambda>j. \<not> brk j) ks = k # filter (\<lambda>j. \<not> brk j) (map snd l)" using ks' False by simp
      moreover have "hold ` {k \<in> set ks. brk k} = hold ` {k \<in> set (map snd l). brk k}" using ks' False by auto
      moreover have "filter (\<lambda>j. Some (hold j) \<noteq> caller) ks = filter (\<lambda>j. Some (hold j) \<noteq> caller) (map snd l)" using ks' own by simp
      ultimately show ?thesis using run False st'(1,2,4,5) sw ks' unfolding W by (intro exI [of _ st'] conjI) simp_all
    qed
  qed
qed

lemma kinv_cong:
  assumes ki: "kinv env st W" and same: "ccs s = ccs st" "ht_ccpairs s = ht_ccpairs st" "lru_ccpair s = lru_ccpair st"
      "heap_ccpairs s = heap_ccpairs st" "num_ccpair s = num_ccpair st" "nitems st \<le> nitems s" "\<forall>b. ccpairs (cbs s b) = ccpairs (cbs st b)"
    and fid: "\<forall>b. bcount st b > 0 \<longrightarrow> fid (cbs s b) = fid (cbs st b)"
  shows "kinv env s W"
proof -
  have U: "inuse s = inuse st" "blink s = blink st" by (simp_all add: inuse_def blink_def fun_eq_iff same)
  then have w: "pair_wf s W = pair_wf st W" by (simp add: pair_wf_def fun_eq_iff same)
  have "bcount st b > 0" if "cc_cb (ccs st k) = Some b" for k b
    using that kinv_finite(2) [OF ki, of b] by (auto simp: bcount_def card_gt_0_iff)
  then have t: "hash_set (ccpairs_hash env s) (cc_pair s) (ht_ccpairs st) (Cc ` inuse st)"
    by (intro cc_table_cong [of env st "ht_ccpairs st" "inuse st" s]) (use ki fid same in \<open>auto simp: kinv_def\<close>)
  have e: "heap_inv (\<lambda>k. expire (ccs s k)) (expire_ok s) (heap_ccpairs st) (image_mset helem (mset_set (inuse st)))"
    by (rule expire_cong [of st]) (use ki same in \<open>simp_all add: kinv_def\<close>)
  show ?thesis using ki t e items_mono [OF _ same(6)] unfolding kinv_def U w same by (auto simp: same)
qed

lemma counts_cong: "ccs s = ccs st \<Longrightarrow> pcount s = pcount st" "ccs s = ccs st \<Longrightarrow> bcount s = bcount st"
  by (simp_all add: pcount_def bcount_def fun_eq_iff)

lemma inv_bframe:
  assumes inv: "ropa_inv env st W rb rc" and b: "binv s (\<lambda>b. bcount st b + rb' b)" "bframe st s"
    and fid: "\<forall>b. bcount st b > 0 \<longrightarrow> fid (cbs s b) = fid (cbs st b)"
  shows "ropa_inv env s W rb' rc"
proof -
  have eq: "pcount s = pcount st" "bcount s = bcount st" using b(2) by (auto intro!: counts_cong simp: bframe_def)
  have "kinv env s W" by (rule kinv_cong [of env st]) (use inv b(2) fid in \<open>simp_all add: ropa_inv_def bframe_def\<close>)
  moreover have "cinv s (\<lambda>c. pcount st c + rc c)" by (rule cinv_cong [of st]) (use inv b(2) in \<open>simp_all add: ropa_inv_def bframe_def\<close>)
  ultimately show ?thesis using b(1) by (simp add: ropa_inv_def eq)
qed

lemma inv_cframe:
  assumes inv: "ropa_inv env st W rb rc" and c: "cinv s (\<lambda>c. pcount st c + rc' c)" "cframe st s"
  shows "ropa_inv env s W rb rc'"
proof -
  have eq: "pcount s = pcount st" "bcount s = bcount st" using c(2) by (auto intro!: counts_cong simp: cframe_def)
  have "kinv env s W" by (rule kinv_cong [of env st]) (use inv c(2) in \<open>simp_all add: ropa_inv_def cframe_def\<close>)
  moreover have "binv s (\<lambda>b. bcount st b + rb b)" by (rule binv_cong [of st]) (use inv c(2) in \<open>simp_all add: ropa_inv_def cframe_def\<close>)
  ultimately show ?thesis using c(1) by (simp add: ropa_inv_def eq)
qed

text \<open>References to clients and callbacks taken and given back by the entry points.\<close>

lemma hold_client:
  assumes inv: "ropa_inv env st W rb rc" and lv: "live st c"
  shows "\<exists>s. client_ref c st = Some s \<and> ropa_inv env s W rb (rc(c := rc c + 1)) \<and> cframe st s \<and> quiet st s \<and> (\<forall>d. same_client st s d)"
proof -
  have "cinv st (\<lambda>c. pcount st c + rc c)" using inv by (simp add: ropa_inv_def)
  from client_ref_ok [OF this lv] obtain s where s: "client_ref c st = Some s"
    "cinv s ((\<lambda>c. pcount st c + rc c)(c := pcount st c + rc c + 1))" "cframe st s" "quiet st s" "same_clients st s UNIV" "same_conn st s" by blast
  moreover have "(\<lambda>c. pcount st c + rc c)(c := pcount st c + rc c + 1) = (\<lambda>d. pcount st d + (rc(c := rc c + 1)) d)" by auto
  ultimately have "ropa_inv env s W rb (rc(c := rc c + 1))" using inv_cframe [OF inv] by simp
  moreover have "same_client st s d" for d using s(5,6) rpc_target_cong [of "clients s d" "clients st d"] by (simp add: same_client_def same_clients_def same_conn_def)
  ultimately show ?thesis using s by blast
qed

lemma release_client:
  assumes inv: "ropa_inv env st W rb rc" and c: "rc c > 0"
  shows "\<exists>s. client_deref c st = Some s \<and> ropa_inv env s W rb (rc(c := rc c - 1)) \<and> cframe st s \<and> quiet st s \<and>
    (\<forall>d. if d = c \<and> pcount st c + rc c = 1 then \<not> live s d else same_client st s d)"
proof -
  have "cinv st (\<lambda>c. pcount st c + rc c)" using inv by (simp add: ropa_inv_def)
  from client_deref_ok [OF this, of c] c obtain s where s: "client_deref c st = Some s"
    "cinv s ((\<lambda>c. pcount st c + rc c)(c := pcount st c + rc c - 1))" "cframe st s" "quiet st s"
    "same_clients st s (if pcount st c + rc c = 1 then - {c} else UNIV)" "same_conn st s" "pcount st c + rc c = 1 \<longrightarrow> \<not> live s c" by auto
  moreover have "(\<lambda>c. pcount st c + rc c)(c := pcount st c + rc c - 1) = (\<lambda>d. pcount st d + (rc(c := rc c - 1)) d)" using c by auto
  ultimately have "ropa_inv env s W rb (rc(c := rc c - 1))" using inv_cframe [OF inv] by simp
  moreover have "if d = c \<and> pcount st c + rc c = 1 then \<not> live s d else same_client st s d" for d
    using s(5-7) rpc_target_cong [of "clients s d" "clients st d"]
    by (auto simp: same_client_def same_clients_def same_conn_def split: if_splits)
  ultimately show ?thesis using s by blast
qed

lemma hold_callback:
  assumes inv: "ropa_inv env st W rb rc" and b: "bcount st b + rb b > 0"
  shows "\<exists>s. callback_ref b st = Some s \<and> ropa_inv env s W (rb(b := rb b + 1)) rc \<and> bframe st s \<and> quiet st s \<and> (\<forall>d. fid (cbs s d) = fid (cbs st d))"
proof -
  have "binv st (\<lambda>b. bcount st b + rb b)" using inv by (simp add: ropa_inv_def)
  from callback_ref_ok [OF this b] obtain s where s: "callback_ref b st = Some s"
    "binv s ((\<lambda>b. bcount st b + rb b)(b := bcount st b + rb b + 1))" "bframe st s" "quiet st s" "\<forall>d. fid (cbs s d) = fid (cbs st d)" by blast
  moreover have "(\<lambda>b. bcount st b + rb b)(b := bcount st b + rb b + 1) = (\<lambda>d. bcount st d + (rb(b := rb b + 1)) d)" by auto
  ultimately have "ropa_inv env s W (rb(b := rb b + 1)) rc" using inv_bframe [OF inv] by simp
  then show ?thesis using s by blast
qed

lemma empty_list: "kinv env st W \<Longrightarrow> bcount st b = 0 \<Longrightarrow> ccpairs (cbs st b) = []"
proof (rule ccontr)
  assume ki: "kinv env st W" and z: "bcount st b = 0" and "ccpairs (cbs st b) \<noteq> []"
  then obtain x where "x \<in> set (ccpairs (cbs st b))" using hd_in_set by blast
  then have "cc_cb (ccs st (snd x)) = Some b" using kinv_blink(2) [OF ki, of "fst x" "snd x" b] by simp
  then show False using z kinv_finite(2) [OF ki, of b] by (auto simp: bcount_def)
qed

lemma release_callback:
  assumes inv: "ropa_inv env st W rb rc" and b: "rb b > 0"
  shows "\<exists>s. callback_deref b st = Some s \<and> ropa_inv env s W (rb(b := rb b - 1)) rc \<and> bframe st s \<and> quiet st s \<and>
    (\<forall>d. d \<noteq> b \<or> bcount st b + rb b > 1 \<longrightarrow> fid (cbs s d) = fid (cbs st d))"
proof -
  have "binv st (\<lambda>b. bcount st b + rb b)" using inv by (simp add: ropa_inv_def)
  moreover have "bcount st b + rb b = 1 \<Longrightarrow> ccpairs (cbs st b) = []" using b inv empty_list by (auto simp: ropa_inv_def)
  ultimately obtain s where s: "callback_deref b st = Some s"
    "binv s ((\<lambda>b. bcount st b + rb b)(b := bcount st b + rb b - 1))" "bframe st s" "quiet st s"
    "\<forall>d. d \<noteq> b \<or> bcount st b + rb b > 1 \<longrightarrow> fid (cbs s d) = fid (cbs st d)"
    using callback_deref_ok [of st "\<lambda>b. bcount st b + rb b" b] b by auto
  moreover have "(\<lambda>b. bcount st b + rb b)(b := bcount st b + rb b - 1) = (\<lambda>d. bcount st d + (rb(b := rb b - 1)) d)" using b by auto
  moreover have "fid (cbs s d) = fid (cbs st d)" if "bcount st d > 0" for d using s(5) b that by (cases "d = b") auto
  ultimately have "ropa_inv env s W (rb(b := rb b - 1)) rc" using inv_bframe [OF inv] by simp
  then show ?thesis using s by blast
qed

text \<open>The caller's own promise is put back on the list.\<close>

definition rehook :: "nat \<Rightarrow> nat \<Rightarrow> ropa \<Rightarrow> ropa" where
  "rehook b k st = (let n = nitems st + 1
     in upd_cc k (\<lambda>x. x\<lparr>cb_li := n\<rparr>) (upd_cb b (\<lambda>x. x\<lparr>ccpairs := (n, k) # ccpairs x\<rparr>) (st\<lparr>nitems := n\<rparr>)))"

lemma rehook_ok:
  assumes inv: "ropa_inv env st W rb rc" and k: "cc_cb (ccs st k) = Some b" "k \<in> W" "k \<in> inuse st"
  shows "ropa_inv env (rehook b k st) (W - {k}) rb rc"
proof -
  let ?s = "rehook b k st" and ?n = "nitems st + 1"
  have ki: "kinv env st W" using inv by (simp add: ropa_inv_def)
  have c: "client (ccs ?s j) = client (ccs st j)" "cc_cb (ccs ?s j) = cc_cb (ccs st j)" "expire (ccs ?s j) = expire (ccs st j)"
    "ccli (ccs ?s j) = ccli (ccs st j)" "fid (cbs ?s d) = fid (cbs st d)" "cbli (cbs ?s d) = cbli (cbs st d)" "cbref (cbs ?s d) = cbref (cbs st d)"
    for j d by (simp_all add: rehook_def Let_def)
  have e: "clients ?s = clients st" "ht_clients_ip ?s = ht_clients_ip st" "ht_clients_uuid ?s = ht_clients_uuid st" "lru_clients ?s = lru_clients st"
    "num_clients ?s = num_clients st" "ht_callbacks ?s = ht_callbacks st" "lru_callback ?s = lru_callback st" "num_callbacks ?s = num_callbacks st"
    "num_ccpair ?s = num_ccpair st" "ht_ccpairs ?s = ht_ccpairs st" "lru_ccpair ?s = lru_ccpair st" "heap_ccpairs ?s = heap_ccpairs st" "nitems ?s = ?n"
    by (simp_all add: rehook_def Let_def)
  have U: "inuse ?s = inuse st" by (simp add: inuse_def c)
  have w: "pair_wf st W j" for j using ki by (simp add: kinv_def)
  have kn: "k < num_ccpair st" "cb_li (ccs st k) = 0" using w [of k] k by (simp_all add: pair_wf_def)
  have P: "pcount ?s = pcount st" "bcount ?s = bcount st" by (simp_all add: pcount_def bcount_def c fun_eq_iff)
  have "cinv st (\<lambda>c. pcount st c + rc c)" using inv by (simp add: ropa_inv_def)
  then have "cinv ?s (\<lambda>c. pcount ?s c + rc c)" unfolding P by (rule cinv_cong) (simp_all add: e)
  moreover have "binv st (\<lambda>b. bcount st b + rb b)" using inv by (simp add: ropa_inv_def)
  then have "binv ?s (\<lambda>b. bcount ?s b + rb b)" unfolding P by (rule binv_cong [OF _ c(6,7,5)]) (simp_all add: e)
  moreover have "items_ok (num_ccpair st) ?n (ccpairs (cbs ?s d)) (blink ?s d)" for d
  proof (cases "d = b")
    case True
    have "items_ok (num_ccpair st) (nitems st) (ccpairs (cbs st b)) (blink st b)" using ki by (simp add: kinv_def)
    moreover have "blink st b k = 0" using kn by (simp add: blink_def)
    ultimately have "items_ok (num_ccpair st) ?n ((?n, k) # ccpairs (cbs st b)) ((blink st b)(k := ?n))"
      using items_addhead [of "num_ccpair st" "nitems st" "ccpairs (cbs st b)" "blink st b" k] kn by simp
    moreover have "(blink st b)(k := ?n) = blink ?s b" using k(1) by (auto simp: blink_def rehook_def Let_def)
    ultimately show ?thesis using True by (simp add: rehook_def Let_def)
  next
    case False
    then have "blink ?s d = blink st d" using k(1) by (auto simp: blink_def rehook_def Let_def)
    moreover have "items_ok (num_ccpair st) (nitems st) (ccpairs (cbs st d)) (blink st d)" using ki by (simp add: kinv_def)
    then have "items_ok (num_ccpair st) ?n (ccpairs (cbs st d)) (blink st d)" by (rule items_mono) simp
    ultimately show ?thesis using False by (simp add: rehook_def Let_def)
  qed
  moreover have "pair_wf ?s (W - {k}) j" for j
    using w [of j] k by (cases "j = k") (simp_all add: pair_wf_def U c e, simp_all add: rehook_def Let_def)
  moreover have "hash_set (ccpairs_hash env ?s) (cc_pair ?s) (ht_ccpairs st) (Cc ` inuse st)"
    by (rule cc_table_cong [of env st]) (use ki in \<open>simp_all add: kinv_def c\<close>)
  moreover have "heap_inv (\<lambda>k. expire (ccs ?s k)) (expire_ok ?s) (heap_ccpairs st) (image_mset helem (mset_set (inuse st)))"
    by (rule expire_cong [of st]) (use ki in \<open>simp_all add: kinv_def c\<close>)
  moreover have "items_ok (num_ccpair st) ?n (lru_ccpair st) (\<lambda>k. ccli (ccs st k))"
    by (rule items_mono [of _ "nitems st"]) (use ki in \<open>simp_all add: kinv_def\<close>)
  ultimately show ?thesis using ki by (simp add: ropa_inv_def kinv_def c e U)
qed

text \<open>What the server has promised: a client, a fid and the time until when.\<close>

definition promises :: "ropa \<Rightarrow> (nat \<times> afs_fid \<times> int) set" where
  "promises st = {(c, f, t). \<exists>k b. client (ccs st k) = Some c \<and> cc_cb (ccs st k) = Some b \<and> fid (cbs st b) = f \<and> expire (ccs st k) = t}"

definition pair_view :: "ropa_ccpair \<Rightarrow> nat option \<times> nat option \<times> int" where
  "pair_view x = (client x, cc_cb x, expire x)"

lemma promises_mono:
  assumes "\<forall>j \<in> inuse st'. pair_view (ccs st' j) = pair_view (ccs st j)"
    and "\<forall>j b. j \<in> inuse st' \<longrightarrow> cc_cb (ccs st' j) = Some b \<longrightarrow> fid (cbs st' b) = fid (cbs st b)"
  shows "promises st' = {(c, f, t). \<exists>k b. k \<in> inuse st' \<and> client (ccs st k) = Some c \<and> cc_cb (ccs st k) = Some b \<and> fid (cbs st b) = f \<and> expire (ccs st k) = t}"
    (is "_ = ?R")
proof (rule set_eqI, clarify)
  fix c f t
  have "(client (ccs st' k) = Some c \<and> cc_cb (ccs st' k) = Some b \<and> fid (cbs st' b) = f \<and> expire (ccs st' k) = t) \<longleftrightarrow>
      (k \<in> inuse st' \<and> client (ccs st k) = Some c \<and> cc_cb (ccs st k) = Some b \<and> fid (cbs st b) = f \<and> expire (ccs st k) = t)" for k b
  proof (cases "k \<in> inuse st'")
    case True
    then have "client (ccs st' k) = client (ccs st k)" "cc_cb (ccs st' k) = cc_cb (ccs st k)" "expire (ccs st' k) = expire (ccs st k)"
      using assms(1) by (auto simp: pair_view_def)
    then show ?thesis using True assms(2) by auto
  qed (auto simp: inuse_def)
  then show "(c, f, t) \<in> promises st' \<longleftrightarrow> (c, f, t) \<in> ?R" by (auto simp: promises_def)
qed

lemma promises_cong: "ccs st' = ccs st \<Longrightarrow> \<forall>b. bcount st b > 0 \<longrightarrow> fid (cbs st' b) = fid (cbs st b) \<Longrightarrow> kinv env st W \<Longrightarrow> promises st' = promises st"
proof -
  assume a: "ccs st' = ccs st" "\<forall>b. bcount st b > 0 \<longrightarrow> fid (cbs st' b) = fid (cbs st b)" "kinv env st W"
  have "bcount st b > 0" if "cc_cb (ccs st k) = Some b" for k b
    using that kinv_finite(2) [OF a(3), of b] by (auto simp: bcount_def card_gt_0_iff)
  then show ?thesis using a(1,2) by (auto simp: promises_def)
qed

lemma fid_inj:
  assumes "binv st g" "0 < g b" "0 < g d" "fid (cbs st b) = fid (cbs st d)"
  shows "b = d"
proof -
  have "inj_on (ref_fid st) (Cb ` {b. 0 < g b})" using assms(1) by (auto simp: binv_def hash_set_def)
  then show ?thesis using assms(2-4) by (auto simp: inj_on_def)
qed

lemma listed_promise:
  assumes ki: "kinv env st {}"
  shows "k \<in> set (map snd (ccpairs (cbs st b))) \<longleftrightarrow> cc_cb (ccs st k) = Some b"
proof -
  have "pair_wf st {} k" and ok: "items_ok (num_ccpair st) (nitems st) (ccpairs (cbs st b)) (blink st b)" using ki by (simp_all add: kinv_def)
  then show ?thesis using items_objs [OF ok, of k] by (auto simp: pair_wf_def blink_def split: if_splits)
qed

lemma fid_promises:
  assumes inv: "ropa_inv env st {} rb rc" and b: "bcount st b + rb b > 0"
  shows "(c, fid (cbs st b), t) \<in> promises st \<longleftrightarrow> (\<exists>k \<in> set (map snd (ccpairs (cbs st b))). client (ccs st k) = Some c \<and> expire (ccs st k) = t)"
proof -
  have ki: "kinv env st {}" and bi: "binv st (\<lambda>b. bcount st b + rb b)" using inv by (simp_all add: ropa_inv_def)
  have "d = b" if "cc_cb (ccs st k) = Some d" "fid (cbs st d) = fid (cbs st b)" for k d
  proof -
    have "bcount st d > 0" using that(1) kinv_finite(2) [OF ki, of d] by (auto simp: bcount_def card_gt_0_iff)
    then show ?thesis using fid_inj [OF bi, of d b] b that(2) by simp
  qed
  then show ?thesis unfolding promises_def by (auto simp: listed_promise [OF ki] simp del: set_map)
qed

lemma promises_swept:
  assumes inv: "ropa_inv env st {} rb rc" and ks: "ks = map snd (ccpairs (cbs st b))" and b: "bcount st b + rb b > 0"
    and pv: "\<forall>j. if j \<in> set ks \<and> brk j then client (ccs s j) = None else pair_view (ccs s j) = pair_view (ccs st j)"
    and fid: "\<forall>d. bcount s d > 0 \<longrightarrow> fid (cbs s d) = fid (cbs st d)" and ki': "kinv env s {}"
    and brk: "\<forall>k \<in> set ks. client (ccs st k) = Some (hold k) \<and> brk k = (bo \<or> Some (hold k) \<noteq> caller)"
  shows "promises s = {(c, f, t) \<in> promises st. f \<noteq> fid (cbs st b) \<or> \<not> bo \<and> Some c = caller}"
proof -
  have ki: "kinv env st {}" and bi: "binv st (\<lambda>b. bcount st b + rb b)" using inv by (simp_all add: ropa_inv_def)
  have U: "j \<in> inuse s \<longleftrightarrow> j \<in> inuse st \<and> \<not> (j \<in> set ks \<and> brk j)" for j
    using pv [rule_format, of j] by (cases "j \<in> set ks \<and> brk j") (auto simp: inuse_def pair_view_def)
  have "bcount s d > 0" if "cc_cb (ccs s k) = Some d" for k d
    using that kinv_finite(2) [OF ki', of d] by (auto simp: bcount_def card_gt_0_iff)
  then have P: "promises s = {(c, f, t). \<exists>k b. k \<in> inuse s \<and> client (ccs st k) = Some c \<and> cc_cb (ccs st k) = Some b \<and> fid (cbs st b) = f \<and> expire (ccs st k) = t}"
    by (intro promises_mono) (use pv fid U in auto)
  have on: "k \<in> set ks \<longleftrightarrow> cc_cb (ccs st k) = Some b" for k unfolding ks by (rule listed_promise [OF ki])
  have "k \<in> inuse s \<longleftrightarrow> fid (cbs st d) \<noteq> fid (cbs st b) \<or> \<not> bo \<and> Some c = caller"
    if k: "client (ccs st k) = Some c" "cc_cb (ccs st k) = Some d" for k c d
  proof -
    have "k \<in> inuse st" using k by (simp add: inuse_def)
    moreover have "bcount st d > 0" using k(2) kinv_finite(2) [OF ki, of d] by (auto simp: bcount_def card_gt_0_iff)
    then have "fid (cbs st d) = fid (cbs st b) \<longleftrightarrow> d = b" using fid_inj [OF bi, of d b] b by auto
    moreover have "k \<in> set ks \<longleftrightarrow> d = b" using on k(2) by simp
    moreover have "brk k = (bo \<or> Some c \<noteq> caller)" if "d = b" using brk on [of k] k that by auto
    ultimately show ?thesis using U by auto
  qed
  then show ?thesis unfolding P by (auto simp: promises_def)
qed

lemma swept_rehook:
  assumes inv: "ropa_inv env st W rb rc" and W: "W = {k \<in> set ks. \<not> brk k}" and sw: "swept b ks brk s0 st" and ks: "distinct ks"
    and one: "\<forall>j k. j \<in> W \<longrightarrow> k \<in> W \<longrightarrow> j = k" and on: "\<forall>k \<in> set ks. cc_cb (ccs s0 k) = Some b \<and> client (ccs s0 k) \<noteq> None"
  defines "own \<equiv> (if filter (\<lambda>k. \<not> brk k) ks = [] then None else Some (last (filter (\<lambda>k. \<not> brk k) ks)))"
  defines "s \<equiv> (case own of None \<Rightarrow> st | Some k \<Rightarrow> rehook b k st)"
  shows "ropa_inv env s {} rb rc" "sent s = sent st" "clients s = clients st" "fid (cbs s d) = fid (cbs s0 d)"
    "num_clients s = num_clients st" "num_callbacks s = num_callbacks st" "num_ccpair s = num_ccpair st"
    "if j \<in> set ks \<and> brk j then client (ccs s j) = None else pair_view (ccs s j) = pair_view (ccs s0 j)"
proof -
  have fl: "set (filter (\<lambda>k. \<not> brk k) ks) = W" using W by auto
  have "(own = None \<and> W = {}) \<or> (\<exists>k. own = Some k \<and> W = {k})"
  proof (cases "filter (\<lambda>k. \<not> brk k) ks = []")
    case False
    then have "last (filter (\<lambda>k. \<not> brk k) ks) \<in> W" using fl last_in_set by blast
    then show ?thesis using one False by (auto simp: own_def)
  qed (use fl in \<open>auto simp: own_def\<close>)
  then consider "own = None" "W = {}" | k where "own = Some k" "W = {k}" by blast
  then have "ropa_inv env s {} rb rc \<and> sent s = sent st \<and> clients s = clients st \<and> (\<forall>d. fid (cbs s d) = fid (cbs st d)) \<and>
    num_clients s = num_clients st \<and> num_callbacks s = num_callbacks st \<and> num_ccpair s = num_ccpair st \<and> (\<forall>j. pair_view (ccs s j) = pair_view (ccs st j))"
  proof cases
    case 1
    then show ?thesis using inv by (simp add: s_def)
  next
    case (2 k)
    then have "k \<in> set ks" "\<not> brk k" using W by auto
    then have "ccs st k = (ccs s0 k)\<lparr>cb_li := 0\<rparr>" using sw by (auto simp: swept_def)
    then have "cc_cb (ccs st k) = Some b" "k \<in> inuse st" using on \<open>k \<in> set ks\<close> by (simp_all add: inuse_def)
    from rehook_ok [OF inv this(1) _ this(2)] have "ropa_inv env (rehook b k st) {} rb rc" using 2 by simp
    then show ?thesis using 2 by (simp add: s_def rehook_def Let_def pair_view_def)
  qed
  moreover have "if j \<in> set ks \<and> brk j then client (ccs st j) = None else pair_view (ccs st j) = pair_view (ccs s0 j)" for j
    using sw by (cases "j \<in> set ks") (auto simp: swept_def pair_view_def split: if_splits)
  ultimately show "ropa_inv env s {} rb rc" "sent s = sent st" "clients s = clients st" "fid (cbs s d) = fid (cbs s0 d)"
    "num_clients s = num_clients st" "num_callbacks s = num_callbacks st" "num_ccpair s = num_ccpair st"
    "if j \<in> set ks \<and> brk j then client (ccs s j) = None else pair_view (ccs s j) = pair_view (ccs s0 j)"
    using sw by (auto simp: swept_def pair_view_def split: if_splits)
qed

definition maybe :: "('a \<Rightarrow> 's \<Rightarrow> 's option) \<Rightarrow> 'a option \<Rightarrow> 's \<Rightarrow> 's option" where
  "maybe f x st = (case x of None \<Rightarrow> Some st | Some a \<Rightarrow> f a st)"

lemma break_callback_unfold:
  "break_callback env b caller bo st = do {
     st \<leftarrow> callback_ref b st;
     st \<leftarrow> maybe client_ref caller st;
     (own, st) \<leftarrow> break_loop (Suc (length (ccpairs (cbs st b)))) env b caller bo None st;
     st \<leftarrow> callback_deref b (case own of None \<Rightarrow> st | Some k \<Rightarrow> rehook b k st);
     maybe client_deref caller st }"
  by (simp add: break_callback_def maybe_def rehook_def Let_def cong: option.case_cong)

definition add1 :: "nat option \<Rightarrow> (nat \<Rightarrow> nat) \<Rightarrow> nat \<Rightarrow> nat" where
  "add1 x r = (case x of None \<Rightarrow> r | Some c \<Rightarrow> r(c := r c + 1))"

lemma hold_caller:
  assumes inv: "ropa_inv env st W rb rc" and lv: "\<And>c. caller = Some c \<Longrightarrow> live st c"
  shows "\<exists>s. maybe client_ref caller st = Some s \<and> ropa_inv env s W rb (add1 caller rc) \<and> cframe st s \<and> quiet st s \<and> (\<forall>d. same_client st s d)"
proof (cases caller)
  case None
  then show ?thesis using inv by (simp add: maybe_def add1_def same_client_def quiet_def)
next
  case (Some c)
  then show ?thesis using hold_client [OF inv lv [OF Some]] by (auto simp: maybe_def add1_def)
qed

lemma release_caller:
  assumes inv: "ropa_inv env st W rb (add1 caller rc)"
  shows "\<exists>s. maybe client_deref caller st = Some s \<and> ropa_inv env s W rb rc \<and> cframe st s \<and> quiet st s \<and>
    (\<forall>d. if caller = Some d \<and> pcount st d + rc d = 0 then \<not> live s d else same_client st s d)"
proof (cases caller)
  case None
  then show ?thesis using inv by (simp add: maybe_def add1_def same_client_def quiet_def)
next
  case (Some c)
  then have "ropa_inv env st W rb (rc(c := rc c + 1))" using inv by (simp add: add1_def)
  from release_client [OF this, of c] obtain s where "client_deref c st = Some s" "ropa_inv env s W rb rc" "cframe st s" "quiet st s"
    and k: "\<forall>d. if d = c \<and> pcount st c + rc c = 0 then \<not> live s d else same_client st s d" by auto
  moreover have "if caller = Some d \<and> pcount st d + rc d = 0 then \<not> live s d else same_client st s d" for d
    using k [rule_format, of d] Some by (auto split: if_splits)
  ultimately show ?thesis using Some by (auto simp: maybe_def)
qed

lemma own_unique:
  assumes ki: "kinv env st W" and h: "\<forall>k \<in> set (map snd (ccpairs (cbs st b))). client (ccs st k) = Some (hold k) \<and> brk k = (bo \<or> Some (hold k) \<noteq> caller)"
    and j: "j \<in> set (map snd (ccpairs (cbs st b)))" "\<not> brk j" and k: "k \<in> set (map snd (ccpairs (cbs st b)))" "\<not> brk k"
  shows "j = k"
proof -
  have on: "cc_cb (ccs st x) = Some b \<and> x \<in> inuse st" if "x \<in> set (map snd (ccpairs (cbs st b)))" for x
    using that kinv_blink(1,2) [OF ki, of _ x b] by auto
  have "client (ccs st x) = caller" if "x \<in> set (map snd (ccpairs (cbs st b)))" "\<not> brk x" for x using h that by (auto simp del: set_map)
  then show ?thesis using pairs_inj [OF ki, of j k] on j k by simp
qed

lemma holders_inj:
  assumes ki: "kinv env st W" and h: "\<forall>k \<in> set (map snd (ccpairs (cbs st b))). client (ccs st k) = Some (hold k)"
  shows "inj_on hold (set (map snd (ccpairs (cbs st b))))"
proof (rule inj_onI)
  fix j k assume a: "j \<in> set (map snd (ccpairs (cbs st b)))" "k \<in> set (map snd (ccpairs (cbs st b)))" "hold j = hold k"
  have on: "cc_cb (ccs st x) = Some b \<and> x \<in> inuse st" if "x \<in> set (map snd (ccpairs (cbs st b)))" for x
    using that kinv_blink(1,2) [OF ki, of _ x b] by auto
  have "client (ccs st j) = Some (hold j)" "client (ccs st k) = Some (hold k)" using h a(1,2) by blast+
  then show "j = k" using pairs_inj [OF ki, of j k] on [OF a(1)] on [OF a(2)] a(3) by simp
qed

lemma pcount_swept:
  assumes ki: "kinv env st W" and inj: "inj_on hold (set ks)" and h: "\<forall>k \<in> set ks. client (ccs st k) = Some (hold k)"
    and pv: "\<forall>j. if j \<in> set ks \<and> brk j then client (ccs s j) = None else pair_view (ccs s j) = pair_view (ccs st j)"
  shows "pcount st d = pcount s d + (if d \<in> hold ` {k \<in> set ks. brk k} then 1 else 0)"
proof -
  let ?A = "{j. client (ccs st j) = Some d}" and ?B = "{j \<in> set ks. brk j}"
  have "client (ccs s j) = (if j \<in> ?B then None else client (ccs st j))" for j
    using pv [rule_format, of j] by (auto simp: pair_view_def split: if_splits)
  then have eq: "{j. client (ccs s j) = Some d} = ?A - ?B" by auto
  have fin: "finite ?A" by (rule kinv_finite(1) [OF ki])
  show ?thesis
  proof (cases "d \<in> hold ` ?B")
    case True
    then obtain k where k: "k \<in> set ks" "brk k" "hold k = d" by auto
    have "j = k" if "j \<in> set ks" "client (ccs st j) = Some d" for j using inj_onD [OF inj] h that k by simp
    moreover have "k \<in> ?A" using h k by simp
    ultimately have "?A - ?B = ?A - {k}" using k by blast
    moreover have "card ?A > 0" using \<open>k \<in> ?A\<close> fin by (auto simp: card_gt_0_iff)
    ultimately show ?thesis using True eq fin \<open>k \<in> ?A\<close> by (simp add: pcount_def)
  next
    case False
    then have "?A - ?B = ?A" using h by auto
    then show ?thesis using False eq by (simp add: pcount_def)
  qed
qed

text \<open>
  Who is still known after a callback is broken: a client that lost its last promise, or the
  caller when it has none, is gone.
\<close>

definition gone :: "ropa \<Rightarrow> ropa \<Rightarrow> (nat \<Rightarrow> nat) \<Rightarrow> afs_fid \<Rightarrow> nat option \<Rightarrow> nat \<Rightarrow> bool" where
  "gone st st' rc f caller d \<longleftrightarrow> (caller = Some d \<or> (\<exists>t. (d, f, t) \<in> promises st)) \<and> pcount st' d + rc d = 0"

lemma kept_after:
  assumes l: "if d \<in> H \<and> p + add1 caller rc d = 1 then \<not> live s3 d else same_client s2 s3 d"
    and e: "if caller = Some d \<and> p' + rc d = 0 then \<not> live s6 d else same_client s3 s6 d"
    and p: "p = p' + (if d \<in> H then 1 else 0)" and H: "d \<in> H0 \<Longrightarrow> caller \<noteq> Some d \<Longrightarrow> d \<in> H" "d \<in> H \<Longrightarrow> d \<in> H0"
    and num: "num_clients s6 = num_clients s3"
  shows "if (caller = Some d \<or> d \<in> H0) \<and> p' + rc d = 0 then \<not> live s6 d else same_client s2 s6 d"
proof (cases "caller = Some d")
  case True
  then have "same_client s2 s3 d" using l p by (simp add: add1_def split: if_splits)
  then show ?thesis using True e same_client_trans [of s2 s3 d s6] by (simp split: if_splits)
next
  case False
  then have s: "same_client s3 s6 d" and a: "add1 caller rc d = rc d" using e by (simp_all add: add1_def split: option.split)
  then have "live s6 d = live s3 d" using num by (intro live_cong) (simp_all add: same_client_def)
  then show ?thesis using False s l p H a same_client_trans [of s2 s3 d s6] by (auto split: if_splits)
qed

lemma break_callback_ok:
  assumes inv: "ropa_inv env st {} rb rc" and b: "bcount st b + rb b > 0" and lv: "\<And>c. caller = Some c \<Longrightarrow> live st c" and env: "env_ok env"
  defines "f \<equiv> fid (cbs st b)"
  shows "\<exists>st'. break_callback env b caller bo st = Some st' \<and> ropa_inv env st' {} rb rc \<and>
    promises st' = {(c, f', t) \<in> promises st. f' \<noteq> f \<or> \<not> bo \<and> Some c = caller} \<and>
    (\<exists>cs. distinct cs \<and> set cs = {c. (\<exists>t. (c, f, t) \<in> promises st) \<and> Some c \<noteq> caller} \<and> sent st' = sent st @ map (\<lambda>c. notice st c f) cs) \<and>
    (\<forall>d. bcount st' d + rb d > 0 \<longrightarrow> fid (cbs st' d) = fid (cbs st d)) \<and>
    (\<forall>d. if gone st st' rc f caller d then \<not> live st' d else same_client st st' d) \<and>
    num_clients st' = num_clients st \<and> num_callbacks st' = num_callbacks st \<and> num_ccpair st' = num_ccpair st"
proof -
  let ?ks = "map snd (ccpairs (cbs st b))"
  define hold where "hold = (\<lambda>k. the (client (ccs st k)))"
  define brk where "brk = (\<lambda>k. bo \<or> Some (hold k) \<noteq> caller)"
  have ki: "kinv env st {}" using inv by (simp add: ropa_inv_def)
  have on: "cc_cb (ccs st k) = Some b \<and> client (ccs st k) = Some (hold k)" if "k \<in> set ?ks" for k
    using that kinv_blink(1,2) [OF ki, of _ k b] by (auto simp: inuse_def hold_def)
  have h: "\<forall>k \<in> set ?ks. client (ccs st k) = Some (hold k) \<and> brk k = (bo \<or> Some (hold k) \<noteq> caller)" using on brk_def by blast
  obtain s1 where s1: "callback_ref b st = Some s1" "ropa_inv env s1 {} (rb(b := rb b + 1)) rc" "bframe st s1" "quiet st s1" "\<forall>d. fid (cbs s1 d) = fid (cbs st d)"
    using hold_callback [OF inv b] by blast
  have "live s1 c" if "caller = Some c" for c using lv [OF that] s1(3) by (simp add: live_def bframe_def)
  from hold_caller [OF s1(2) this] obtain s2 where s2: "maybe client_ref caller s1 = Some s2" "ropa_inv env s2 {} (rb(b := rb b + 1)) (add1 caller rc)"
    "cframe s1 s2" "quiet s1 s2" "\<forall>d. same_client s1 s2 d" by blast
  have f2: "ccs s2 = ccs st" "ccpairs (cbs s2 d) = ccpairs (cbs st d)" "fid (cbs s2 d) = fid (cbs st d)" "sent s2 = sent st"
    "num_clients s2 = num_clients st" "num_callbacks s2 = num_callbacks st" "num_ccpair s2 = num_ccpair st" for d
    using s1(3-5) s2(3,4) by (simp_all add: bframe_def cframe_def quiet_def)
  have sc2: "same_client st s2 c" for c using s1(3) s2(5) [rule_format, of c] by (simp add: same_client_def bframe_def)
  note pc = counts_cong [OF f2(1)]
  have nt2: "notice s2 c x = notice st c x" for c x using sc2 [of c] by (simp add: notice_def same_client_def)
  have ks2: "?ks = map snd (ccpairs (cbs s2 b))" by (simp add: f2)
  have "\<forall>c. caller = Some c \<longrightarrow> add1 caller rc c > 0" by (simp add: add1_def)
  from break_loop_ok [OF s2(2) _ env this ks2, of "Suc (length ?ks)" hold brk bo None] h obtain s3 where
    s3: "break_loop (Suc (length ?ks)) env b caller bo None s2 = Some (if filter (\<lambda>k. \<not> brk k) ?ks = [] then None else Some (last (filter (\<lambda>k. \<not> brk k) ?ks)), s3)"
      "ropa_inv env s3 {k \<in> set ?ks. \<not> brk k} (rb(b := rb b + 1)) (add1 caller rc)" "swept b ?ks brk s2 s3"
      "sent s3 = sent s2 @ map (\<lambda>k. notice s2 (hold k) (fid (cbs s2 b))) (filter (\<lambda>k. Some (hold k) \<noteq> caller) ?ks)"
      "\<forall>d. if d \<in> hold ` {k \<in> set ?ks. brk k} \<and> pcount s2 d + add1 caller rc d = 1 then \<not> live s3 d else same_client s2 s3 d"
    by (auto simp: f2 simp del: set_map)
  define own where "own = (if filter (\<lambda>k. \<not> brk k) ?ks = [] then None else Some (last (filter (\<lambda>k. \<not> brk k) ?ks)))"
  define s4 where "s4 = (case own of None \<Rightarrow> s3 | Some k \<Rightarrow> rehook b k s3)"
  have one: "\<forall>j k. j \<in> {k \<in> set ?ks. \<not> brk k} \<longrightarrow> k \<in> {k \<in> set ?ks. \<not> brk k} \<longrightarrow> j = k" using own_unique [OF ki h] by blast
  have on2: "\<forall>k \<in> set ?ks. cc_cb (ccs s2 k) = Some b \<and> client (ccs s2 k) \<noteq> None" using on f2(1) by simp
  note s4 = swept_rehook [OF s3(2) refl s3(3) cb_objs_distinct [OF ki] one on2, folded own_def s4_def]
  obtain s5 where s5: "callback_deref b s4 = Some s5" "ropa_inv env s5 {} rb (add1 caller rc)" "bframe s4 s5" "quiet s4 s5"
    "\<forall>d. d \<noteq> b \<or> bcount s4 b + (rb b + 1) > 1 \<longrightarrow> fid (cbs s5 d) = fid (cbs s4 d)"
    using release_callback [OF s4(1), of b] by (auto simp: fun_upd_idem)
  obtain s6 where s6: "maybe client_deref caller s5 = Some s6" "ropa_inv env s6 {} rb rc" "cframe s5 s6" "quiet s5 s6"
    "\<forall>d. if caller = Some d \<and> pcount s5 d + rc d = 0 then \<not> live s6 d else same_client s5 s6 d"
    using release_caller [OF s5(2)] by blast
  have run: "break_callback env b caller bo st = Some s6"
    using s1(1) s2(1) s3(1) s5(1) s6(1) by (simp add: break_callback_unfold f2 own_def s4_def del: break_loop.simps)
  have f6: "ccs s6 = ccs s4" "sent s6 = sent s3" "num_clients s6 = num_clients st" "num_callbacks s6 = num_callbacks st" "num_ccpair s6 = num_ccpair st"
    using s5(3,4) s6(3,4) s4(2,5-7) s3(3) f2 by (simp_all add: bframe_def cframe_def quiet_def swept_def)
  note pc6 = counts_cong [OF f6(1)]
  then have fid6: "fid (cbs s6 d) = fid (cbs st d)" if "bcount s6 d + rb d > 0" for d
    using s5(5) s4(4) [of d] f2(3) s6(3) that by (cases "d = b") (auto simp: cframe_def)
  have P: "promises s6 = {(c, f', t) \<in> promises st. f' \<noteq> f \<or> \<not> bo \<and> Some c = caller}"
    unfolding f_def using promises_swept [OF inv refl b _ _ _ h, of s6] s4(8) f6(1) f2(1) fid6 s6(2) by (simp add: ropa_inv_def)
  have hh: "\<forall>k \<in> set ?ks. client (ccs st k) = Some (hold k)" using h by blast
  note inj = holders_inj [OF ki hh]
  let ?cs = "map hold (filter (\<lambda>k. Some (hold k) \<noteq> caller) ?ks)"
  have holders: "(\<exists>t. (d, f, t) \<in> promises st) \<longleftrightarrow> d \<in> hold ` set ?ks" for d
    unfolding f_def fid_promises [OF inv b] using hh by (force simp del: set_map)
  have "distinct ?cs" using inj cb_objs_distinct [OF ki] by (auto simp: distinct_map inj_on_def simp del: set_map)
  moreover have "set ?cs = {c. (\<exists>t. (c, f, t) \<in> promises st) \<and> Some c \<noteq> caller}" unfolding holders by auto
  moreover have "sent s6 = sent st @ map (\<lambda>c. notice st c f) ?cs" using f6(2) s3(4) by (simp add: f2 nt2 f_def comp_def)
  moreover have "if gone st s6 rc f caller d then \<not> live s6 d else same_client st s6 d" for d
  proof -
    note pc0 = pcount_swept [OF ki inj hh, of brk s6, unfolded f6(1), OF allI, OF s4(8) [unfolded f2(1)], of d]
    have "if caller = Some d \<and> pcount s6 d + rc d = 0 then \<not> live s6 d else same_client s3 s6 d"
    proof -
      have "clients s5 = clients s3" "ccs s5 = ccs s6" using s5(3) s4(3) s6(3) by (simp_all add: bframe_def cframe_def)
      then have "same_client s5 s6 d = same_client s3 s6 d" "pcount s5 = pcount s6" using counts_cong(1) [of s5 s6] by (simp_all add: same_client_def)
      then show ?thesis using s6(5) [rule_format, of d] by (simp only:)
    qed
    moreover have "d \<in> hold ` {k \<in> set ?ks. brk k}" if "d \<in> hold ` set ?ks" "caller \<noteq> Some d" using that by (auto simp: brk_def simp del: set_map)
    moreover have "num_clients s6 = num_clients s3" using f6(3) s3(3) f2(5) by (simp add: swept_def)
    moreover have "hold ` {k \<in> set ?ks. brk k} \<subseteq> hold ` set ?ks" by (rule image_mono) blast
    ultimately have "if (caller = Some d \<or> d \<in> hold ` set ?ks) \<and> pcount s6 d + rc d = 0 then \<not> live s6 d else same_client s2 s6 d"
      by (intro kept_after [OF s3(5) [rule_format, of d] _ pc0 [folded pc(1)]]) (assumption | erule subsetD)+
    then show ?thesis using sc2 [of d] unfolding gone_def holders by (auto simp: same_client_def split: if_splits)
  qed
  ultimately show ?thesis using run s6(2) P fid6 f6(3-5) by (intro exI [of _ s6] conjI exI [of _ ?cs] allI impI) (assumption | blast)+
qed

end
