(* ===== verification/Ropa_Promise.thy ===== *)
theory Ropa_Promise
  imports Ropa_Sweep
begin

text \<open>
  New clients and new promises (\<open>client_query\<close>, \<open>add_client\<close> and the part of \<open>ropa_getcallback\<close> that
  obtains a callback, \<open>ropa.c\<close>), as long as the tables have a free entry.
\<close>

section \<open>Known clients\<close>

text \<open>The address by which a client is found.\<close>

definition caddr :: "ropa \<Rightarrow> nat \<Rightarrow> u32 \<times> u16" where
  "caddr st c = (addr_in (addr (clients st c) ! 0), port (clients st c))"

lemma live_key:
  assumes "cinv st f" "live st c"
  shows "ip_key st (Addr c 0) = caddr st c"
  using assms by (auto simp: cinv_def client_wf_def live_def ip_key_def caddr_def)

lemma cinv_ip:
  assumes "cinv st f"
  shows "hash_set (clients_hash_ip st) (ip_key st) (ht_clients_ip st) ((\<lambda>c. Addr c 0) ` Collect (live st))"
    and "\<forall>y \<in> (\<lambda>c. Addr c 0) ` Collect (live st). wf_ref st y"
  using assms cinv_wf_ref [OF assms] by (auto simp: cinv_def client_tabs_def)

lemma caddr_inj:
  assumes inv: "cinv st f" and c: "live st c" and d: "live st d" and eq: "caddr st c = caddr st d"
  shows "c = d"
proof -
  have "inj_on (ip_key st) ((\<lambda>c. Addr c 0) ` Collect (live st))" using cinv_ip(1) [OF inv] by (auto simp: hash_set_def)
  then have "Addr c 0 = Addr d 0" using c d eq live_key [OF inv] by (intro inj_onD [of "ip_key st"]) auto
  then show ?thesis by simp
qed

lemma caddr_cong: "same_client st st' c \<Longrightarrow> caddr st' c = caddr st c"
  using cview_fields [of "clients st' c" "clients st c"] by (simp add: same_client_def caddr_def)

lemma notalkback_known:
  assumes inv: "cinv st f" and lv: "live st c" and a: "caddr st c = (host, p)"
  shows "client_query_notalkback host p st = Some (Some c)"
proof -
  have w: "addr_c (addr (clients st c) ! 0) = Some c" "numberOfInterfaces (clients st c) = 1"
    using inv lv by (auto simp: cinv_def client_wf_def live_def)
  have "ip_key st (Addr c 0) = ip_key st (AddrKey host p)" using live_key [OF inv lv] a by (simp add: ip_key_def)
  then have "ip_search st (AddrKey host p) = Some (Some (Addr c 0))" using ip_search_ok(1) [OF wf_ref_key cinv_ip [OF inv]] lv by blast
  then show ?thesis using w by (simp add: client_query_notalkback_def)
qed

lemma notalkback_unknown:
  assumes inv: "cinv st f" and no: "\<forall>c. live st c \<longrightarrow> caddr st c \<noteq> (host, p)"
  shows "client_query_notalkback host p st = Some None"
proof -
  have "\<forall>y \<in> (\<lambda>c. Addr c 0) ` Collect (live st). ip_key st y \<noteq> ip_key st (AddrKey host p)"
    using no live_key [OF inv] by (auto simp: ip_key_def)
  then have "ip_search st (AddrKey host p) = Some None" using ip_search_ok(2) [OF wf_ref_key cinv_ip [OF inv]] by blast
  then show ?thesis by (simp add: client_query_notalkback_def)
qed

lemma query_known:
  assumes inv: "cinv st f" and lv: "live st c" and a: "caddr st c = (host, p)"
  shows "client_query env host p st = Some (Some c, st)"
  using notalkback_known [OF inv lv a] inv lv by (simp add: client_query_def cinv_def client_wf_def live_def)

section \<open>New clients\<close>

text \<open>What \<open>client_init\<close> writes into a free client.\<close>

definition slot :: "nat \<Rightarrow> u32 \<Rightarrow> u16 \<Rightarrow> ropa_client \<Rightarrow> bool" where
  "slot c host p z \<longleftrightarrow> numberOfInterfaces z = 1 \<and> length (addr z) = AFS_MAX_INTERFACE_ADDR \<and>
     addr_c (addr z ! 0) = Some c \<and> addr_in (addr z ! 0) = host \<and> port z = p"

lemma slot_keys:
  assumes inv: "cinv st f" and c: "\<not> live st c" and s: "clients s = (clients st)(c := z)" and z: "slot c host p z"
  shows "\<forall>y \<in> (\<lambda>c. Addr c 0) ` Collect (live st). clients_hash_ip s y = clients_hash_ip st y \<and> ip_key s y = ip_key st y"
    and "\<forall>y \<in> (\<lambda>c. Addr c 0) ` Collect (live st). wf_ref s y"
    and "wf_ref s (Addr c 0)" "ip_key s (Addr c 0) = (host, p)"
proof -
  have w: "addr_c (addr (clients st d) ! 0) = Some d \<and> d \<noteq> c \<and> numberOfInterfaces (clients st d) = 1 \<and> length (addr (clients st d)) = AFS_MAX_INTERFACE_ADDR"
    if "live st d" for d using inv that c by (auto simp: cinv_def client_wf_def live_def)
  then show "\<forall>y \<in> (\<lambda>c. Addr c 0) ` Collect (live st). clients_hash_ip s y = clients_hash_ip st y \<and> ip_key s y = ip_key st y"
    by (auto simp: clients_hash_ip_def ip_key_def s)
  have "wf_ref s (Addr d 0)" if "live st d" for d using w [OF that] by (intro wf_ref_addr) (simp_all add: s)
  then show "\<forall>y \<in> (\<lambda>c. Addr c 0) ` Collect (live st). wf_ref s y" by blast
  show "wf_ref s (Addr c 0)" using z by (intro wf_ref_addr) (simp_all add: s slot_def)
  show "ip_key s (Addr c 0) = (host, p)" using z by (simp add: ip_key_def s slot_def)
qed

lemma slot_add:
  assumes inv: "cinv st f" and c: "\<not> live st c" and s: "clients s = (clients st)(c := z)" and z: "slot c host p z"
    and t: "hash_set (clients_hash_ip st) (ip_key st) (ht_clients_ip s) ((\<lambda>c. Addr c 0) ` Collect (live st))"
    and no: "\<forall>c. live st c \<longrightarrow> caddr st c \<noteq> (host, p)"
  shows "\<exists>t'. ip_add (Addr c 0) s = Some (s\<lparr>ht_clients_ip := t'\<rparr>) \<and>
    hash_set (clients_hash_ip s) (ip_key s) t' (insert (Addr c 0) ((\<lambda>c. Addr c 0) ` Collect (live st)))"
proof -
  note k = slot_keys [OF inv c s z]
  have "hash_set (clients_hash_ip s) (ip_key s) (ht_clients_ip s) ((\<lambda>c. Addr c 0) ` Collect (live st))"
    by (rule hash_set_cong [OF t k(1)])
  moreover have "\<forall>y \<in> (\<lambda>c. Addr c 0) ` Collect (live st). ip_key s y \<noteq> ip_key s (Addr c 0)"
  proof
    fix y assume "y \<in> (\<lambda>c. Addr c 0) ` Collect (live st)"
    then obtain d where d: "y = Addr d 0" "live st d" by blast
    then have "ip_key s y = caddr st d" using bspec [OF k(1), of y] live_key [OF inv d(2)] by auto
    then show "ip_key s y \<noteq> ip_key s (Addr c 0)" using no d k(4) by simp
  qed
  ultimately show ?thesis by (rule ip_add_ok [OF k(3) _ k(2)])
qed

lemma slot_del:
  assumes inv: "cinv st f" and c: "\<not> live st c" and s: "clients s = (clients st)(c := z)" and z: "slot c host p z"
    and t: "hash_set (clients_hash_ip s) (ip_key s) (ht_clients_ip s) (insert (Addr c 0) ((\<lambda>c. Addr c 0) ` Collect (live st)))"
  shows "\<exists>t'. ip_del (Addr c 0) s = Some (0, s\<lparr>ht_clients_ip := t'\<rparr>) \<and>
    hash_set (clients_hash_ip st) (ip_key st) t' ((\<lambda>c. Addr c 0) ` Collect (live st))"
proof -
  note k = slot_keys [OF inv c s z]
  let ?S = "(\<lambda>c. Addr c 0) ` Collect (live st)"
  have "insert (Addr c 0) ?S - {Addr c 0} = ?S" using c by auto
  moreover have "\<forall>y \<in> insert (Addr c 0) ?S. wf_ref s y" using k(2,3) by blast
  ultimately obtain t' where t': "ip_del (Addr c 0) s = Some (0, s\<lparr>ht_clients_ip := t'\<rparr>)" "hash_set (clients_hash_ip s) (ip_key s) t' ?S"
    using ip_del_ok [OF k(3) t] by auto
  have "hash_set (clients_hash_ip st) (ip_key st) t' ?S" by (rule hash_set_cong [OF t'(2)]) (use k(1) in auto)
  then show ?thesis using t'(1) by blast
qed

text \<open>The tables of clients depend on the clients only.\<close>

definition ip_set :: "(nat \<Rightarrow> ropa_client) \<Rightarrow> addr_ref hashtab \<Rightarrow> nat set \<Rightarrow> bool" where
  "ip_set C t A \<longleftrightarrow> (\<forall>s. clients s = C \<longrightarrow> hash_set (clients_hash_ip s) (ip_key s) t ((\<lambda>c. Addr c 0) ` A))"

definition uuid_set :: "(nat \<Rightarrow> ropa_client) \<Rightarrow> client_ref hashtab \<Rightarrow> nat set \<Rightarrow> bool" where
  "uuid_set C t A \<longleftrightarrow> (\<forall>s. clients s = C \<longrightarrow> hash_set (clients_hash_uuid s) (uuid_key s) t (Cli ` A))"

lemma ip_key_eq:
  assumes "\<forall>d. addr (clients s' d) = addr (clients s d) \<and> port (clients s' d) = port (clients s d)"
  shows "clients_hash_ip s' y = clients_hash_ip s y \<and> ip_key s' y = ip_key s y"
  using assms by (cases y) (auto simp: clients_hash_ip_def ip_key_def split: option.split)

lemma ip_setI:
  assumes "hash_set (clients_hash_ip s) (ip_key s) t ((\<lambda>c. Addr c 0) ` A)"
    "\<forall>d. addr (C d) = addr (clients s d) \<and> port (C d) = port (clients s d)"
  shows "ip_set C t A"
  unfolding ip_set_def
proof (intro allI impI)
  fix v :: ropa assume "clients v = C"
  then show "hash_set (clients_hash_ip v) (ip_key v) t ((\<lambda>c. Addr c 0) ` A)"
    by (intro hash_set_cong [OF assms(1)] ballI ip_key_eq) (use assms(2) in simp)
qed

lemma ip_set_cong: "ip_set C t A \<Longrightarrow> \<forall>d. addr (C' d) = addr (C d) \<and> port (C' d) = port (C d) \<Longrightarrow> ip_set C' t A"
  using ip_setI [of "undefined\<lparr>clients := C\<rparr>" t A C'] by (simp add: ip_set_def)

lemma uuid_setI:
  assumes "hash_set (clients_hash_uuid s) (uuid_key s) t (Cli ` A)" "\<forall>d. uuid (C d) = uuid (clients s d)"
  shows "uuid_set C t A"
  unfolding uuid_set_def
proof (intro allI impI)
  fix v :: ropa assume "clients v = C"
  then show "hash_set (clients_hash_uuid v) (uuid_key v) t (Cli ` A)"
    by (intro hash_set_cong [OF assms(1)]) (use assms(2) in \<open>auto simp: clients_hash_uuid_def uuid_key_def\<close>)
qed

lemma uuid_set_cong: "uuid_set C t A \<Longrightarrow> \<forall>d. uuid (C' d) = uuid (C d) \<Longrightarrow> uuid_set C' t A"
  using uuid_setI [of "undefined\<lparr>clients := C\<rparr>" t A C'] by (simp add: uuid_set_def)

definition own_addr :: "nat \<Rightarrow> u32 \<Rightarrow> ropa_addr" where
  "own_addr c host = \<lparr>addr_c = Some c, addr_in = host, subnetmask = 0xffffff00, mtu = ROPA_MTU\<rparr>"

definition live_uuid :: "ropa \<Rightarrow> nat \<Rightarrow> bytes" where
  "live_uuid st c = take 6 (uuid (clients st c))"

lemma client_init_free:
  assumes inv: "cinv st f" and c: "\<not> live st c" "c < num_clients st" and s: "clients s = (clients st)(c := x)" "ht_clients_ip s = ht_clients_ip st"
    and x: "numberOfInterfaces x = 0" "length (addr x) = AFS_MAX_INTERFACE_ADDR"
    and no: "\<forall>c. live st c \<longrightarrow> caddr st c \<noteq> (host, p)"
  defines "z \<equiv> x\<lparr>port := p, numberOfInterfaces := 1, addr := (addr x)[0 := own_addr c host]\<rparr>"
  shows "slot c host p z"
    and "\<exists>t. client_init c host p None None s = Some (s\<lparr>clients := (clients st)(c := z), ht_clients_ip := t\<rparr>) \<and>
      ip_set ((clients st)(c := z)) t (insert c (Collect (live st)))"
proof -
  show z: "slot c host p z" using x by (simp add: z_def slot_def own_addr_def AFS_MAX_INTERFACE_ADDR_def)
  let ?s = "s\<lparr>clients := (clients st)(c := z)\<rparr>"
  obtain t where t: "ip_add (Addr c 0) ?s = Some (?s\<lparr>ht_clients_ip := t\<rparr>)"
    "hash_set (clients_hash_ip ?s) (ip_key ?s) t (insert (Addr c 0) ((\<lambda>c. Addr c 0) ` Collect (live st)))"
    using slot_add [OF inv c(1) _ z _ no, of ?s] cinv_ip(1) [OF inv] s(2) by auto
  have "client_init c host p None None s = ip_add (Addr c 0) ?s"
    using x by (simp add: client_init_def s set_addr_def z_def own_addr_def Let_def)
  moreover have "ip_set ((clients st)(c := z)) t (insert c (Collect (live st)))" by (rule ip_setI [of ?s]) (use t(2) in simp_all)
  ultimately show "\<exists>t. client_init c host p None None s = Some (?s\<lparr>ht_clients_ip := t\<rparr>) \<and> ip_set ((clients st)(c := z)) t (insert c (Collect (live st)))"
    using t(1) by (intro exI [of _ t]) (simp only: simp_thms)
qed

lemma uuid_fresh:
  assumes inv: "cinv st f" and c: "\<not> live st c" and s: "clients s = (clients st)(c := x)" "ht_clients_uuid s = ht_clients_uuid st"
    and u: "\<forall>d. live st d \<longrightarrow> live_uuid st d \<noteq> take 6 u"
  shows "hash_set (clients_hash_uuid s) (uuid_key s) (ht_clients_uuid s) (Cli ` Collect (live st))"
    and "\<forall>y \<in> Cli ` Collect (live st). uuid_key s y \<noteq> take 6 u"
proof -
  have "hash_set (clients_hash_uuid st) (uuid_key st) (ht_clients_uuid st) (Cli ` Collect (live st))"
    using inv by (simp add: cinv_def client_tabs_def)
  then show "hash_set (clients_hash_uuid s) (uuid_key s) (ht_clients_uuid s) (Cli ` Collect (live st))" unfolding s(2)
    by (rule hash_set_cong) (use c in \<open>auto simp: s clients_hash_uuid_def uuid_key_def\<close>)
  show "\<forall>y \<in> Cli ` Collect (live st). uuid_key s y \<noteq> take 6 u" using u c by (auto simp: uuid_key_def s live_uuid_def)
qed

lemma init_steps:
  assumes "upd_client c (\<lambda>x. x\<lparr>port := p\<rparr>) s = s0" "del_addrs c [0..<numberOfInterfaces (clients s0 c)] s0 = Some s1"
    "set_addr c 0 host 0xffffff00 ROPA_MTU (upd_client c (\<lambda>x. x\<lparr>numberOfInterfaces := 1\<rparr>) s1) = s2" "ip_add (Addr c 0) s2 = Some s3"
    "upd_client c (\<lambda>x. x\<lparr>uuid := u\<rparr>) s3 = v" "hadd (clients_cmp_uuid v) (clients_hash_uuid v) (ht_clients_uuid v) (Cli c) = Some (r, y, t)"
  shows "client_init c host p (Some u) None s = Some (v\<lparr>ht_clients_uuid := t\<rparr>)"
  unfolding client_init_def Let_def assms(1)
  by (simp only: assms(2-6) option.case Option.bind.simps prod.case)

lemma client_init_again:
  assumes inv: "cinv st f" and c: "\<not> live st c" and s: "clients s = (clients st)(c := z)" "ht_clients_uuid s = ht_clients_uuid st"
    and t: "ip_set ((clients st)(c := z)) (ht_clients_ip s) (insert c (Collect (live st)))"
    and z: "slot c host p z" and no: "\<forall>c. live st c \<longrightarrow> caddr st c \<noteq> (host, p)" and u: "\<forall>d. live st d \<longrightarrow> live_uuid st d \<noteq> take 6 u"
  defines "z' \<equiv> z\<lparr>addr := (addr z)[0 := own_addr c host], uuid := u\<rparr>"
  shows "\<exists>t1 t2. client_init c host p (Some u) None s = Some (s\<lparr>clients := (clients st)(c := z'), ht_clients_ip := t1, ht_clients_uuid := t2\<rparr>) \<and>
      ip_set ((clients st)(c := z')) t1 (insert c (Collect (live st))) \<and> uuid_set ((clients st)(c := z')) t2 (insert c (Collect (live st)))"
proof -
  let ?S = "(\<lambda>c. Addr c 0) ` Collect (live st)"
  have n: "numberOfInterfaces z = 1" and p: "z\<lparr>port := p\<rparr> = z" using z by (auto simp: slot_def)
  obtain t0 where t0: "ip_del (Addr c 0) s = Some (0, s\<lparr>ht_clients_ip := t0\<rparr>)" "hash_set (clients_hash_ip st) (ip_key st) t0 ?S"
    using slot_del [OF inv c s(1) z] t s(1) by (auto simp: ip_set_def)
  let ?z = "z\<lparr>addr := (addr z)[0 := own_addr c host]\<rparr>"
  let ?s = "s\<lparr>clients := (clients st)(c := ?z), ht_clients_ip := t0\<rparr>"
  have z2: "slot c host p ?z" using z by (simp add: slot_def own_addr_def AFS_MAX_INTERFACE_ADDR_def)
  obtain t1 where t1: "ip_add (Addr c 0) ?s = Some (?s\<lparr>ht_clients_ip := t1\<rparr>)" "hash_set (clients_hash_ip ?s) (ip_key ?s) t1 (insert (Addr c 0) ?S)"
    using slot_add [OF inv c _ z2 _ no, of ?s] t0(2) by auto
  let ?v = "s\<lparr>clients := (clients st)(c := z'), ht_clients_ip := t1\<rparr>"
  have v: "clients ?v = (clients st)(c := z')" "ht_clients_uuid ?v = ht_clients_uuid st" by (simp_all add: s)
  note f = uuid_fresh [OF inv c v u]
  have "uuid_key ?v (Cli c) = take 6 u" by (simp add: uuid_key_def z'_def)
  then obtain t2 where t2: "hadd (clients_cmp_uuid ?v) (clients_hash_uuid ?v) (ht_clients_uuid ?v) (Cli c) = Some (True, None, t2)"
    "hash_set (clients_hash_uuid ?v) (uuid_key ?v) t2 (insert (Cli c) (Cli ` Collect (live st)))"
    using uuid_tab.set_add [OF f(1), of "Cli c" 0 "\<lambda>_. True"] f(2) by auto
  have s0: "upd_client c (\<lambda>x. x\<lparr>port := p\<rparr>) s = s" using s(1) p by (cases s) (simp add: fun_upd_idem)
  have s1: "set_addr c 0 host 0xffffff00 ROPA_MTU (upd_client c (\<lambda>x. x\<lparr>numberOfInterfaces := 1\<rparr>) (s\<lparr>ht_clients_ip := t0\<rparr>)) = ?s"
    using s(1) n by (cases s, cases z) (simp add: set_addr_def own_addr_def)
  have "client_init c host p (Some u) None s = Some (?v\<lparr>ht_clients_uuid := t2\<rparr>)"
    by (rule init_steps [OF s0 _ s1 t1(1) _ t2(1)]) (use t0(1) n s(1) in \<open>simp, cases s, simp add: z'_def\<close>)
  moreover have "uuid_set ((clients st)(c := z')) t2 (insert c (Collect (live st)))" by (rule uuid_setI [of ?v]) (use t2(2) in simp_all)
  moreover have "ip_set ((clients st)(c := z')) t1 (insert c (Collect (live st)))" by (rule ip_setI [of ?s]) (use t1(2) in \<open>simp_all add: z'_def\<close>)
  ultimately show ?thesis by blast
qed

lemma free_client:
  assumes inv: "cinv st f" and free: "d < num_clients st" "\<not> live st d"
  defines "c \<equiv> snd (last (lru_clients st))"
  shows "lru_clients st \<noteq> []" "\<not> live st c" "c < num_clients st" "f c = 0"
    and "items_ok (num_clients st) (nitems st) (butlast (lru_clients st)) ((\<lambda>c. cli (clients st c))(c := 0))"
    and "lru_sorted (live st) (butlast (lru_clients st))"
proof -
  have ok: "items_ok (num_clients st) (nitems st) (lru_clients st) (\<lambda>c. cli (clients st c))" and so: "lru_sorted (live st) (lru_clients st)"
    using inv by (simp_all add: cinv_def)
  have "d \<in> snd ` set (lru_clients st)" using items_objs [OF ok, of d] inv free(1) by (simp add: cinv_def)
  from sorted_last [OF so this free(2)] show ne: "lru_clients st \<noteq> []" and "\<not> live st c" by (simp_all add: c_def)
  then show "f c = 0" using inv by (auto simp: cinv_def)
  show "c < num_clients st" "items_ok (num_clients st) (nitems st) (butlast (lru_clients st)) ((\<lambda>c. cli (clients st c))(c := 0))"
    using items_butlast [OF ok ne] by (simp_all add: c_def)
  show "lru_sorted (live st) (butlast (lru_clients st))" by (rule sorted_butlast [OF so])
qed

lemma cinv_new:
  assumes inv: "cinv st f" and free: "d < num_clients st" "\<not> live st d" and c: "c = snd (last (lru_clients st))"
    and s: "clients s = (clients st)(c := z)" "lru_clients s = (nitems st + 1, c) # butlast (lru_clients st)" "nitems s = nitems st + 1" "num_clients s = num_clients st"
    and z: "slot c host p z" "cstate z \<noteq> ROPAC_FREE" "\<not> flookup z" "callbacks z = []" "cref z = 0" "conn z = conn (clients st c)" "cli z = nitems st + 1"
    and ip: "ip_set (clients s) (ht_clients_ip s) (insert c (Collect (live st)))" and uu: "uuid_set (clients s) (ht_clients_uuid s) (insert c (Collect (live st)))"
  shows "cinv s f" and "live s x \<longleftrightarrow> x = c \<or> live st x"
proof -
  note fr = free_client [OF inv free, folded c]
  show lv: "live s x \<longleftrightarrow> x = c \<or> live st x" for x using fr z(2) by (auto simp: live_def s)
  then have L: "Collect (live s) = insert c (Collect (live st))" by auto
  have "items_ok (num_clients s) (nitems s) (lru_clients s) (\<lambda>d. cli (clients s d))"
  proof -
    have "(\<lambda>d. cli (clients s d)) = (\<lambda>d. cli (clients st d))(c := 0, c := nitems st + 1)" by (auto simp: s z)
    then show ?thesis using items_addhead [OF fr(5) fr(3)] by (simp add: s)
  qed
  moreover have "lru_sorted (live s) (butlast (lru_clients st))"
  proof (rule sorted_cong [OF fr(6)])
    have "items_ok (num_clients st) (nitems st) (lru_clients st) (\<lambda>c. cli (clients st c))" using inv by (simp add: cinv_def)
    from items_butlast(1) [OF this fr(1)] show "\<forall>k \<in> snd ` set (butlast (lru_clients st)). live s k = live st k" using lv c by auto
  qed
  then have "lru_sorted (live s) (lru_clients s)" unfolding s(2) by (rule sorted_head) (simp add: lv)
  moreover have "client_wf s d" if d: "d < num_clients st" for d
  proof (cases "d = c")
    case True
    then show ?thesis using z lv by (simp add: client_wf_def s slot_def)
  next
    case False
    then show ?thesis using inv d lv [of d] by (simp add: cinv_def client_wf_def s)
  qed
  then have "\<forall>d < num_clients s. cli (clients s d) \<noteq> 0 \<and> cref (clients s d) = int (f d) \<and> client_wf s d \<and> conn (clients s d) \<noteq> Destroyed"
    using inv z fr(3,4) by (auto simp: cinv_def s)
  moreover have "client_tabs s (Collect (live s)) (Collect (live s))" using ip uu by (simp add: client_tabs_def L ip_set_def uuid_set_def)
  moreover have "\<forall>d. 0 < f d \<longrightarrow> live s d" using inv lv by (auto simp: cinv_def)
  ultimately show "cinv s f" unfolding cinv_def by blast
qed

text \<open>A client that answers: the UUID it gives, or the one made up from its address.\<close>

definition answers :: "ropa_env \<Rightarrow> u32 \<Rightarrow> bytes \<Rightarrow> bool" where
  "answers env host u \<longleftrightarrow> (\<forall>n. conn_ok env n \<and> rpc_init env n = 0 \<and>
     (fst (rpc_who env n) = 0 \<and> ifUuid (snd (rpc_who env n)) = u \<or> fst (rpc_who env n) = RXGEN_OPCODE \<and> u = uuid_init_simple host))"

lemma query_who:
  assumes inv: "cinv st f" and c: "\<not> live st c" and s: "clients s = (clients st)(c := z)" "ht_clients_uuid s = ht_clients_uuid st"
    and t: "ip_set ((clients st)(c := z)) (ht_clients_ip s) (insert c (Collect (live st)))"
    and z: "slot c host p z" "cstate z \<noteq> ROPAC_FREE" and no: "\<forall>c. live st c \<longrightarrow> caddr st c \<noteq> (host, p)" and u: "\<forall>d. live st d \<longrightarrow> live_uuid st d \<noteq> take 6 u"
    and env: "answers env host u"
  shows "\<exists>S t1 t2. S \<noteq> ROPAC_FREE \<and> (let z' = z\<lparr>cstate := S, addr := (addr z)[0 := own_addr c host], uuid := u\<rparr> in
      query_lookup_u env c host p s = Some (c, 0, s\<lparr>clients := (clients st)(c := z'), ht_clients_ip := t1, ht_clients_uuid := t2,
        ncalls := ncalls s + 2, sent := sent s @ [WhoAreYouRPC host p, InitRPC host p]\<rparr>) \<and>
      ip_set ((clients st)(c := z')) t1 (insert c (Collect (live st))) \<and> uuid_set ((clients st)(c := z')) t2 (insert c (Collect (live st))))"
proof -
  let ?n = "ncalls s" and ?ev = "sent s @ [WhoAreYouRPC host p]"
  have who: "fst (rpc_who env ?n) = 0 \<and> ifUuid (snd (rpc_who env ?n)) = u \<or> fst (rpc_who env ?n) = RXGEN_OPCODE \<and> u = uuid_init_simple host"
    and ini: "\<And>n. rpc_init env n = 0" using env by (auto simp: answers_def)
  show ?thesis
  proof (cases "fst (rpc_who env ?n) = RXGEN_OPCODE")
    case True
    then have us: "u = uuid_init_simple host" using who by (auto simp: RXGEN_OPCODE_def)
    let ?z = "z\<lparr>cstate := ROPAC_LOOKUP\<rparr>"
    let ?s = "s\<lparr>clients := (clients st)(c := ?z), ncalls := ?n + 2, sent := ?ev @ [InitRPC host p]\<rparr>"
    have z2: "slot c host p ?z" using z by (simp add: slot_def)
    have "ip_set ((clients st)(c := ?z)) (ht_clients_ip ?s) (insert c (Collect (live st)))" using ip_set_cong [OF t] by simp
    from client_init_again [OF inv c _ _ this z2 no u] s(2)
    obtain t1 t2 where i: "client_init c host p (Some u) None ?s =
        Some (?s\<lparr>clients := (clients st)(c := ?z\<lparr>addr := (addr ?z)[0 := own_addr c host], uuid := u\<rparr>), ht_clients_ip := t1, ht_clients_uuid := t2\<rparr>)"
      and h: "ip_set ((clients st)(c := ?z\<lparr>addr := (addr ?z)[0 := own_addr c host], uuid := u\<rparr>)) t1 (insert c (Collect (live st)))"
        "uuid_set ((clients st)(c := ?z\<lparr>addr := (addr ?z)[0 := own_addr c host], uuid := u\<rparr>)) t2 (insert c (Collect (live st)))" by auto
    have e: "upd_client c (\<lambda>x. x\<lparr>cstate := ROPAC_LOOKUP\<rparr>) (s\<lparr>ncalls := ?n + 1, sent := ?ev\<rparr>)\<lparr>ncalls := ?n + 2, sent := ?ev @ [InitRPC host p]\<rparr> = ?s"
      using s(1) by (cases s) simp
    have "query_lookup_u env c host p s = query_lookup env c host p (s\<lparr>ncalls := ?n + 1, sent := ?ev\<rparr>)"
      using True by (cases "rpc_who env ?n") (simp add: query_lookup_u_def ext_call_def Let_def)
    also have "\<dots> = do { st \<leftarrow> client_init c host p (Some u) None ?s; Some (c, 0, st) }"
      using ini us e by (simp add: query_lookup_def ext_call_def Let_def RX_CALL_DEAD_def)
    finally show ?thesis unfolding i using h by (intro exI [of _ ROPAC_LOOKUP] exI [of _ t1] exI [of _ t2]) (simp add: Let_def)
  next
    case False
    then have w: "fst (rpc_who env ?n) = 0" "ifUuid (snd (rpc_who env ?n)) = u" using who by auto
    let ?s = "s\<lparr>ncalls := ?n + 1, sent := ?ev\<rparr>"
    from client_init_again [OF inv c _ _ _ z(1) no u, of ?s] s t
    obtain t1 t2 where i: "client_init c host p (Some u) None ?s =
        Some (?s\<lparr>clients := (clients st)(c := z\<lparr>addr := (addr z)[0 := own_addr c host], uuid := u\<rparr>), ht_clients_ip := t1, ht_clients_uuid := t2\<rparr>)"
      and h: "ip_set ((clients st)(c := z\<lparr>addr := (addr z)[0 := own_addr c host], uuid := u\<rparr>)) t1 (insert c (Collect (live st)))"
        "uuid_set ((clients st)(c := z\<lparr>addr := (addr z)[0 := own_addr c host], uuid := u\<rparr>)) t2 (insert c (Collect (live st)))" by auto
    note fr = uuid_fresh [OF inv c _ _ u, of ?s z]
    have "hashtabsearch (clients_cmp_uuid ?s) (clients_hash_uuid ?s) (ht_clients_uuid ?s) (UuidKey u) = Some None"
      by (rule uuid_tab.set_search_miss) (use fr s in \<open>auto simp: uuid_key_def\<close>)
    then have "query_lookup_u env c host p s = do {
         st \<leftarrow> client_init c host p (Some u) None ?s;
         let (n, st) = ext_call st;
         Some (c, rpc_init env n, st\<lparr>sent := sent st @ [InitRPC host p]\<rparr>) }"
      using w False by (cases "rpc_who env ?n") (simp add: query_lookup_u_def ext_call_def RX_CALL_DEAD_def Let_def)
    then show ?thesis unfolding i using h z(2) ini
      by (intro exI [of _ "cstate z"] exI [of _ t1] exI [of _ t2]) (simp add: Let_def ext_call_def)
  qed
qed

lemma query_steps:
  assumes "client_query_notalkback host p st = Some None" "obtain_client env st = Some (c, s1)"
    "cstate (clients s1 c) = ROPAC_FREE \<and> cli (clients s1 c) = 0"
    "upd_client c (\<lambda>x. x\<lparr>cstate := ROPAC_LOOKUP_U, flookup := True\<rparr>) s1 = s2" "client_init c host p None None s2 = Some s3"
    "ext_call s3 = (n, s4)" "conn_ok env n" "query_lookup_u env c host p s4 = Some (c, 0, s5)"
    "upd_client c (\<lambda>x. x\<lparr>flookup := False, fwaiting := False\<rparr>) s5 = s6" "cli (clients s6 c) = 0"
  shows "client_query env host p st = Some (Some c, client_addhead c s6)"
  unfolding client_query_def assms(1) Let_def
  by (simp only: assms(2-10) option.case Option.bind.simps prod.case cassert_True simp_thms if_False)

lemma query_new:
  assumes inv: "cinv st f" and free: "d < num_clients st" "\<not> live st d" and no: "\<forall>c. live st c \<longrightarrow> caddr st c \<noteq> (host, p)"
    and u: "\<forall>d. live st d \<longrightarrow> live_uuid st d \<noteq> take 6 u" and env: "answers env host u"
  shows "\<exists>st' c. client_query env host p st = Some (Some c, st') \<and> cinv st' f \<and> \<not> live st c \<and> (\<forall>x. live st' x \<longleftrightarrow> x = c \<or> live st x) \<and>
    caddr st' c = (host, p) \<and> live_uuid st' c = take 6 u \<and> (\<forall>d. d \<noteq> c \<longrightarrow> clients st' d = clients st d) \<and>
    conn (clients st' c) = conn (clients st c) \<and> cframe st st' \<and> sent st' = sent st @ [WhoAreYouRPC host p, InitRPC host p]"
proof -
  define c where "c = snd (last (lru_clients st))"
  note fr = free_client [OF inv free, folded c_def]
  let ?x = "clients st c" and ?l = "butlast (lru_clients st)"
  have fx: "cstate ?x = ROPAC_FREE" using fr(2,3) by (simp add: live_def)
  have wx: "numberOfInterfaces ?x = 0" "length (addr ?x) = AFS_MAX_INTERFACE_ADDR" "callbacks ?x = []" "cref ?x = 0"
    using inv fr(2-4) by (auto simp: cinv_def client_wf_def)
  let ?x0 = "?x\<lparr>cli := 0\<rparr>" and ?x1 = "?x\<lparr>cli := 0, cstate := ROPAC_LOOKUP_U, flookup := True\<rparr>"
  let ?s1 = "st\<lparr>clients := (clients st)(c := ?x0), lru_clients := ?l\<rparr>" and ?s2 = "st\<lparr>clients := (clients st)(c := ?x1), lru_clients := ?l\<rparr>"
  have ob: "obtain_client env st = Some (c, ?s1)"
    using fr(1) fx by (simp add: obtain_client_def c_def [symmetric] client_inuse_p_def Let_def)
  define z where "z = ?x1\<lparr>port := p, numberOfInterfaces := 1, addr := (addr ?x1)[0 := own_addr c host]\<rparr>"
  have z: "slot c host p z" unfolding z_def by (rule client_init_free(1) [OF inv fr(2,3), of ?s2 ?x1]) (use wx no in simp_all)
  obtain t where i: "client_init c host p None None ?s2 = Some (?s2\<lparr>clients := (clients st)(c := z), ht_clients_ip := t\<rparr>)"
    and t: "ip_set ((clients st)(c := z)) t (insert c (Collect (live st)))"
    using client_init_free(2) [OF inv fr(2,3), of ?s2 ?x1 host p] wx no unfolding z_def by auto
  define s4 where "s4 = st\<lparr>clients := (clients st)(c := z), lru_clients := ?l, ht_clients_ip := t, ncalls := ncalls st + 1\<rparr>"
  have s4: "clients s4 = (clients st)(c := z)" "ht_clients_uuid s4 = ht_clients_uuid st" "ht_clients_ip s4 = t" "ncalls s4 = ncalls st + 1" "sent s4 = sent st"
    by (simp_all add: s4_def)
  have "cstate z \<noteq> ROPAC_FREE" by (simp add: z_def)
  from query_who [OF inv fr(2) s4(1,2) _ z this no u env] t s4 obtain S t1 t2 where S: "S \<noteq> ROPAC_FREE"
    and q: "query_lookup_u env c host p s4 = Some (c, 0, s4\<lparr>clients := (clients st)(c := z\<lparr>cstate := S, addr := (addr z)[0 := own_addr c host], uuid := u\<rparr>),
        ht_clients_ip := t1, ht_clients_uuid := t2, ncalls := ncalls s4 + 2, sent := sent s4 @ [WhoAreYouRPC host p, InitRPC host p]\<rparr>)"
    and h: "ip_set ((clients st)(c := z\<lparr>cstate := S, addr := (addr z)[0 := own_addr c host], uuid := u\<rparr>)) t1 (insert c (Collect (live st)))"
      "uuid_set ((clients st)(c := z\<lparr>cstate := S, addr := (addr z)[0 := own_addr c host], uuid := u\<rparr>)) t2 (insert c (Collect (live st)))"
    unfolding Let_def by blast
  define y where "y = z\<lparr>cstate := S, addr := (addr z)[0 := own_addr c host], uuid := u, flookup := False, fwaiting := False\<rparr>"
  let ?m = "nitems st + 1"
  let ?s6 = "st\<lparr>clients := (clients st)(c := y), lru_clients := ?l, ht_clients_ip := t1, ht_clients_uuid := t2, ncalls := ncalls st + 3,
      sent := sent st @ [WhoAreYouRPC host p, InitRPC host p]\<rparr>"
  have run: "client_query env host p st = Some (Some c, client_addhead c ?s6)"
  proof (rule query_steps [OF notalkback_unknown [OF inv no] ob _ _ i _ _ q])
    show "upd_client c (\<lambda>x. x\<lparr>cstate := ROPAC_LOOKUP_U, flookup := True\<rparr>) ?s1 = ?s2" by simp
    show "ext_call (?s2\<lparr>clients := (clients st)(c := z), ht_clients_ip := t\<rparr>) = (ncalls st, s4)" by (simp add: ext_call_def s4_def)
  qed (use fx env in \<open>simp_all add: answers_def y_def s4_def\<close>, simp_all add: z_def)
  let ?f = "client_addhead c ?s6"
  have f: "clients ?f = (clients st)(c := y\<lparr>cli := ?m\<rparr>)" "lru_clients ?f = (?m, c) # ?l" "nitems ?f = ?m" "num_clients ?f = num_clients st"
    "ht_clients_ip ?f = t1" "ht_clients_uuid ?f = t2" "cframe st ?f" "sent ?f = sent st @ [WhoAreYouRPC host p, InitRPC host p]"
    by (simp_all add: client_addhead_def Let_def cframe_def)
  have sl: "slot c host p (y\<lparr>cli := ?m\<rparr>)" using z by (simp add: y_def slot_def own_addr_def AFS_MAX_INTERFACE_ADDR_def)
  have ips: "ip_set (clients ?f) (ht_clients_ip ?f) (insert c (Collect (live st)))" unfolding f by (rule ip_set_cong [OF h(1)]) (simp add: y_def)
  have uus: "uuid_set (clients ?f) (ht_clients_uuid ?f) (insert c (Collect (live st)))" unfolding f by (rule uuid_set_cong [OF h(2)]) (simp add: y_def)
  note new = cinv_new [OF inv free c_def f(1-4) sl _ _ _ _ _ _ ips uus]
  have "cinv ?f f" by (rule new) (use S wx in \<open>simp_all add: y_def z_def\<close>)
  moreover have "live ?f x \<longleftrightarrow> x = c \<or> live st x" for x by (rule new) (use S wx in \<open>simp_all add: y_def z_def\<close>)
  moreover have "caddr ?f c = (host, p)" using sl by (simp add: caddr_def f slot_def)
  moreover have "live_uuid ?f c = take 6 u" unfolding live_uuid_def f by (simp add: y_def)
  moreover have "conn (clients ?f c) = conn (clients st c)" unfolding f by (simp add: y_def z_def)
  ultimately show ?thesis using run fr(2) f by (intro exI [of _ ?f] exI [of _ c]) simp
qed

section \<open>Obtaining a callback\<close>

lemma obtain_callback_ok:
  assumes inv: "ropa_inv env st {} rb rc" and free: "d < num_callbacks st" "bcount st d + rb d = 0"
    and no: "\<forall>b. bcount st b + rb b > 0 \<longrightarrow> fid (cbs st b) \<noteq> f"
  shows "\<exists>b st'. obtain_callback env f st = Some (b, st') \<and> bcount st b + rb b = 0 \<and> ropa_inv env st' {} (rb(b := 1)) rc \<and>
    bframe st st' \<and> quiet st st' \<and> fid (cbs st' b) = f \<and> (\<forall>d. d \<noteq> b \<longrightarrow> fid (cbs st' d) = fid (cbs st d))"
proof -
  let ?g = "\<lambda>b. bcount st b + rb b"
  have bi: "binv st ?g" and ki: "kinv env st {}" using inv by (simp_all add: ropa_inv_def)
  have ok: "items_ok (num_callbacks st) (nitems st) (lru_callback st) (\<lambda>b. cbli (cbs st b))" and so: "lru_sorted (\<lambda>b. 0 < ?g b) (lru_callback st)"
    using bi by (simp_all add: binv_def)
  define b where "b = snd (last (lru_callback st))"
  have "d \<in> snd ` set (lru_callback st)" using items_objs [OF ok, of d] bi free(1) by (simp add: binv_def)
  from sorted_last [OF so this] free(2) have ne: "lru_callback st \<noteq> []" and gb: "?g b = 0" by (simp_all add: b_def)
  note it = items_butlast [OF ok ne, folded b_def]
  have emp: "ccpairs (cbs st b) = []" using empty_list [OF ki] gb by simp
  have rf: "cbref (cbs st b) = 0" using bi it(2) gb by (simp add: binv_def)
  let ?m = "nitems st + 1" and ?x = "cbs st b"
  define s where "s = st\<lparr>cbs := (cbs st)(b := ?x\<lparr>cbref := 1, cbli := ?m, fid := f\<rparr>), lru_callback := (?m, b) # butlast (lru_callback st), nitems := ?m\<rparr>"
  have "hash_set (callbacks_hash st) (ref_fid st) (ht_callbacks st) (Cb ` {b. 0 < ?g b})" using bi by (simp add: binv_def)
  then have hs: "hash_set (callbacks_hash s) (ref_fid s) (ht_callbacks st) (Cb ` {b. 0 < ?g b})"
    by (rule cb_table_cong) (use gb in \<open>auto simp: s_def\<close>)
  moreover have "\<forall>y \<in> Cb ` {b. 0 < ?g b}. ref_fid s y \<noteq> ref_fid s (Cb b)" using no gb by (auto simp: s_def)
  ultimately obtain t where t: "hadd (callbacks_cmp s) (callbacks_hash s) (ht_callbacks s) (Cb b) = Some (True, None, t)"
    "hash_set (callbacks_hash s) (ref_fid s) t (insert (Cb b) (Cb ` {b. 0 < ?g b}))"
    using cb_tab.set_add [OF hs, of "Cb b" 0 "\<lambda>_. True"] by (auto simp: s_def)
  let ?f = "s\<lparr>ht_callbacks := t\<rparr>"
  have "obtain_callback env f st = do { (_, _, t) \<leftarrow> hadd (callbacks_cmp s) (callbacks_hash s) (ht_callbacks s) (Cb b); Some (b, s\<lparr>ht_callbacks := t\<rparr>) }"
  proof -
    have "upd_cb b (\<lambda>x. x\<lparr>fid := f\<rparr>) (cb_addhead b (upd_cb b (\<lambda>x. x\<lparr>cbref := cbref x + 1\<rparr>) (upd_cb b (\<lambda>x. x\<lparr>cbli := 0\<rparr>) (st\<lparr>lru_callback := butlast (lru_callback st)\<rparr>)))) = s"
      using rf by (cases st) (simp add: cb_addhead_def s_def Let_def)
    moreover have "ht_callbacks (cb_addhead b v) = ht_callbacks v" for v by (simp add: cb_addhead_def Let_def)
    moreover have "ht_callbacks s = ht_callbacks st" by (simp add: s_def)
    ultimately show ?thesis using ne emp rf
      by (simp add: obtain_callback_def b_def [symmetric] callback_inuse_p_def callback_ref_def Let_def)
  qed
  then have run: "obtain_callback env f st = Some (b, ?f)" using t(1) by simp
  have lv: "{d. 0 < (?g(b := 1)) d} = insert b {b. 0 < ?g b}" by auto
  have "binv ?f (?g(b := 1))"
  proof -
    have "(\<lambda>d. cbli (cbs ?f d)) = (\<lambda>b. cbli (cbs st b))(b := 0, b := ?m)" by (auto simp: s_def)
    then have "items_ok (num_callbacks ?f) (nitems ?f) (lru_callback ?f) (\<lambda>d. cbli (cbs ?f d))"
      using items_addhead [OF it(4,2)] by (simp add: s_def)
    moreover have "lru_sorted (\<lambda>d. 0 < (?g(b := 1)) d) (butlast (lru_callback st))"
      by (rule sorted_cong [OF sorted_butlast [OF so]]) (use it(1) in auto)
    then have "lru_sorted (\<lambda>d. 0 < (?g(b := 1)) d) (lru_callback ?f)" by (simp add: s_def sorted_head)
    moreover have "hash_set (callbacks_hash ?f) (ref_fid ?f) (ht_callbacks ?f) (Cb ` insert b {b. 0 < ?g b})"
      using t(2) cb_table_cong [of s t "insert b {b. 0 < ?g b}" ?f] by simp
    moreover have "\<forall>d < num_callbacks ?f. cbli (cbs ?f d) \<noteq> 0 \<and> cbref (cbs ?f d) = int ((?g(b := 1)) d)" using bi by (simp add: binv_def s_def)
    moreover have "\<forall>d. 0 < (?g(b := 1)) d \<longrightarrow> d < num_callbacks ?f" using bi it(2) by (simp add: binv_def s_def)
    ultimately show ?thesis unfolding binv_def lv by blast
  qed
  moreover have "?g(b := 1) = (\<lambda>d. bcount st d + (rb(b := 1)) d)" using gb by auto
  moreover have fr: "bframe st ?f" by (simp add: bframe_def s_def)
  moreover have "\<forall>d. bcount st d > 0 \<longrightarrow> fid (cbs ?f d) = fid (cbs st d)" using gb by (auto simp: s_def)
  ultimately have "ropa_inv env ?f {} (rb(b := 1)) rc" using inv_bframe [OF inv, of ?f "rb(b := 1)"] by simp
  then show ?thesis using run gb fr by (intro exI [of _ b] exI [of _ ?f]) (simp add: quiet_def s_def)
qed

section \<open>Adding a promise\<close>

lemma heap_inv_cong:
  assumes inv: "heap_inv key valid h M" and same: "\<forall>e \<in># M. ekey key' e = ekey key e \<and> good valid' e"
  shows "heap_inv key' valid' h M"
proof -
  have "mset (elems (sz h) h) = M" using inv by (simp add: heap_inv_def settled_def)
  then have "map (ekey key') (elems (sz h) h) = map (ekey key) (elems (sz h) h)" using same by (intro map_cong) auto
  then have "hord (map (ekey key') (elems (sz h) h))" using inv by (simp only: heap_inv_def)
  then show ?thesis using inv same by (simp add: heap_inv_def settled_def)
qed

lemma helem_count: "finite A \<Longrightarrow> k \<notin> A \<Longrightarrow> Some (Cell k) \<notin># image_mset el_ptr (image_mset helem (mset_set A))"
  by (auto simp: helem_def)

lemma expire_heap_insert:
  assumes heap: "heap_inv (\<lambda>k. expire (ccs st k)) (expire_ok st) h (image_mset helem (mset_set A))" and fin: "finite A" and k: "k \<notin> A"
    and same: "\<forall>j \<in> A. expire (ccs s j) = expire (ccs st j)" and ex: "expire_ok s k" and room: "card A < max_sz h"
  shows "\<exists>h'. heap_insert True (h\<lparr>hcmp := ccpair_cmp_time s\<rparr>) k (Some k) = Some (0, h') \<and>
    heap_inv (\<lambda>k. expire (ccs s k)) (expire_ok s) h' (image_mset helem (mset_set (insert k A))) \<and> max_sz h' = max_sz h"
proof -
  let ?M = "image_mset helem (mset_set A)" and ?h = "h\<lparr>hcmp := ccpair_cmp_time s\<rparr>"
  have st: "settled (expire_ok st) (sz h) h ?M" using heap by (simp add: heap_inv_def)
  have "size ?M = size (mset (elems (sz h) h))" using st by (simp add: settled_def)
  then have sz: "sz h = card A" using st by (simp add: length_elems settled_def)
  have "heap_inv (\<lambda>k. expire (ccs s k)) (expire_ok s) h ?M"
  proof (rule heap_inv_cong [OF heap], rule ballI)
    fix e assume e: "e \<in># ?M"
    then obtain j where j: "e = helem j" "j \<in> A" using fin by auto
    have "good (expire_ok st) e" using st e by (auto simp: settled_def)
    then show "ekey (\<lambda>k. expire (ccs s k)) e = ekey (\<lambda>k. expire (ccs st k)) e \<and> good (expire_ok s) e"
      using j same by (auto simp: good_def helem_def ekey_def expire_ok_def)
  qed
  then have "heap_inv (\<lambda>k. expire (ccs s k)) (expire_ok s) ?h ?M" by simp
  from cc_heap.heap_insert_inv [OF this _ ex, of "Cell k" "Some k"] helem_count [OF fin k] sz room
  show ?thesis using fin k by (auto simp: helem_def)
qed

lemma kinv_add:
  assumes ki: "kinv env st {}" and k: "k \<notin> inuse st" "k < num_ccpair st"
    and cc: "\<forall>j. j \<noteq> k \<longrightarrow> ccs s j = ccs st j" "client (ccs s k) = Some c" "cc_cb (ccs s k) = Some b" "cb_li (ccs s k) = i" "ccli (ccs s k) = nitems s"
    and it: "nitems st < i" "i < nitems s" and lru: "lru_ccpair s = (nitems s, k) # drop_obj k (lru_ccpair st)"
    and num: "num_ccpair s = num_ccpair st"
    and lists: "\<forall>d. ccpairs (cbs s d) = (if d = b then ccpairs (cbs st b) @ [(i, k)] else ccpairs (cbs st d))"
    and tab: "hash_set (ccpairs_hash env s) (cc_pair s) (ht_ccpairs s) (Cc ` insert k (inuse st))"
    and heap: "heap_inv (\<lambda>k. expire (ccs s k)) (expire_ok s) (heap_ccpairs s) (image_mset helem (mset_set (insert k (inuse st))))"
      "max_sz (heap_ccpairs s) = num_ccpair st"
  shows "kinv env s {}" "inuse s = insert k (inuse st)"
proof -
  have "client (ccs s j) = (if j = k then Some c else client (ccs st j))" for j using cc by simp
  then show U: "inuse s = insert k (inuse st)" by (auto simp: inuse_def split: if_splits)
  have w: "pair_wf st {} j" for j using ki by (simp add: kinv_def)
  have z: "cb_li (ccs st k) = 0" using w [of k] k(1) by (simp add: pair_wf_def)
  have ok: "items_ok (num_ccpair st) (nitems st) (lru_ccpair st) (\<lambda>k. ccli (ccs st k))" using ki by (simp add: kinv_def)
  have "items_ok (num_ccpair st) (nitems s - 1) (drop_obj k (lru_ccpair st)) ((\<lambda>k. ccli (ccs st k))(k := 0))"
    using items_mono [OF items_drop [OF ok]] it by simp
  from items_addhead [OF this k(2)] have "items_ok (num_ccpair st) (nitems s) (lru_ccpair s) ((\<lambda>k. ccli (ccs st k))(k := nitems s))"
    using lru it by simp
  moreover have "(\<lambda>k. ccli (ccs st k))(k := nitems s) = (\<lambda>k. ccli (ccs s k))" using cc(1,5) by auto
  ultimately have items: "items_ok (num_ccpair s) (nitems s) (lru_ccpair s) (\<lambda>k. ccli (ccs s k))" using num by simp
  have "lru_sorted (\<lambda>j. j \<in> inuse st) (drop_obj k (lru_ccpair st))" using ki by (auto simp: kinv_def intro: sorted_drop)
  then have "lru_sorted (\<lambda>j. j \<in> inuse s) (drop_obj k (lru_ccpair st))" by (rule sorted_cong) (use U in auto)
  then have sorted: "lru_sorted (\<lambda>j. j \<in> inuse s) (lru_ccpair s)" unfolding lru by (rule sorted_head) (use U in simp)
  have nz: "\<forall>j < num_ccpair s. ccli (ccs s j) \<noteq> 0"
  proof (intro allI impI)
    fix j assume "j < num_ccpair s"
    then show "ccli (ccs s j) \<noteq> 0" using ki cc(1,5) num it by (cases "j = k") (auto simp: kinv_def)
  qed
  have "pair_wf s {} j" for j
    using w [of j] cc k it num U by (cases "j = k") (simp_all add: pair_wf_def)
  then have pw: "\<forall>j. pair_wf s {} j" by blast
  have bl: "\<forall>d. items_ok (num_ccpair s) (nitems s) (ccpairs (cbs s d)) (blink s d)"
  proof
    fix d
    have okd: "items_ok (num_ccpair st) (nitems st) (ccpairs (cbs st d)) (blink st d)" using ki by (simp add: kinv_def)
    show "items_ok (num_ccpair s) (nitems s) (ccpairs (cbs s d)) (blink s d)"
    proof (cases "d = b")
      case True
      have "items_ok (num_ccpair st) (i - 1) (ccpairs (cbs st d)) (blink st d)" by (rule items_mono [OF okd]) (use it in simp)
      moreover have "blink st d k = 0" using z by (simp add: blink_def)
      ultimately have "items_ok (num_ccpair st) i (ccpairs (cbs st d) @ [(i, k)]) ((blink st d)(k := i))"
        using items_addtail [of "num_ccpair st" "i - 1" "ccpairs (cbs st d)" "blink st d" k] k(2) it by simp
      moreover have "(blink st d)(k := i) = blink s d" using cc True by (auto simp: blink_def)
      ultimately have "items_ok (num_ccpair st) i (ccpairs (cbs s d)) (blink s d)" using True lists by simp
      then show ?thesis unfolding num by (rule items_mono) (use it in simp)
    next
      case False
      have "blink s d j = blink st d j" for j using cc z False by (cases "j = k") (simp_all add: blink_def)
      then have "blink s d = blink st d" by blast
      then show ?thesis using items_mono [OF okd, of "nitems s"] it lists False num by simp
    qed
  qed
  show "kinv env s {}" unfolding kinv_def U using items sorted [unfolded U] nz pw bl tab heap num by simp
qed

lemma counts_add:
  assumes ki: "kinv env st W" and k: "k \<notin> inuse st" and cc: "\<forall>j. j \<noteq> k \<longrightarrow> ccs s j = ccs st j" "client (ccs s k) = Some c" "cc_cb (ccs s k) = Some b"
  shows "pcount s = (pcount st)(c := pcount st c + 1)" "bcount s = (bcount st)(b := bcount st b + 1)"
proof -
  note fin = kinv_finite [OF ki]
  have n: "client (ccs st k) = None" "cc_cb (ccs st k) = None"
    using k ki by (auto simp: inuse_def kinv_def pair_wf_def split: if_splits)
  have "{j. client (ccs s j) = Some d} = (if d = c then insert k {j. client (ccs st j) = Some d} else {j. client (ccs st j) = Some d})" for d
    using cc n by (auto simp: set_eq_iff) (metis option.sel option.distinct(1))+
  then show "pcount s = (pcount st)(c := pcount st c + 1)" using n(1) fin(1) by (auto simp: pcount_def fun_eq_iff)
  have "{j. cc_cb (ccs s j) = Some d} = (if d = b then insert k {j. cc_cb (ccs st j) = Some d} else {j. cc_cb (ccs st j) = Some d})" for d
    using cc n by (auto simp: set_eq_iff) (metis option.sel option.distinct(1))+
  then show "bcount s = (bcount st)(b := bcount st b + 1)" using n(2) fin(2) by (auto simp: bcount_def fun_eq_iff)
qed

text \<open>What \<open>add_client\<close> does not touch.\<close>

definition aframe :: "ropa \<Rightarrow> ropa \<Rightarrow> bool" where
  "aframe st s \<longleftrightarrow> (\<forall>d. fid (cbs s d) = fid (cbs st d)) \<and> (\<forall>d. same_client st s d) \<and> sent s = sent st \<and>
     num_clients s = num_clients st \<and> num_callbacks s = num_callbacks st \<and> num_ccpair s = num_ccpair st"

lemma add_client_known:
  assumes inv: "ropa_inv env st {} rb rc" and k: "client (ccs st k) = Some c" "cc_cb (ccs st k) = Some b"
  shows "\<exists>s. add_client env b c st = Some (k, s) \<and> ropa_inv env s {} rb rc \<and> aframe st s \<and> (\<forall>j. pair_view (ccs s j) = pair_view (ccs st j))"
proof -
  have ki: "kinv env st {}" using inv by (simp add: ropa_inv_def)
  have ku: "k \<in> inuse st" using k by (simp add: inuse_def)
  have kn: "k < num_ccpair st" "ccli (ccs st k) \<noteq> 0" using ki ku by (auto simp: kinv_def pair_wf_def)
  have ok: "items_ok (num_ccpair st) (nitems st) (lru_ccpair st) (\<lambda>k. ccli (ccs st k))" using ki by (simp add: kinv_def)
  have "hashtabsearch (ccpairs_cmp st) (ccpairs_hash env st) (ht_ccpairs st) (CcKey c b) = Some (Some (Cc k))"
    using ki ku k by (intro cc_tab.set_search_hit [of env st "ht_ccpairs st" "Cc ` inuse st"]) (auto simp: kinv_def)
  moreover define s where "s = cc_addhead k (st\<lparr>lru_ccpair := drop_obj k (lru_ccpair st)\<rparr>)"
  ultimately have run: "add_client env b c st = Some (k, s)" using items_unlink [OF ok kn] by (simp add: add_client_def cc_unlink_def)
  let ?m = "nitems st + 1"
  have c: "client (ccs s j) = client (ccs st j)" "cc_cb (ccs s j) = cc_cb (ccs st j)" "expire (ccs s j) = expire (ccs st j)" "cb_li (ccs s j) = cb_li (ccs st j)"
    "ccli (ccs s j) = (if j = k then ?m else ccli (ccs st j))" for j by (simp_all add: s_def cc_addhead_def Let_def)
  have e: "cbs s = cbs st" "clients s = clients st" "ht_ccpairs s = ht_ccpairs st" "heap_ccpairs s = heap_ccpairs st" "num_ccpair s = num_ccpair st" "nitems s = ?m"
    "lru_ccpair s = (?m, k) # drop_obj k (lru_ccpair st)" by (simp_all add: s_def cc_addhead_def Let_def)
  have U: "inuse s = inuse st" "blink s = blink st" "pcount s = pcount st" "bcount s = bcount st"
    by (simp_all add: inuse_def blink_def pcount_def bcount_def fun_eq_iff c)
  have "items_ok (num_ccpair st) ?m (lru_ccpair s) ((\<lambda>k. ccli (ccs st k))(k := 0, k := ?m))"
    unfolding e using items_addhead [OF items_drop [OF ok, of k] kn(1)] by simp
  moreover have "(\<lambda>k. ccli (ccs st k))(k := 0, k := ?m) = (\<lambda>k. ccli (ccs s k))" by (auto simp: c)
  moreover have "lru_sorted (\<lambda>k. k \<in> inuse st) (lru_ccpair s)" unfolding e using ki ku by (auto simp: kinv_def intro: sorted_head sorted_drop)
  moreover have "hash_set (ccpairs_hash env s) (cc_pair s) (ht_ccpairs st) (Cc ` inuse st)"
    by (rule cc_table_cong [of env st]) (use ki in \<open>simp_all add: kinv_def c e\<close>)
  moreover have "heap_inv (\<lambda>k. expire (ccs s k)) (expire_ok s) (heap_ccpairs st) (image_mset helem (mset_set (inuse st)))"
    by (rule expire_cong [of st]) (use ki in \<open>simp_all add: kinv_def c\<close>)
  moreover have "pair_wf s {} j = pair_wf st {} j" for j by (simp add: pair_wf_def U c e)
  moreover have "items_ok (num_ccpair st) ?m (ccpairs (cbs st d)) (blink st d)" for d
    by (rule items_mono [of _ "nitems st"]) (use ki in \<open>simp_all add: kinv_def\<close>)
  moreover have "\<forall>j < num_ccpair st. ccli (ccs s j) \<noteq> 0" using ki by (simp add: kinv_def c)
  ultimately have "kinv env s {}" using ki unfolding kinv_def U e by auto
  moreover have "cinv s (\<lambda>c. pcount st c + rc c)" by (rule cinv_cong [of st]) (use inv in \<open>simp_all add: ropa_inv_def s_def cc_addhead_def Let_def\<close>)
  moreover have "binv s (\<lambda>b. bcount st b + rb b)" by (rule binv_cong [of st]) (use inv in \<open>simp_all add: ropa_inv_def s_def cc_addhead_def Let_def\<close>)
  ultimately have "ropa_inv env s {} rb rc" by (simp add: ropa_inv_def U)
  moreover have "aframe st s" by (simp add: aframe_def same_client_def s_def cc_addhead_def Let_def)
  ultimately show ?thesis using run c by (simp add: pair_view_def)
qed

lemma add_steps:
  assumes "hashtabsearch (ccpairs_cmp st) (ccpairs_hash env st) (ht_ccpairs st) (CcKey c b) = Some None"
    "callback_ref b st = Some s1" "client_ref c s1 = Some s2" "lru_ccpair s2 \<noteq> []" "k = snd (last (lru_ccpair s2))"
    "\<not> ccpairs_inuse_p (ccs s2 k)" "ext_call (upd_cc k (\<lambda>x. x\<lparr>ccli := 0\<rparr>) (s2\<lparr>lru_ccpair := butlast (lru_ccpair s2)\<rparr>)) = (n, s3)"
    "upd_cc k (\<lambda>x. x\<lparr>expire := now env n + 3600\<rparr>) s3 = s4" "heap_insert True (ccpair_heap s4) k (Some k) = Some (r, h)"
    "cc_addhead k (upd_cc k (\<lambda>x. x\<lparr>cb_li := nitems s4 + 1, client := Some c, cc_cb := Some b\<rparr>)
       (upd_cb b (\<lambda>x. x\<lparr>ccpairs := ccpairs x @ [(nitems s4 + 1, k)]\<rparr>) (s4\<lparr>heap_ccpairs := h, nitems := nitems s4 + 1\<rparr>))) = s5"
    "hadd (ccpairs_cmp s5) (ccpairs_hash env s5) (ht_ccpairs s5) (Cc k) = Some (r1, r2, t)"
  shows "add_client env b c st = Some (k, s5\<lparr>ht_ccpairs := t\<rparr>)"
proof -
  have i: "\<not> ccpairs_inuse_p (ccs (upd_cc k (\<lambda>x. x\<lparr>ccli := 0\<rparr>) (s2\<lparr>lru_ccpair := butlast (lru_ccpair s2)\<rparr>)) k)"
    using assms(6) by (simp add: ccpairs_inuse_p_def)
  have e: "nitems (s4\<lparr>heap_ccpairs := h\<rparr>) = nitems s4" by simp
  show ?thesis unfolding add_client_def assms(1) Option.bind.simps option.case Let_def
    by (simp only: assms(2,3) Option.bind.simps assms(4) if_False assms(5) [symmetric] prod.case i assms(7-9) e assms(10,11))
qed

lemma add_client_new:
  assumes inv: "ropa_inv env st {} rb rc" and b: "bcount st b + rb b > 0" and lv: "live st c"
    and new: "\<forall>k. client (ccs st k) = Some c \<longrightarrow> cc_cb (ccs st k) \<noteq> Some b"
    and free: "d < num_ccpair st" "d \<notin> inuse st" and now: "\<forall>n. now env n = t" "0 \<le> t + 3600" "t + 3600 < 2 ^ 31"
  shows "\<exists>k s. add_client env b c st = Some (k, s) \<and> k \<notin> inuse st \<and> ropa_inv env s {} rb rc \<and> aframe st s \<and> inuse s = insert k (inuse st) \<and>
    (\<forall>j. j \<noteq> k \<longrightarrow> ccs s j = ccs st j) \<and> pair_view (ccs s k) = (Some c, Some b, t + 3600)"
proof -
  obtain s1 where s1: "callback_ref b st = Some s1" "ropa_inv env s1 {} (rb(b := rb b + 1)) rc" "bframe st s1" "quiet st s1" "\<forall>d. fid (cbs s1 d) = fid (cbs st d)"
    using hold_callback [OF inv b] by blast
  have lv1: "live s1 c" using lv s1(3) by (simp add: live_def bframe_def)
  obtain s2 where s2: "client_ref c s1 = Some s2" "ropa_inv env s2 {} (rb(b := rb b + 1)) (rc(c := rc c + 1))" "cframe s1 s2" "quiet s1 s2" "\<forall>d. same_client s1 s2 d"
    using hold_client [OF s1(2) lv1] by blast
  have f2: "ccs s2 = ccs st" "\<forall>d. ccpairs (cbs s2 d) = ccpairs (cbs st d)" "\<forall>d. fid (cbs s2 d) = fid (cbs st d)" "sent s2 = sent st" "ht_ccpairs s2 = ht_ccpairs st"
    "num_clients s2 = num_clients st" "num_callbacks s2 = num_callbacks st" "num_ccpair s2 = num_ccpair st" "nitems st \<le> nitems s2"
    using s1(3-5) s2(3,4) by (simp_all add: bframe_def cframe_def quiet_def)
  have sc: "same_client st s2 d" for d using s1(3) s2(5) [rule_format, of d] by (simp add: same_client_def bframe_def)
  have ki: "kinv env s2 {}" and ci: "cinv s2 (\<lambda>d. pcount s2 d + (rc(c := rc c + 1)) d)" and bi: "binv s2 (\<lambda>d. bcount s2 d + (rb(b := rb b + 1)) d)"
    using s2(2) by (simp_all add: ropa_inv_def)
  have U2: "inuse s2 = inuse st" using f2(1) by (simp add: inuse_def)
  define k where "k = snd (last (lru_ccpair s2))"
  have ok: "items_ok (num_ccpair s2) (nitems s2) (lru_ccpair s2) (\<lambda>k. ccli (ccs s2 k))" and so: "lru_sorted (\<lambda>j. j \<in> inuse s2) (lru_ccpair s2)"
    using ki by (simp_all add: kinv_def)
  have "d \<in> snd ` set (lru_ccpair s2)" using items_objs [OF ok, of d] ki free(1) f2(8) by (simp add: kinv_def)
  from sorted_last [OF so this] free(2) have ne: "lru_ccpair s2 \<noteq> []" and kf: "k \<notin> inuse s2" by (simp_all add: k_def U2)
  note it = items_butlast [OF ok ne, folded k_def]
  let ?s3 = "(upd_cc k (\<lambda>x. x\<lparr>ccli := 0\<rparr>) (s2\<lparr>lru_ccpair := butlast (lru_ccpair s2)\<rparr>))\<lparr>ncalls := ncalls s2 + 1\<rparr>"
  define s4 where "s4 = upd_cc k (\<lambda>x. x\<lparr>expire := t + 3600\<rparr>) ?s3"
  have f4: "ccs s4 = (ccs s2)(k := (ccs s2 k)\<lparr>ccli := 0, expire := t + 3600\<rparr>)" "heap_ccpairs s4 = heap_ccpairs s2" "nitems s4 = nitems s2" by (simp_all add: s4_def)
  have heap: "heap_inv (\<lambda>k. expire (ccs s2 k)) (expire_ok s2) (heap_ccpairs s2) (image_mset helem (mset_set (inuse s2)))"
    and mx: "max_sz (heap_ccpairs s2) = num_ccpair s2" using ki by (simp_all add: kinv_def)
  have "inuse s2 \<subseteq> {..<num_ccpair s2} - {k}" using ki kf by (auto simp: kinv_def pair_wf_def)
  then have "card (inuse s2) \<le> card ({..<num_ccpair s2} - {k})" by (rule card_mono [rotated]) simp
  then have room: "card (inuse s2) < max_sz (heap_ccpairs s2)" using it(2) mx by simp
  have "\<forall>j \<in> inuse s2. expire (ccs s4 j) = expire (ccs s2 j)" using kf by (auto simp: f4)
  moreover have "expire_ok s4 k" using now(2,3) by (simp add: f4 expire_ok_def)
  ultimately obtain h where h: "heap_insert True (ccpair_heap s4) k (Some k) = Some (0, h)"
    and hi: "heap_inv (\<lambda>k. expire (ccs s4 k)) (expire_ok s4) h (image_mset helem (mset_set (insert k (inuse s2))))" "max_sz h = num_ccpair s2"
    using expire_heap_insert [OF heap finite_inuse [OF ki] kf _ _ room, of s4] mx unfolding ccpair_heap_def f4(2) by auto
  let ?i = "nitems s2 + 1"
  define s5 where "s5 = cc_addhead k (upd_cc k (\<lambda>x. x\<lparr>cb_li := ?i, client := Some c, cc_cb := Some b\<rparr>)
       (upd_cb b (\<lambda>x. x\<lparr>ccpairs := ccpairs x @ [(?i, k)]\<rparr>) (s4\<lparr>heap_ccpairs := h, nitems := ?i\<rparr>)))"
  have f5: "nitems s5 = ?i + 1" "ccs s5 = (ccs s2)(k := (ccs s2 k)\<lparr>expire := t + 3600, cb_li := ?i, client := Some c, cc_cb := Some b, ccli := nitems s5\<rparr>)"
    "lru_ccpair s5 = (nitems s5, k) # drop_obj k (lru_ccpair s2)" "heap_ccpairs s5 = h" "ht_ccpairs s5 = ht_ccpairs s2" "clients s5 = clients s2"
    "\<forall>d. ccpairs (cbs s5 d) = (if d = b then ccpairs (cbs s2 b) @ [(?i, k)] else ccpairs (cbs s2 d))" "\<forall>d. fid (cbs s5 d) = fid (cbs s2 d)"
    "num_clients s5 = num_clients s2" "num_callbacks s5 = num_callbacks s2" "num_ccpair s5 = num_ccpair s2" "sent s5 = sent s2"
    by (simp_all add: s5_def s4_def cc_addhead_def Let_def it(1))
  have "hash_set (ccpairs_hash env s2) (cc_pair s2) (ht_ccpairs s2) (Cc ` inuse s2)" using ki by (simp add: kinv_def)
  then have hs: "hash_set (ccpairs_hash env s5) (cc_pair s5) (ht_ccpairs s5) (Cc ` inuse s2)" unfolding f5(5)
    by (rule cc_table_cong) (use kf in \<open>auto simp: f5(2,8)\<close>)
  have "\<forall>y \<in> Cc ` inuse s2. cc_pair s5 y \<noteq> cc_pair s5 (Cc k)" using new kf by (auto simp: f5(2) f2(1))
  then obtain t' where t': "hadd (ccpairs_cmp s5) (ccpairs_hash env s5) (ht_ccpairs s5) (Cc k) = Some (True, None, t')"
    "hash_set (ccpairs_hash env s5) (cc_pair s5) t' (Cc ` insert k (inuse s2))"
    using cc_tab.set_add [OF hs, of "Cc k" 0 "\<lambda>_. True"] by auto
  define s where "s = s5\<lparr>ht_ccpairs := t'\<rparr>"
  have f: "ccs s = ccs s5" "cbs s = cbs s5" "clients s = clients s5" "nitems s = nitems s5" "lru_ccpair s = lru_ccpair s5" "heap_ccpairs s = heap_ccpairs s5"
    "num_clients s = num_clients s5" "num_callbacks s = num_callbacks s5" "num_ccpair s = num_ccpair s5" "sent s = sent s5" by (simp_all add: s_def)
  have "hashtabsearch (ccpairs_cmp st) (ccpairs_hash env st) (ht_ccpairs st) (CcKey c b) = Some None"
    by (rule cc_tab.set_search_miss [of env st "ht_ccpairs st" "Cc ` inuse st"]) (use inv new in \<open>auto simp: ropa_inv_def kinv_def\<close>)
  from add_steps [OF this s1(1) s2(1) ne k_def _ _ _ h _ t'(1), of "ncalls s2" ?s3] have run: "add_client env b c st = Some (k, s)"
    using kf now(1) by (simp add: s_def ext_call_def s4_def s5_def ccpairs_inuse_p_def inuse_def Let_def)
  have cc: "\<forall>j. j \<noteq> k \<longrightarrow> ccs s j = ccs s2 j" "client (ccs s k) = Some c" "cc_cb (ccs s k) = Some b" "cb_li (ccs s k) = ?i" "ccli (ccs s k) = nitems s"
    using f(1,4) f5(2) by simp_all
  have tab: "hash_set (ccpairs_hash env s) (cc_pair s) (ht_ccpairs s) (Cc ` insert k (inuse s2))"
    by (rule cc_table_cong [of env s5]) (use t'(2) in \<open>simp_all add: s_def\<close>)
  have hi2: "heap_inv (\<lambda>k. expire (ccs s k)) (expire_ok s) (heap_ccpairs s) (image_mset helem (mset_set (insert k (inuse s2))))"
    unfolding f(6) f5(4) by (rule expire_cong [OF hi(1)]) (simp add: f f5(2) f4)
  have K: "kinv env s {}" "inuse s = insert k (inuse s2)"
    using kinv_add [OF ki kf it(2) cc _ _ _ _ _ tab hi2] f f5 hi(2) by auto
  note cnt = counts_add [OF ki kf cc(1-3)]
  have "cinv s (\<lambda>d. pcount s d + rc d)"
  proof -
    have "(\<lambda>d. pcount s2 d + (rc(c := rc c + 1)) d) = (\<lambda>d. pcount s d + rc d)" using cnt by auto
    then show ?thesis by (intro cinv_cong [OF ci [unfolded \<open>_ = (\<lambda>d. pcount s d + rc d)\<close>]]) (simp_all add: s_def s5_def s4_def cc_addhead_def Let_def)
  qed
  moreover have "binv s (\<lambda>d. bcount s d + rb d)"
  proof -
    have "(\<lambda>d. bcount s2 d + (rb(b := rb b + 1)) d) = (\<lambda>d. bcount s d + rb d)" using cnt by auto
    then show ?thesis by (intro binv_cong [OF bi [unfolded \<open>_ = (\<lambda>d. bcount s d + rb d)\<close>]]) (simp_all add: s_def s5_def s4_def cc_addhead_def Let_def)
  qed
  ultimately have "ropa_inv env s {} rb rc" using K(1) by (simp add: ropa_inv_def)
  moreover have "aframe st s" using sc f f5 f2 by (simp add: aframe_def same_client_def)
  moreover have "pair_view (ccs s k) = (Some c, Some b, t + 3600)" using f(1) f5(2) by (simp add: pair_view_def)
  moreover have "\<forall>j. j \<noteq> k \<longrightarrow> ccs s j = ccs st j" using cc(1) f2(1) by simp
  ultimately show ?thesis using run kf K(2) unfolding U2 by (intro exI [of _ k] exI [of _ s] conjI)
qed

end
