(* ===== verification/Ropa_Spec.thy ===== *)
theory Ropa_Spec
  imports Ropa_Promise
begin

text \<open>
  The callback database seen from outside. An abstract specification keeps the known clients and the
  promises with their expiry times by address; the operations of \<open>ropa.c\<close> (a promise to a client,
  breaking a file or a volume, dropping, the cleaner) refine it from \<open>ropa_init\<close> on, along every
  history the specification allows. The properties of the component are at the end.
\<close>

section \<open>Specification\<close>

text \<open>
  What the rest of the file server knows of the callback database: the clients that are known, each
  with the node of its UUID, and the promises, each with the time it expires. A client that loses
  its last promise is forgotten.
\<close>

type_synonym caddress = "u32 \<times> u16"

record ropa_spec =
  known :: "(caddress \<times> bytes) list"
  promised :: "((caddress \<times> afs_fid) \<times> int) list"

definition has_promise :: "ropa_spec \<Rightarrow> caddress \<Rightarrow> bool" where
  "has_promise A a \<longleftrightarrow> list_ex (\<lambda>((b, _), _). b = a) (promised A)"

definition forget :: "caddress list \<Rightarrow> ropa_spec \<Rightarrow> ropa_spec" where
  "forget ds A = A\<lparr>known := filter (\<lambda>(a, _). a \<notin> set ds \<or> has_promise A a) (known A)\<rparr>"

definition spec_break :: "caddress option \<Rightarrow> afs_fid \<Rightarrow> bool \<Rightarrow> ropa_spec \<Rightarrow> nat \<times> ropa_spec" where
  "spec_break caller f own A =
     (let holders = map (fst \<circ> fst) (filter (\<lambda>((_, g), _). g = f) (promised A))
      in if holders = [] then (0, A)
         else (length (filter (\<lambda>a. Some a \<noteq> caller) holders),
               forget ((case caller of None \<Rightarrow> [] | Some a \<Rightarrow> [a]) @ holders)
                 (A\<lparr>promised := filter (\<lambda>((a, g), _). g \<noteq> f \<or> \<not> own \<and> Some a = caller) (promised A)\<rparr>)))"

definition spec_drop :: "caddress \<Rightarrow> afs_fid \<Rightarrow> ropa_spec \<Rightarrow> ropa_spec" where
  "spec_drop a f A =
     (if map_of (promised A) (a, f) = None then A
      else forget [a] (A\<lparr>promised := filter (\<lambda>(k, _). k \<noteq> (a, f)) (promised A)\<rparr>))"

definition spec_clean :: "int \<Rightarrow> ropa_spec \<Rightarrow> nat \<times> ropa_spec" where
  "spec_clean now0 A =
     (let out = filter (\<lambda>(_, t). t \<le> now0) (promised A)
      in (length out, forget (map (fst \<circ> fst) out) (A\<lparr>promised := filter (\<lambda>(_, t). now0 < t) (promised A)\<rparr>)))"

text \<open>
  A client that is not known is asked for its UUID; the specification covers the case that the table
  has room for it and the UUID is not in use.
\<close>

definition enlist :: "nat \<Rightarrow> caddress \<Rightarrow> bytes \<Rightarrow> ropa_spec \<Rightarrow> (nat \<times> ropa_spec) option" where
  "enlist nc a u A =
     (if map_of (known A) a \<noteq> None then Some (0, A)
      else if length (known A) < nc \<and> take 6 u \<notin> set (map snd (known A)) then Some (2, A\<lparr>known := (a, take 6 u) # known A\<rparr>)
      else None)"

definition fid_key :: "afs_fid \<Rightarrow> bool \<Rightarrow> afs_fid" where
  "fid_key f rwvol = (if rwvol then f else \<lparr>Volume = Volume f, Vnode = 0, Unique = 0\<rparr>)"

definition spec_get :: "nat \<times> nat \<times> nat \<Rightarrow> caddress \<Rightarrow> bytes \<Rightarrow> afs_fid \<Rightarrow> int \<Rightarrow> ropa_spec \<Rightarrow> (int \<times> nat \<times> ropa_spec) option" where
  "spec_get N a u f now0 A = do {
     (n, A) \<leftarrow> enlist (fst N) a u A;
     case map_of (promised A) (a, f) of
       Some t \<Rightarrow> Some (t, n, A)
     | None \<Rightarrow>
         if length (promised A) < snd (snd N) \<and> 0 \<le> now0 + 3600 \<and> now0 + 3600 < 2 ^ 31 \<and>
            (f \<in> set (map (snd \<circ> fst) (promised A)) \<or> length (remdups (map (snd \<circ> fst) (promised A))) < fst (snd N))
         then Some (now0 + 3600, n, A\<lparr>promised := ((a, f), now0 + 3600) # promised A\<rparr>)
         else None }"

section \<open>Representation\<close>

definition ptr_env :: "(nat \<Rightarrow> u32) \<Rightarrow> bytes \<Rightarrow> int \<Rightarrow> ropa_env" where
  "ptr_env ptr u t = \<lparr>client_ptr = ptr, now = (\<lambda>_. t), rpc_callback = (\<lambda>_. 0),
     rpc_who = (\<lambda>_. (0, \<lparr>ifNumber = 0, ifUuid = u, ifAddr = []\<rparr>)), rpc_init = (\<lambda>_. 0), conn_ok = (\<lambda>_. True)\<rparr>"

definition ropa_rep :: "(nat \<Rightarrow> u32) \<Rightarrow> nat \<times> nat \<times> nat \<Rightarrow> ropa \<Rightarrow> ropa_spec \<Rightarrow> bool" where
  "ropa_rep ptr N st A \<longleftrightarrow> (\<forall>env. client_ptr env = ptr \<longrightarrow> ropa_inv env st {} (\<lambda>_. 0) (\<lambda>_. 0)) \<and>
     N = (num_clients st, num_callbacks st, num_ccpair st) \<and>
     distinct (map fst (known A)) \<and> distinct (map fst (promised A)) \<and>
     set (known A) = (\<lambda>c. (caddr st c, live_uuid st c)) ` Collect (live st) \<and>
     set (promised A) = (\<lambda>(c, f, t). ((caddr st c, f), t)) ` promises st"

lemma inv_env:
  assumes "ropa_inv env st W rb rc" "client_ptr env' = client_ptr env"
  shows "ropa_inv env' st W rb rc"
proof -
  have "ccpairs_hash env' = ccpairs_hash env" by (intro ext) (simp only: ccpairs_hash_def assms(2) cong del: prod.case_cong_weak option.case_cong_weak)
  then show ?thesis using assms(1) by (simp add: ropa_inv_def kinv_def)
qed

lemma promise_live:
  assumes "ropa_inv env st {} (\<lambda>_. 0) (\<lambda>_. 0)" "(c, f, t) \<in> promises st"
  shows "live st c" "pcount st c > 0"
proof -
  show "pcount st c > 0" using assms kinv_finite(1) [of env st "{}" c] by (auto simp: promises_def ropa_inv_def pcount_def card_gt_0_iff)
  then show "live st c" using assms(1) by (simp add: ropa_inv_def cinv_def)
qed

lemma pcount_promises:
  assumes "ropa_inv env st {} rb rc"
  shows "pcount st c = 0 \<longleftrightarrow> (\<forall>f t. (c, f, t) \<notin> promises st)"
proof -
  have ki: "kinv env st {}" using assms by (simp add: ropa_inv_def)
  have "cc_cb (ccs st k) \<noteq> None" if "client (ccs st k) = Some c" for k
  proof -
    have "pair_wf st {} k" "k \<in> inuse st" using ki that by (simp_all add: kinv_def inuse_def)
    then show ?thesis by (simp add: pair_wf_def)
  qed
  then have "(\<exists>f t. (c, f, t) \<in> promises st) \<longleftrightarrow> {k. client (ccs st k) = Some c} \<noteq> {}" by (auto simp: promises_def) blast
  then show ?thesis using kinv_finite(1) [OF ki, of c] by (auto simp: pcount_def)
qed

lemma rep_promised:
  assumes rep: "ropa_rep ptr N st A" and c: "live st c"
  shows "((caddr st c, f), t) \<in> set (promised A) \<longleftrightarrow> (c, f, t) \<in> promises st"
proof
  assume "((caddr st c, f), t) \<in> set (promised A)"
  then obtain d where d: "(d, f, t) \<in> promises st" "caddr st d = caddr st c" using rep by (auto simp: ropa_rep_def)
  have inv: "ropa_inv (ptr_env ptr [] 0) st {} (\<lambda>_. 0) (\<lambda>_. 0)" using rep by (simp add: ropa_rep_def ptr_env_def)
  then have "cinv st (\<lambda>c. pcount st c + 0)" by (simp add: ropa_inv_def)
  from caddr_inj [OF this promise_live(1) [OF inv d(1)] c d(2)] have "d = c" .
  then show "(c, f, t) \<in> promises st" using d(1) by simp
next
  assume "(c, f, t) \<in> promises st"
  from imageI [OF this, of "\<lambda>(c, f, t). ((caddr st c, f), t)"] show "((caddr st c, f), t) \<in> set (promised A)"
    using rep unfolding ropa_rep_def by simp
qed

text \<open>
  The shape that all removals share: some promises go, and of the clients in \<open>ds\<close> those without a
  promise are forgotten.
\<close>

lemma filter_image: "{x \<in> h ` S. R x} = h ` {p \<in> S. R (h p)}"
  by blast

lemma rep_remove:
  assumes rep: "ropa_rep ptr N st A" and inv: "ropa_inv env st' {} (\<lambda>_. 0) (\<lambda>_. 0)" "client_ptr env = ptr"
    and num: "num_clients st' = num_clients st" "num_callbacks st' = num_callbacks st" "num_ccpair st' = num_ccpair st"
    and P: "promises st' = {(c, f, t) \<in> promises st. Q (caddr st c) f t}"
    and D: "\<forall>d. live st d \<longrightarrow> D d = (caddr st d \<in> set ds)"
    and gone: "\<forall>d. if live st d \<and> D d \<and> pcount st' d = 0 then \<not> live st' d else same_client st st' d"
  shows "ropa_rep ptr N st' (forget ds (A\<lparr>promised := filter (\<lambda>((a, f), t). Q a f t) (promised A)\<rparr>))"
proof -
  let ?A = "A\<lparr>promised := filter (\<lambda>((a, f), t). Q a f t) (promised A)\<rparr>"
  have inv0: "ropa_inv env st {} (\<lambda>_. 0) (\<lambda>_. 0)" using rep inv(2) by (simp add: ropa_rep_def)
  have lv: "live st' d \<longleftrightarrow> live st d \<and> \<not> (D d \<and> pcount st' d = 0)" for d
    using gone [rule_format, of d] live_cong [OF num(1), of d] by (auto simp: same_client_def split: if_splits)
  have ca: "caddr st' d = caddr st d" "live_uuid st' d = live_uuid st d" if "live st' d" for d
    using gone [rule_format, of d] that caddr_cong [of st st' d] cview_fields(3) [of "clients st' d" "clients st d"]
    by (auto simp: same_client_def live_uuid_def split: if_splits)
  have pl: "live st c" if "(c, f, t) \<in> promises st" for c f t using promise_live(1) [OF inv0 that] .
  have pl': "live st' c" if "(c, f, t) \<in> promises st'" for c f t using promise_live(1) [OF inv(1) that] .
  have hp: "has_promise ?A (caddr st d) \<longleftrightarrow> pcount st' d > 0" if "live st d" for d
  proof -
    have "has_promise ?A (caddr st d) \<longleftrightarrow> (\<exists>f t. ((caddr st d, f), t) \<in> set (promised A) \<and> Q (caddr st d) f t)"
      by (cases "caddr st d") (force simp: has_promise_def list_ex_iff)
    also have "\<dots> \<longleftrightarrow> (\<exists>f t. (d, f, t) \<in> promises st')" unfolding rep_promised [OF rep that] P by auto
    finally show ?thesis using pcount_promises [OF inv(1), of d] by auto
  qed
  let ?h = "\<lambda>(c, f, t). ((caddr st c, f), t)" and ?R = "\<lambda>((a, f), t). Q a f t"
  have "set (promised A) = ?h ` promises st" using rep by (simp add: ropa_rep_def)
  then have "set (promised ?A) = {x \<in> ?h ` promises st. ?R x}" by simp
  also have "\<dots> = ?h ` {p \<in> promises st. ?R (?h p)}" by (rule filter_image)
  also have "{p \<in> promises st. ?R (?h p)} = promises st'"
  proof (rule set_eqI)
    show "p \<in> {p \<in> promises st. ?R (?h p)} \<longleftrightarrow> p \<in> promises st'" for p by (cases p) (simp add: P)
  qed
  also have "?h ` promises st' = (\<lambda>(c, f, t). ((caddr st' c, f), t)) ` promises st'"
    by (intro image_cong refl) (use ca pl' in auto)
  finally have pr: "set (promised ?A) = (\<lambda>(c, f, t). ((caddr st' c, f), t)) ` promises st'" .
  have "set (known (forget ds ?A)) = (\<lambda>c. (caddr st c, live_uuid st c)) ` {c. live st c \<and> \<not> (D c \<and> pcount st' c = 0)}"
    using rep hp D by (auto simp: forget_def ropa_rep_def)
  also have "\<dots> = (\<lambda>c. (caddr st' c, live_uuid st' c)) ` Collect (live st')" using lv ca by (intro image_cong) auto
  finally have kn: "set (known (forget ds ?A)) = (\<lambda>c. (caddr st' c, live_uuid st' c)) ` Collect (live st')" .
  have "distinct (map fst (known (forget ds ?A)))" "distinct (map fst (promised ?A))"
    using rep by (simp_all add: ropa_rep_def forget_def distinct_map_filter)
  moreover have "ropa_inv e st' {} (\<lambda>_. 0) (\<lambda>_. 0)" if "client_ptr e = ptr" for e using inv_env [OF inv(1)] inv(2) that by simp
  ultimately show ?thesis using rep num kn pr by (simp add: ropa_rep_def) (simp add: forget_def)
qed

lemma ropa_rep_inv: "ropa_rep ptr N st A \<Longrightarrow> client_ptr env = ptr \<Longrightarrow> ropa_inv env st {} (\<lambda>_. 0) (\<lambda>_. 0)"
  by (simp add: ropa_rep_def)

lemma rep_cinv: "ropa_rep ptr N st A \<Longrightarrow> cinv st (\<lambda>c. pcount st c + 0)"
  using ropa_rep_inv [of ptr N st A "ptr_env ptr [] 0"] by (simp add: ropa_inv_def ptr_env_def)

lemma rep_caddr_inj: "ropa_rep ptr N st A \<Longrightarrow> inj_on (caddr st) (Collect (live st))"
  using caddr_inj [OF rep_cinv] by (auto simp: inj_on_def)

lemma rep_live: "ropa_rep ptr N st A \<Longrightarrow> (c, f, t) \<in> promises st \<Longrightarrow> live st c"
  using promise_live(1) [OF ropa_rep_inv, of ptr N st A "ptr_env ptr [] 0" c f t] by (simp add: ptr_env_def)

lemma rep_known: "ropa_rep ptr N st A \<Longrightarrow> map_of (known A) a = None \<longleftrightarrow> (\<forall>c. live st c \<longrightarrow> caddr st c \<noteq> a)"
  by (auto simp: ropa_rep_def map_of_eq_None_iff image_image)

definition holders :: "ropa_spec \<Rightarrow> afs_fid \<Rightarrow> caddress list" where
  "holders A f = map (fst \<circ> fst) (filter (\<lambda>((_, g), _). g = f) (promised A))"

lemma holders_set:
  assumes rep: "ropa_rep ptr N st A"
  shows "set (holders A f) = caddr st ` {c. \<exists>t. (c, f, t) \<in> promises st}"
proof (rule set_eqI)
  fix a
  have "a \<in> set (holders A f) \<longleftrightarrow> (\<exists>t. ((a, f), t) \<in> set (promised A))" by (cases a) (force simp: holders_def)
  also have "\<dots> \<longleftrightarrow> a \<in> caddr st ` {c. \<exists>t. (c, f, t) \<in> promises st}"
  proof
    assume "\<exists>t. ((a, f), t) \<in> set (promised A)"
    then obtain t x where "x \<in> promises st" "((a, f), t) = (\<lambda>(c, f, t). ((caddr st c, f), t)) x" using rep unfolding ropa_rep_def by (elim exE conjE) (simp only: image_iff, blast)
    then show "a \<in> caddr st ` {c. \<exists>t. (c, f, t) \<in> promises st}" by (cases x) auto
  next
    assume "a \<in> caddr st ` {c. \<exists>t. (c, f, t) \<in> promises st}"
    then obtain c t where c: "a = caddr st c" "(c, f, t) \<in> promises st" by blast
    then show "\<exists>t. ((a, f), t) \<in> set (promised A)" using rep_promised [OF rep rep_live [OF rep c(2)]] by blast
  qed
  finally show "a \<in> set (holders A f) \<longleftrightarrow> a \<in> caddr st ` {c. \<exists>t. (c, f, t) \<in> promises st}" .
qed

lemma holders_distinct: "distinct (map fst (promised A)) \<Longrightarrow> distinct (holders A f)"
proof -
  assume d: "distinct (map fst (promised A))"
  have "inj_on (fst \<circ> fst) (set (filter (\<lambda>((_, g), _). g = f) (promised A)))"
  proof (rule inj_onI)
    fix x y assume "x \<in> set (filter (\<lambda>((_, g), _). g = f) (promised A))" "y \<in> set (filter (\<lambda>((_, g), _). g = f) (promised A))" "(fst \<circ> fst) x = (fst \<circ> fst) y"
    then have "x \<in> set (promised A)" "y \<in> set (promised A)" "fst x = fst y" by (auto split: prod.splits simp: prod_eq_iff)
    then show "x = y" using d by (simp add: distinct_map inj_on_def)
  qed
  moreover have "distinct (promised A)" using d by (simp add: distinct_map)
  ultimately show ?thesis unfolding holders_def by (simp add: distinct_map)
qed

lemma told_length:
  assumes rep: "ropa_rep ptr N st A" and cs: "distinct cs" "set cs = {c. (\<exists>t. (c, f, t) \<in> promises st) \<and> Some c \<noteq> caller}"
    and c: "\<forall>c. live st c \<longrightarrow> (Some c = caller) = (Some (caddr st c) = acaller)"
  shows "length cs = length (filter (\<lambda>a. Some a \<noteq> acaller) (holders A f))"
proof -
  have "set (filter (\<lambda>a. Some a \<noteq> acaller) (holders A f)) = caddr st ` set cs"
    using holders_set [OF rep, of f] c rep_live [OF rep] cs(2) by (auto simp: image_iff) blast+
  moreover have "inj_on (caddr st) (set cs)" by (rule inj_on_subset [OF rep_caddr_inj [OF rep]]) (use cs(2) rep_live [OF rep] in auto)
  ultimately have "card (set (filter (\<lambda>a. Some a \<noteq> acaller) (holders A f))) = card (set cs)" by (simp add: card_image)
  moreover have "distinct (holders A f)" using rep by (intro holders_distinct) (simp add: ropa_rep_def)
  ultimately show ?thesis using cs(1) distinct_card [of cs] distinct_card [of "filter (\<lambda>a. Some a \<noteq> acaller) (holders A f)"] by simp
qed

lemma cb_search_hit:
  assumes "ropa_inv env st {} rb rc" "bcount st b + rb b > 0"
  shows "hashtabsearch (callbacks_cmp st) (callbacks_hash st) (ht_callbacks st) (FidKey (fid (cbs st b))) = Some (Some (Cb b))"
  by (rule cb_tab.set_search_hit [of st "ht_callbacks st" "Cb ` {b. 0 < bcount st b + rb b}"]) (use assms in \<open>auto simp: ropa_inv_def binv_def\<close>)

lemma cb_search_miss:
  assumes "ropa_inv env st {} rb rc" "\<forall>b. bcount st b + rb b > 0 \<longrightarrow> fid (cbs st b) \<noteq> f"
  shows "hashtabsearch (callbacks_cmp st) (callbacks_hash st) (ht_callbacks st) (FidKey f) = Some None"
  by (rule cb_tab.set_search_miss [of st "ht_callbacks st" "Cb ` {b. 0 < bcount st b + rb b}"]) (use assms in \<open>auto simp: ropa_inv_def binv_def\<close>)

lemma fid_cb:
  assumes inv: "ropa_inv env st {} (\<lambda>_. 0) (\<lambda>_. 0)"
  shows "(\<exists>c t. (c, f, t) \<in> promises st) \<longleftrightarrow> (\<exists>b. bcount st b > 0 \<and> fid (cbs st b) = f)"
proof -
  have ki: "kinv env st {}" using inv by (simp add: ropa_inv_def)
  have w: "client (ccs st k) \<noteq> None" if "cc_cb (ccs st k) = Some b" for k b
  proof -
    have "pair_wf st {} k" using ki by (simp add: kinv_def)
    then show ?thesis using that by (auto simp: pair_wf_def inuse_def split: if_splits)
  qed
  have "bcount st b > 0 \<longleftrightarrow> (\<exists>k. cc_cb (ccs st k) = Some b)" for b
    using kinv_finite(2) [OF ki, of b] by (auto simp: bcount_def card_gt_0_iff)
  then show ?thesis using w unfolding promises_def by simp blast
qed

lemma break_fid_refines:
  assumes rep: "ropa_rep ptr N st A" and env: "client_ptr env = ptr" "env_ok env" and lv: "\<And>c. caller = Some c \<Longrightarrow> live st c"
  defines "a \<equiv> map_option (caddr st) caller"
  shows "\<exists>r st'. break_fid env f caller own st = Some (r, st') \<and> ropa_rep ptr N st' (snd (spec_break a f own A)) \<and>
    length (sent st') = length (sent st) + fst (spec_break a f own A)"
proof -
  have inv: "ropa_inv env st {} (\<lambda>_. 0) (\<lambda>_. 0)" by (rule ropa_rep_inv [OF rep env(1)])
  have H: "holders A f = [] \<longleftrightarrow> \<not> (\<exists>b. bcount st b > 0 \<and> fid (cbs st b) = f)"
    unfolding set_empty [symmetric] holders_set [OF rep] fid_cb [OF inv, symmetric] by blast
  have ca: "\<forall>c. live st c \<longrightarrow> (Some c = caller) = (Some (caddr st c) = a)"
    using lv rep_caddr_inj [OF rep] by (cases caller) (auto simp: a_def inj_on_def)
  show ?thesis
  proof (cases "holders A f = []")
    case True
    then have "\<forall>b. bcount st b + 0 > 0 \<longrightarrow> fid (cbs st b) \<noteq> f" using H by (auto simp del: not_gr_zero)
    from cb_search_miss [OF inv this] have "break_fid env f caller own st = Some (- 1, st)" by (simp add: break_fid_def)
    moreover have "spec_break a f own A = (0, A)" using True by (simp add: spec_break_def holders_def Let_def)
    ultimately show ?thesis using rep by simp
  next
    case False
    then obtain b where b: "bcount st b + 0 > 0" "fid (cbs st b) = f" using H by auto
    from break_callback_ok [where bo = own, OF inv b(1) lv env(2)] obtain st' cs where st': "break_callback env b caller own st = Some st'"
      "ropa_inv env st' {} (\<lambda>_. 0) (\<lambda>_. 0)" "promises st' = {(c, f', t) \<in> promises st. f' \<noteq> f \<or> \<not> own \<and> Some c = caller}"
      "distinct cs" "set cs = {c. (\<exists>t. (c, f, t) \<in> promises st) \<and> Some c \<noteq> caller}" "sent st' = sent st @ map (\<lambda>c. notice st c f) cs"
      "\<forall>d. if gone st st' (\<lambda>_. 0) f caller d then \<not> live st' d else same_client st st' d"
      "num_clients st' = num_clients st" "num_callbacks st' = num_callbacks st" "num_ccpair st' = num_ccpair st" unfolding b(2) by blast
    let ?D = "\<lambda>d. caller = Some d \<or> (\<exists>t. (d, f, t) \<in> promises st)"
    let ?ds = "(case a of None \<Rightarrow> [] | Some x \<Rightarrow> [x]) @ holders A f"
    have "break_fid env f caller own st = Some (0, st')" using cb_search_hit [OF inv b(1)] b(2) st'(1) by (simp add: break_fid_def)
    moreover have "ropa_rep ptr N st' (forget ?ds (A\<lparr>promised := filter (\<lambda>((x, g), t). g \<noteq> f \<or> \<not> own \<and> Some x = a) (promised A)\<rparr>))"
    proof (rule rep_remove [OF rep st'(2) env(1) st'(8-10)])
      show "promises st' = {(c, g, t) \<in> promises st. g \<noteq> f \<or> \<not> own \<and> Some (caddr st c) = a}"
        unfolding st'(3) using ca rep_live [OF rep] by auto
      show "\<forall>d. live st d \<longrightarrow> ?D d = (caddr st d \<in> set ?ds)"
      proof (intro allI impI)
        fix d assume d: "live st d"
        have "caddr st d \<in> set (holders A f) \<longleftrightarrow> (\<exists>t. (d, f, t) \<in> promises st)"
          unfolding holders_set [OF rep] by (subst inj_on_image_mem_iff [OF rep_caddr_inj [OF rep]]) (use d rep_live [OF rep] in auto)
        moreover have "caddr st d \<in> set (case a of None \<Rightarrow> [] | Some x \<Rightarrow> [x]) \<longleftrightarrow> caller = Some d" using ca [rule_format, OF d] by (cases a) (simp_all, metis)
        ultimately show "?D d = (caddr st d \<in> set ?ds)" by auto
      qed
      show "\<forall>d. if live st d \<and> ?D d \<and> pcount st' d = 0 then \<not> live st' d else same_client st st' d"
      proof
        fix d
        have "?D d \<Longrightarrow> live st d" using lv rep_live [OF rep] by blast
        then show "if live st d \<and> ?D d \<and> pcount st' d = 0 then \<not> live st' d else same_client st st' d"
          using st'(7) [rule_format, of d] unfolding gone_def by (auto split: if_splits)
      qed
    qed
    moreover have "spec_break a f own A = (length (filter (\<lambda>x. Some x \<noteq> a) (holders A f)),
        forget ?ds (A\<lparr>promised := filter (\<lambda>((x, g), t). g \<noteq> f \<or> \<not> own \<and> Some x = a) (promised A)\<rparr>))"
      using False by (simp add: spec_break_def holders_def [symmetric] Let_def)
    ultimately show ?thesis using told_length [OF rep st'(4,5) ca] st'(6) by simp
  qed
qed

lemma promise_pair:
  assumes inv: "ropa_inv env st {} (\<lambda>_. 0) (\<lambda>_. 0)" and k: "client (ccs st k) = Some c" "cc_cb (ccs st k) = Some b"
    and j: "client (ccs st j) = Some c" "cc_cb (ccs st j) = Some d" "fid (cbs st d) = fid (cbs st b)"
  shows "j = k"
proof -
  have ki: "kinv env st {}" and bi: "binv st (\<lambda>b. bcount st b + 0)" using inv by (simp_all add: ropa_inv_def)
  have "bcount st d > 0" "bcount st b > 0" using k(2) j(2) kinv_finite(2) [OF ki] by (auto simp: bcount_def card_gt_0_iff)
  then have "d = b" using fid_inj [OF bi, of d b] j(3) by simp
  then show ?thesis using pairs_inj [OF ki, of j k] k j by (simp add: inuse_def)
qed

lemma promises_broke:
  assumes inv: "ropa_inv env st {} (\<lambda>_. 0) (\<lambda>_. 0)" and k: "client (ccs st k) = Some c" "cc_cb (ccs st k) = Some b"
    and br: "broke k st st'" "inuse st' = inuse st - {k}" and fid: "\<forall>d. d \<noteq> b \<or> bcount st b + 0 > 1 \<longrightarrow> fid (cbs st' d) = fid (cbs st d)"
  shows "promises st' = {(c', f, t) \<in> promises st. (c', f) \<noteq> (c, fid (cbs st b))}"
proof -
  have ki: "kinv env st {}" using inv by (simp add: ropa_inv_def)
  have "fid (cbs st' d) = fid (cbs st d)" if "j \<in> inuse st'" "cc_cb (ccs st' j) = Some d" for j d
  proof (cases "d = b")
    case True
    have "j \<noteq> k" "cc_cb (ccs st j) = Some d" using that br by (auto simp: broke_def)
    then have "card {k, j} \<le> bcount st b" unfolding bcount_def using True k(2) kinv_finite(2) [OF ki, of b] by (intro card_mono) auto
    then show ?thesis using fid \<open>j \<noteq> k\<close> by simp
  qed (use fid in simp)
  then have P: "promises st' = {(c, f, t). \<exists>k b. k \<in> inuse st' \<and> client (ccs st k) = Some c \<and> cc_cb (ccs st k) = Some b \<and> fid (cbs st b) = f \<and> expire (ccs st k) = t}"
    by (intro promises_mono) (use br in \<open>auto simp: broke_def pair_view_def\<close>)
  have "j \<in> inuse st' \<longleftrightarrow> (c', fid (cbs st d)) \<noteq> (c, fid (cbs st b))" if j: "client (ccs st j) = Some c'" "cc_cb (ccs st j) = Some d" for j c' d
  proof -
    have "j \<in> inuse st" using j by (simp add: inuse_def)
    moreover have "(c', fid (cbs st d)) = (c, fid (cbs st b)) \<longleftrightarrow> j = k" using promise_pair [OF inv k, of j d] j k by auto
    ultimately show ?thesis using br(2) by simp
  qed
  then show ?thesis unfolding P by (auto simp: promises_def)
qed

text \<open>One promise broken, with or without a message.\<close>

definition spec_break1 :: "caddress \<Rightarrow> afs_fid \<Rightarrow> ropa_spec \<Rightarrow> ropa_spec" where
  "spec_break1 a f A = forget [a] (A\<lparr>promised := filter (\<lambda>(k, _). k \<noteq> (a, f)) (promised A)\<rparr>)"

lemma break_one_refines:
  assumes rep: "ropa_rep ptr N st A" and env: "client_ptr env = ptr" "nt \<Longrightarrow> env_ok env"
    and k: "client (ccs st k) = Some c" "cc_cb (ccs st k) = Some b"
  shows "\<exists>st'. break_ccpair env k nt st = Some st' \<and> ropa_rep ptr N st' (spec_break1 (caddr st c) (fid (cbs st b)) A) \<and>
    length (sent st') = length (sent st) + (if nt then 1 else 0) \<and> inuse st' = inuse st - {k} \<and>
    promises st' = {(c', f, t) \<in> promises st. (c', f) \<noteq> (c, fid (cbs st b))} \<and>
    (if live st' c then caddr st' c = caddr st c else \<forall>f t. (c, f, t) \<notin> promises st')"
proof -
  let ?f = "fid (cbs st b)"
  have inv: "ropa_inv env st {} (\<lambda>_. 0) (\<lambda>_. 0)" by (rule ropa_rep_inv [OF rep env(1)])
  have W: "{} - {k} = ({} :: nat set)" by simp
  from break_ccpair_ok [where nt = nt, OF inv k env(2), unfolded W] obtain st' where st': "break_ccpair env k nt st = Some st'" "ropa_inv env st' {} (\<lambda>_. 0) (\<lambda>_. 0)"
    "broke k st st'" "inuse st' = inuse st - {k}" "\<forall>d. d \<noteq> b \<or> bcount st b + 0 > 1 \<longrightarrow> fid (cbs st' d) = fid (cbs st d)"
    "sent st' = sent st @ (if nt then [notice st c ?f] else [])"
    "\<forall>d. if d = c \<and> pcount st c + 0 = 1 then \<not> live st' d else same_client st st' d" by blast
  have ki: "kinv env st {}" using inv by (simp add: ropa_inv_def)
  have lc: "live st c" using rep_live [OF rep, of c ?f "expire (ccs st k)"] k by (auto simp: promises_def)
  have pc: "pcount st' c = pcount st c - 1" "pcount st c > 0"
    using counts_remove(1,3) [OF ki k] st'(3) by (auto simp: broke_def)
  have P: "promises st' = {(c', f, t) \<in> promises st. (c', f) \<noteq> (c, ?f)}" by (rule promises_broke [OF inv k st'(3-5)])
  have "ropa_rep ptr N st' (forget [caddr st c] (A\<lparr>promised := filter (\<lambda>((x, g), t). (x, g) \<noteq> (caddr st c, ?f)) (promised A)\<rparr>))"
  proof (rule rep_remove [OF rep st'(2) env(1), where D = "\<lambda>d. d = c"])
    show "promises st' = {(c', g, t) \<in> promises st. (caddr st c', g) \<noteq> (caddr st c, ?f)}"
    proof (rule set_eqI)
      fix p :: "nat \<times> afs_fid \<times> int"
      obtain c' g t where p: "p = (c', g, t)" by (cases p)
      have "caddr st c' = caddr st c \<longleftrightarrow> c' = c" if "p \<in> promises st"
        using inj_on_eq_iff [OF rep_caddr_inj [OF rep]] rep_live [OF rep, of c' g t] that p lc by simp
      then show "p \<in> promises st' \<longleftrightarrow> p \<in> {(c', g, t) \<in> promises st. (caddr st c', g) \<noteq> (caddr st c, ?f)}" unfolding P p by auto
    qed
    show "\<forall>d. live st d \<longrightarrow> (d = c) = (caddr st d \<in> set [caddr st c])" using inj_on_eq_iff [OF rep_caddr_inj [OF rep]] lc by simp
    show "\<forall>d. if live st d \<and> d = c \<and> pcount st' d = 0 then \<not> live st' d else same_client st st' d"
    proof
      show "if live st d \<and> d = c \<and> pcount st' d = 0 then \<not> live st' d else same_client st st' d" for d
        using st'(7) [rule_format, of d] pc lc by (cases "d = c") (simp_all split: if_splits)
    qed
  qed (use st'(3) in \<open>simp_all add: broke_def\<close>)
  moreover have "(\<lambda>((x, g), t). (x, g) \<noteq> (caddr st c, ?f)) = (\<lambda>(k, _::int). k \<noteq> (caddr st c, ?f))" by (simp add: fun_eq_iff)
  ultimately have "ropa_rep ptr N st' (spec_break1 (caddr st c) ?f A)" unfolding spec_break1_def by simp
  moreover have "if live st' c then caddr st' c = caddr st c else \<forall>f t. (c, f, t) \<notin> promises st'"
    using st'(7) [rule_format, of c] caddr_cong [of st st' c] promise_live(1) [OF st'(2), of c] by (auto split: if_splits)
  ultimately show ?thesis using st'(1,4,6) P by (intro exI [of _ st'] conjI) simp_all
qed

section \<open>Dropping promises\<close>

lemma cc_search_hit:
  assumes "ropa_inv env st {} rb rc" "client (ccs st k) = Some c" "cc_cb (ccs st k) = Some b"
  shows "hashtabsearch (ccpairs_cmp st) (ccpairs_hash env st) (ht_ccpairs st) (CcKey c b) = Some (Some (Cc k))"
  by (rule cc_tab.set_search_hit [of env st "ht_ccpairs st" "Cc ` inuse st"]) (use assms in \<open>auto simp: ropa_inv_def kinv_def inuse_def\<close>)

lemma cc_search_miss:
  assumes "ropa_inv env st {} rb rc" "\<forall>k. client (ccs st k) = Some c \<longrightarrow> cc_cb (ccs st k) \<noteq> Some b"
  shows "hashtabsearch (ccpairs_cmp st) (ccpairs_hash env st) (ht_ccpairs st) (CcKey c b) = Some None"
  by (rule cc_tab.set_search_miss [of env st "ht_ccpairs st" "Cc ` inuse st"]) (use assms in \<open>auto simp: ropa_inv_def kinv_def\<close>)

text \<open>The body of the loop of \<open>ropa_drop_callbacks\<close>.\<close>

definition drop_one :: "ropa_env \<Rightarrow> nat \<Rightarrow> afs_fid \<Rightarrow> ropa \<Rightarrow> ropa option" where
  "drop_one env c f st = do {
     r \<leftarrow> hashtabsearch (callbacks_cmp st) (callbacks_hash st) (ht_callbacks st) (FidKey f);
     case r of
       Some (Cb b) \<Rightarrow> do {
         r \<leftarrow> hashtabsearch (ccpairs_cmp st) (ccpairs_hash env st) (ht_ccpairs st) (CcKey c b);
         case r of Some (Cc k) \<Rightarrow> break_ccpair env k False st | _ \<Rightarrow> Some st }
     | _ \<Rightarrow> Some st }"

lemma drop_loop_Cons: "drop_loop env c (f # fs) st = do { st \<leftarrow> drop_one env c f st; drop_loop env c fs st }"
  by (simp add: drop_one_def)

lemma drop_one_absent:
  assumes inv: "ropa_inv env st {} (\<lambda>_. 0) (\<lambda>_. 0)" and no: "\<forall>t. (c, f, t) \<notin> promises st"
  shows "drop_one env c f st = Some st"
proof (cases "\<exists>b. bcount st b > 0 \<and> fid (cbs st b) = f")
  case True
  then obtain b where b: "bcount st b + 0 > 0" "fid (cbs st b) = f" by auto
  then have "\<forall>k. client (ccs st k) = Some c \<longrightarrow> cc_cb (ccs st k) \<noteq> Some b" using no by (auto simp: promises_def)
  from cc_search_miss [OF inv this] show ?thesis using cb_search_hit [OF inv b(1)] b(2) by (simp add: drop_one_def)
next
  case False
  then have "\<forall>b. bcount st b + 0 > 0 \<longrightarrow> fid (cbs st b) \<noteq> f" by (auto simp del: not_gr_zero)
  from cb_search_miss [OF inv this] show ?thesis by (simp add: drop_one_def)
qed

text \<open>The client of the loop: at address \<open>a\<close>, or forgotten after its last promise was dropped.\<close>

definition drop_client :: "ropa \<Rightarrow> ropa_spec \<Rightarrow> nat \<Rightarrow> caddress \<Rightarrow> bool" where
  "drop_client st A c a \<longleftrightarrow> (if live st c then caddr st c = a else (\<forall>f t. (c, f, t) \<notin> promises st) \<and> (\<forall>f. map_of (promised A) (a, f) = None))"

lemma drop_one_refines:
  assumes rep: "ropa_rep ptr N st A" and env: "client_ptr env = ptr" and c: "drop_client st A c a"
  shows "\<exists>st'. drop_one env c f st = Some st' \<and> ropa_rep ptr N st' (spec_drop a f A) \<and> drop_client st' (spec_drop a f A) c a \<and> length (sent st') = length (sent st)"
proof -
  have inv: "ropa_inv env st {} (\<lambda>_. 0) (\<lambda>_. 0)" by (rule ropa_rep_inv [OF rep env])
  have dist: "distinct (map fst (promised A))" using rep by (simp add: ropa_rep_def)
  show ?thesis
  proof (cases "\<exists>t. (c, f, t) \<in> promises st")
    case False
    moreover have "map_of (promised A) (a, f) = None"
    proof (cases "live st c")
      case True
      then have "((a, f), t) \<notin> set (promised A)" for t using c False rep_promised [OF rep True, of f t] by (simp add: drop_client_def)
      then show ?thesis by (force simp: map_of_eq_None_iff)
    qed (use c in \<open>simp add: drop_client_def\<close>)
    ultimately show ?thesis using drop_one_absent [OF inv] rep c by (simp add: spec_drop_def)
  next
    case True
    then obtain t where k1: "(c, f, t) \<in> promises st" by blast
    then obtain k b where k: "(c, f, t) \<in> promises st" "client (ccs st k) = Some c" "cc_cb (ccs st k) = Some b" "fid (cbs st b) = f" by (auto simp: promises_def)
    have lc: "live st c" by (rule rep_live [OF rep k(1)])
    then have a: "caddr st c = a" using c by (simp add: drop_client_def)
    have "((a, f), t) \<in> set (promised A)" using rep_promised [OF rep lc] k(1) a by simp
    then have sp: "spec_drop a f A = spec_break1 a f A" using map_of_is_SomeI [OF dist] by (simp add: spec_drop_def spec_break1_def)
    have "bcount st b + 0 > 0" using k(3) kinv_finite(2) [of env st "{}" b] inv by (auto simp: ropa_inv_def bcount_def card_gt_0_iff)
    then have run: "drop_one env c f st = break_ccpair env k False st"
      using cb_search_hit [OF inv] k(4) cc_search_hit [OF inv k(2,3)] by (auto simp: drop_one_def)
    from break_one_refines [where nt = False, OF rep env _ k(2,3)] obtain st' where st': "break_ccpair env k False st = Some st'"
      "ropa_rep ptr N st' (spec_break1 a f A)" "length (sent st') = length (sent st)"
      "promises st' = {(c', g, t) \<in> promises st. (c', g) \<noteq> (c, f)}"
      "if live st' c then caddr st' c = a else \<forall>f t. (c, f, t) \<notin> promises st'" unfolding a k(4) by auto
    have "map_of (promised (spec_break1 a f A)) (a, g) = None" if "\<forall>f t. (c, f, t) \<notin> promises st'" for g
    proof -
      have "((a, g), t) \<notin> set (promised A)" if "g \<noteq> f" for t
        using rep_promised [OF rep lc, of g t] a st'(4) \<open>\<forall>f t. (c, f, t) \<notin> promises st'\<close> that by auto
      then show ?thesis by (cases "g = f") (force simp: map_of_eq_None_iff spec_break1_def forget_def)+
    qed
    then have "drop_client st' (spec_break1 a f A) c a" using st'(5) by (auto simp: drop_client_def split: if_splits)
    then show ?thesis using run st'(1-3) sp by simp
  qed
qed

lemma drop_loop_refines:
  assumes "ropa_rep ptr N st A" "client_ptr env = ptr" "drop_client st A c a"
  shows "\<exists>st'. drop_loop env c fs st = Some st' \<and> ropa_rep ptr N st' (fold (spec_drop a) fs A) \<and> length (sent st') = length (sent st)"
  using assms
proof (induction fs arbitrary: st A)
  case (Cons f fs)
  from drop_one_refines [OF Cons.prems, of f] obtain s where s: "drop_one env c f st = Some s" "ropa_rep ptr N s (spec_drop a f A)"
    "drop_client s (spec_drop a f A) c a" "length (sent s) = length (sent st)" by blast
  from Cons.IH [OF s(2) Cons.prems(2) s(3)] show ?case using s(1,4) by (simp add: drop_loop_Cons del: drop_loop.simps)
qed simp

section \<open>Expired promises\<close>

lemma forget_forget:
  assumes k: "((a, f), t) \<in> set (promised A)" "t \<le> now0" and d: "distinct (map fst (promised A))"
  shows "spec_clean now0 A = (Suc (fst (spec_clean now0 (spec_break1 a f A))), snd (spec_clean now0 (spec_break1 a f A)))"
proof -
  let ?B = "spec_break1 a f A" and ?late = "\<lambda>(_, t). t \<le> now0" and ?good = "\<lambda>(_, t). now0 < t"
  let ?P = "filter (\<lambda>(k, _). k \<noteq> (a, f)) (promised A)"
  have B: "promised ?B = ?P" by (simp add: spec_break1_def forget_def)
  have only: "x = ((a, f), t)" if "x \<in> set (promised A)" "fst x = (a, f)" for x
    using d k(1) that by (auto simp: distinct_map inj_on_def)
  have g: "filter ?good ?P = filter ?good (promised A)"
    unfolding filter_filter using only k(2) by (intro filter_cong) (auto split: prod.splits)
  obtain us vs where uv: "promised A = us @ ((a, f), t) # vs" using k(1) split_list by metis
  have nin: "(a, f) \<notin> fst ` set us" "(a, f) \<notin> fst ` set vs" using d uv by auto
  have P: "?P = us @ vs"
  proof -
    have "filter (\<lambda>(k, _). k \<noteq> (a, f)) us = us" "filter (\<lambda>(k, _). k \<noteq> (a, f)) vs = vs" using nin by (force simp: filter_id_conv)+
    then show ?thesis using uv by simp
  qed
  have len: "length (filter ?late (promised A)) = Suc (length (filter ?late ?P))" using k(2) P uv by simp
  let ?C = "A\<lparr>promised := filter ?good (promised A)\<rparr>"
  have hp: "has_promise (A\<lparr>promised := l\<rparr>) b = (b \<in> (fst \<circ> fst) ` set l)" for l b
    unfolding has_promise_def list_ex_iff case_prod_unfold by (auto simp: image_iff intro: sym)
  have out: "(fst \<circ> fst) ` set (filter ?late (promised A)) = insert a ((fst \<circ> fst) ` set (filter ?late ?P))"
    using k(2) unfolding P unfolding uv by (simp add: image_Un del: image_comp)
  have split: "(fst \<circ> fst) ` set ?P = (fst \<circ> fst) ` set (filter ?late ?P) \<union> (fst \<circ> fst) ` set (filter ?good (promised A))"
    unfolding g [symmetric] by force
  have "known (snd (spec_clean now0 A)) = known (snd (spec_clean now0 ?B))"
  proof -
    have "known (snd (spec_clean now0 A)) = filter (\<lambda>(b, _). b \<notin> (fst \<circ> fst) ` set (filter ?late (promised A)) \<or> b \<in> (fst \<circ> fst) ` set (filter ?good (promised A))) (known A)"
      by (simp add: spec_clean_def Let_def forget_def hp comp_def)
    moreover have "known (snd (spec_clean now0 ?B)) = filter (\<lambda>(b, _). (b \<noteq> a \<or> b \<in> (fst \<circ> fst) ` set ?P) \<and>
        (b \<notin> (fst \<circ> fst) ` set (filter ?late ?P) \<or> b \<in> (fst \<circ> fst) ` set (filter ?good ?P))) (known A)"
    proof -
      have "?B\<lparr>promised := filter ?good (promised ?B)\<rparr> = (forget [a] (A\<lparr>promised := ?P\<rparr>))\<lparr>promised := filter ?good ?P\<rparr>" by (simp only: spec_break1_def B [unfolded spec_break1_def])
      moreover have "has_promise ((forget [a] (A\<lparr>promised := ?P\<rparr>))\<lparr>promised := l\<rparr>) b = (b \<in> (fst \<circ> fst) ` set l)" for l b
        using hp [of l b] by (simp add: has_promise_def)
      ultimately show ?thesis using hp [of ?P]
        by (simp add: spec_clean_def Let_def B forget_def comp_def spec_break1_def filter_filter case_prod_unfold conj_commute del: filter_filter) (simp add: conj_commute)
    qed
    ultimately show ?thesis unfolding out split g by (simp only:) (rule filter_cong, auto)
  qed
  moreover have "promised (snd (spec_clean now0 A)) = promised (snd (spec_clean now0 ?B))" 
    by (simp add: spec_clean_def Let_def forget_def B g del: filter_filter)
  ultimately have "snd (spec_clean now0 A) = snd (spec_clean now0 ?B)" by simp
  moreover have "fst (spec_clean now0 A) = Suc (fst (spec_clean now0 ?B))" using len by (simp add: spec_clean_def Let_def B)
  ultimately show ?thesis by (simp add: prod_eq_iff)
qed

lemma clean_none:
  assumes "\<forall>x \<in> set (promised A). now0 < snd x"
  shows "spec_clean now0 A = (0, A)"
proof -
  have "filter (\<lambda>(_, t). t \<le> now0) (promised A) = []" "filter (\<lambda>(_, t). now0 < t) (promised A) = promised A"
    using assms by (auto simp: filter_empty_conv filter_id_conv)
  then show ?thesis by (simp add: spec_clean_def Let_def forget_def)
qed

lemma cleaner_head:
  assumes inv: "ropa_inv env st {} rb rc"
  shows "heap_head (heap_ccpairs st) = None \<longleftrightarrow> inuse st = {}"
    and "heap_head (heap_ccpairs st) = Some k \<Longrightarrow> k \<in> inuse st \<and> (\<forall>j \<in> inuse st. expire (ccs st k) \<le> expire (ccs st j))"
proof -
  have ki: "kinv env st {}" using inv by (simp add: ropa_inv_def)
  have hi: "heap_inv (\<lambda>k. expire (ccs st k)) (expire_ok st) (heap_ccpairs st) (image_mset helem (mset_set (inuse st)))" using ki by (simp add: kinv_def)
  have fin: "finite (inuse st)" by (rule finite_inuse [OF ki])
  have least: "\<exists>d. heap_head (heap_ccpairs st) = Some d \<and> d \<in> inuse st \<and> expire (ccs st d) \<le> expire (ccs st j)" if "j \<in> inuse st" for j
  proof -
    have "helem j \<in># image_mset helem (mset_set (inuse st))" using that fin by simp
    from cc_heap.heap_head_least [OF hi this] show ?thesis using fin by (auto simp: helem_def ekey_def)
  qed
  have "sz (heap_ccpairs st) = 0" if "inuse st = {}"
  proof -
    have "elems (sz (heap_ccpairs st)) (heap_ccpairs st) = []" using hi that by (simp add: heap_inv_def settled_def)
    then show ?thesis using hi by (auto simp: heap_inv_def settled_def elems_def)
  qed
  then show "heap_head (heap_ccpairs st) = None \<longleftrightarrow> inuse st = {}" using least by (auto simp: heap_head_def)
  assume h: "heap_head (heap_ccpairs st) = Some k"
  then have "inuse st \<noteq> {}" using \<open>heap_head (heap_ccpairs st) = None \<longleftrightarrow> inuse st = {}\<close> by auto
  then show "k \<in> inuse st \<and> (\<forall>j \<in> inuse st. expire (ccs st k) \<le> expire (ccs st j))" using least h by auto
qed

lemma rep_ncalls:
  assumes "ropa_rep ptr N st A"
  shows "ropa_rep ptr N (st\<lparr>ncalls := n\<rparr>) A"
proof -
  let ?s = "st\<lparr>ncalls := n\<rparr>"
  have fr: "cframe st ?s" by (simp add: cframe_def)
  have "ropa_inv env ?s {} (\<lambda>_. 0) (\<lambda>_. 0)" if "client_ptr env = ptr" for env
  proof (rule inv_cframe [OF ropa_rep_inv [OF assms that] _ fr])
    show "cinv ?s (\<lambda>c. pcount st c + 0)" by (rule cinv_cong [OF rep_cinv [OF assms]]) simp_all
  qed
  moreover have "caddr ?s = caddr st" "live_uuid ?s = live_uuid st" "live ?s = live st" "promises ?s = promises st"
    by (simp_all add: caddr_def live_uuid_def live_def promises_def fun_eq_iff)
  ultimately show ?thesis using assms by (simp add: ropa_rep_def)
qed

lemma heapcleaner_refines:
  assumes "ropa_rep ptr N st A" "client_ptr env = ptr" "env_ok env" "\<forall>m. now env m = now0" "card (inuse st) < n"
  shows "\<exists>st'. heapcleaner n env st = Some st' \<and> ropa_rep ptr N st' (snd (spec_clean now0 A)) \<and>
    length (sent st') = length (sent st) + fst (spec_clean now0 A)"
  using assms
proof (induction n arbitrary: st A)
  case (Suc n)
  note rep = Suc.prems(1) and env = Suc.prems(2-4)
  have inv: "ropa_inv env st {} (\<lambda>_. 0) (\<lambda>_. 0)" by (rule ropa_rep_inv [OF rep env(1)])
  have dist: "distinct (map fst (promised A))" using rep by (simp add: ropa_rep_def)
  have prs: "\<forall>x \<in> set (promised A). \<exists>k \<in> inuse st. snd x = expire (ccs st k)"
  proof
    fix x assume "x \<in> set (promised A)"
    then have "x \<in> (\<lambda>(c, f, t). ((caddr st c, f), t)) ` promises st" using rep unfolding ropa_rep_def by (elim conjE) (simp only:)
    then obtain c f t where "x = ((caddr st c, f), t)" "(c, f, t) \<in> promises st" by force
    then show "\<exists>k \<in> inuse st. snd x = expire (ccs st k)" by (auto simp: promises_def inuse_def)
  qed
  show ?case
  proof (cases "heap_head (heap_ccpairs st)")
    case None
    then have "inuse st = {}" using cleaner_head(1) [OF inv] by simp
    then have "promised A = []" using bspec [OF prs hd_in_set] by force
    then show ?thesis using None rep by (simp add: heapcleaner_round_def clean_none)
  next
    case (Some k)
    note head = cleaner_head(2) [OF inv Some]
    let ?s = "st\<lparr>ncalls := ncalls st + 1\<rparr>"
    have rep1: "ropa_rep ptr N ?s A" using rep by (rule rep_ncalls)
    show ?thesis
    proof (cases "now0 < expire (ccs st k)")
      case True
      then have "\<forall>x \<in> set (promised A). now0 < snd x" using prs head by fastforce
      then show ?thesis using Some True rep1 env(3) by (simp add: heapcleaner_round_def ext_call_def clean_none)
    next
      case False
      have "pair_wf st {} k" "k \<in> inuse st" using head inv by (simp_all add: ropa_inv_def kinv_def)
      then obtain c b where k: "client (ccs ?s k) = Some c" "cc_cb (ccs ?s k) = Some b" by (auto simp: pair_wf_def inuse_def)
      from break_one_refines [where nt = True, OF rep1 env(1) _ k] env(2) obtain s where
        s: "break_ccpair env k True ?s = Some s" "ropa_rep ptr N s (spec_break1 (caddr ?s c) (fid (cbs ?s b)) A)"
          "length (sent s) = length (sent st) + 1" "inuse s = inuse st - {k}" by (auto simp: inuse_def)
      have "finite (inuse st)" using finite_inuse [of env st "{}"] inv by (simp add: ropa_inv_def)
      then have "card (inuse s) < card (inuse st)" using s(4) head card_Diff1_less by metis
      then have "card (inuse s) < n" using Suc.prems(5) by simp
      from Suc.IH [OF s(2) env this] obtain st' where st': "heapcleaner n env s = Some st'"
        "ropa_rep ptr N st' (snd (spec_clean now0 (spec_break1 (caddr ?s c) (fid (cbs ?s b)) A)))"
        "length (sent st') = length (sent s) + fst (spec_clean now0 (spec_break1 (caddr ?s c) (fid (cbs ?s b)) A))" by blast
      have "(c, fid (cbs st b), expire (ccs st k)) \<in> promises st" using k by (auto simp: promises_def)
      then have "((caddr st c, fid (cbs st b)), expire (ccs st k)) \<in> set (promised A)" using rep_promised [OF rep] rep_live [OF rep] by blast
      from forget_forget [OF this _ dist, of now0] False st' s(1,3) Some env(3)
      show ?thesis by (simp add: heapcleaner_round_def ext_call_def caddr_def)
    qed
  qed
qed simp

section \<open>Granting a promise\<close>

lemma rep_same:
  assumes rep: "ropa_rep ptr N st A" and inv: "ropa_inv env s {} (\<lambda>_. 0) (\<lambda>_. 0)" "client_ptr env = ptr" and same: "\<forall>d. same_client st s d"
    and num: "num_clients s = num_clients st" "num_callbacks s = num_callbacks st" "num_ccpair s = num_ccpair st"
    and P: "promises s = P \<union> promises st"
    and A': "known A' = known A" "distinct (map fst (promised A'))" "set (promised A') = (\<lambda>(c, f, t). ((caddr st c, f), t)) ` P \<union> set (promised A)"
  shows "ropa_rep ptr N s A'"
proof -
  have ca: "caddr s = caddr st" by (rule ext) (rule caddr_cong, use same in blast)
  have lv: "live s = live st" using live_cong [OF num(1)] same by (auto simp: same_client_def)
  have "uuid (clients s d) = uuid (clients st d)" for d
    by (rule cview_fields(3)) (use same in \<open>simp add: same_client_def\<close>)
  then have uu: "live_uuid s = live_uuid st" by (simp add: live_uuid_def fun_eq_iff)
  have "ropa_inv e s {} (\<lambda>_. 0) (\<lambda>_. 0)" if "client_ptr e = ptr" for e using inv_env [OF inv(1)] inv(2) that by simp
  then show ?thesis using rep num A' by (simp add: ropa_rep_def ca lv uu P image_Un)
qed

lemma rep_known_length:
  assumes "ropa_rep ptr N st A"
  shows "length (known A) = card (Collect (live st))"
proof -
  have "fst ` set (known A) = caddr st ` Collect (live st)" using assms by (simp add: ropa_rep_def image_image)
  then have "card (fst ` set (known A)) = card (Collect (live st))" using card_image [OF rep_caddr_inj [OF assms]] by simp
  moreover have "card (fst ` set (known A)) = length (map fst (known A))" using assms distinct_card [of "map fst (known A)"] by (simp add: ropa_rep_def)
  ultimately show ?thesis by simp
qed

lemma enlist_refines:
  assumes rep: "ropa_rep ptr N st A" and env: "client_ptr env = ptr" "answers env host u" and sp: "enlist (fst N) (host, p) u A = Some (n, A')"
  shows "\<exists>c st'. client_query env host p st = Some (Some c, st') \<and> ropa_rep ptr N st' A' \<and> live st' c \<and> caddr st' c = (host, p) \<and>
    length (sent st') = length (sent st) + n"
proof (cases "map_of (known A) (host, p) = None")
  case False
  then obtain c where c: "live st c" "caddr st c = (host, p)" using rep_known [OF rep, of "(host, p)"] by auto
  then show ?thesis using query_known [OF rep_cinv [OF rep] c, of env] sp False rep by (simp add: enlist_def)
next
  case True
  then have no: "\<forall>c. live st c \<longrightarrow> caddr st c \<noteq> (host, p)" using rep_known [OF rep, of "(host, p)"] by auto
  have room: "length (known A) < num_clients st" and fresh: "take 6 u \<notin> set (map snd (known A))" and A': "n = 2" "A' = A\<lparr>known := ((host, p), take 6 u) # known A\<rparr>"
    using sp True rep by (auto simp: enlist_def ropa_rep_def split: if_splits)
  have "\<not> {..<num_clients st} \<subseteq> Collect (live st)"
  proof
    assume "{..<num_clients st} \<subseteq> Collect (live st)"
    then have "card {..<num_clients st} \<le> card (Collect (live st))"
      by (rule card_mono [rotated]) (rule finite_subset [of _ "{..<num_clients st}"], auto simp: live_def)
    then show False using room rep_known_length [OF rep] by simp
  qed
  then obtain d where d: "d < num_clients st" "\<not> live st d" by auto
  have u: "\<forall>d. live st d \<longrightarrow> live_uuid st d \<noteq> take 6 u"
  proof (intro allI impI)
    fix d assume "live st d"
    then have "(caddr st d, live_uuid st d) \<in> set (known A)" using rep by (simp add: ropa_rep_def)
    from imageI [OF this, of snd] show "live_uuid st d \<noteq> take 6 u" using fresh by (intro notI) simp
  qed
  from query_new [OF rep_cinv [OF rep] d no u env(2)] obtain st' c where q: "client_query env host p st = Some (Some c, st')"
    "cinv st' (\<lambda>c. pcount st c + 0)" "\<not> live st c" "\<forall>x. live st' x \<longleftrightarrow> x = c \<or> live st x" "caddr st' c = (host, p)" "live_uuid st' c = take 6 u"
    "\<forall>d. d \<noteq> c \<longrightarrow> clients st' d = clients st d" "cframe st st'" "sent st' = sent st @ [WhoAreYouRPC host p, InitRPC host p]" by blast
  have inv: "ropa_inv env' st' {} (\<lambda>_. 0) (\<lambda>_. 0)" if "client_ptr env' = ptr" for env'
    by (rule inv_cframe [OF ropa_rep_inv [OF rep that] q(2,8)])
  have ca: "caddr st' d = caddr st d" "live_uuid st' d = live_uuid st d" if "live st d" for d using q(3,7) that by (auto simp: caddr_def live_uuid_def)
  have P: "promises st' = promises st" using q(8) by (simp add: promises_def cframe_def)
  have "Collect (live st') = insert c (Collect (live st))" using q(4) by auto
  then have "(\<lambda>c. (caddr st' c, live_uuid st' c)) ` Collect (live st') = insert ((host, p), take 6 u) ((\<lambda>c. (caddr st' c, live_uuid st' c)) ` Collect (live st))"
    using q(5,6) by simp
  also have "(\<lambda>c. (caddr st' c, live_uuid st' c)) ` Collect (live st) = (\<lambda>c. (caddr st c, live_uuid st c)) ` Collect (live st)"
    by (rule image_cong) (use ca in auto)
  finally have kn: "set (known A') = (\<lambda>c. (caddr st' c, live_uuid st' c)) ` Collect (live st')" using rep A' by (simp add: ropa_rep_def)
  have "(\<lambda>(c, f, t). ((caddr st' c, f), t)) ` promises st = (\<lambda>(c, f, t). ((caddr st c, f), t)) ` promises st"
    by (intro image_cong refl) (use ca rep_live [OF rep] in auto)
  moreover have "(host, p) \<notin> fst ` set (known A)" using True by (simp add: map_of_eq_None_iff)
  ultimately have "ropa_rep ptr N st' A'" using rep A' kn inv P q(8) by (simp add: ropa_rep_def cframe_def)
  then show ?thesis using q(1,4,5,9) A'(1) by auto
qed

text \<open>The state in which \<open>ropa_getcallback\<close> holds a reference to the callback of the fid.\<close>

definition held :: "ropa_env \<Rightarrow> nat \<Rightarrow> afs_fid \<Rightarrow> ropa \<Rightarrow> ropa \<Rightarrow> bool" where
  "held env b f st s \<longleftrightarrow> ropa_inv env s {} ((\<lambda>_. 0)(b := 1)) (\<lambda>_. 0) \<and> ccs s = ccs st \<and> clients s = clients st \<and> sent s = sent st \<and>
     num_clients s = num_clients st \<and> num_callbacks s = num_callbacks st \<and> num_ccpair s = num_ccpair st \<and>
     (\<forall>d. bcount st d > 0 \<longrightarrow> fid (cbs s d) = fid (cbs st d)) \<and> fid (cbs s b) = f"

definition grant :: "ropa_env \<Rightarrow> nat \<Rightarrow> nat \<Rightarrow> ropa \<Rightarrow> (nat \<times> ropa) option" where
  "grant env b c st = do { (k, st) \<leftarrow> add_client env b c st; st \<leftarrow> callback_deref b st; Some (k, st) }"

lemma held_promises:
  assumes rep: "ropa_rep ptr N st A" and env: "client_ptr env = ptr" and h: "held env b f st s"
  shows "promises s = promises st"
  by (rule promises_cong) (use h ropa_rep_inv [OF rep env] in \<open>auto simp: held_def ropa_inv_def\<close>)

lemma held_release:
  assumes h: "held env b f st s" and s2: "ropa_inv env s2 {} ((\<lambda>_. 0)(b := 1)) (\<lambda>_. 0)" "aframe s s2" and k: "cc_cb (ccs s2 k) = Some b"
  shows "\<exists>s3. callback_deref b s2 = Some s3 \<and> ropa_inv env s3 {} (\<lambda>_. 0) (\<lambda>_. 0) \<and> (\<forall>d. same_client st s3 d) \<and> ccs s3 = ccs s2 \<and>
    sent s3 = sent st \<and> num_clients s3 = num_clients st \<and> num_callbacks s3 = num_callbacks st \<and> num_ccpair s3 = num_ccpair st \<and>
    (\<forall>d. fid (cbs s3 d) = fid (cbs s d))"
proof -
  have bc: "bcount s2 b > 0" using k kinv_finite(2) [of env s2 "{}" b] s2(1) by (auto simp: ropa_inv_def bcount_def card_gt_0_iff)
  from release_callback [OF s2(1), of b] obtain s3 where s3: "callback_deref b s2 = Some s3" "ropa_inv env s3 {} (\<lambda>_. 0) (\<lambda>_. 0)" "bframe s2 s3" "quiet s2 s3"
    "\<forall>d. d \<noteq> b \<or> bcount s2 b + 1 > 1 \<longrightarrow> fid (cbs s3 d) = fid (cbs s2 d)" by (auto simp: fun_upd_idem)
  have "same_client st s3 d" for d
    using h s2(2) s3(3) by (simp add: held_def aframe_def bframe_def same_client_def)
  then show ?thesis using s3 bc h s2(2) by (intro exI [of _ s3]) (simp add: held_def aframe_def bframe_def quiet_def)
qed

lemma grant_known:
  assumes rep: "ropa_rep ptr N st A" and env: "client_ptr env = ptr" and h: "held env b f st s" and p: "(c, f, t) \<in> promises st"
  shows "\<exists>k s3. grant env b c s = Some (k, s3) \<and> ropa_rep ptr N s3 A \<and> expire (ccs s3 k) = t \<and> sent s3 = sent st"
proof -
  have inv: "ropa_inv env s {} ((\<lambda>_. 0)(b := 1)) (\<lambda>_. 0)" and cc: "ccs s = ccs st" using h by (simp_all add: held_def)
  have P: "promises s = promises st" by (rule held_promises [OF rep env h])
  have "(c, f, t) \<in> promises s" using p P by simp
  then obtain k d where k: "client (ccs s k) = Some c" "cc_cb (ccs s k) = Some d" "fid (cbs s d) = f" "expire (ccs s k) = t"
    by (auto simp: promises_def)
  have bi: "binv s (\<lambda>x. bcount s x + ((\<lambda>_. 0)(b := 1)) x)" and ki: "kinv env s {}" using inv by (simp_all add: ropa_inv_def)
  have "bcount s d > 0" using k(2) kinv_finite(2) [OF ki, of d] by (auto simp: bcount_def card_gt_0_iff)
  then have db: "d = b" using fid_inj [OF bi, of d b] h k(3) by (simp add: held_def)
  from add_client_known [OF inv k(1) k(2) [unfolded db]] obtain s2 where s2: "add_client env b c s = Some (k, s2)"
    "ropa_inv env s2 {} ((\<lambda>_. 0)(b := 1)) (\<lambda>_. 0)" "aframe s s2" "\<forall>j. pair_view (ccs s2 j) = pair_view (ccs s j)" by blast
  have "cc_cb (ccs s2 k) = Some b" "expire (ccs s2 k) = t" using s2(4) [rule_format, of k] k db by (simp_all add: pair_view_def)
  from held_release [OF h s2(2,3) this(1)] obtain s3 where s3: "callback_deref b s2 = Some s3" "ropa_inv env s3 {} (\<lambda>_. 0) (\<lambda>_. 0)" "\<forall>d. same_client st s3 d"
    "ccs s3 = ccs s2" "sent s3 = sent st" "num_clients s3 = num_clients st" "num_callbacks s3 = num_callbacks st" "num_ccpair s3 = num_ccpair st"
    "\<forall>d. fid (cbs s3 d) = fid (cbs s d)" by blast
  have "client (ccs s3 j) = client (ccs s j) \<and> cc_cb (ccs s3 j) = cc_cb (ccs s j) \<and> expire (ccs s3 j) = expire (ccs s j)" for j
    using s2(4) [rule_format, of j] s3(4) by (simp add: pair_view_def)
  then have "promises s3 = promises s" using s3(9) by (simp add: promises_def)
  then have "ropa_rep ptr N s3 A" using rep by (intro rep_same [OF rep s3(2) env s3(3,6-8), where P = "{}"]) (simp_all add: P ropa_rep_def)
  then show ?thesis using s2(1) s3(1,4,5) \<open>expire (ccs s2 k) = t\<close> by (simp add: grant_def)
qed

lemma grant_new:
  assumes rep: "ropa_rep ptr N st A" and env: "client_ptr env = ptr" and h: "held env b f st s" and c: "live st c" and no: "\<forall>t. (c, f, t) \<notin> promises st"
    and free: "d < num_ccpair st" "d \<notin> inuse st" and now: "\<forall>n. now env n = t" "0 \<le> t + 3600" "t + 3600 < 2 ^ 31"
  shows "\<exists>k s3. grant env b c s = Some (k, s3) \<and> ropa_rep ptr N s3 (A\<lparr>promised := ((caddr st c, f), t + 3600) # promised A\<rparr>) \<and>
    expire (ccs s3 k) = t + 3600 \<and> sent s3 = sent st"
proof -
  have inv: "ropa_inv env s {} ((\<lambda>_. 0)(b := 1)) (\<lambda>_. 0)" and cc: "ccs s = ccs st" using h by (simp_all add: held_def)
  have P: "promises s = promises st" by (rule held_promises [OF rep env h])
  have lv: "live s c" using c h by (simp add: held_def live_def)
  have new: "\<forall>k. client (ccs s k) = Some c \<longrightarrow> cc_cb (ccs s k) \<noteq> Some b"
    using no h unfolding P [symmetric] by (auto simp: promises_def held_def)
  have fr: "d < num_ccpair s" "d \<notin> inuse s" using free h by (simp_all add: held_def inuse_def)
  from add_client_new [OF inv _ lv new fr now] obtain k s2 where s2: "add_client env b c s = Some (k, s2)" "k \<notin> inuse s" "ropa_inv env s2 {} ((\<lambda>_. 0)(b := 1)) (\<lambda>_. 0)"
    "aframe s s2" "inuse s2 = insert k (inuse s)" "\<forall>j. j \<noteq> k \<longrightarrow> ccs s2 j = ccs s j" "pair_view (ccs s2 k) = (Some c, Some b, t + 3600)" by auto
  have kk: "client (ccs s2 k) = Some c" "cc_cb (ccs s2 k) = Some b" "expire (ccs s2 k) = t + 3600" using s2(7) by (simp_all add: pair_view_def)
  from held_release [OF h s2(3,4) kk(2)] obtain s3 where s3: "callback_deref b s2 = Some s3" "ropa_inv env s3 {} (\<lambda>_. 0) (\<lambda>_. 0)" "\<forall>d. same_client st s3 d"
    "ccs s3 = ccs s2" "sent s3 = sent st" "num_clients s3 = num_clients st" "num_callbacks s3 = num_callbacks st" "num_ccpair s3 = num_ccpair st"
    "\<forall>d. fid (cbs s3 d) = fid (cbs s d)" by blast
  have "promises s3 = {(c, f, t + 3600)} \<union> promises s"
  proof -
    have n: "client (ccs s k) = None" using s2(2) by (simp add: inuse_def)
    have "(client (ccs s3 j) = Some c' \<and> cc_cb (ccs s3 j) = Some e \<and> fid (cbs s3 e) = g \<and> expire (ccs s3 j) = u) \<longleftrightarrow>
        (j = k \<and> c' = c \<and> e = b \<and> g = f \<and> u = t + 3600) \<or> (client (ccs s j) = Some c' \<and> cc_cb (ccs s j) = Some e \<and> fid (cbs s e) = g \<and> expire (ccs s j) = u)" for j c' e g u
      using kk n s2(6) s3(4,9) h by (cases "j = k") (auto simp: held_def)
    then show ?thesis by (auto simp: promises_def)
  qed
  then have "ropa_rep ptr N s3 (A\<lparr>promised := ((caddr st c, f), t + 3600) # promised A\<rparr>)" unfolding P
  proof (rule rep_same [OF rep s3(2) env s3(3,6-8)])
    have "(caddr st c, f) \<notin> fst ` set (promised A)" using no rep_promised [OF rep c, of f] by force
    then show "distinct (map fst (promised (A\<lparr>promised := ((caddr st c, f), t + 3600) # promised A\<rparr>)))" using rep by (simp add: ropa_rep_def)
  qed simp_all
  then show ?thesis using s2(1) s3(1,4,5) kk by (simp add: grant_def)
qed

lemma free_pair:
  assumes rep: "ropa_rep ptr N st A" and room: "length (promised A) < num_ccpair st"
  shows "\<exists>d < num_ccpair st. d \<notin> inuse st"
proof (rule ccontr)
  assume "\<not> (\<exists>d < num_ccpair st. d \<notin> inuse st)"
  then have sub: "{..<num_ccpair st} \<subseteq> inuse st" by auto
  have inv: "ropa_inv (ptr_env ptr [] 0) st {} (\<lambda>_. 0) (\<lambda>_. 0)" by (rule ropa_rep_inv [OF rep]) (simp add: ptr_env_def)
  have ki: "kinv (ptr_env ptr [] 0) st {}" using inv by (simp add: ropa_inv_def)
  define g where "g k = (caddr st (the (client (ccs st k))), fid (cbs st (the (cc_cb (ccs st k)))))" for k
  have pk: "\<exists>c b. client (ccs st k) = Some c \<and> cc_cb (ccs st k) = Some b" if "k \<in> inuse st" for k
  proof -
    have "pair_wf st {} k" using ki by (simp add: kinv_def)
    then show ?thesis using that by (auto simp: pair_wf_def inuse_def)
  qed
  have pr: "(c, fid (cbs st b), expire (ccs st k)) \<in> promises st" if "client (ccs st k) = Some c" "cc_cb (ccs st k) = Some b" for k c b
    using that by (auto simp: promises_def)
  have "inj_on g (inuse st)"
  proof (rule inj_onI)
    fix j k assume a: "j \<in> inuse st" "k \<in> inuse st" "g j = g k"
    obtain c b where j: "client (ccs st j) = Some c" "cc_cb (ccs st j) = Some b" using pk [OF a(1)] by blast
    obtain c' b' where k: "client (ccs st k) = Some c'" "cc_cb (ccs st k) = Some b'" using pk [OF a(2)] by blast
    have "c = c'" using inj_onD [OF rep_caddr_inj [OF rep], of c c'] rep_live [OF rep pr [OF j]] rep_live [OF rep pr [OF k]] a(3) j k by (simp add: g_def)
    then show "j = k" using promise_pair [OF inv k, of j b] j a(3) k by (simp add: g_def)
  qed
  moreover have "g ` inuse st \<subseteq> fst ` set (promised A)"
  proof
    fix x assume "x \<in> g ` inuse st"
    then obtain k where k: "k \<in> inuse st" "x = g k" by blast
    obtain c b where c: "client (ccs st k) = Some c" "cc_cb (ccs st k) = Some b" using pk [OF k(1)] by blast
    have "((caddr st c, fid (cbs st b)), expire (ccs st k)) \<in> set (promised A)" using rep_promised [OF rep] rep_live [OF rep] pr [OF c] by blast
    from imageI [OF this, of fst] show "x \<in> fst ` set (promised A)" using k c by (simp add: g_def)
  qed
  ultimately have "card (inuse st) \<le> card (fst ` set (promised A))" by (metis card_image card_mono finite_imageI List.finite_set)
  also have "\<dots> \<le> length (promised A)" by (metis card_image_le card_length le_trans List.finite_set)
  finally have "card (inuse st) < num_ccpair st" using room by simp
  moreover have "card {..<num_ccpair st} \<le> card (inuse st)" by (rule card_mono [OF finite_inuse [OF ki] sub])
  ultimately show False by simp
qed

lemma free_callback:
  assumes rep: "ropa_rep ptr N st A" and room: "length (remdups (map (snd \<circ> fst) (promised A))) < num_callbacks st"
  shows "\<exists>d < num_callbacks st. bcount st d + 0 = 0"
proof (rule ccontr)
  assume "\<not> (\<exists>d < num_callbacks st. bcount st d + 0 = 0)"
  then have sub: "{..<num_callbacks st} \<subseteq> {b. bcount st b > 0}" by auto
  have inv: "ropa_inv (ptr_env ptr [] 0) st {} (\<lambda>_. 0) (\<lambda>_. 0)" by (rule ropa_rep_inv [OF rep]) (simp add: ptr_env_def)
  have bi: "binv st (\<lambda>b. bcount st b + 0)" using inv by (simp add: ropa_inv_def)
  let ?F = "\<lambda>b. fid (cbs st b)" and ?B = "{b. bcount st b > 0}"
  have "?F ` ?B \<subseteq> set (map (snd \<circ> fst) (promised A))"
  proof
    fix f assume "f \<in> ?F ` ?B"
    then obtain c t where p: "(c, f, t) \<in> promises st" using fid_cb [OF inv, of f] by blast
    then have "((caddr st c, f), t) \<in> set (promised A)" using rep_promised [OF rep rep_live [OF rep p]] by simp
    from imageI [OF this, of "snd \<circ> fst"] show "f \<in> set (map (snd \<circ> fst) (promised A))" by simp
  qed
  then have "card (?F ` ?B) \<le> card (set (map (snd \<circ> fst) (promised A)))" by (rule card_mono [rotated]) simp
  moreover have "inj_on ?F ?B" using fid_inj [OF bi] by (auto simp: inj_on_def)
  ultimately have "card ?B < num_callbacks st" using room by (simp add: card_image length_remdups_card_conv)
  moreover have "card {..<num_callbacks st} \<le> card ?B"
    by (rule card_mono [OF _ sub]) (rule finite_subset [of _ "{..<num_callbacks st}"], use bi in \<open>auto simp: binv_def\<close>)
  ultimately show False by simp
qed

definition hold_fid :: "ropa_env \<Rightarrow> afs_fid \<Rightarrow> ropa \<Rightarrow> (nat \<times> ropa) option" where
  "hold_fid env f st = do {
     r \<leftarrow> hashtabsearch (callbacks_cmp st) (callbacks_hash st) (ht_callbacks st) (FidKey f);
     case r of Some (Cb b) \<Rightarrow> do { st \<leftarrow> callback_ref b st; Some (b, st) } | _ \<Rightarrow> obtain_callback env f st }"

lemma hold_fid_ok:
  assumes rep: "ropa_rep ptr N st A" and env: "client_ptr env = ptr"
    and f: "f \<in> set (map (snd \<circ> fst) (promised A)) \<or> length (remdups (map (snd \<circ> fst) (promised A))) < num_callbacks st"
  shows "\<exists>b s. hold_fid env f st = Some (b, s) \<and> held env b f st s"
proof -
  have inv: "ropa_inv env st {} (\<lambda>_. 0) (\<lambda>_. 0)" by (rule ropa_rep_inv [OF rep env])
  show ?thesis
  proof (cases "\<exists>b. bcount st b > 0 \<and> fid (cbs st b) = f")
    case True
    then obtain b where b: "bcount st b + 0 > 0" "fid (cbs st b) = f" by auto
    from hold_callback [OF inv b(1)] obtain s where s: "callback_ref b st = Some s" "ropa_inv env s {} ((\<lambda>_. 0)(b := 0 + 1)) (\<lambda>_. 0)" "bframe st s" "quiet st s"
      "\<forall>d. fid (cbs s d) = fid (cbs st d)" by blast
    then show ?thesis using cb_search_hit [OF inv b(1)] b(2)
      by (intro exI [of _ b] exI [of _ s]) (simp add: hold_fid_def held_def bframe_def quiet_def)
  next
    case False
    have "f \<notin> set (map (snd \<circ> fst) (promised A))"
    proof
      assume "f \<in> set (map (snd \<circ> fst) (promised A))"
      then obtain x where x: "x \<in> set (promised A)" "snd (fst x) = f" by auto
      have "set (promised A) = (\<lambda>(c, f, t). ((caddr st c, f), t)) ` promises st" using rep by (simp add: ropa_rep_def)
      then obtain y where y: "y \<in> promises st" "(\<lambda>(c, f, t). ((caddr st c, f), t)) y = x" using x(1) by (metis (no_types, lifting) imageE)
      obtain c g t where "y = (c, g, t)" by (cases y)
      then have "(c, f, t) \<in> promises st" using y x(2) by auto
      then have "\<exists>c t. (c, f, t) \<in> promises st" by (intro exI)
      then show False unfolding fid_cb [OF inv] using False by contradiction
    qed
    then have "length (remdups (map (snd \<circ> fst) (promised A))) < num_callbacks st" using f by (simp only: simp_thms)
    from free_callback [OF rep this] obtain d where d: "d < num_callbacks st" "bcount st d + 0 = 0" by (elim exE conjE)
    have no: "\<forall>b. bcount st b + 0 > 0 \<longrightarrow> fid (cbs st b) \<noteq> f" using False by (auto simp del: not_gr_zero)
    from obtain_callback_ok [OF inv d no] obtain b s where s: "obtain_callback env f st = Some (b, s)" "bcount st b + 0 = 0"
      "ropa_inv env s {} ((\<lambda>_. 0)(b := 1)) (\<lambda>_. 0)" "bframe st s" "quiet st s" "fid (cbs s b) = f" "\<forall>d. d \<noteq> b \<longrightarrow> fid (cbs s d) = fid (cbs st d)" by (elim exE conjE)
    have "\<forall>d. bcount st d > 0 \<longrightarrow> fid (cbs s d) = fid (cbs st d)"
    proof (intro allI impI)
      show "fid (cbs s d) = fid (cbs st d)" if "bcount st d > 0" for d using s(2,7) that by (cases "d = b") simp_all
    qed
    then show ?thesis using s cb_search_miss [OF inv no]
      by (intro exI [of _ b] exI [of _ s]) (simp add: hold_fid_def held_def bframe_def quiet_def)
  qed
qed

lemma getcallback_unfold:
  "ropa_getcallback env host p f rwvol st = do {
     (r, st) \<leftarrow> client_query env host p st;
     case r of
       None \<Rightarrow> Some (0, update_callback_time DEFAULT_TIMEOUT CBSHARED, st)
     | Some c \<Rightarrow> do {
         (b, st) \<leftarrow> hold_fid env (fid_key f rwvol) st;
         (k, st) \<leftarrow> grant env b c st;
         let (cb, st) = update_callback env k CBSHARED st;
         Some (0, cb, st) } }"
  by (simp add: ropa_getcallback_def hold_fid_def grant_def fid_key_def [symmetric] Let_def case_prod_unfold cong: option.case_cong)

lemma get_refines:
  assumes rep: "ropa_rep ptr N st A" and sp: "spec_get N (host, p) u (fid_key f rwvol) now0 A = Some (t, n, A')"
  shows "\<exists>st'. ropa_getcallback (ptr_env ptr u now0) host p f rwvol st = Some (0, update_callback_time (to_int32 (t - now0)) CBSHARED, st') \<and>
    ropa_rep ptr N st' A' \<and> length (sent st') = length (sent st) + n"
proof -
  let ?env = "ptr_env ptr u now0" and ?f = "fid_key f rwvol"
  have env: "client_ptr ?env = ptr" "answers ?env host u" "\<forall>n. now ?env n = now0" by (simp_all add: ptr_env_def answers_def)
  obtain B where B: "enlist (fst N) (host, p) u A = Some (n, B)" using sp by (auto simp: spec_get_def bind_eq_Some_conv split: option.splits if_splits)
  from enlist_refines [OF rep env(1,2) B] obtain c s where q: "client_query ?env host p st = Some (Some c, s)" "ropa_rep ptr N s B" "live s c" "caddr s c = (host, p)"
    "length (sent s) = length (sent st) + n" by blast
  have dist: "distinct (map fst (promised B))" and N: "N = (num_clients s, num_callbacks s, num_ccpair s)" using q(2) by (simp_all add: ropa_rep_def)
  have pr: "map_of (promised B) ((host, p), ?f) = Some v \<longleftrightarrow> (c, ?f, v) \<in> promises s" for v
    using rep_promised [OF q(2,3), of ?f v] q(4) dist by simp
  have "\<exists>b s1 k s3. hold_fid ?env ?f s = Some (b, s1) \<and> grant ?env b c s1 = Some (k, s3) \<and> ropa_rep ptr N s3 A' \<and> expire (ccs s3 k) = t \<and> sent s3 = sent s"
  proof (cases "map_of (promised B) ((host, p), ?f)")
    case (Some v)
    then have v: "t = v" "A' = B" using sp B by (simp_all add: spec_get_def)
    have v3: "(c, ?f, v) \<in> promises s" using Some pr by simp
    from rep_promised [OF q(2,3), of ?f v] v3 have "((caddr s c, ?f), v) \<in> set (promised B)" by simp
    from imageI [OF this, of "snd \<circ> fst"] have "?f \<in> set (map (snd \<circ> fst) (promised B))" by simp
    from hold_fid_ok [OF q(2) env(1) disjI1 [OF this]] obtain b s1 where h: "hold_fid ?env ?f s = Some (b, s1)" "held ?env b ?f s s1" by blast
    from grant_known [OF q(2) env(1) h(2) v3] show ?thesis using h(1) v(1,2) by blast
  next
    case None
    then have g: "length (promised B) < num_ccpair s" "0 \<le> now0 + 3600" "now0 + 3600 < 2 ^ 31"
      "?f \<in> set (map (snd \<circ> fst) (promised B)) \<or> length (remdups (map (snd \<circ> fst) (promised B))) < num_callbacks s"
      "t = now0 + 3600" "A' = B\<lparr>promised := (((host, p), ?f), now0 + 3600) # promised B\<rparr>"
      using sp B N by (auto simp: spec_get_def split: if_splits)
    have no: "\<forall>v. (c, ?f, v) \<notin> promises s" using None pr by (metis option.distinct(1))
    obtain d where d: "d < num_ccpair s" "d \<notin> inuse s" using free_pair [OF q(2) g(1)] by blast
    from hold_fid_ok [OF q(2) env(1) g(4)] obtain b s1 where h: "hold_fid ?env ?f s = Some (b, s1)" "held ?env b ?f s s1" by blast
    from grant_new [OF q(2) env(1) h(2) q(3) no d env(3) g(2,3)] show ?thesis unfolding q(4) using h(1) g(5,6) by blast
  qed
  then obtain b s1 k s3 where h: "hold_fid ?env ?f s = Some (b, s1)" "grant ?env b c s1 = Some (k, s3)" "ropa_rep ptr N s3 A'" "expire (ccs s3 k) = t" "sent s3 = sent s" by blast
  have "ropa_getcallback ?env host p f rwvol st = Some (0, update_callback_time (to_int32 (t - now0)) CBSHARED, s3\<lparr>ncalls := ncalls s3 + 1\<rparr>)"
    unfolding getcallback_unfold using q(1) h(1,2,4) env(3) by (simp add: update_callback_def ext_call_def)
  then show ?thesis using rep_ncalls [OF h(3)] h(5) q(5) by simp
qed

section \<open>Operations\<close>

datatype ropa_op =
    Get u32 u16 afs_fid bool bytes int
  | Break u32 u16 afs_fid bool
  | BreakVolume u32
  | Drop u32 u16 "afs_fid list" bytes
  | Clean int

text \<open>The result, the callback that a client gets and the number of messages sent.\<close>

type_synonym ropa_out = "int \<times> (int \<times> int \<times> int) option \<times> nat"

fun ropa_step :: "(nat \<Rightarrow> u32) \<Rightarrow> ropa_op \<Rightarrow> ropa \<Rightarrow> (ropa_out \<times> ropa) option" where
  "ropa_step ptr (Get h p f rwvol u now0) st = do {
     (r, cb, st') \<leftarrow> ropa_getcallback (ptr_env ptr u now0) h p f rwvol st;
     Some ((r, Some cb, length (sent st') - length (sent st)), st') }"
| "ropa_step ptr (Break a p f own) st = do {
     st' \<leftarrow> ropa_break_callback (ptr_env ptr [] 0) a p f own st;
     Some ((0, None, length (sent st') - length (sent st)), st') }"
| "ropa_step ptr (BreakVolume v) st = do {
     st' \<leftarrow> ropa_break_volume_callback (ptr_env ptr [] 0) v st;
     Some ((0, None, length (sent st') - length (sent st)), st') }"
| "ropa_step ptr (Drop a p fs u) st = do {
     (r, st') \<leftarrow> ropa_drop_callbacks (ptr_env ptr u 0) a p fs st;
     Some ((r, None, length (sent st') - length (sent st)), st') }"
| "ropa_step ptr (Clean now0) st = do {
     st' \<leftarrow> heapcleaner (Suc (num_ccpair st)) (ptr_env ptr [] now0) st;
     Some ((0, None, length (sent st') - length (sent st)), st') }"

fun spec_step :: "nat \<times> nat \<times> nat \<Rightarrow> ropa_op \<Rightarrow> ropa_spec \<Rightarrow> (ropa_out \<times> ropa_spec) option" where
  "spec_step N (Get h p f rwvol u now0) A = do {
     (t, n, A) \<leftarrow> spec_get N (h, p) u (fid_key f rwvol) now0 A;
     Some ((0, Some (CALLBACK_VERSION, to_int32 (t - now0), CBSHARED), n), A) }"
| "spec_step N (Break h p f own) A =
     (if map_of (known A) (h, p) = None then Some ((0, None, 0), A)
      else let (n, A) = spec_break (Some (h, p)) f own A in Some ((0, None, n), A))"
| "spec_step N (BreakVolume v) A =
     (let (n, A) = spec_break None \<lparr>Volume = v, Vnode = 0, Unique = 0\<rparr> False A in Some ((0, None, n), A))"
| "spec_step N (Drop h p fs u) A =
     (if length fs > AFSCBMAX then Some ((EINVAL, None, 0), A)
      else do {
        (n, A) \<leftarrow> enlist (fst N) (h, p) u A;
        Some ((0, None, n), fold (spec_drop (h, p)) fs A) })"
| "spec_step N (Clean now0) A = (let (n, A) = spec_clean now0 A in Some ((0, None, n), A))"

lemma env_facts [simp]: "client_ptr (ptr_env ptr u t) = ptr" "env_ok (ptr_env ptr u t)" "answers (ptr_env ptr u t) h u" "now (ptr_env ptr u t) m = t"
  by (simp_all add: ptr_env_def env_ok_def answers_def)

lemma break_refines:
  assumes rep: "ropa_rep ptr N st A" and sp: "spec_step N (Break h p f own) A = Some (r, A')"
  shows "\<exists>st'. ropa_step ptr (Break h p f own) st = Some (r, st') \<and> ropa_rep ptr N st' A'"
proof (cases "map_of (known A) (h, p) = None")
  case True
  then have "\<forall>c. live st c \<longrightarrow> caddr st c \<noteq> (h, p)" using rep_known [OF rep, of "(h, p)"] by auto
  from notalkback_unknown [OF rep_cinv [OF rep] this] show ?thesis using sp True rep by (simp add: ropa_break_callback_def)
next
  case False
  then obtain c where c: "live st c" "caddr st c = (h, p)" using rep_known [OF rep, of "(h, p)"] by auto
  from break_fid_refines [OF rep, of "ptr_env ptr [] 0" "Some c" f own] c obtain r0 st' where
    st': "break_fid (ptr_env ptr [] 0) f (Some c) own st = Some (r0, st')" "ropa_rep ptr N st' (snd (spec_break (Some (h, p)) f own A))"
      "length (sent st') = length (sent st) + fst (spec_break (Some (h, p)) f own A)" by auto
  then show ?thesis using notalkback_known [OF rep_cinv [OF rep] c] sp False by (auto simp: ropa_break_callback_def case_prod_unfold Let_def)
qed

lemma drop_refines:
  assumes rep: "ropa_rep ptr N st A" and sp: "spec_step N (Drop h p fs u) A = Some (r, A')"
  shows "\<exists>st'. ropa_step ptr (Drop h p fs u) st = Some (r, st') \<and> ropa_rep ptr N st' A'"
proof (cases "length fs > AFSCBMAX")
  case True
  then show ?thesis using sp rep by (simp add: ropa_drop_callbacks_def)
next
  case False
  then obtain n B where B: "enlist (fst N) (h, p) u A = Some (n, B)" "A' = fold (spec_drop (h, p)) fs B" "r = (0, None, n)"
    using sp by (auto simp: bind_eq_Some_conv)
  from enlist_refines [OF rep _ _ B(1), of "ptr_env ptr u 0"] obtain c s where q: "client_query (ptr_env ptr u 0) h p st = Some (Some c, s)" "ropa_rep ptr N s B" "live s c"
    "caddr s c = (h, p)" "length (sent s) = length (sent st) + n" by auto
  have "drop_client s B c (h, p)" using q(3,4) by (simp add: drop_client_def)
  from drop_loop_refines [OF q(2) _ this, of "ptr_env ptr u 0" fs] obtain st' where st': "drop_loop (ptr_env ptr u 0) c fs s = Some st'"
    "ropa_rep ptr N st' A'" "length (sent st') = length (sent s)" using B(2) by auto
  then show ?thesis using q(1,5) False B(3) by (simp add: ropa_drop_callbacks_def)
qed

lemma inuse_bound: "ropa_rep ptr N st A \<Longrightarrow> card (inuse st) < Suc (num_ccpair st)"
proof -
  assume rep: "ropa_rep ptr N st A"
  have ki: "kinv (ptr_env ptr [] 0) st {}" using ropa_rep_inv [OF rep, of "ptr_env ptr [] 0"] by (simp add: ropa_inv_def)
  have "inuse st \<subseteq> {..<num_ccpair st}" using ki by (auto simp: kinv_def pair_wf_def)
  from card_mono [OF _ this] show ?thesis by simp
qed

interpretation ropa_db: simulation "ropa_rep ptr N" "ropa_step ptr" "spec_step N" for ptr N
proof unfold_locales
  fix st A p r A'
  assume rep: "ropa_rep ptr N st A" and sp: "spec_step N p A = Some (r, A')"
  show "\<exists>st'. ropa_step ptr p st = Some (r, st') \<and> ropa_rep ptr N st' A'"
  proof (cases p)
    case (Get h q f rwvol u now0)
    then obtain t n where g: "spec_get N (h, q) u (fid_key f rwvol) now0 A = Some (t, n, A')" "r = (0, Some (CALLBACK_VERSION, to_int32 (t - now0), CBSHARED), n)"
      using sp by (auto simp: bind_eq_Some_conv)
    from get_refines [OF rep g(1)] show ?thesis using Get g(2) by (auto simp: update_callback_time_def)
  next
    case (BreakVolume v)
    from break_fid_refines [OF rep, of "ptr_env ptr [] 0" None "\<lparr>Volume = v, Vnode = 0, Unique = 0\<rparr>" False] show ?thesis
      using BreakVolume sp by (auto simp: ropa_break_volume_callback_def case_prod_unfold Let_def)
  next
    case (Clean now0)
    from heapcleaner_refines [OF rep _ _ _ inuse_bound [OF rep], of "ptr_env ptr [] now0" now0] show ?thesis
      using Clean sp by (auto simp: case_prod_unfold Let_def simp del: heapcleaner.simps)
  qed (use break_refines [OF rep] drop_refines [OF rep] sp in \<open>blast, blast\<close>)
qed

section \<open>The empty database\<close>

definition row :: "nat \<Rightarrow> nat \<Rightarrow> (nat \<times> nat) list" where
  "row m n = map (\<lambda>i. (m + i + 1, i)) [0..<n]"

lemma row_Suc: "row m (Suc n) = row m n @ [(m + n + 1, n)]"
  by (simp add: row_def)

lemma row_items: "m + n \<le> m' \<Longrightarrow> \<forall>k < n. li k = m + k + 1 \<Longrightarrow> items_ok n m' (row m n) li"
  by (auto simp: items_ok_def row_def distinct_map inj_on_def comp_def)

lemma row_free: "\<forall>k. \<not> P k \<Longrightarrow> lru_sorted P (row m n)"
  unfolding lru_sorted_def by (intro exI [of _ "[]"] exI [of _ "row m n"]) simp

lemma client_row:
  "fold client_addtail [0..<n] st = st\<lparr>clients := (\<lambda>c. if c < n then (clients st c)\<lparr>cli := nitems st + c + 1\<rparr> else clients st c),
     nitems := nitems st + n, lru_clients := lru_clients st @ row (nitems st) n\<rparr>"
  by (induction n) (auto simp: row_def client_addtail_def Let_def fun_eq_iff intro!: ropa.equality)

lemma cb_row:
  "fold cb_addtail [0..<n] st = st\<lparr>cbs := (\<lambda>c. if c < n then (cbs st c)\<lparr>cbli := nitems st + c + 1\<rparr> else cbs st c),
     nitems := nitems st + n, lru_callback := lru_callback st @ row (nitems st) n\<rparr>"
  by (induction n) (auto simp: row_def cb_addtail_def Let_def fun_eq_iff intro!: ropa.equality)

lemma cc_row:
  "fold cc_addtail [0..<n] st = st\<lparr>ccs := (\<lambda>c. if c < n then (ccs st c)\<lparr>ccli := nitems st + c + 1\<rparr> else ccs st c),
     nitems := nitems st + n, lru_ccpair := lru_ccpair st @ row (nitems st) n\<rparr>"
  by (induction n) (auto simp: row_def cc_addtail_def Let_def fun_eq_iff intro!: ropa.equality)

lemma init_rep:
  assumes pos: "hcb > 0" "hcli > 0" "hcc > 0"
  shows "\<exists>st. ropa_init nb nc nk hcb hcli hcc = Some st \<and> ropa_rep ptr (nc, nb, nk) st \<lparr>known = [], promised = []\<rparr> \<and> sent st = []"
proof -
  obtain tcb :: "cb_ref hashtab" where tcb: "hashtabnew (\<lambda>_. True) hcb = Some (Some tcb)" using pos by (simp add: hashtabnew_def hashtabnewf_def)
  obtain tip :: "addr_ref hashtab" where tip: "hashtabnew (\<lambda>_. True) hcli = Some (Some tip)" using pos by (simp add: hashtabnew_def hashtabnewf_def)
  obtain tuu :: "client_ref hashtab" where tuu: "hashtabnew (\<lambda>_. True) hcli = Some (Some tuu)" using pos by (simp add: hashtabnew_def hashtabnewf_def)
  obtain tcc :: "cc_ref hashtab" where tcc: "hashtabnew (\<lambda>_. True) hcc = Some (Some tcc)" using pos by (simp add: hashtabnew_def hashtabnewf_def)
  obtain h :: "nat heap" where h: "heap_new (True, True) nk (\<lambda>_ _. 0) (\<lambda>_. 0) = Some (Some h)" by (simp add: heap_new_def)
  define st where "st = \<lparr>clients = (\<lambda>c. if c < nc then zero_client\<lparr>cli := c + 1\<rparr> else zero_client),
    cbs = (\<lambda>b. if b < nb then zero_cb\<lparr>cbli := nc + b + 1\<rparr> else zero_cb), ccs = (\<lambda>k. if k < nk then zero_cc\<lparr>ccli := nc + nb + k + 1\<rparr> else zero_cc),
    ht_clients_ip = tip, ht_clients_uuid = tuu, ht_callbacks = tcb, ht_ccpairs = tcc,
    lru_clients = row 0 nc, lru_ccpair = row (nc + nb) nk, lru_callback = row nc nb, heap_ccpairs = h,
    num_clients = nc, num_callbacks = nb, num_ccpair = nk, nitems = nc + nb + nk, ncalls = 0, sent = []\<rparr>"
  have init: "ropa_init nb nc nk hcb hcli hcc = Some st"
    using tip tuu by (simp add: ropa_init_def tcb tcc h create_clients_def create_callbacks_def create_ccpairs_def client_row cb_row cc_row st_def Let_def cong: if_cong)
  have f: "clients st = (\<lambda>c. if c < nc then zero_client\<lparr>cli := c + 1\<rparr> else zero_client)" "ht_clients_ip st = tip" "ht_clients_uuid st = tuu"
    "cbs st = (\<lambda>b. if b < nb then zero_cb\<lparr>cbli := nc + b + 1\<rparr> else zero_cb)" "ht_callbacks st = tcb" "ht_ccpairs st = tcc"
    "ccs st = (\<lambda>k. if k < nk then zero_cc\<lparr>ccli := nc + nb + k + 1\<rparr> else zero_cc)" "heap_ccpairs st = h"
    "lru_clients st = row 0 nc" "lru_ccpair st = row (nc + nb) nk" "lru_callback st = row nc nb"
    "num_clients st = nc" "num_callbacks st = nb" "num_ccpair st = nk" "nitems st = nc + nb + nk" "sent st = []" by (simp_all add: st_def)
  have dead: "\<not> live st c" for c by (simp add: live_def f zero_client_def)
  have nopair: "client (ccs st k) = None" "cc_cb (ccs st k) = None" "cb_li (ccs st k) = 0" "ccpairs (cbs st b) = []" for k b
    by (simp_all add: f zero_cc_def zero_cb_def)
  have none: "inuse st = {}" "pcount st c = 0" "bcount st b = 0" "promises st = {}" "Collect (live st) = {}" for b c
    by (simp_all add: inuse_def pcount_def bcount_def promises_def nopair dead)
  have wf: "client_wf st c" for c using dead by (simp add: client_wf_def f zero_client_def)
  have "cinv st (\<lambda>c. pcount st c + 0)"
    using wf dead new_set [OF tuu, of "clients_hash_uuid st" "uuid_key st"] new_set [OF tip, of "clients_hash_ip st" "ip_key st"]
    unfolding cinv_def client_tabs_def none f(2,3,9,12,15) by (auto simp: f(1) zero_client_def intro!: row_items row_free)
  moreover have "binv st (\<lambda>b. bcount st b + 0)"
    using new_set [OF tcb, of "callbacks_hash st" "ref_fid st"]
    unfolding binv_def none f(5,11,13,15) by (auto simp: f(4) zero_cb_def intro!: row_items row_free)
  moreover have "kinv env st {}" for env
    using new_set [OF tcc, of "ccpairs_hash env st" "cc_pair st"] heap_new_inv(3) [OF h] heap_new_inv(1) [OF h, of "\<lambda>k. expire (ccs st k)" "expire_ok st"]
    unfolding kinv_def none pair_wf_def f(6,8,10,14,15) nopair
    by (auto simp: blink_def nopair items_ok_def [of _ _ "[]"] f(7) zero_cc_def intro!: row_items row_free)
  ultimately have "ropa_inv env st {} (\<lambda>_. 0) (\<lambda>_. 0)" for env unfolding ropa_inv_def by blast
  then show ?thesis using init none f(12-14,16) by (auto simp: ropa_rep_def)
qed

section \<open>Properties\<close>

text \<open>
  C1: from \<open>ropa_init\<close>, every sequence of promises, breaks, drops and cleanings that the
  specification allows returns without an abort, with the answers and the numbers of messages of the
  specification; the promises and the clients known at the end, by address, are those of the
  specification.
\<close>

theorem ropa_history_refines:
  assumes "hcb > 0" "hcli > 0" "hcc > 0" and "run_ops (spec_step (nc, nb, nk)) ops \<lparr>known = [], promised = []\<rparr> = Some (rs, A)"
  shows "\<exists>st st'. ropa_init nb nc nk hcb hcli hcc = Some st \<and> run_ops (ropa_step ptr) ops st = Some (rs, st') \<and>
    (\<lambda>(c, f, t). ((caddr st' c, f), t)) ` promises st' = set (promised A) \<and>
    caddr st' ` Collect (live st') = fst ` set (known A)"
proof -
  obtain st where st: "ropa_init nb nc nk hcb hcli hcc = Some st" "ropa_rep ptr (nc, nb, nk) st \<lparr>known = [], promised = []\<rparr>"
    using init_rep [OF assms(1-3), of nb nc nk ptr] by blast
  from ropa_db.run_refines [OF st(2) assms(4)] obtain st' where st': "run_ops (ropa_step ptr) ops st = Some (rs, st')" "ropa_rep ptr (nc, nb, nk) st' A" by blast
  have "fst ` set (known A) = caddr st' ` Collect (live st')" using st'(2) by (simp add: ropa_rep_def image_image)
  then show ?thesis using st(1) st' by (auto simp: ropa_rep_def)
qed

theorem ropa_history_refines_witness:
  "\<exists>st st'. ropa_init 3 2 3 2 2 2 = Some st \<and>
    run_ops (ropa_step (\<lambda>_. 0))
      [Get 1 7001 \<lparr>Volume = 1, Vnode = 2, Unique = 3\<rparr> True [1, 2, 3, 4, 5, 6] 100,
       Get 2 7001 \<lparr>Volume = 1, Vnode = 2, Unique = 3\<rparr> True [1, 2, 3, 4, 5, 7] 200,
       Get 1 7001 \<lparr>Volume = 1, Vnode = 4, Unique = 9\<rparr> True [] 300,
       Break 2 7001 \<lparr>Volume = 1, Vnode = 2, Unique = 3\<rparr> False,
       Clean 3750, Drop 1 7001 [\<lparr>Volume = 1, Vnode = 4, Unique = 9\<rparr>] []] st =
      Some ([(0, Some (1, 3600, 2), 2), (0, Some (1, 3600, 2), 2), (0, Some (1, 3600, 2), 0), (0, None, 1), (0, None, 0), (0, None, 0)], st') \<and>
    (\<lambda>(c, f, t). ((caddr st' c, f), t)) ` promises st' = {(((2, 7001), \<lparr>Volume = 1, Vnode = 2, Unique = 3\<rparr>), 3800)} \<and>
    caddr st' ` Collect (live st') = {(2, 7001)}"
proof -
  let ?ops = "[Get 1 7001 \<lparr>Volume = 1, Vnode = 2, Unique = 3\<rparr> True [1, 2, 3, 4, 5, 6] 100,
       Get 2 7001 \<lparr>Volume = 1, Vnode = 2, Unique = 3\<rparr> True [1, 2, 3, 4, 5, 7] 200,
       Get 1 7001 \<lparr>Volume = 1, Vnode = 4, Unique = 9\<rparr> True [] 300,
       Break 2 7001 \<lparr>Volume = 1, Vnode = 2, Unique = 3\<rparr> False,
       Clean 3750, Drop 1 7001 [\<lparr>Volume = 1, Vnode = 4, Unique = 9\<rparr>] []]"
  let ?A = "\<lparr>known = [((2, 7001), [1, 2, 3, 4, 5, 7])], promised = [(((2, 7001), \<lparr>Volume = 1, Vnode = 2, Unique = 3\<rparr>), 3800)]\<rparr>"
  have "run_ops (spec_step (2, 3, 3)) ?ops \<lparr>known = [], promised = []\<rparr> =
    Some ([(0, Some (1, 3600, 2), 2), (0, Some (1, 3600, 2), 2), (0, Some (1, 3600, 2), 0), (0, None, 1), (0, None, 0), (0, None, 0)], ?A)"
    by code_simp
  from ropa_history_refines [OF _ _ _ this, of 2 2 2 "\<lambda>_. 0"] show ?thesis by simp
qed





section \<open>Limits of the specification\<close>

text \<open>
  The histories that the specification leaves out are not idle: a second client when the table has
  room for one only ends the server.
\<close>

theorem ropa_full_client_table_aborts:
  "do { st \<leftarrow> ropa_init 1 1 1 1 1 1;
        run_ops (ropa_step (\<lambda>_. 0))
          [Get 1 7001 \<lparr>Volume = 1, Vnode = 2, Unique = 3\<rparr> True [1, 2, 3, 4, 5, 6] 0,
           Get 2 7001 \<lparr>Volume = 1, Vnode = 2, Unique = 3\<rparr> True [1, 2, 3, 4, 5, 7] 0] st } = None"
  by code_simp

text \<open>
  A slot that is disconnected and filled again keeps the connection of the client it held before: the
  breaks of the new client's promises are sent to the old one.
\<close>

lemma disconnect_addrs_conn: "disconnect_addrs c is st = Some st' \<Longrightarrow> conn (clients st' d) = conn (clients st d)"
  by (induction "is" arbitrary: st) (auto simp: ip_del_def bind_eq_Some_conv clear_addr_def Let_def split: if_splits)

lemma del_addrs_conn: "del_addrs c is st = Some st' \<Longrightarrow> conn (clients st' d) = conn (clients st d)"
  by (induction "is" arbitrary: st) (auto simp: ip_del_def bind_eq_Some_conv clear_addr_def Let_def split: if_splits)

lemma disconnect_client_conn: "disconnect_client c st = Some st' \<Longrightarrow> conn (clients st' d) = conn (clients st d)"
  by (auto simp: disconnect_client_def bind_eq_Some_conv client_unlink_def client_addtail_def Let_def dest!: disconnect_addrs_conn [of _ _ _ _ d] split: if_splits)

theorem ropa_break_reaches_previous_client:
  assumes "conn (clients st c) = Conn a q" and "disconnect_client c st = Some s" and "client_init c host p u None s = Some s'" and "env_ok env"
  shows "\<exists>s''. notify_client env c fids s' = Some s'' \<and> sent s'' = sent s' @ [CallBackRPC a q fids 0]"
proof -
  have "conn (clients s' c) = Conn a q" using assms(1,3) disconnect_client_conn [OF assms(2), of c]
    by (auto simp: client_init_def bind_eq_Some_conv ip_add_def set_addr_def Let_def dest!: del_addrs_conn [of _ _ _ _ c] split: option.splits if_splits)
  then show ?thesis using assms(4) by (simp add: notify_client_def callback_rpc_def ext_call_def env_ok_def)
qed

end
