(* ===== verification/Pts.thy ===== *)
theory Pts
  imports Milko_Prelude
begin

text \<open>
  The protection server: \<open>milko/pts/ptserver.c\<close> and \<open>milko/pts/pr.c\<close>, with the wrapper of the
  database library, \<open>milko/lib/mdb\<close>. Users and groups are entries in a database keyed by number; a
  second database translates names to numbers; a group and its members are on each other's lists.
\<close>

section \<open>Data\<close>

type_synonym i32 = "32 word"

definition PR_MAXNAMELEN :: nat where "PR_MAXNAMELEN = 64"
definition PR_MAXGROUPS :: nat where "PR_MAXGROUPS = 5000"
definition PR_MAXLIST :: nat where "PR_MAXLIST = 5000"
definition PRSIZE :: nat where "PRSIZE = 10"

definition PR_SYSADMINID :: i32 where "PR_SYSADMINID = - 204"
definition PR_ANYUSERID :: i32 where "PR_ANYUSERID = - 101"
definition PR_AUTHUSERID :: i32 where "PR_AUTHUSERID = - 102"
definition PR_ANONYMOUSID :: i32 where "PR_ANONYMOUSID = 32766"
definition ILLEGAL_ID :: i32 where "ILLEGAL_ID = 0x40000000"

definition PRTYPE :: i32 where "PRTYPE = 0x3f"
definition PRUSER :: i32 where "PRUSER = 0"
definition PRGRP :: i32 where "PRGRP = 2"

definition PREXIST :: int where "PREXIST = 267264"
definition PRNOENT :: int where "PRNOENT = 267268"
definition PRPERM :: int where "PRPERM = 267269"
definition PRDBBAD :: int where "PRDBBAD = 267275"
definition PRTOOMANY :: int where "PRTOOMANY = 267279"

lemmas pr_errors = PREXIST_def PRNOENT_def PRPERM_def PRDBBAD_def PRTOOMANY_def

record prheader_disk =
  version :: i32
  headerSize :: i32
  maxGroup :: i32
  maxID :: i32
  orphan :: "i32 list"
  usercount :: i32
  groupcount :: i32

record prentry_disk =
  d_flags :: i32
  d_id :: i32
  d_cellid :: i32
  d_owner :: i32
  d_creator :: i32
  d_ngroups :: i32
  d_owned :: "i32 list"
  d_name :: bytes
  d_entries :: "i32 list"

text \<open>
  The fields of \<open>prentry\<close> that the server reads or writes; the links of the on-disk format of other
  servers stay zero.
\<close>

record prentry =
  p_flags :: i32
  p_id :: i32
  p_cellid :: i32
  p_reserved :: "i32 list"
  p_entries :: "i32 list"
  p_owner :: i32
  p_creator :: i32
  p_ngroups :: i32
  p_nusers :: i32
  p_count :: i32
  p_owned :: i32
  p_name :: bytes

record prcheckentry =
  c_flags :: i32
  c_id :: i32
  c_owner :: i32
  c_creator :: i32
  c_ngroups :: i32
  c_nusers :: i32
  c_count :: i32
  c_reserved :: "i32 list"
  c_name :: bytes

definition zero_prentry :: prentry where
  "zero_prentry = \<lparr>p_flags = 0, p_id = 0, p_cellid = 0, p_reserved = replicate 5 0, p_entries = replicate PRSIZE 0,
     p_owner = 0, p_creator = 0, p_ngroups = 0, p_nusers = 0, p_count = 0, p_owned = 0, p_name = []\<rparr>"

definition zero_prentry_disk :: prentry_disk where
  "zero_prentry_disk = \<lparr>d_flags = 0, d_id = 0, d_cellid = 0, d_owner = 0, d_creator = 0, d_ngroups = 0, d_owned = [],
     d_name = [], d_entries = []\<rparr>"

text \<open>
  What is not part of the server: the GNU database library (stores are \<open>GDBM_REPLACE\<close>), the marshalling
  code that the build generates from \<open>rxdef/pts.xg\<close>, the memory allocator, the realm and the
  identity of the caller. \<open>room n\<close> is the number of elements that fit into the block the decoder
  allocates for a list of \<open>n\<close> elements; \<open>behind xs\<close> is what is found in memory behind the list.
\<close>

record 'd pr_env =
  gdbm_store :: "'d \<Rightarrow> bytes \<Rightarrow> bytes \<Rightarrow> int \<times> 'd"
  gdbm_fetch :: "'d \<Rightarrow> bytes \<Rightarrow> bytes option"
  ydr_encode_prentry_disk :: "prentry_disk \<Rightarrow> bytes option"
  ydr_decode_prentry_disk :: "bytes \<Rightarrow> prentry_disk option"
  ydr_encode_prheader_disk :: "prheader_disk \<Rightarrow> bytes option"
  ydr_decode_prheader_disk :: "bytes \<Rightarrow> prheader_disk option"
  room :: "nat \<Rightarrow> nat"
  behind :: "i32 list \<Rightarrow> i32"
  mem_ok :: "nat \<Rightarrow> bool"
  realm :: "bytes option"
  superuser :: bool

record 'd prdb =
  idtodata :: 'd
  nametoid :: 'd
  pr_header :: prheader_disk

section \<open>The database library\<close>

definition NDBM_store :: "'d pr_env \<Rightarrow> 'd \<Rightarrow> bytes \<Rightarrow> bytes \<Rightarrow> int \<times> 'd" where
  "NDBM_store env db key val = gdbm_store env db key val"

definition NDBM_fetch :: "'d pr_env \<Rightarrow> 'd \<Rightarrow> bytes \<Rightarrow> int \<times> bytes option" where
  "NDBM_fetch env db key = (case gdbm_fetch env db key of None \<Rightarrow> (ENOENT, None) | Some v \<Rightarrow> (0, Some v))"

definition mdb_store :: "'d pr_env \<Rightarrow> 'd \<Rightarrow> bytes \<Rightarrow> bytes \<Rightarrow> int \<times> 'd" where
  "mdb_store env db key val = NDBM_store env db key val"

definition mdb_fetch :: "'d pr_env \<Rightarrow> 'd \<Rightarrow> bytes \<Rightarrow> int \<times> bytes option" where
  "mdb_fetch env db key = NDBM_fetch env db key"

section \<open>Strings\<close>

text \<open>A C string is the list of its bytes without the terminating zero.\<close>

definition cstring :: "string \<Rightarrow> bytes" where
  "cstring s = map of_char s"

definition strlcpy :: "bytes \<Rightarrow> nat \<Rightarrow> bytes" where
  "strlcpy s n = take (n - 1) s"

definition tolower :: "byte \<Rightarrow> byte" where
  "tolower c = (if 65 \<le> c \<and> c \<le> 90 then c + 32 else c)"

definition strlwr :: "bytes \<Rightarrow> bytes" where
  "strlwr s = map tolower s"

fun digits :: "nat \<Rightarrow> bytes" where
  "digits n = (if n < 10 then [of_nat (48 + n)] else digits (n div 10) @ [of_nat (48 + n mod 10)])"

definition print_int :: "i32 \<Rightarrow> bytes" where
  "print_int w = (if sint w < 0 then 45 # digits (nat (- sint w)) else digits (nat (sint w)))"

section \<open>Header\<close>

text \<open>
  The key of the header is the first byte of the number in memory, as the variable is a \<open>char\<close>; on a
  little-endian host it is hexadecimal 80.
\<close>

definition headerid :: bytes where
  "headerid = [0x80]"

definition write_header :: "'d pr_env \<Rightarrow> 'd prdb \<Rightarrow> 'd prdb option" where
  "write_header env st = do {
     v \<leftarrow> ydr_encode_prheader_disk env (pr_header st);
     let (code, db) = mdb_store env (idtodata st) headerid v;
     cassert (code = 0);
     Some (st\<lparr>idtodata := db\<rparr>) }"

definition read_header :: "'d pr_env \<Rightarrow> 'd prdb \<Rightarrow> 'd prdb option" where
  "read_header env st = do {
     let (code, v) = mdb_fetch env (idtodata st) headerid;
     cassert (code = 0);
     v \<leftarrow> v;
     h \<leftarrow> ydr_decode_prheader_disk env v;
     Some (st\<lparr>pr_header := h\<rparr>) }"

text \<open>The name in lower case; without its realm if that is the local one. No realm is a null pointer.\<close>

definition localize_name :: "'d pr_env \<Rightarrow> bytes \<Rightarrow> (bytes \<times> bool) option" where
  "localize_name env name =
     (let localname = strlwr (strlcpy name PR_MAXNAMELEN);
          tmp = dropWhile (\<lambda>c. c \<noteq> 64) localname
      in if tmp = [] then Some (localname, False)
         else do {
           r \<leftarrow> realm env;
           if strlwr (tl tmp) = strlwr r then Some (takeWhile (\<lambda>c. c \<noteq> 64) localname, True)
           else Some (localname, False) })"

definition create_database :: "'d pr_env \<Rightarrow> 'd prdb \<Rightarrow> 'd prdb option" where
  "create_database env st =
     write_header env (st\<lparr>pr_header := (pr_header st)\<lparr>version := 0, headerSize := 80056, maxGroup := - 210,
       maxID := 0, usercount := 0, groupcount := 0\<rparr>\<rparr>)"

section \<open>Entries\<close>

definition get_ydr_disk_entry :: "'d pr_env \<Rightarrow> i32 \<Rightarrow> 'd prdb \<Rightarrow> int \<times> bytes option" where
  "get_ydr_disk_entry env pid st =
     (let (status, v) = mdb_fetch env (idtodata st) (be32 pid)
      in if status = ENOENT then (PRNOENT, None) else (status, v))"

definition get_disk_entry :: "'d pr_env \<Rightarrow> i32 \<Rightarrow> 'd prdb \<Rightarrow> (int \<times> prentry_disk option) option" where
  "get_disk_entry env pid st =
     (let (status, v) = get_ydr_disk_entry env pid st
      in if status \<noteq> 0 then Some (status, None)
         else do { v \<leftarrow> v; e \<leftarrow> ydr_decode_prentry_disk env v; Some (status, Some e) })"

definition read_prentry :: "'d pr_env \<Rightarrow> i32 \<Rightarrow> 'd prdb \<Rightarrow> (int \<times> prentry option) option" where
  "read_prentry env pid st = do {
     (status, e) \<leftarrow> get_disk_entry env pid st;
     if status \<noteq> 0 then Some (status, None)
     else do {
       e \<leftarrow> e;
       let n = min PRSIZE (length (d_entries e));
       Some (0, Some (zero_prentry\<lparr>p_flags := d_flags e, p_id := d_id e, p_cellid := d_cellid e, p_owner := d_owner e,
         p_creator := d_creator e, p_ngroups := d_ngroups e, p_name := strlcpy (d_name e) PR_MAXNAMELEN,
         p_owned := (if d_owned e = [] then 0 else hd (d_owned e)),
         p_entries := take n (d_entries e) @ replicate (PRSIZE - n) 0\<rparr>)) } }"

definition store_disk_entry :: "'d pr_env \<Rightarrow> prentry_disk \<Rightarrow> 'd prdb \<Rightarrow> (int \<times> 'd prdb) option" where
  "store_disk_entry env e st = do {
     v \<leftarrow> ydr_encode_prentry_disk env e;
     let (code, db) = mdb_store env (idtodata st) (be32 (d_id e)) v;
     Some (code, st\<lparr>idtodata := db\<rparr>) }"

text \<open>\<open>entries.val\<close> is a null pointer here, so an entry cannot be copied.\<close>

definition write_prentry :: "'d pr_env \<Rightarrow> prentry \<Rightarrow> 'd prdb \<Rightarrow> (int \<times> 'd prdb) option" where
  "write_prentry env p st = do {
     cassert (sint (p_count p) \<le> 0);
     store_disk_entry env (zero_prentry_disk\<lparr>d_flags := p_flags p, d_id := p_id p, d_cellid := p_cellid p,
       d_owner := p_owner p, d_creator := p_creator p, d_ngroups := p_ngroups p,
       d_name := strlcpy (p_name p) PR_MAXNAMELEN\<rparr>) st }"

definition write_name :: "'d pr_env \<Rightarrow> prentry \<Rightarrow> 'd prdb \<Rightarrow> int \<times> 'd prdb" where
  "write_name env p st =
     (let (code, db) = mdb_store env (nametoid st) (p_name p) (be32 (p_id p)) in (code, st\<lparr>nametoid := db\<rparr>))"

text \<open>A value of fewer than four bytes is read past its end.\<close>

definition conv_name_to_id :: "'d pr_env \<Rightarrow> bytes \<Rightarrow> 'd prdb \<Rightarrow> (int \<times> i32 option) option" where
  "conv_name_to_id env name st =
     (let (status, v) = mdb_fetch env (nametoid st) name
      in if status = ENOENT then Some (PRNOENT, None)
         else do { v \<leftarrow> v; (pid, _) \<leftarrow> rd32 v; Some (status, Some pid) })"

definition conv_id_to_name :: "'d pr_env \<Rightarrow> i32 \<Rightarrow> 'd prdb \<Rightarrow> (int \<times> bytes option) option" where
  "conv_id_to_name env pid st = do {
     (status, p) \<leftarrow> read_prentry env pid st;
     if status \<noteq> 0 then Some (status, None)
     else do { p \<leftarrow> p; Some (0, Some (strlcpy (p_name p) PR_MAXNAMELEN)) } }"

definition insert_entry :: "'d pr_env \<Rightarrow> prentry \<Rightarrow> 'd prdb \<Rightarrow> (int \<times> 'd prdb) option" where
  "insert_entry env p st =
     (let (status, _) = get_ydr_disk_entry env (p_id p) st
      in if status = 0 then Some (PREXIST, st)
         else if status \<noteq> PRNOENT then Some (status, st)
         else do {
           (status, _) \<leftarrow> conv_name_to_id env (p_name p) st;
           if status = 0 then Some (PREXIST, st)
           else if status \<noteq> PRNOENT then Some (status, st)
           else let (status, st) = write_name env p st
                in if status \<noteq> 0 then Some (status, st) else write_prentry env p st })"

definition create_group :: "'d pr_env \<Rightarrow> bytes \<Rightarrow> i32 \<Rightarrow> i32 \<Rightarrow> i32 \<Rightarrow> 'd prdb \<Rightarrow> (int \<times> 'd prdb) option" where
  "create_group env name pid own creator st =
     insert_entry env (zero_prentry\<lparr>p_flags := PRGRP, p_id := pid, p_owner := own, p_creator := creator,
       p_name := strlcpy name PR_MAXNAMELEN\<rparr>) st"

definition create_user :: "'d pr_env \<Rightarrow> bytes \<Rightarrow> i32 \<Rightarrow> i32 \<Rightarrow> i32 \<Rightarrow> 'd prdb \<Rightarrow> (int \<times> 'd prdb) option" where
  "create_user env name pid own creator st =
     insert_entry env (zero_prentry\<lparr>p_flags := 0, p_id := pid, p_owner := own, p_creator := creator,
       p_name := strlcpy name PR_MAXNAMELEN\<rparr>) st"

section \<open>Groups\<close>

text \<open>
  The decoder allocates \<open>entries.val\<close> for the entries it read. \<open>entry_at\<close> is a read of
  \<open>entries.val[i]\<close>, also behind the list; outside the block it is undefined.
\<close>

definition entry_at :: "'d pr_env \<Rightarrow> i32 list \<Rightarrow> nat \<Rightarrow> i32 option" where
  "entry_at env es i = (if i < length es then Some (es ! i) else if i < room env (length es) then Some (behind env es) else None)"

function skip_below :: "'d pr_env \<Rightarrow> i32 list \<Rightarrow> i32 \<Rightarrow> nat \<Rightarrow> nat option" where
  "skip_below env es x i = do {
     v \<leftarrow> entry_at env es i;
     if sint v < sint x \<and> i < length es then skip_below env es x (i + 1) else Some i }"
  by auto
termination by (relation "measure (\<lambda>(_, es, _, i). length es - i)") auto

declare skip_below.simps [simp del]

fun shift_up :: "nat \<Rightarrow> i32 list \<Rightarrow> nat \<Rightarrow> i32 \<Rightarrow> i32 list \<times> i32" where
  "shift_up 0 es i t = (es, t)"
| "shift_up (Suc n) es i t = shift_up n (es[i := t]) (i + 1) (es ! i)"

definition add_entry :: "'d pr_env \<Rightarrow> i32 \<Rightarrow> i32 list \<Rightarrow> i32 list option" where
  "add_entry env x es = do {
     i \<leftarrow> skip_below env es x 0;
     let (es, tmp1) = shift_up (length es - i) es i x;
     cassert (length es < room env (length es));
     Some (es @ [tmp1]) }"

definition addtogroup :: "'d pr_env \<Rightarrow> i32 \<Rightarrow> i32 \<Rightarrow> 'd prdb \<Rightarrow> (int \<times> 'd prdb) option" where
  "addtogroup env uid gid st = do {
     (err, u) \<leftarrow> get_disk_entry env uid st;
     if err \<noteq> 0 then Some (err, st) else do {
     u \<leftarrow> u;
     (err, g) \<leftarrow> get_disk_entry env gid st;
     if err \<noteq> 0 then Some (err, st) else do {
     g \<leftarrow> g;
     if length (d_entries u) \<ge> PR_MAXGROUPS - 1 \<or> length (d_entries g) \<ge> PR_MAXLIST - 1 then Some (PRNOENT, st)
     else do {
       ue \<leftarrow> add_entry env gid (d_entries u);
       ge \<leftarrow> add_entry env uid (d_entries g);
       (err, st) \<leftarrow> store_disk_entry env (u\<lparr>d_entries := ue\<rparr>) st;
       if err \<noteq> 0 then Some (err, st)
       else store_disk_entry env (g\<lparr>d_entries := ge\<rparr>) st } } } }"

fun shift_down :: "nat \<Rightarrow> i32 list \<Rightarrow> nat \<Rightarrow> i32 list" where
  "shift_down 0 es i = es"
| "shift_down (Suc n) es i = shift_down n (es[i - 1 := es ! i]) (i + 1)"

text \<open>
  \<^const>\<open>None\<close> inside: the entry is not there. The length of an empty list wraps round to the largest
  unsigned number, which no encoder can follow.
\<close>

definition remove_entry :: "'d pr_env \<Rightarrow> i32 \<Rightarrow> i32 list \<Rightarrow> i32 list option option" where
  "remove_entry env x es = do {
     i \<leftarrow> skip_below env es x 0;
     v \<leftarrow> entry_at env es i;
     if v \<noteq> x then Some None
     else do {
       let es = shift_down (length es - (i + 1)) es (i + 1);
       cassert (es \<noteq> []);
       Some (Some (butlast es)) } }"

definition removefromgroup :: "'d pr_env \<Rightarrow> i32 \<Rightarrow> i32 \<Rightarrow> 'd prdb \<Rightarrow> (int \<times> 'd prdb) option" where
  "removefromgroup env uid gid st = do {
     (err, u) \<leftarrow> get_disk_entry env uid st;
     if err \<noteq> 0 then Some (err, st) else do {
     u \<leftarrow> u;
     (err, g) \<leftarrow> get_disk_entry env gid st;
     if err \<noteq> 0 then Some (err, st) else do {
     g \<leftarrow> g;
     ue \<leftarrow> remove_entry env gid (d_entries u);
     case ue of None \<Rightarrow> Some (PRNOENT, st) | Some ue \<Rightarrow> do {
     ge \<leftarrow> remove_entry env uid (d_entries g);
     case ge of None \<Rightarrow> Some (PRNOENT, st) | Some ge \<Rightarrow> do {
       (err, st) \<leftarrow> store_disk_entry env (u\<lparr>d_entries := ue\<rparr>) st;
       if err \<noteq> 0 then Some (err, st)
       else store_disk_entry env (g\<lparr>d_entries := ge\<rparr>) st } } } } }"

definition listelements :: "'d pr_env \<Rightarrow> i32 \<Rightarrow> bool \<Rightarrow> 'd prdb \<Rightarrow> (int \<times> i32 list option) option" where
  "listelements env pid default_id_p st = do {
     (err, e) \<leftarrow> get_disk_entry env pid st;
     if err \<noteq> 0 then Some (err, None)
     else do {
       e \<leftarrow> e;
       let es = d_entries e;
       let n = (if default_id_p then length es + 3 else length es);
       if \<not> mem_ok env n then Some (ENOMEM, None)
       else Some (0, Some (if default_id_p then es @ [pid, PR_ANYUSERID, PR_AUTHUSERID] else es)) } }"

section \<open>Fresh numbers\<close>

text \<open>Counting past the smallest or largest number is undefined.\<close>

definition next_free_group_id :: "'d pr_env \<Rightarrow> 'd prdb \<Rightarrow> (int \<times> i32 option \<times> 'd prdb) option" where
  "next_free_group_id env st = do {
     let h = pr_header st;
     cassert (maxGroup h \<noteq> 0x80000000);
     if maxGroup h - 1 = ILLEGAL_ID then Some (- 1, None, st)
     else do {
       st \<leftarrow> write_header env (st\<lparr>pr_header := h\<lparr>maxGroup := maxGroup h - 1\<rparr>\<rparr>);
       Some (0, Some (maxGroup h - 1), st) } }"

definition next_free_user_id :: "'d pr_env \<Rightarrow> 'd prdb \<Rightarrow> (int \<times> i32 option \<times> 'd prdb) option" where
  "next_free_user_id env st = do {
     let h = pr_header st;
     cassert (maxID h \<noteq> 0x7fffffff);
     if maxID h + 1 = ILLEGAL_ID then Some (- 1, None, st)
     else do {
       st \<leftarrow> write_header env (st\<lparr>pr_header := h\<lparr>maxID := maxID h + 1\<rparr>\<rparr>);
       Some (0, Some (maxID h + 1), st) } }"

section \<open>Creating and opening the database\<close>

text \<open>\<open>prserver_create\<close> on two databases that are new and empty; a group that is refused ends the program.\<close>

fun create_groups :: "'d pr_env \<Rightarrow> (bytes \<times> i32) list \<Rightarrow> 'd prdb \<Rightarrow> 'd prdb option" where
  "create_groups env [] st = Some st"
| "create_groups env ((n, pid) # gs) st = do {
     (status, st) \<leftarrow> create_group env n pid PR_SYSADMINID PR_SYSADMINID st;
     cassert (status = 0);
     create_groups env gs st }"

definition prserver_create :: "'d pr_env \<Rightarrow> 'd prdb \<Rightarrow> 'd prdb option" where
  "prserver_create env st = do {
     st \<leftarrow> create_database env st;
     create_groups env
       [(cstring ''system:administrators'', PR_SYSADMINID), (cstring ''system:anyuser'', PR_ANYUSERID),
        (cstring ''system:authuser'', PR_AUTHUSERID), (cstring ''anonymous'', PR_ANONYMOUSID)] st }"

definition prserver_init :: "'d pr_env \<Rightarrow> 'd prdb \<Rightarrow> 'd prdb option" where
  "prserver_init env st = read_header env st"

section \<open>Calls\<close>

fun name_to_ids :: "'d pr_env \<Rightarrow> bytes list \<Rightarrow> 'd prdb \<Rightarrow> (int \<times> i32 list) option" where
  "name_to_ids env [] st = Some (0, [])"
| "name_to_ids env (n # ns) st = do {
     (status, pid) \<leftarrow> conv_name_to_id env n st;
     if status = PRNOENT then do { (r, is) \<leftarrow> name_to_ids env ns st; Some (r, PR_ANONYMOUSID # is) }
     else if status \<noteq> 0 then Some (status, [])
     else do { pid \<leftarrow> pid; (r, is) \<leftarrow> name_to_ids env ns st; Some (r, pid # is) } }"

definition SPR_NameToID :: "'d pr_env \<Rightarrow> bytes list \<Rightarrow> 'd prdb \<Rightarrow> (int \<times> i32 list) option" where
  "SPR_NameToID env nlist st = (if \<not> mem_ok env (length nlist) then Some (PRDBBAD, []) else name_to_ids env nlist st)"

fun ids_to_names :: "'d pr_env \<Rightarrow> i32 list \<Rightarrow> 'd prdb \<Rightarrow> (int \<times> bytes list) option" where
  "ids_to_names env [] st = Some (0, [])"
| "ids_to_names env (pid # is) st = do {
     (status, n) \<leftarrow> conv_id_to_name env pid st;
     if status = PRNOENT then do { (r, ns) \<leftarrow> ids_to_names env is st; Some (r, strlcpy (print_int pid) PR_MAXNAMELEN # ns) }
     else if status \<noteq> 0 then Some (status, [])
     else do { n \<leftarrow> n; (r, ns) \<leftarrow> ids_to_names env is st; Some (r, n # ns) } }"

definition SPR_IDToName :: "'d pr_env \<Rightarrow> i32 list \<Rightarrow> 'd prdb \<Rightarrow> (int \<times> bytes list) option" where
  "SPR_IDToName env ilist st =
     (if length ilist \<ge> PR_MAXLIST then Some (PRTOOMANY, [])
      else if ilist = [] then Some (0, [])
      else if \<not> mem_ok env (length ilist) then Some (PRDBBAD, [])
      else ids_to_names env ilist st)"

definition SPR_NewEntry :: "'d pr_env \<Rightarrow> bytes \<Rightarrow> i32 \<Rightarrow> i32 \<Rightarrow> 'd prdb \<Rightarrow> (int \<times> i32 option \<times> 'd prdb) option" where
  "SPR_NewEntry env name flag oid st =
     (if \<not> superuser env then Some (PRPERM, None, st)
      else do {
        (localname, localp) \<leftarrow> localize_name env name;
        let own = (if localp then oid else PR_SYSADMINID);
        if flag AND PRTYPE = PRUSER then do {
          (err, pid, st) \<leftarrow> next_free_user_id env st;
          if err \<noteq> 0 then Some (err, pid, st)
          else do { i \<leftarrow> pid; (err, st) \<leftarrow> create_user env localname i own PR_SYSADMINID st; Some (err, pid, st) } }
        else if flag AND PRTYPE = PRGRP then do {
          (err, pid, st) \<leftarrow> next_free_group_id env st;
          if err \<noteq> 0 then Some (err, pid, st)
          else do { i \<leftarrow> pid; (err, st) \<leftarrow> create_group env localname i own PR_SYSADMINID st; Some (err, pid, st) } }
        else Some (PRPERM, None, st) })"

definition SPR_INewEntry :: "'d pr_env \<Rightarrow> bytes \<Rightarrow> i32 \<Rightarrow> i32 \<Rightarrow> 'd prdb \<Rightarrow> (int \<times> 'd prdb) option" where
  "SPR_INewEntry env name pid oid st =
     (if \<not> superuser env then Some (PRPERM, st)
      else do {
        (localname, localp) \<leftarrow> localize_name env name;
        let own = (if localp then oid else PR_SYSADMINID);
        if sint pid > 0 then create_user env localname pid own PR_SYSADMINID st
        else if sint pid < 0 then create_group env localname pid own PR_SYSADMINID st
        else Some (PRPERM, st) })"

definition SPR_ListEntry :: "'d pr_env \<Rightarrow> i32 \<Rightarrow> 'd prdb \<Rightarrow> (int \<times> prcheckentry option) option" where
  "SPR_ListEntry env pid st = do {
     (status, p) \<leftarrow> read_prentry env pid st;
     if status \<noteq> 0 then Some (status, None)
     else do {
       p \<leftarrow> p;
       Some (0, Some \<lparr>c_flags = p_flags p, c_id = p_id p, c_owner = p_owner p, c_creator = p_creator p, c_ngroups = p_ngroups p,
         c_nusers = p_nusers p, c_count = p_count p, c_reserved = p_reserved p, c_name = strlcpy (p_name p) PR_MAXNAMELEN\<rparr>) } }"

definition SPR_Delete :: "'d pr_env \<Rightarrow> i32 \<Rightarrow> 'd prdb \<Rightarrow> int \<times> 'd prdb" where
  "SPR_Delete env pid st = (if \<not> superuser env then (PRPERM, st) else (- 1, st))"

definition SPR_AddToGroup :: "'d pr_env \<Rightarrow> i32 \<Rightarrow> i32 \<Rightarrow> 'd prdb \<Rightarrow> (int \<times> 'd prdb) option" where
  "SPR_AddToGroup env uid gid st = (if \<not> superuser env then Some (PRPERM, st) else addtogroup env uid gid st)"

definition SPR_RemoveFromGroup :: "'d pr_env \<Rightarrow> i32 \<Rightarrow> i32 \<Rightarrow> 'd prdb \<Rightarrow> (int \<times> 'd prdb) option" where
  "SPR_RemoveFromGroup env pid gid st = (if \<not> superuser env then Some (PRPERM, st) else removefromgroup env pid gid st)"

definition SPR_ListMax :: "'d prdb \<Rightarrow> int \<times> i32 \<times> i32" where
  "SPR_ListMax st = (0, maxID (pr_header st), maxGroup (pr_header st))"

definition SPR_SetMax :: "i32 \<Rightarrow> i32 \<Rightarrow> 'd prdb \<Rightarrow> int \<times> 'd prdb" where
  "SPR_SetMax uid gflag st =
     (0, st\<lparr>pr_header := (if gflag \<noteq> 0 then (pr_header st)\<lparr>maxGroup := uid\<rparr> else (pr_header st)\<lparr>maxID := uid\<rparr>)\<rparr>)"

definition SPR_ListElements :: "'d pr_env \<Rightarrow> i32 \<Rightarrow> 'd prdb \<Rightarrow> (int \<times> i32 list option) option" where
  "SPR_ListElements env pid st = listelements env pid False st"

definition SPR_GetCPS :: "'d pr_env \<Rightarrow> i32 \<Rightarrow> 'd prdb \<Rightarrow> (int \<times> i32 list option) option" where
  "SPR_GetCPS env pid st = listelements env pid True st"

text \<open>
  The flag is \<^const>\<open>None\<close> where the call leaves it unset. On an error \<open>elist.val\<close>, which was never
  set unless the allocation failed, is freed: undefined.
\<close>

definition SPR_IsAMemberOf :: "'d pr_env \<Rightarrow> i32 \<Rightarrow> i32 \<Rightarrow> 'd prdb \<Rightarrow> (int \<times> int option) option" where
  "SPR_IsAMemberOf env uid gid st = do {
     (ret, elist) \<leftarrow> listelements env uid True st;
     if ret \<noteq> 0 then do { cassert (ret = ENOMEM); Some (ret, None) }
     else do { es \<leftarrow> elist; Some (0, if gid \<in> set es then Some 1 else None) } }"

end
