(* ===== verification/Pts_Spec.thy ===== *)
theory Pts_Spec
  imports Pts
begin

text \<open>
  The protection server refines a finite map of entries: what it needs of the database library, of
  the generated marshalling code and of the allocator, the loops on member lists, the
  specification, the simulation of every call, an instance of the environment, and the properties.
\<close>

section \<open>What the environment promises\<close>

definition gdbm_ok :: "'d pr_env \<Rightarrow> bool" where
  "gdbm_ok env \<longleftrightarrow> (\<forall>d k v. fst (gdbm_store env d k v) = 0 \<and>
     (\<forall>k'. gdbm_fetch env (snd (gdbm_store env d k v)) k' = (if k' = k then Some v else gdbm_fetch env d k')))"

definition codec_ok :: "'d pr_env \<Rightarrow> nat \<Rightarrow> bool" where
  "codec_ok env n \<longleftrightarrow>
     (\<forall>e. d_owned e = [] \<longrightarrow> length (d_name e) < PR_MAXNAMELEN \<longrightarrow> length (d_entries e) \<le> n \<longrightarrow>
        (\<exists>b. ydr_encode_prentry_disk env e = Some b \<and> ydr_decode_prentry_disk env b = Some e)) \<and>
     (\<forall>h. orphan h = [] \<longrightarrow> (\<exists>b. ydr_encode_prheader_disk env h = Some b \<and> ydr_decode_prheader_disk env b = Some h))"

definition roomy :: "'d pr_env \<Rightarrow> nat \<Rightarrow> bool" where
  "roomy env n \<longleftrightarrow> (\<forall>k \<le> n. k < room env k) \<and> (\<forall>k. mem_ok env k)"

definition pts_env_ok :: "'d pr_env \<Rightarrow> nat \<Rightarrow> bool" where
  "pts_env_ok env n \<longleftrightarrow> gdbm_ok env \<and> codec_ok env n \<and> roomy env n \<and> n < PR_MAXGROUPS - 1"

lemma be32_inj: "be32 a = be32 b \<longleftrightarrow> a = b"
  by (metis append_Nil2 option.inject prod.inject rd32_be32)

lemma headerid_key [simp]: "headerid \<noteq> be32 a" "be32 a \<noteq> headerid"
  by (simp_all add: headerid_def be32_def)

section \<open>Member lists\<close>

definition mem_sorted :: "i32 list \<Rightarrow> bool" where
  "mem_sorted es \<longleftrightarrow> sorted (map sint es)"















section \<open>Specification\<close>

text \<open>
  The server seen from outside: the entries by number, the newest first, the header in memory and the
  header that the next start finds.
\<close>

record pts_spec =
  ents :: "(i32 \<times> prentry_disk) list"
  hdr :: prheader_disk
  saved :: prheader_disk

definition id_of :: "bytes \<Rightarrow> pts_spec \<Rightarrow> i32 option" where
  "id_of n A = map_option fst (find (\<lambda>(_, e). d_name e = n) (ents A))"


definition spec_insert :: "i32 \<Rightarrow> bytes \<Rightarrow> i32 \<Rightarrow> i32 \<Rightarrow> pts_spec \<Rightarrow> int \<times> pts_spec" where
  "spec_insert fl name i own A =
     (let n = strlcpy name PR_MAXNAMELEN
      in if map_of (ents A) i \<noteq> None \<or> id_of n A \<noteq> None then (PREXIST, A)
         else (0, A\<lparr>ents := (i, zero_prentry_disk\<lparr>d_flags := fl, d_id := i, d_owner := own, d_creator := PR_SYSADMINID,
                                 d_name := n\<rparr>) # ents A\<rparr>))"




section \<open>Representation\<close>

definition ent_wf :: "nat \<Rightarrow> i32 \<times> prentry_disk \<Rightarrow> bool" where
  "ent_wf N x \<longleftrightarrow> d_id (snd x) = fst x \<and> d_owned (snd x) = [] \<and> length (d_name (snd x)) < PR_MAXNAMELEN \<and>
     length (d_entries (snd x)) \<le> N \<and> mem_sorted (d_entries (snd x))"

definition spec_wf :: "nat \<Rightarrow> pts_spec \<Rightarrow> bool" where
  "spec_wf N A \<longleftrightarrow> list_all (ent_wf N) (ents A) \<and> distinct (map fst (ents A)) \<and> distinct (map (d_name \<circ> snd) (ents A)) \<and>
     orphan (hdr A) = [] \<and> orphan (saved A) = []"

definition pts_rep :: "'d pr_env \<Rightarrow> nat \<Rightarrow> 'd prdb \<Rightarrow> pts_spec \<Rightarrow> bool" where
  "pts_rep env N st A \<longleftrightarrow> spec_wf N A \<and>
     (\<forall>i. Option.bind (gdbm_fetch env (idtodata st) (be32 i)) (ydr_decode_prentry_disk env) = map_of (ents A) i \<and>
          (gdbm_fetch env (idtodata st) (be32 i) = None \<longleftrightarrow> map_of (ents A) i = None)) \<and>
     (\<forall>n. gdbm_fetch env (nametoid st) n = map_option be32 (id_of n A)) \<and>
     Option.bind (gdbm_fetch env (idtodata st) headerid) (ydr_decode_prheader_disk env) = Some (saved A) \<and>
     pr_header st = hdr A"

lemma PR_nonzero [simp]: "PRNOENT \<noteq> 0" "PREXIST \<noteq> 0" "PRPERM \<noteq> 0" "PRNOENT \<noteq> ENOENT" "PREXIST \<noteq> PRNOENT" "ENOMEM \<noteq> PRNOENT"
  by (simp_all add: pr_errors errno_defs)

lemma rep_ent:
  assumes "pts_rep env N st A"
  shows "get_disk_entry env i st = Some (case map_of (ents A) i of None \<Rightarrow> (PRNOENT, None) | Some e \<Rightarrow> (0, Some e))"
    and "get_ydr_disk_entry env i st = (case map_of (ents A) i of None \<Rightarrow> (PRNOENT, None) | Some e \<Rightarrow> (0, gdbm_fetch env (idtodata st) (be32 i)))"
proof -
  have "Option.bind (gdbm_fetch env (idtodata st) (be32 i)) (ydr_decode_prentry_disk env) = map_of (ents A) i \<and>
    (gdbm_fetch env (idtodata st) (be32 i) = None \<longleftrightarrow> map_of (ents A) i = None)" using assms by (simp add: pts_rep_def)
  then show "get_disk_entry env i st = Some (case map_of (ents A) i of None \<Rightarrow> (PRNOENT, None) | Some e \<Rightarrow> (0, Some e))"
    and "get_ydr_disk_entry env i st = (case map_of (ents A) i of None \<Rightarrow> (PRNOENT, None) | Some e \<Rightarrow> (0, gdbm_fetch env (idtodata st) (be32 i)))"
    by (auto simp: get_disk_entry_def get_ydr_disk_entry_def mdb_fetch_def NDBM_fetch_def bind_eq_Some_conv split: option.splits)
qed

lemma rep_name:
  assumes "pts_rep env N st A"
  shows "conv_name_to_id env n st = Some (case id_of n A of None \<Rightarrow> (PRNOENT, None) | Some i \<Rightarrow> (0, Some i))"
proof -
  have "gdbm_fetch env (nametoid st) n = map_option be32 (id_of n A)" using assms by (simp add: pts_rep_def)
  then show ?thesis using rd32_be32 [of _ "[]"] by (auto simp: conv_name_to_id_def mdb_fetch_def NDBM_fetch_def split: option.splits)
qed


lemma wf_ent:
  assumes "spec_wf N A" "map_of (ents A) i = Some e"
  shows "ent_wf N (i, e)"
  using assms map_of_SomeD [OF assms(2)] by (auto simp: spec_wf_def list_all_iff)


lemma store_ok:
  assumes "pts_env_ok env N" "d_owned e = []" "length (d_name e) < PR_MAXNAMELEN" "length (d_entries e) \<le> N"
  shows "\<exists>b db. store_disk_entry env e st = Some (0, st\<lparr>idtodata := db\<rparr>) \<and> ydr_decode_prentry_disk env b = Some e \<and>
    (\<forall>k. gdbm_fetch env db k = (if k = be32 (d_id e) then Some b else gdbm_fetch env (idtodata st) k))"
proof -
  obtain b where b: "ydr_encode_prentry_disk env e = Some b" "ydr_decode_prentry_disk env b = Some e"
    using assms by (auto simp: pts_env_ok_def codec_ok_def)
  obtain c db where s: "gdbm_store env (idtodata st) (be32 (d_id e)) b = (c, db)" by (cases "gdbm_store env (idtodata st) (be32 (d_id e)) b")
  have "c = 0 \<and> (\<forall>k. gdbm_fetch env db k = (if k = be32 (d_id e) then Some b else gdbm_fetch env (idtodata st) k))"
    using assms(1) s unfolding pts_env_ok_def gdbm_ok_def by (metis fst_conv snd_conv)
  then show ?thesis using b s by (intro exI [of _ b] exI [of _ db]) (simp add: store_disk_entry_def mdb_store_def NDBM_store_def)
qed


lemma write_header_ok:
  assumes env: "pts_env_ok env N" and h: "orphan h = []"
  shows "\<exists>b db. write_header env (st\<lparr>pr_header := h\<rparr>) = Some (st\<lparr>pr_header := h, idtodata := db\<rparr>) \<and> ydr_decode_prheader_disk env b = Some h \<and>
    (\<forall>k. gdbm_fetch env db k = (if k = headerid then Some b else gdbm_fetch env (idtodata st) k))"
proof -
  obtain b where b: "ydr_encode_prheader_disk env h = Some b" "ydr_decode_prheader_disk env b = Some h"
    using env h by (auto simp: pts_env_ok_def codec_ok_def)
  obtain c db where s: "gdbm_store env (idtodata st) headerid b = (c, db)" by (cases "gdbm_store env (idtodata st) headerid b")
  have "c = 0 \<and> (\<forall>k. gdbm_fetch env db k = (if k = headerid then Some b else gdbm_fetch env (idtodata st) k))"
    using env s unfolding pts_env_ok_def gdbm_ok_def by (metis fst_conv snd_conv)
  then show ?thesis using b s by (intro exI [of _ b] exI [of _ db]) (simp add: write_header_def mdb_store_def NDBM_store_def)
qed


lemma id_of_None: "id_of n A = None \<longleftrightarrow> n \<notin> set (map (d_name \<circ> snd) (ents A))"
  by (force simp: id_of_def find_None_iff)

lemma insert_refines:
  assumes env: "pts_env_ok env N" and rep: "pts_rep env N st A" and sp: "spec_insert fl name i own A = (r, A')"
  shows "\<exists>st'. insert_entry env (zero_prentry\<lparr>p_flags := fl, p_id := i, p_owner := own, p_creator := PR_SYSADMINID,
      p_name := strlcpy name PR_MAXNAMELEN\<rparr>) st = Some (r, st') \<and> pts_rep env N st' A'"
proof (cases "map_of (ents A) i \<noteq> None \<or> id_of (strlcpy name PR_MAXNAMELEN) A \<noteq> None")
  case True
  then show ?thesis using sp rep_ent(2) [OF rep, of i] rep_name [OF rep, of "strlcpy name PR_MAXNAMELEN"] rep
    by (auto simp: spec_insert_def insert_entry_def Let_def split: option.splits)
next
  case False
  let ?n = "strlcpy name PR_MAXNAMELEN"
  let ?e = "zero_prentry_disk\<lparr>d_flags := fl, d_id := i, d_owner := own, d_creator := PR_SYSADMINID, d_name := ?n\<rparr>"
  have r: "r = 0" "A' = A\<lparr>ents := (i, ?e) # ents A\<rparr>" using sp False by (simp_all add: spec_insert_def Let_def)
  have nn: "strlcpy ?n PR_MAXNAMELEN = ?n" "length ?n < PR_MAXNAMELEN" by (simp_all add: strlcpy_def PR_MAXNAMELEN_def)
  obtain c db where s: "gdbm_store env (nametoid st) ?n (be32 i) = (c, db)" by (cases "gdbm_store env (nametoid st) ?n (be32 i)")
  have g: "c = 0" "\<forall>k. gdbm_fetch env db k = (if k = ?n then Some (be32 i) else gdbm_fetch env (nametoid st) k)"
    using env s unfolding pts_env_ok_def gdbm_ok_def by (metis fst_conv snd_conv)+
  let ?s = "st\<lparr>nametoid := db\<rparr>"
  from store_ok [OF env, of ?e ?s] nn(2) obtain b db' where t: "store_disk_entry env ?e ?s = Some (0, ?s\<lparr>idtodata := db'\<rparr>)"
    "ydr_decode_prentry_disk env b = Some ?e" "\<forall>k. gdbm_fetch env db' k = (if k = be32 i then Some b else gdbm_fetch env (idtodata st) k)"
    by (auto simp: zero_prentry_disk_def)
  have "?n \<notin> set (map (d_name \<circ> snd) (ents A))" "i \<notin> set (map fst (ents A))" using False id_of_None [of ?n A] by (simp_all add: map_of_eq_None_iff)
  then have "spec_wf N A'" using rep nn(2) unfolding pts_rep_def spec_wf_def r by (simp add: ent_wf_def mem_sorted_def zero_prentry_disk_def)
  moreover have "id_of k A' = (if k = ?n then Some i else id_of k A)" for k by (auto simp: r id_of_def)
  ultimately have "pts_rep env N (?s\<lparr>idtodata := db'\<rparr>) A'" using rep t(2,3) g(2) unfolding pts_rep_def by (auto simp: r be32_inj)
  then show ?thesis using False r(1) s g(1) t(1) nn(1) rep_ent(2) [OF rep, of i] rep_name [OF rep, of ?n]
    by (auto simp: insert_entry_def write_name_def mdb_store_def NDBM_store_def write_prentry_def zero_prentry_def zero_prentry_disk_def)
qed










section \<open>Operations\<close>



definition as_user :: "bool \<Rightarrow> 'd pr_env \<Rightarrow> 'd pr_env" where
  "as_user b env = env\<lparr>superuser := b\<rparr>"



lemma as_user_ok [simp]: "pts_env_ok (as_user b env) N = pts_env_ok env N" "pts_rep (as_user b env) N st A = pts_rep env N st A" "superuser (as_user b env) = b"
  by (simp_all add: as_user_def pts_env_ok_def gdbm_ok_def codec_ok_def roomy_def pts_rep_def)

lemma as_user_local [simp]: "localize_name (as_user b env) n = localize_name env n"
proof -
  have "realm (as_user b env) = realm env" by (simp add: as_user_def)
  then show ?thesis by (simp only: localize_name_def)
qed




section \<open>The new database\<close>

definition new_header :: prheader_disk where
  "new_header = \<lparr>version = 0, headerSize = 80056, maxGroup = - 210, maxID = 0, orphan = [], usercount = 0, groupcount = 0\<rparr>"

definition system_group :: "string \<Rightarrow> i32 \<Rightarrow> i32 \<times> prentry_disk" where
  "system_group n i = (i, zero_prentry_disk\<lparr>d_flags := PRGRP, d_id := i, d_owner := PR_SYSADMINID, d_creator := PR_SYSADMINID, d_name := cstring n\<rparr>)"

definition new_spec :: pts_spec where
  "new_spec = \<lparr>ents = [system_group ''anonymous'' PR_ANONYMOUSID, system_group ''system:authuser'' PR_AUTHUSERID,
     system_group ''system:anyuser'' PR_ANYUSERID, system_group ''system:administrators'' PR_SYSADMINID],
     hdr = new_header, saved = new_header\<rparr>"

lemma groups_refine:
  assumes env: "pts_env_ok env N" and rep: "pts_rep env N st A"
    and sp: "fold (\<lambda>(n, i) (r, A). if r \<noteq> 0 then (r, A) else spec_insert PRGRP n i PR_SYSADMINID A) gs (0, A) = (0, A')"
  shows "\<exists>st'. create_groups env gs st = Some st' \<and> pts_rep env N st' A'"
  using rep sp
proof (induction gs arbitrary: st A)
  case (Cons g gs)
  obtain n i where g: "g = (n, i)" by (cases g)
  obtain r B where B: "spec_insert PRGRP n i PR_SYSADMINID A = (r, B)" by fastforce
  have stuck: "fold (\<lambda>(n, i) (r, A). if r \<noteq> 0 then (r, A) else spec_insert PRGRP n i PR_SYSADMINID A) l (r, B) = (r, B)" if "r \<noteq> 0" for l
    using that by (induction l) auto
  have r: "r = 0" using Cons.prems(2) g B stuck [of gs] by (cases "r = 0") simp_all
  from insert_refines [OF env Cons.prems(1) B] obtain s where s: "create_group env n i PR_SYSADMINID PR_SYSADMINID st = Some (0, s)" "pts_rep env N s B"
    using r by (auto simp: create_group_def)
  from Cons.IH [OF s(2)] Cons.prems(2) show ?case using g B r s(1) by simp
qed simp

lemma create_rep:
  assumes env: "pts_env_ok env N" and new: "\<forall>k. gdbm_fetch env (idtodata st) k = None" "\<forall>k. gdbm_fetch env (nametoid st) k = None" "orphan (pr_header st) = []"
  shows "\<exists>st'. prserver_create env st = Some st' \<and> pts_rep env N st' new_spec"
proof -
  let ?A = "\<lparr>ents = [], hdr = new_header, saved = new_header\<rparr>"
  have h: "(pr_header st)\<lparr>version := 0, headerSize := 80056, maxGroup := - 210, maxID := 0, usercount := 0, groupcount := 0\<rparr> = new_header"
    using new(3) by (cases "pr_header st") (simp add: new_header_def)
  obtain b db where w: "write_header env (st\<lparr>pr_header := new_header\<rparr>) = Some (st\<lparr>pr_header := new_header, idtodata := db\<rparr>)"
    "ydr_decode_prheader_disk env b = Some new_header" "\<forall>k. gdbm_fetch env db k = (if k = headerid then Some b else gdbm_fetch env (idtodata st) k)"
    using write_header_ok [OF env, of new_header st] by (auto simp: new_header_def)
  let ?s = "st\<lparr>pr_header := new_header, idtodata := db\<rparr>"
  have rep: "pts_rep env N ?s ?A" using w(2,3) new by (simp add: pts_rep_def spec_wf_def id_of_def new_header_def)
  have "fold (\<lambda>(n, i) (r, A). if r \<noteq> 0 then (r, A) else spec_insert PRGRP n i PR_SYSADMINID A)
    [(cstring ''system:administrators'', PR_SYSADMINID), (cstring ''system:anyuser'', PR_ANYUSERID),
     (cstring ''system:authuser'', PR_AUTHUSERID), (cstring ''anonymous'', PR_ANONYMOUSID)] (0, ?A) = (0, new_spec)" by code_simp
  from groups_refine [OF env rep this] show ?thesis using w(1) by (simp add: prserver_create_def create_database_def h)
qed

section \<open>The marshalling format\<close>

text \<open>
  An instance of the marshalling code: the numbers most significant byte first, a list after its
  length, a string after its length and padded to a multiple of four.
\<close>

fun enc_list :: "i32 list \<Rightarrow> bytes" where
  "enc_list [] = []"
| "enc_list (x # xs) = be32 x @ enc_list xs"

fun dec_list :: "nat \<Rightarrow> bytes \<Rightarrow> (i32 list \<times> bytes) option" where
  "dec_list 0 b = Some ([], b)"
| "dec_list (Suc n) b = do { (x, b) \<leftarrow> rd32 b; (xs, b) \<leftarrow> dec_list n b; Some (x # xs, b) }"

definition enc_longs :: "i32 list \<Rightarrow> bytes" where
  "enc_longs xs = be32 (of_nat (length xs)) @ enc_list xs"

definition dec_longs :: "bytes \<Rightarrow> (i32 list \<times> bytes) option" where
  "dec_longs b = do { (n, b) \<leftarrow> rd32 b; dec_list (unat n) b }"

definition enc_string :: "bytes \<Rightarrow> bytes" where
  "enc_string s = be32 (of_nat (length s)) @ s @ replicate ((4 - length s mod 4) mod 4) 0"

definition dec_string :: "bytes \<Rightarrow> (bytes \<times> bytes) option" where
  "dec_string b = do {
     (n, b) \<leftarrow> rd32 b;
     let n = unat n;
     cassert (n < PR_MAXNAMELEN \<and> n + (4 - n mod 4) mod 4 \<le> length b);
     Some (take n b, drop (n + (4 - n mod 4) mod 4) b) }"

lemma dec_list_enc: "dec_list (length xs) (enc_list xs @ b) = Some (xs, b)"
  by (induction xs) simp_all

lemma dec_longs_enc [simp]: "length xs < 2 ^ 32 \<Longrightarrow> dec_longs (enc_longs xs @ b) = Some (xs, b)"
  by (simp add: dec_longs_def enc_longs_def dec_list_enc unat_of_nat)

lemma dec_string_enc [simp]: "length s < PR_MAXNAMELEN \<Longrightarrow> dec_string (enc_string s @ b) = Some (s, b)"
  by (simp add: dec_string_def enc_string_def unat_of_nat PR_MAXNAMELEN_def)

definition xdr_prentry :: "prentry_disk \<Rightarrow> bytes option" where
  "xdr_prentry e = Some (be32 (d_flags e) @ be32 (d_id e) @ be32 (d_cellid e) @ be32 (d_owner e) @ be32 (d_creator e) @
     be32 (d_ngroups e) @ enc_longs (d_owned e) @ enc_string (d_name e) @ enc_longs (d_entries e))"

definition unxdr_prentry :: "bytes \<Rightarrow> prentry_disk option" where
  "unxdr_prentry b = do {
     (fl, b) \<leftarrow> rd32 b; (i, b) \<leftarrow> rd32 b; (cl, b) \<leftarrow> rd32 b; (ow, b) \<leftarrow> rd32 b; (cr, b) \<leftarrow> rd32 b; (ng, b) \<leftarrow> rd32 b;
     (os, b) \<leftarrow> dec_longs b; (n, b) \<leftarrow> dec_string b; (es, b) \<leftarrow> dec_longs b;
     Some \<lparr>d_flags = fl, d_id = i, d_cellid = cl, d_owner = ow, d_creator = cr, d_ngroups = ng, d_owned = os, d_name = n, d_entries = es\<rparr> }"

definition xdr_prheader :: "prheader_disk \<Rightarrow> bytes option" where
  "xdr_prheader h = Some (be32 (version h) @ be32 (headerSize h) @ be32 (maxGroup h) @ be32 (maxID h) @ enc_longs (orphan h) @
     be32 (usercount h) @ be32 (groupcount h))"

definition unxdr_prheader :: "bytes \<Rightarrow> prheader_disk option" where
  "unxdr_prheader b = do {
     (v, b) \<leftarrow> rd32 b; (s, b) \<leftarrow> rd32 b; (mg, b) \<leftarrow> rd32 b; (mi, b) \<leftarrow> rd32 b; (orph, b) \<leftarrow> dec_longs b;
     (uc, b) \<leftarrow> rd32 b; (gc, b) \<leftarrow> rd32 b;
     Some \<lparr>version = v, headerSize = s, maxGroup = mg, maxID = mi, orphan = orph, usercount = uc, groupcount = gc\<rparr> }"

definition alist_env :: "bytes option \<Rightarrow> (bytes \<times> bytes) list pr_env" where
  "alist_env r = \<lparr>gdbm_store = (\<lambda>d k v. (0, (k, v) # d)), gdbm_fetch = map_of,
     ydr_encode_prentry_disk = xdr_prentry, ydr_decode_prentry_disk = unxdr_prentry,
     ydr_encode_prheader_disk = xdr_prheader, ydr_decode_prheader_disk = unxdr_prheader,
     room = Suc, behind = (\<lambda>_. 0), mem_ok = (\<lambda>_. True), realm = r, superuser = False\<rparr>"

lemma alist_env_ok: "n < PR_MAXGROUPS - 1 \<Longrightarrow> pts_env_ok (alist_env r) n"
proof -
  assume n: "n < PR_MAXGROUPS - 1"
  have "unxdr_prentry b = Some e" if "xdr_prentry e = Some b" "length (d_name e) < PR_MAXNAMELEN" "length (d_owned e) = 0" "length (d_entries e) < 2 ^ 32" for e b
  proof -
    have b: "b = be32 (d_flags e) @ be32 (d_id e) @ be32 (d_cellid e) @ be32 (d_owner e) @ be32 (d_creator e) @
     be32 (d_ngroups e) @ enc_longs (d_owned e) @ enc_string (d_name e) @ enc_longs (d_entries e) @ []" using that(1) by (simp add: xdr_prentry_def)
    show ?thesis unfolding unxdr_prentry_def b using that(2-4) dec_longs_enc [of "d_entries e" "[]"] by simp
  qed
  moreover have "unxdr_prheader b = Some h" if "xdr_prheader h = Some b" "orphan h = []" for h b
  proof -
    have b: "b = be32 (version h) @ be32 (headerSize h) @ be32 (maxGroup h) @ be32 (maxID h) @ enc_longs (orphan h) @
     be32 (usercount h) @ be32 (groupcount h) @ []" using that(1) by (simp add: xdr_prheader_def)
    show ?thesis unfolding unxdr_prheader_def b using that(2) rd32_be32 [of "groupcount h" "[]"] by (cases h) simp
  qed
  ultimately have "codec_ok (alist_env r) n" using n
    by (simp add: codec_ok_def alist_env_def PR_MAXGROUPS_def) (simp add: xdr_prentry_def xdr_prheader_def)
  then show ?thesis using n by (simp add: pts_env_ok_def gdbm_ok_def roomy_def alist_env_def)
qed

section \<open>Membership in the specification\<close>








section \<open>Properties\<close>











text \<open>
  C30: the new element of \<open>addtogroup\<close> is written behind the list the decoder allocated. Where the
  allocator has given no more than was asked for, adding any known entry to any known group is
  undefined.
\<close>

theorem pts_addtogroup_overruns:
  assumes "pts_rep env N st A" and "N < PR_MAXGROUPS - 1" and "\<forall>n. room env n = n" and "map_of (ents A) u \<noteq> None" "map_of (ents A) g \<noteq> None"
  shows "SPR_AddToGroup (as_user True env) u g st = None"
proof -
  obtain ue ge where e: "map_of (ents A) u = Some ue" "map_of (ents A) g = Some ge" using assms(4,5) by auto
  have wf: "spec_wf N A" using assms(1) by (simp add: pts_rep_def)
  have l: "length (d_entries ue) < PR_MAXGROUPS - 1" "length (d_entries ge) < PR_MAXLIST - 1"
    using wf_ent [OF wf e(1)] wf_ent [OF wf e(2)] assms(2) by (simp_all add: ent_wf_def PR_MAXGROUPS_def PR_MAXLIST_def)
  have room: "room (as_user True env) n = n" for n using assms(3) by (simp add: as_user_def)
  have len: "length (fst (shift_up k es i x)) = length es" for k es i x by (induction k arbitrary: es i x) auto
  have "add_entry (as_user True env) x es = None" for x es
    by (auto simp: add_entry_def bind_eq_None_conv room case_prod_unfold Let_def len)
  moreover have rp: "pts_rep (as_user True env) N st A" using assms(1) by simp
  ultimately show ?thesis using l rep_ent(1) [OF rp, of u] rep_ent(1) [OF rp, of g] e by (simp add: SPR_AddToGroup_def addtogroup_def)
qed

theorem pts_addtogroup_overruns_witness:
  "\<exists>st. prserver_create (alist_env None\<lparr>room := \<lambda>n. n\<rparr>) \<lparr>idtodata = [], nametoid = [], pr_header = new_header\<rparr> = Some st \<and>
    SPR_AddToGroup (as_user True (alist_env None\<lparr>room := \<lambda>n. n\<rparr>)) PR_ANONYMOUSID PR_SYSADMINID st = None"
proof -
  let ?env = "alist_env None" and ?tight = "alist_env None\<lparr>room := \<lambda>n. n\<rparr>"
  let ?st = "\<lparr>idtodata = [], nametoid = [], pr_header = new_header\<rparr> :: (bytes \<times> bytes) list prdb"
  have env: "pts_env_ok ?env 100" by (rule alist_env_ok) (simp add: PR_MAXGROUPS_def)
  from create_rep [OF env, of ?st] obtain st where st: "prserver_create ?env ?st = Some st" "pts_rep ?env 100 st new_spec"
    by (auto simp: alist_env_def new_header_def)
  have "prserver_create ?tight ?st = prserver_create ?env ?st" by code_simp
  moreover have "pts_rep ?tight 100 st new_spec" using st(2) by (simp add: pts_rep_def)
  moreover have "map_of (ents new_spec) PR_ANONYMOUSID \<noteq> None" "map_of (ents new_spec) PR_SYSADMINID \<noteq> None"
    by (simp_all add: new_spec_def system_group_def PR_ANONYMOUSID_def PR_AUTHUSERID_def PR_ANYUSERID_def PR_SYSADMINID_def)
  ultimately show ?thesis using pts_addtogroup_overruns [of ?tight 100 st new_spec PR_ANONYMOUSID PR_SYSADMINID] st(1)
    by (simp add: PR_MAXGROUPS_def)
qed

end
