(* ===== verification/Lwp_Lock.thy ===== *)
theory Lwp_Lock
  imports Milko_Prelude
begin

text \<open>
  The locks of the light-weight processes, \<open>lwp/lock.c\<close> and the macros of \<open>lwp/lock.h\<close>: a byte each for the
  bits of those who wait, the exclusive owner, the number of readers and of waiting threads. The threads
  that use a lock are a transition system; its invariant gives mutual exclusion, that no wake-up
  is lost, and which of the checks in the macros can fail.
\<close>

section \<open>Data\<close>

definition READ_LOCK :: byte where "READ_LOCK = 1"
definition WRITE_LOCK :: byte where "WRITE_LOCK = 2"
definition SHARED_LOCK :: byte where "SHARED_LOCK = 4"
definition EXCL_LOCKS :: byte where "EXCL_LOCKS = WRITE_LOCK OR SHARED_LOCK"
definition LWP_INVALIDTHREADID :: int where "LWP_INVALIDTHREADID = - 1"

lemmas lock_consts = READ_LOCK_def WRITE_LOCK_def SHARED_LOCK_def EXCL_LOCKS_def LWP_INVALIDTHREADID_def

record Lock =
  wait_states :: byte
  excl_locked :: byte
  readers_reading :: byte
  num_waiting :: byte
  thread_index :: int

text \<open>The argument \<open>how\<close> of \<open>Lock_Obtain\<close>; another number ends the process.\<close>

datatype how = Read | Write | Shared | Boosted

text \<open>
  What a thread does with the lock: it has nothing to do with it, holds it, sleeps in
  \<open>LWP_WaitProcess\<close>, or has been signalled and will return from there. A boosted lock is held as a
  write lock. Threads give up the processor in \<open>LWP_WaitProcess\<close> only, so all between is one step.
\<close>

datatype phase = Idle | Holds how | Asleep how | Woken how

record lsys =
  lk :: Lock
  phase :: "nat \<Rightarrow> phase"

abbreviation upd_lk :: "(Lock \<Rightarrow> Lock) \<Rightarrow> lsys \<Rightarrow> lsys" where
  "upd_lk f s \<equiv> s\<lparr>lk := f (lk s)\<rparr>"

definition go :: "nat \<Rightarrow> phase \<Rightarrow> lsys \<Rightarrow> lsys" where
  "go t p s = s\<lparr>phase := (phase s)(t := p)\<rparr>"

definition Lock_Init :: Lock where
  "Lock_Init = \<lparr>wait_states = 0, excl_locked = 0, readers_reading = 0, num_waiting = 0, thread_index = LWP_INVALIDTHREADID\<rparr>"

section \<open>Signals\<close>

text \<open>
  \<open>Internal_Signal\<close> makes every thread runnable that waits for the event. Readers wait for the address of
  \<open>readers_reading\<close>, the others for that of \<open>excl_locked\<close>.
\<close>

definition signal_readers :: "lsys \<Rightarrow> lsys" where
  "signal_readers s = s\<lparr>phase := (\<lambda>t. if phase s t = Asleep Read then Woken Read else phase s t)\<rparr>"

definition signal_excl :: "lsys \<Rightarrow> lsys" where
  "signal_excl s = s\<lparr>phase := (\<lambda>t. case phase s t of
     Asleep h \<Rightarrow> if h = Read then Asleep Read else Woken h
   | p \<Rightarrow> p)\<rparr>"

definition Lock_ReleaseR :: "lsys \<Rightarrow> lsys" where
  "Lock_ReleaseR s =
     (if wait_states (lk s) AND READ_LOCK \<noteq> 0
      then signal_readers (upd_lk (\<lambda>l. l\<lparr>wait_states := wait_states l AND NOT READ_LOCK\<rparr>) s)
      else signal_excl (upd_lk (\<lambda>l. l\<lparr>wait_states := wait_states l AND NOT EXCL_LOCKS\<rparr>) s))"

definition Lock_ReleaseW :: "lsys \<Rightarrow> lsys" where
  "Lock_ReleaseW s =
     (if wait_states (lk s) AND EXCL_LOCKS \<noteq> 0
      then signal_excl (upd_lk (\<lambda>l. l\<lparr>wait_states := wait_states l AND NOT EXCL_LOCKS\<rparr>) s)
      else signal_readers (upd_lk (\<lambda>l. l\<lparr>wait_states := wait_states l AND NOT READ_LOCK\<rparr>) s))"

section \<open>Lock\_Obtain\<close>

fun wait_bit :: "how \<Rightarrow> byte" where
  "wait_bit Read = READ_LOCK"
| "wait_bit Write = WRITE_LOCK"
| "wait_bit Shared = SHARED_LOCK"
| "wait_bit Boosted = WRITE_LOCK"

text \<open>The condition of the loop, the body up to the wait, and what follows the loop.\<close>

fun still_blocked :: "how \<Rightarrow> Lock \<Rightarrow> bool" where
  "still_blocked Read l \<longleftrightarrow> excl_locked l AND WRITE_LOCK \<noteq> 0"
| "still_blocked Write l \<longleftrightarrow> excl_locked l \<noteq> 0 \<or> readers_reading l \<noteq> 0"
| "still_blocked Shared l \<longleftrightarrow> excl_locked l \<noteq> 0"
| "still_blocked Boosted l \<longleftrightarrow> readers_reading l \<noteq> 0"

definition wait_process :: "how \<Rightarrow> nat \<Rightarrow> lsys \<Rightarrow> lsys" where
  "wait_process h t s = go t (Asleep h) (upd_lk (\<lambda>l. l\<lparr>wait_states := wait_states l OR wait_bit h\<rparr>) s)"

fun acquire :: "how \<Rightarrow> Lock \<Rightarrow> Lock" where
  "acquire Read l = l\<lparr>readers_reading := readers_reading l + 1\<rparr>"
| "acquire Write l = l\<lparr>excl_locked := WRITE_LOCK\<rparr>"
| "acquire Shared l = l\<lparr>excl_locked := SHARED_LOCK\<rparr>"
| "acquire Boosted l = l\<lparr>excl_locked := WRITE_LOCK\<rparr>"

definition Lock_Obtain :: "how \<Rightarrow> nat \<Rightarrow> lsys \<Rightarrow> lsys" where
  "Lock_Obtain h t s = wait_process h t (upd_lk (\<lambda>l. l\<lparr>num_waiting := num_waiting l + 1\<rparr>) s)"

text \<open>What the macros do once they have the lock, the check of the owner included.\<close>

fun obtained :: "how \<Rightarrow> nat \<Rightarrow> lsys \<Rightarrow> lsys option" where
  "obtained Read t s = do { cassert (thread_index (lk s) = LWP_INVALIDTHREADID); Some (go t (Holds Read) s) }"
| "obtained Write t s = Some (go t (Holds Write) (upd_lk (\<lambda>l. l\<lparr>thread_index := int t\<rparr>) s))"
| "obtained Shared t s = Some (go t (Holds Shared) s)"
| "obtained Boosted t s = Some (go t (Holds Write) (upd_lk (\<lambda>l. l\<lparr>thread_index := int t\<rparr>) s))"

definition Lock_Obtain_resume :: "how \<Rightarrow> nat \<Rightarrow> lsys \<Rightarrow> lsys option" where
  "Lock_Obtain_resume h t s =
     (if still_blocked h (lk s) then Some (wait_process h t s)
      else obtained h t (upd_lk (\<lambda>l. acquire h (l\<lparr>num_waiting := num_waiting l - 1\<rparr>)) s))"

section \<open>The macros\<close>

definition ObtainReadLock :: "nat \<Rightarrow> lsys \<Rightarrow> lsys option" where
  "ObtainReadLock t s = do {
     cassert (thread_index (lk s) \<noteq> int t);
     if excl_locked (lk s) AND WRITE_LOCK = 0 \<and> wait_states (lk s) = 0 then obtained Read t (upd_lk (acquire Read) s)
     else Some (Lock_Obtain Read t s) }"

definition ObtainWriteLock :: "nat \<Rightarrow> lsys \<Rightarrow> lsys option" where
  "ObtainWriteLock t s = do {
     cassert (thread_index (lk s) \<noteq> int t);
     if excl_locked (lk s) = 0 \<and> readers_reading (lk s) = 0 then obtained Write t (upd_lk (acquire Write) s)
     else Some (Lock_Obtain Write t s) }"

definition ObtainSharedLock :: "nat \<Rightarrow> lsys \<Rightarrow> lsys option" where
  "ObtainSharedLock t s = do {
     cassert (thread_index (lk s) \<noteq> int t);
     if excl_locked (lk s) = 0 \<and> wait_states (lk s) = 0 then obtained Shared t (upd_lk (acquire Shared) s)
     else Some (Lock_Obtain Shared t s) }"

definition BoostSharedLock :: "nat \<Rightarrow> lsys \<Rightarrow> lsys option" where
  "BoostSharedLock t s = do {
     cassert (thread_index (lk s) \<noteq> int t);
     if readers_reading (lk s) = 0 then obtained Boosted t (upd_lk (acquire Boosted) s)
     else Some (Lock_Obtain Boosted t s) }"

definition UnBoostSharedLock :: "nat \<Rightarrow> lsys \<Rightarrow> lsys option" where
  "UnBoostSharedLock t s = do {
     cassert (thread_index (lk s) \<noteq> int t);
     let s = upd_lk (\<lambda>l. l\<lparr>excl_locked := SHARED_LOCK, thread_index := LWP_INVALIDTHREADID\<rparr>) s;
     let s = (if wait_states (lk s) \<noteq> 0 then Lock_ReleaseR s else s);
     cassert (thread_index (lk s) = LWP_INVALIDTHREADID);
     Some (go t (Holds Shared) s) }"

definition ReleaseReadLock :: "nat \<Rightarrow> lsys \<Rightarrow> lsys option" where
  "ReleaseReadLock t s = do {
     cassert (thread_index (lk s) \<noteq> int t);
     let s = go t Idle (upd_lk (\<lambda>l. l\<lparr>readers_reading := readers_reading l - 1\<rparr>) s);
     let s = (if readers_reading (lk s) = 0 \<and> wait_states (lk s) \<noteq> 0 then Lock_ReleaseW s else s);
     cassert (thread_index (lk s) = LWP_INVALIDTHREADID);
     Some s }"

definition ReleaseWriteLock :: "nat \<Rightarrow> lsys \<Rightarrow> lsys option" where
  "ReleaseWriteLock t s = do {
     cassert (thread_index (lk s) = int t);
     let s = go t Idle (upd_lk (\<lambda>l. l\<lparr>thread_index := LWP_INVALIDTHREADID, excl_locked := excl_locked l AND NOT WRITE_LOCK\<rparr>) s);
     let s = (if wait_states (lk s) \<noteq> 0 then Lock_ReleaseR s else s);
     cassert (thread_index (lk s) = LWP_INVALIDTHREADID);
     Some s }"

definition ReleaseSharedLock :: "nat \<Rightarrow> lsys \<Rightarrow> lsys option" where
  "ReleaseSharedLock t s = do {
     let s = go t Idle (upd_lk (\<lambda>l. l\<lparr>thread_index := LWP_INVALIDTHREADID,
       excl_locked := excl_locked l AND NOT (SHARED_LOCK OR WRITE_LOCK)\<rparr>) s);
     let s = (if wait_states (lk s) \<noteq> 0 then Lock_ReleaseR s else s);
     cassert (thread_index (lk s) = LWP_INVALIDTHREADID);
     Some s }"

text \<open>
  Releasing a lock and waiting for another event, in one step; the thread then has nothing to do with
  the lock.
\<close>

definition LWP_WaitProcessR :: "nat \<Rightarrow> lsys \<Rightarrow> lsys option" where
  "LWP_WaitProcessR t s = ReleaseReadLock t s"

definition LWP_WaitProcessW :: "nat \<Rightarrow> lsys \<Rightarrow> lsys option" where
  "LWP_WaitProcessW t s = ReleaseWriteLock t s"

definition LWP_WaitProcessS :: "nat \<Rightarrow> lsys \<Rightarrow> lsys option" where
  "LWP_WaitProcessS t s = ReleaseSharedLock t s"

section \<open>Two locks\<close>

text \<open>\<open>ObtainTwoLocks\<close> takes its locks one by one with functions of its own, which do not set the owner.\<close>

fun WillBlock :: "how \<Rightarrow> Lock \<Rightarrow> bool" where
  "WillBlock Read l \<longleftrightarrow> excl_locked l AND WRITE_LOCK \<noteq> 0 \<or> wait_states l \<noteq> 0"
| "WillBlock Write l \<longleftrightarrow> excl_locked l \<noteq> 0 \<or> readers_reading l \<noteq> 0"
| "WillBlock Shared l \<longleftrightarrow> excl_locked l \<noteq> 0 \<or> wait_states l \<noteq> 0"
| "WillBlock Boosted l \<longleftrightarrow> True"

fun ObtainOneLock :: "how \<Rightarrow> nat \<Rightarrow> lsys \<Rightarrow> lsys" where
  "ObtainOneLock Boosted t s = s"
| "ObtainOneLock h t s = (if \<not> WillBlock h (lk s) then go t (Holds h) (upd_lk (acquire h) s) else Lock_Obtain h t s)"

fun ReleaseOneLock :: "how \<Rightarrow> nat \<Rightarrow> lsys \<Rightarrow> lsys" where
  "ReleaseOneLock Read t s =
     (let s = go t Idle (upd_lk (\<lambda>l. l\<lparr>readers_reading := readers_reading l - 1\<rparr>) s)
      in if readers_reading (lk s) = 0 \<and> wait_states (lk s) \<noteq> 0 then Lock_ReleaseW s else s)"
| "ReleaseOneLock Write t s =
     (let s = go t Idle (upd_lk (\<lambda>l. l\<lparr>excl_locked := excl_locked l AND NOT WRITE_LOCK\<rparr>) s)
      in if wait_states (lk s) \<noteq> 0 then Lock_ReleaseR s else s)"
| "ReleaseOneLock Shared t s =
     (let s = go t Idle (upd_lk (\<lambda>l. l\<lparr>excl_locked := excl_locked l AND NOT (SHARED_LOCK OR WRITE_LOCK)\<rparr>) s)
      in if wait_states (lk s) \<noteq> 0 then Lock_ReleaseR s else s)"
| "ReleaseOneLock Boosted t s = s"

text \<open>
  One round of \<open>_ObtainTwoLocks\<close> from \<open>start\<close>, when the first lock is free: both locks are taken, or
  neither and the caller sleeps a millisecond and starts again.
\<close>

definition two_locks_round :: "how \<Rightarrow> how \<Rightarrow> nat \<Rightarrow> lsys \<times> lsys \<Rightarrow> (bool \<times> lsys \<times> lsys) option" where
  "two_locks_round how1 how2 t ss = do {
     let (s1, s2) = ss;
     cassert (\<not> WillBlock how1 (lk s1));
     let s1 = ObtainOneLock how1 t s1;
     Some (if WillBlock how2 (lk s2) then (False, ReleaseOneLock how1 t s1, s2)
           else (True, s1, ObtainOneLock how2 t s2)) }"

section \<open>Steps\<close>

text \<open>The steps of \<open>n\<close> threads that use the lock as the macros ask for.\<close>

inductive lock_step :: "nat \<Rightarrow> lsys \<Rightarrow> lsys \<Rightarrow> bool" for n where
  obtain_read: "t < n \<Longrightarrow> phase s t = Idle \<Longrightarrow> ObtainReadLock t s = Some s' \<Longrightarrow> lock_step n s s'"
| obtain_write: "t < n \<Longrightarrow> phase s t = Idle \<Longrightarrow> ObtainWriteLock t s = Some s' \<Longrightarrow> lock_step n s s'"
| obtain_shared: "t < n \<Longrightarrow> phase s t = Idle \<Longrightarrow> ObtainSharedLock t s = Some s' \<Longrightarrow> lock_step n s s'"
| boost: "t < n \<Longrightarrow> phase s t = Holds Shared \<Longrightarrow> BoostSharedLock t s = Some s' \<Longrightarrow> lock_step n s s'"
| unboost: "t < n \<Longrightarrow> phase s t = Holds Write \<Longrightarrow> UnBoostSharedLock t s = Some s' \<Longrightarrow> lock_step n s s'"
| resume: "t < n \<Longrightarrow> phase s t = Woken h \<Longrightarrow> Lock_Obtain_resume h t s = Some s' \<Longrightarrow> lock_step n s s'"
| release_read: "t < n \<Longrightarrow> phase s t = Holds Read \<Longrightarrow> ReleaseReadLock t s = Some s' \<Longrightarrow> lock_step n s s'"
| release_write: "t < n \<Longrightarrow> phase s t = Holds Write \<Longrightarrow> ReleaseWriteLock t s = Some s' \<Longrightarrow> lock_step n s s'"
| release_shared: "t < n \<Longrightarrow> phase s t \<in> {Holds Shared, Holds Write} \<Longrightarrow> ReleaseSharedLock t s = Some s' \<Longrightarrow> lock_step n s s'"

inductive lock_reach :: "nat \<Rightarrow> lsys \<Rightarrow> bool" for n where
  start: "lock_reach n \<lparr>lk = Lock_Init, phase = (\<lambda>_. Idle)\<rparr>"
| step: "lock_reach n s \<Longrightarrow> lock_step n s s' \<Longrightarrow> lock_reach n s'"

section \<open>Invariant\<close>

definition readers :: "lsys \<Rightarrow> nat set" where
  "readers s = {t. phase s t = Holds Read}"

definition owners :: "lsys \<Rightarrow> nat set" where
  "owners s = {t. phase s t \<in> {Holds Write, Holds Shared, Asleep Boosted, Woken Boosted}}"

definition waiting :: "lsys \<Rightarrow> nat set" where
  "waiting s = {t. \<exists>h. phase s t = Asleep h \<or> phase s t = Woken h}"

definition sleeps :: "lsys \<Rightarrow> how \<Rightarrow> bool" where
  "sleeps s h \<longleftrightarrow> (\<exists>t. phase s t = Asleep h)"

text \<open>Threads that hold the lock or are about to run.\<close>

definition active :: "lsys \<Rightarrow> nat set" where
  "active s = {t. \<exists>h. phase s t = Holds h \<or> phase s t = Woken h}"

definition bits :: "bool \<Rightarrow> bool \<Rightarrow> bool \<Rightarrow> byte" where
  "bits r w x = (if r then READ_LOCK else 0) OR (if w then WRITE_LOCK else 0) OR (if x then SHARED_LOCK else 0)"

definition owner_ok :: "lsys \<Rightarrow> bool" where
  "owner_ok s \<longleftrightarrow>
     owners s = {} \<and> excl_locked (lk s) = 0 \<and> thread_index (lk s) = LWP_INVALIDTHREADID \<or>
     (\<exists>t. owners s = {t} \<and> (if phase s t = Holds Write
        then excl_locked (lk s) = WRITE_LOCK \<and> thread_index (lk s) = int t \<and> readers s = {}
        else excl_locked (lk s) = SHARED_LOCK \<and> thread_index (lk s) = LWP_INVALIDTHREADID))"

definition lock_pre :: "nat \<Rightarrow> lsys \<Rightarrow> bool" where
  "lock_pre n s \<longleftrightarrow> (\<forall>t. phase s t \<noteq> Holds Boosted \<and> (phase s t \<noteq> Idle \<longrightarrow> t < n)) \<and>
     readers_reading (lk s) = of_nat (card (readers s)) \<and> num_waiting (lk s) = of_nat (card (waiting s)) \<and>
     wait_states (lk s) = bits (sleeps s Read) (sleeps s Write \<or> sleeps s Boosted) (sleeps s Shared) \<and> owner_ok s"

definition lock_wf :: "nat \<Rightarrow> lsys \<Rightarrow> bool" where
  "lock_wf n s \<longleftrightarrow> lock_pre n s \<and> (sleeps s Boosted \<longrightarrow> readers s \<noteq> {}) \<and> ((\<exists>h. sleeps s h) \<longrightarrow> active s \<noteq> {})"

lemma go_simps [simp]: "phase (go t p s) u = (if u = t then p else phase s u)" "lk (go t p s) = lk s"
  by (simp_all add: go_def)

lemma bits_simps:
  "bits r w x = 0 \<longleftrightarrow> \<not> r \<and> \<not> w \<and> \<not> x" "bits r w x AND READ_LOCK \<noteq> 0 \<longleftrightarrow> r" "bits r w x AND EXCL_LOCKS \<noteq> 0 \<longleftrightarrow> w \<or> x"
  "bits r w x AND NOT READ_LOCK = bits False w x" "bits r w x AND NOT EXCL_LOCKS = bits r False False"
  "bits r w x OR READ_LOCK = bits True w x" "bits r w x OR WRITE_LOCK = bits r True x" "bits r w x OR SHARED_LOCK = bits r w True"
  by (cases r; cases w; cases x; simp add: bits_def lock_consts)+

lemma pre_finite: "lock_pre n s \<Longrightarrow> finite (readers s)" "lock_pre n s \<Longrightarrow> finite (waiting s)"
  "lock_pre n s \<Longrightarrow> card (readers s) \<le> n" "lock_pre n s \<Longrightarrow> card (waiting s) \<le> n"
proof -
  assume p: "lock_pre n s"
  have "readers s \<subseteq> {..<n}" using p unfolding lock_pre_def readers_def by (metis (mono_tags, lifting) lessThan_iff mem_Collect_eq phase.distinct(1) subsetI)
  moreover have "waiting s \<subseteq> {..<n}"
  proof
    fix t assume "t \<in> waiting s"
    then have "phase s t \<noteq> Idle" by (auto simp: waiting_def)
    then show "t \<in> {..<n}" using p by (simp add: lock_pre_def)
  qed
  ultimately show "finite (readers s)" "finite (waiting s)" "card (readers s) \<le> n" "card (waiting s) \<le> n"
    using card_mono [of "{..<n}"] by (auto intro: finite_subset)
qed

lemma no_readers:
  assumes "lock_pre n s" "n \<le> 255"
  shows "readers_reading (lk s) = 0 \<longleftrightarrow> readers s = {}"
proof -
  have c: "card (readers s) < 256" using pre_finite(3) [OF assms(1)] assms(2) by simp
  have "(of_nat (card (readers s)) :: byte) = 0 \<longleftrightarrow> card (readers s) = 0" using c dvd_imp_le [of 256 "card (readers s)"] by (auto simp: word_of_nat_eq_0_iff)
  then show ?thesis using assms(1) pre_finite(1) [OF assms(1)] by (simp add: lock_pre_def)
qed

section \<open>Signals keep it\<close>

lemma signal_readers_phase [simp]:
  "phase (signal_readers s) t = Holds k \<longleftrightarrow> phase s t = Holds k" "phase (signal_readers s) t = Idle \<longleftrightarrow> phase s t = Idle"
  "phase (signal_readers s) t = Asleep h \<longleftrightarrow> h \<noteq> Read \<and> phase s t = Asleep h"
  "phase (signal_readers s) t = Woken h \<longleftrightarrow> phase s t = Woken h \<or> h = Read \<and> phase s t = Asleep Read" "lk (signal_readers s) = lk s"
  by (auto simp: signal_readers_def)

lemma signal_excl_phase [simp]:
  "phase (signal_excl s) t = Holds k \<longleftrightarrow> phase s t = Holds k" "phase (signal_excl s) t = Idle \<longleftrightarrow> phase s t = Idle"
  "phase (signal_excl s) t = Asleep h \<longleftrightarrow> h = Read \<and> phase s t = Asleep h"
  "phase (signal_excl s) t = Woken h \<longleftrightarrow> phase s t = Woken h \<or> h \<noteq> Read \<and> phase s t = Asleep h" "lk (signal_excl s) = lk s"
  by (auto simp: signal_excl_def split: phase.splits)

lemma signal_readers_sets [simp]:
  "readers (signal_readers s) = readers s" "owners (signal_readers s) = owners s" "waiting (signal_readers s) = waiting s"
  "sleeps (signal_readers s) h \<longleftrightarrow> h \<noteq> Read \<and> sleeps s h"
  by (auto simp: readers_def owners_def waiting_def sleeps_def)

lemma signal_excl_sets [simp]:
  "readers (signal_excl s) = readers s" "owners (signal_excl s) = owners s" "waiting (signal_excl s) = waiting s"
  "sleeps (signal_excl s) h \<longleftrightarrow> h = Read \<and> sleeps s h"
  by (auto simp: readers_def owners_def waiting_def sleeps_def)

lemma signal_active:
  "sleeps s Read \<Longrightarrow> active (signal_readers s) \<noteq> {}" "h \<noteq> Read \<Longrightarrow> sleeps s h \<Longrightarrow> active (signal_excl s) \<noteq> {}"
  by (auto simp: sleeps_def active_def)

lemma upd_lk_sets [simp]: "readers (upd_lk f s) = readers s" "owners (upd_lk f s) = owners s" "waiting (upd_lk f s) = waiting s"
  "sleeps (upd_lk f s) h = sleeps s h" "active (upd_lk f s) = active s"
  by (simp_all add: readers_def owners_def waiting_def sleeps_def active_def)

lemma upd_lk_phase: "phase (upd_lk f s) = phase s"
  by simp

text \<open>Clearing the bits that a signal goes with.\<close>

lemma owner_ok_cong:
  assumes "owner_ok s" "owners s' = owners s" "readers s' = readers s" "\<And>t. phase s' t = Holds Write \<longleftrightarrow> phase s t = Holds Write"
    "excl_locked (lk s') = excl_locked (lk s)" "thread_index (lk s') = thread_index (lk s)"
  shows "owner_ok s'"
  using assms(1) unfolding owner_ok_def assms(2-6) .

lemma signal_readers_pre:
  assumes "lock_pre n s"
  shows "lock_pre n (signal_readers (upd_lk (\<lambda>l. l\<lparr>wait_states := wait_states l AND NOT READ_LOCK\<rparr>) s))"
proof -
  let ?s = "signal_readers (upd_lk (\<lambda>l. l\<lparr>wait_states := wait_states l AND NOT READ_LOCK\<rparr>) s)"
  have "owner_ok ?s" by (rule owner_ok_cong [of s]) (use assms in \<open>simp_all add: lock_pre_def\<close>)
  then show ?thesis using assms by (simp add: lock_pre_def bits_simps)
qed

lemma signal_excl_pre:
  assumes "lock_pre n s"
  shows "lock_pre n (signal_excl (upd_lk (\<lambda>l. l\<lparr>wait_states := wait_states l AND NOT EXCL_LOCKS\<rparr>) s))"
proof -
  let ?s = "signal_excl (upd_lk (\<lambda>l. l\<lparr>wait_states := wait_states l AND NOT EXCL_LOCKS\<rparr>) s)"
  have "owner_ok ?s" by (rule owner_ok_cong [of s]) (use assms in \<open>simp_all add: lock_pre_def\<close>)
  then show ?thesis using assms by (simp add: lock_pre_def bits_simps)
qed

lemma upd_signal_active:
  "sleeps s Read \<Longrightarrow> active (signal_readers (upd_lk f s)) \<noteq> {}"
  "sleeps s Write \<or> sleeps s Boosted \<or> sleeps s Shared \<Longrightarrow> active (signal_excl (upd_lk f s)) \<noteq> {}"
  using signal_active(1) [of "upd_lk f s"] signal_active(2) [of _ "upd_lk f s"] by fastforce+

lemma ReleaseR_ok:
  assumes "lock_pre n s" "wait_states (lk s) \<noteq> 0"
  shows "lock_pre n (Lock_ReleaseR s)" "active (Lock_ReleaseR s) \<noteq> {}" "readers (Lock_ReleaseR s) = readers s" "sleeps (Lock_ReleaseR s) h \<Longrightarrow> sleeps s h"
    "thread_index (lk (Lock_ReleaseR s)) = thread_index (lk s)" "owners (Lock_ReleaseR s) = owners s"
proof -
  have w: "wait_states (lk s) = bits (sleeps s Read) (sleeps s Write \<or> sleeps s Boosted) (sleeps s Shared)" using assms(1) by (simp add: lock_pre_def)
  show "lock_pre n (Lock_ReleaseR s)" using signal_readers_pre [OF assms(1)] signal_excl_pre [OF assms(1)] by (simp add: Lock_ReleaseR_def)
  show "active (Lock_ReleaseR s) \<noteq> {}" using assms(2) upd_signal_active [of s] unfolding Lock_ReleaseR_def w bits_simps by (auto split: if_splits)
qed (auto simp: Lock_ReleaseR_def split: if_splits)

lemma ReleaseW_ok:
  assumes "lock_pre n s" "wait_states (lk s) \<noteq> 0"
  shows "lock_pre n (Lock_ReleaseW s)" "active (Lock_ReleaseW s) \<noteq> {}" "readers (Lock_ReleaseW s) = readers s" "\<not> sleeps (Lock_ReleaseW s) Boosted"
    "thread_index (lk (Lock_ReleaseW s)) = thread_index (lk s)"
proof -
  have w: "wait_states (lk s) = bits (sleeps s Read) (sleeps s Write \<or> sleeps s Boosted) (sleeps s Shared)" using assms(1) by (simp add: lock_pre_def)
  show "lock_pre n (Lock_ReleaseW s)" using signal_readers_pre [OF assms(1)] signal_excl_pre [OF assms(1)] by (simp add: Lock_ReleaseW_def)
  show "active (Lock_ReleaseW s) \<noteq> {}" using assms(2) upd_signal_active [of s] unfolding Lock_ReleaseW_def w bits_simps by (auto split: if_splits)
  show "\<not> sleeps (Lock_ReleaseW s) Boosted" using w by (auto simp: Lock_ReleaseW_def bits_simps)
qed (auto simp: Lock_ReleaseW_def)

section \<open>The steps keep it\<close>

definition awake :: "lsys \<Rightarrow> nat \<Rightarrow> bool" where
  "awake s t \<longleftrightarrow> (\<forall>h. phase s t \<noteq> Asleep h)"

lemma go_sets:
  "readers (go t p s) = (if p = Holds Read then insert t (readers s) else readers s - {t})"
  "owners (go t p s) = (if p \<in> {Holds Write, Holds Shared, Asleep Boosted, Woken Boosted} then insert t (owners s) else owners s - {t})"
  "waiting (go t p s) = (if \<exists>h. p = Asleep h \<or> p = Woken h then insert t (waiting s) else waiting s - {t})"
  "awake s t \<Longrightarrow> sleeps (go t p s) h \<longleftrightarrow> p = Asleep h \<or> sleeps s h"
  by (auto simp: readers_def owners_def waiting_def sleeps_def awake_def)

lemma owner_facts:
  assumes "owner_ok s"
  shows "excl_locked (lk s) = 0 \<longleftrightarrow> owners s = {}" "excl_locked (lk s) AND WRITE_LOCK \<noteq> 0 \<longleftrightarrow> (\<exists>t. phase s t = Holds Write)"
    "phase s t = Holds Write \<Longrightarrow> owners s = {t} \<and> thread_index (lk s) = int t \<and> readers s = {} \<and> excl_locked (lk s) = WRITE_LOCK"
    "\<forall>u. phase s u \<noteq> Holds Write \<Longrightarrow> thread_index (lk s) = LWP_INVALIDTHREADID"
    "t \<in> owners s \<Longrightarrow> owners s = {t}" "t \<in> owners s \<Longrightarrow> phase s t \<noteq> Holds Write \<Longrightarrow> excl_locked (lk s) = SHARED_LOCK \<and> thread_index (lk s) = LWP_INVALIDTHREADID"
    "thread_index (lk s) = int t \<Longrightarrow> phase s t = Holds Write"
proof -
  have w: "u \<in> owners s" if "phase s u = Holds Write" for u using that by (simp add: owners_def)
  have w2: "u = v" if "owners s = {v}" "phase s u = Holds Write" for u v using w [OF that(2)] that(1) by simp
  consider (none) "owners s = {}" "excl_locked (lk s) = 0" "thread_index (lk s) = LWP_INVALIDTHREADID"
    | (wr) v where "owners s = {v}" "phase s v = Holds Write" "excl_locked (lk s) = WRITE_LOCK" "thread_index (lk s) = int v" "readers s = {}"
    | (sh) v where "owners s = {v}" "phase s v \<noteq> Holds Write" "excl_locked (lk s) = SHARED_LOCK" "thread_index (lk s) = LWP_INVALIDTHREADID"
    using assms unfolding owner_ok_def by (metis (full_types))
  note cs = this
  have i: "LWP_INVALIDTHREADID \<noteq> int u" for u by (simp add: lock_consts)
  show "excl_locked (lk s) = 0 \<longleftrightarrow> owners s = {}" by (cases rule: cs) (auto simp: lock_consts)
  show "excl_locked (lk s) AND WRITE_LOCK \<noteq> 0 \<longleftrightarrow> (\<exists>t. phase s t = Holds Write)" by (cases rule: cs) (auto simp: lock_consts dest: w w2)
  show "phase s t = Holds Write \<Longrightarrow> owners s = {t} \<and> thread_index (lk s) = int t \<and> readers s = {} \<and> excl_locked (lk s) = WRITE_LOCK"
    using w [of t] by (cases rule: cs) auto
  show "\<forall>u. phase s u \<noteq> Holds Write \<Longrightarrow> thread_index (lk s) = LWP_INVALIDTHREADID" by (cases rule: cs) auto
  show "t \<in> owners s \<Longrightarrow> owners s = {t}" by (cases rule: cs) auto
  show "t \<in> owners s \<Longrightarrow> phase s t \<noteq> Holds Write \<Longrightarrow> excl_locked (lk s) = SHARED_LOCK \<and> thread_index (lk s) = LWP_INVALIDTHREADID"
    by (cases rule: cs) auto
  show "thread_index (lk s) = int t \<Longrightarrow> phase s t = Holds Write" using i by (cases rule: cs) auto
qed

lemma owner_write: "owners s = {t} \<Longrightarrow> phase s t = Holds Write \<Longrightarrow> excl_locked (lk s) = WRITE_LOCK \<Longrightarrow> thread_index (lk s) = int t \<Longrightarrow>
    readers s = {} \<Longrightarrow> owner_ok s"
  and owner_shared: "owners s = {t} \<Longrightarrow> phase s t \<noteq> Holds Write \<Longrightarrow> excl_locked (lk s) = SHARED_LOCK \<Longrightarrow>
    thread_index (lk s) = LWP_INVALIDTHREADID \<Longrightarrow> owner_ok s"
  and owner_none: "owners s = {} \<Longrightarrow> excl_locked (lk s) = 0 \<Longrightarrow> thread_index (lk s) = LWP_INVALIDTHREADID \<Longrightarrow> owner_ok s"
  by (auto simp: owner_ok_def)

text \<open>A thread other than the owner moves.\<close>

lemma owner_other:
  assumes "owner_ok s" "t \<notin> owners s" "p \<notin> {Holds Write, Holds Shared, Asleep Boosted, Woken Boosted}"
    "p = Holds Read \<Longrightarrow> \<forall>u. phase s u \<noteq> Holds Write" "excl_locked l = excl_locked (lk s)" "thread_index l = thread_index (lk s)"
  shows "owner_ok (go t p (s\<lparr>lk := l\<rparr>))"
proof -
  let ?s = "go t p (s\<lparr>lk := l\<rparr>)"
  have o: "owners ?s = owners s" using assms(2,3) upd_lk_sets(2) [of "\<lambda>_. l" s] by (auto simp: go_sets)
  have r: "readers ?s \<subseteq> insert t (readers s)" "p \<noteq> Holds Read \<Longrightarrow> readers ?s \<subseteq> readers s" using upd_lk_sets(1) [of "\<lambda>_. l" s] by (auto simp: go_sets)
  have h: "phase ?s u = Holds Write \<longleftrightarrow> phase s u = Holds Write" if "u \<in> owners s" for u using assms(2,3) that by auto
  consider "owners s = {}" "excl_locked (lk s) = 0" "thread_index (lk s) = LWP_INVALIDTHREADID"
    | v where "owners s = {v}" "phase s v = Holds Write" | v where "owners s = {v}" "phase s v \<noteq> Holds Write"
    using assms(1) unfolding owner_ok_def by blast
  then show ?thesis
  proof cases
    case 1
    then show ?thesis using o assms(5,6) by (intro owner_none) simp_all
  next
    case (2 v)
    then show ?thesis using o h [of v] owner_facts(3) [OF assms(1) 2(2)] assms(4-6) r(2) by (intro owner_write [of _ v]) auto
  next
    case (3 v)
    then show ?thesis using o h [of v] owner_facts(6) [OF assms(1), of v] assms(5,6) by (intro owner_shared [of _ v]) auto
  qed
qed

lemma wf_pre: "lock_wf n s \<Longrightarrow> lock_pre n s"
  by (simp add: lock_wf_def)

lemma pre_owner: "lock_pre n s \<Longrightarrow> owner_ok s"
  by (simp add: lock_pre_def)

lemma card_go:
  assumes "lock_pre n s"
  shows "t \<notin> readers s \<Longrightarrow> of_nat (card (insert t (readers s))) = readers_reading (lk s) + 1"
    "t \<in> readers s \<Longrightarrow> of_nat (card (readers s - {t})) = readers_reading (lk s) - 1"
    "t \<notin> waiting s \<Longrightarrow> of_nat (card (insert t (waiting s))) = num_waiting (lk s) + 1"
    "t \<in> waiting s \<Longrightarrow> of_nat (card (waiting s - {t})) = num_waiting (lk s) - 1"
proof -
  note f = pre_finite(1,2) [OF assms]
  have e: "readers_reading (lk s) = of_nat (card (readers s))" "num_waiting (lk s) = of_nat (card (waiting s))" using assms by (simp_all add: lock_pre_def)
  have d: "of_nat (card (A - {t})) = (of_nat (card A) :: byte) - 1" if "finite A" "t \<in> A" for A :: "nat set"
    using that card_Suc_Diff1 [OF that] by (metis add_diff_cancel_left' of_nat_Suc)
  show "t \<notin> readers s \<Longrightarrow> of_nat (card (insert t (readers s))) = readers_reading (lk s) + 1"
    "t \<notin> waiting s \<Longrightarrow> of_nat (card (insert t (waiting s))) = num_waiting (lk s) + 1" using f e by simp_all
  show "t \<in> readers s \<Longrightarrow> of_nat (card (readers s - {t})) = readers_reading (lk s) - 1"
    "t \<in> waiting s \<Longrightarrow> of_nat (card (waiting s - {t})) = num_waiting (lk s) - 1" using d f e by simp_all
qed

lemma lk_sets [simp]: "readers (s\<lparr>lk := l\<rparr>) = readers s" "owners (s\<lparr>lk := l\<rparr>) = owners s" "waiting (s\<lparr>lk := l\<rparr>) = waiting s"
  "sleeps (s\<lparr>lk := l\<rparr>) h = sleeps s h" "active (s\<lparr>lk := l\<rparr>) = active s" "awake (s\<lparr>lk := l\<rparr>) t = awake s t"
  by (simp_all add: readers_def owners_def waiting_def sleeps_def active_def awake_def)

lemma pre_go:
  assumes pre: "lock_pre n s" and t: "t < n" "awake s t" "p \<noteq> Holds Boosted"
    and c: "readers_reading l = of_nat (card (readers (go t p s)))" "num_waiting l = of_nat (card (waiting (go t p s)))"
      "wait_states l = wait_states (lk s) OR (case p of Asleep h \<Rightarrow> wait_bit h | _ \<Rightarrow> 0)" and o: "owner_ok (go t p (s\<lparr>lk := l\<rparr>))"
  shows "lock_pre n (go t p (s\<lparr>lk := l\<rparr>))"
proof -
  let ?s = "go t p (s\<lparr>lk := l\<rparr>)"
  have w: "wait_states (lk s) = bits (sleeps s Read) (sleeps s Write \<or> sleeps s Boosted) (sleeps s Shared)" using pre by (simp add: lock_pre_def)
  have sl: "sleeps ?s h \<longleftrightarrow> p = Asleep h \<or> sleeps s h" for h using t(2) by (simp add: go_sets)
  have e: "readers ?s = readers (go t p s)" "waiting ?s = waiting (go t p s)" by (simp_all add: go_sets)
  have "wait_states l = bits (sleeps ?s Read) (sleeps ?s Write \<or> sleeps ?s Boosted) (sleeps ?s Shared)"
  proof (cases p)
    case (Asleep h)
    then show ?thesis unfolding c(3) w sl by (cases h) (simp_all add: bits_simps)
  qed (use c(3) w sl in simp_all)
  then show ?thesis using pre t(1,3) c(1,2) o unfolding lock_pre_def e by simp
qed

text \<open>Falling asleep.\<close>

lemma sleep_wf:
  assumes wf: "lock_wf n s" and t: "t < n" "awake s t" "t \<notin> readers s" "phase s t \<noteq> Holds Write" and m: "m = of_nat (card (insert t (waiting s)))"
    and own: "if h = Boosted then t \<in> owners s \<and> readers s \<noteq> {} else t \<notin> owners s" and act: "active s - {t} \<noteq> {}"
  shows "lock_wf n (wait_process h t (s\<lparr>lk := (lk s)\<lparr>num_waiting := m\<rparr>\<rparr>))"
proof -
  let ?l = "(lk s)\<lparr>num_waiting := m, wait_states := wait_states (lk s) OR wait_bit h\<rparr>"
  have s: "wait_process h t (s\<lparr>lk := (lk s)\<lparr>num_waiting := m\<rparr>\<rparr>) = go t (Asleep h) (s\<lparr>lk := ?l\<rparr>)" by (simp add: wait_process_def)
  note pre = wf_pre [OF wf]
  note o = pre_owner [OF pre]
  have oo: "owner_ok (go t (Asleep h) (s\<lparr>lk := ?l\<rparr>))"
  proof (cases "h = Boosted")
    case True
    then have t': "owners s = {t}" "excl_locked (lk s) = SHARED_LOCK" "thread_index (lk s) = LWP_INVALIDTHREADID"
      using own owner_facts(5,6) [OF o, of t] t(4) by auto
    then show ?thesis using True by (intro owner_shared [of _ t]) (simp_all add: go_sets)
  next
    case False
    then show ?thesis using o own by (intro owner_other) simp_all
  qed
  have r: "readers (go t (Asleep h) s) = readers s" using t(3) by (simp add: go_sets)
  have "lock_pre n (go t (Asleep h) (s\<lparr>lk := ?l\<rparr>))"
    using pre t(1,2) m r oo by (intro pre_go) (simp_all add: go_sets lock_pre_def)
  moreover have "active (go t (Asleep h) (s\<lparr>lk := ?l\<rparr>)) \<noteq> {}" using act by (auto simp: active_def)
  moreover have "readers (go t (Asleep h) (s\<lparr>lk := ?l\<rparr>)) = readers s" using t(3) by (simp add: go_sets)
  moreover have "sleeps (go t (Asleep h) (s\<lparr>lk := ?l\<rparr>)) Boosted \<longleftrightarrow> h = Boosted \<or> sleeps s Boosted" using t(2) by (simp add: go_sets)
  ultimately show ?thesis unfolding s using wf own by (auto simp: lock_wf_def split: if_splits)
qed

text \<open>Taking the lock.\<close>

lemma take_wf:
  assumes wf: "lock_wf n s" and t: "t < n" "awake s t" "t \<notin> readers s" "phase s t \<noteq> Holds Write" and m: "m = of_nat (card (waiting s - {t}))"
    and own: "if h = Boosted then t \<in> owners s else t \<notin> owners s" and free: "\<not> still_blocked h (lk s)" and n: "n \<le> 255"
  shows "\<exists>s'. obtained h t (s\<lparr>lk := acquire h ((lk s)\<lparr>num_waiting := m\<rparr>)\<rparr>) = Some s' \<and> lock_wf n s'"
proof -
  note pre = wf_pre [OF wf]
  note o = pre_owner [OF pre]
  have fin: "lock_wf n (go t (Holds k) (s\<lparr>lk := l\<rparr>))"
    if "k \<noteq> Boosted" "readers_reading l = of_nat (card (readers (go t (Holds k) s)))" "num_waiting l = m" "wait_states l = wait_states (lk s)"
      "owner_ok (go t (Holds k) (s\<lparr>lk := l\<rparr>))" for k l
  proof -
    have "lock_pre n (go t (Holds k) (s\<lparr>lk := l\<rparr>))" using that pre t(1,2) m by (intro pre_go) (simp_all add: go_sets)
    moreover have "sleeps (go t (Holds k) (s\<lparr>lk := l\<rparr>)) Boosted \<Longrightarrow> readers (go t (Holds k) (s\<lparr>lk := l\<rparr>)) \<noteq> {}"
      using wf t(2,3) by (auto simp: lock_wf_def go_sets)
    moreover have "active (go t (Holds k) (s\<lparr>lk := l\<rparr>)) \<noteq> {}" by (auto simp: active_def)
    ultimately show ?thesis by (simp add: lock_wf_def)
  qed
  have rw: "readers (go t (Holds k) s) = readers s" if "k \<noteq> Read" for k using t(3) that by (simp add: go_sets)
  have rr: "readers_reading (lk s) = of_nat (card (readers s))" using pre by (simp add: lock_pre_def)
  have nr: "readers_reading (lk s) = 0 \<longleftrightarrow> readers s = {}" by (rule no_readers [OF pre n])
  show ?thesis
  proof (cases h)
    case Read
    have nw: "\<forall>u. phase s u \<noteq> Holds Write" using free Read owner_facts(2) [OF o] by simp
    let ?l = "(lk s)\<lparr>num_waiting := m, readers_reading := readers_reading (lk s) + 1\<rparr>"
    have "owner_ok (go t (Holds Read) (s\<lparr>lk := ?l\<rparr>))" using o own Read nw by (intro owner_other) simp_all
    moreover have "readers_reading ?l = of_nat (card (readers (go t (Holds Read) s)))" using card_go(1) [OF pre t(3)] by (simp add: go_sets)
    ultimately have "lock_wf n (go t (Holds Read) (s\<lparr>lk := ?l\<rparr>))" by (intro fin) simp_all
    then show ?thesis using Read owner_facts(4) [OF o nw] by simp
  next
    case Write
    have r: "readers s = {}" "owners s = {}" using free Write nr owner_facts(1) [OF o] by simp_all
    let ?l = "(lk s)\<lparr>num_waiting := m, excl_locked := WRITE_LOCK, thread_index := int t\<rparr>"
    have "owner_ok (go t (Holds Write) (s\<lparr>lk := ?l\<rparr>))" using r by (intro owner_write [of _ t]) (simp_all add: go_sets)
    then have "lock_wf n (go t (Holds Write) (s\<lparr>lk := ?l\<rparr>))" using rw rr by (intro fin) simp_all
    then show ?thesis using Write by simp
  next
    case Shared
    have r: "owners s = {}" using free Shared owner_facts(1) [OF o] by simp
    have "\<forall>u. phase s u \<noteq> Holds Write" using r by (auto simp: owners_def)
    note ti = owner_facts(4) [OF o this]
    let ?l = "(lk s)\<lparr>num_waiting := m, excl_locked := SHARED_LOCK\<rparr>"
    have "owner_ok (go t (Holds Shared) (s\<lparr>lk := ?l\<rparr>))" using r ti by (intro owner_shared [of _ t]) (simp_all add: go_sets)
    then have "lock_wf n (go t (Holds Shared) (s\<lparr>lk := ?l\<rparr>))" using rw rr by (intro fin) simp_all
    then show ?thesis using Shared by simp
  next
    case Boosted
    have r: "readers s = {}" "owners s = {t}" using free Boosted nr own owner_facts(5) [OF o, of t] by simp_all
    let ?l = "(lk s)\<lparr>num_waiting := m, excl_locked := WRITE_LOCK, thread_index := int t\<rparr>"
    have "owner_ok (go t (Holds Write) (s\<lparr>lk := ?l\<rparr>))" using r by (intro owner_write [of _ t]) (simp_all add: go_sets)
    then have "lock_wf n (go t (Holds Write) (s\<lparr>lk := ?l\<rparr>))" using rw rr by (intro fin) simp_all
    then show ?thesis using Boosted by simp
  qed
qed

lemma readers_active: "readers s \<noteq> {} \<Longrightarrow> active s \<noteq> {}"
  by (auto simp: readers_def active_def)

lemma blocked_active:
  assumes wf: "lock_wf n s" and n: "n \<le> 255" and t: "t \<notin> readers s" "phase s t \<noteq> Holds Write" "h \<noteq> Boosted \<Longrightarrow> t \<notin> owners s"
    and b: "still_blocked h (lk s)"
  shows "active s - {t} \<noteq> {}"
proof -
  note o = pre_owner [OF wf_pre [OF wf]]
  have nr: "readers_reading (lk s) = 0 \<longleftrightarrow> readers s = {}" by (rule no_readers [OF wf_pre [OF wf] n])
  have ra: "active s - {t} \<noteq> {}" if "readers s \<noteq> {}" using that t(1) by (auto simp: readers_def active_def)
  have oa: "active s - {t} \<noteq> {}" if ow: "owners s \<noteq> {}" "h \<noteq> Boosted"
  proof -
    obtain u where u: "u \<in> owners s" "u \<noteq> t" using ow t(3) by blast
    then consider "u \<in> active s" | "sleeps s Boosted" by (auto simp: owners_def active_def sleeps_def)
    then show ?thesis
    proof cases
      case 1
      then show ?thesis using u by auto
    next
      case 2
      then show ?thesis using wf ra by (simp add: lock_wf_def)
    qed
  qed
  show ?thesis
  proof (cases h)
    case Read
    then obtain u where "phase s u = Holds Write" using b owner_facts(2) [OF o] by auto
    then show ?thesis using oa Read by (auto simp: owners_def)
  qed (use b nr ra oa owner_facts(1) [OF o] in auto)
qed

lemma waiters_active:
  assumes "lock_wf n s" "phase s t = Idle" "wait_states (lk s) \<noteq> 0"
  shows "active s - {t} \<noteq> {}"
proof -
  have "wait_states (lk s) = bits (sleeps s Read) (sleeps s Write \<or> sleeps s Boosted) (sleeps s Shared)" using assms(1) by (simp add: lock_wf_def lock_pre_def)
  then have "\<exists>h. sleeps s h" using assms(3) bits_simps(1) by metis
  then have "active s \<noteq> {}" using assms(1) by (simp add: lock_wf_def)
  moreover have "t \<notin> active s" using assms(2) by (simp add: active_def)
  ultimately show ?thesis by simp
qed

lemma idle_facts:
  assumes "phase s t = Idle"
  shows "awake s t" "t \<notin> readers s" "t \<notin> owners s" "t \<notin> waiting s" "waiting s - {t} = waiting s"
  using assms by (auto simp: awake_def readers_def owners_def waiting_def)

lemma not_owner:
  assumes "lock_wf n s" "phase s t \<noteq> Holds Write"
  shows "thread_index (lk s) \<noteq> int t"
  using owner_facts(7) [OF pre_owner [OF wf_pre [OF assms(1)]], of t] assms(2) by blast

text \<open>A thread that does not take part yet asks for the lock.\<close>

lemma idle_obtain:
  assumes wf: "lock_wf n s" and n: "n \<le> 255" and t: "t < n" "phase s t = Idle" and h: "h \<noteq> Boosted"
  shows "\<not> still_blocked h (lk s) \<Longrightarrow> \<exists>s'. obtained h t (upd_lk (acquire h) s) = Some s' \<and> lock_wf n s'"
    and "still_blocked h (lk s) \<or> wait_states (lk s) \<noteq> 0 \<Longrightarrow> lock_wf n (Lock_Obtain h t s)"
proof -
  note i = idle_facts [OF t(2)]
  have eq: "(lk s)\<lparr>num_waiting := of_nat (card (waiting s))\<rparr> = lk s" using wf by (cases "lk s") (simp add: lock_wf_def lock_pre_def)
  show "\<exists>s'. obtained h t (upd_lk (acquire h) s) = Some s' \<and> lock_wf n s'" if "\<not> still_blocked h (lk s)"
    using take_wf [OF wf t(1) i(1,2) _ refl _ that n] t(2) i h eq by simp
  assume b: "still_blocked h (lk s) \<or> wait_states (lk s) \<noteq> 0"
  have act: "active s - {t} \<noteq> {}" using b blocked_active [OF wf n i(2), of h] waiters_active [OF wf t(2)] t(2) i(3) by auto
  have "num_waiting (lk s) + 1 = of_nat (card (insert t (waiting s)))" using card_go(3) [OF wf_pre [OF wf] i(4)] by simp
  from sleep_wf [OF wf t(1) i(1,2) _ this _ act, of h] show "lock_wf n (Lock_Obtain h t s)" using t(2) i(3) h by (simp add: Lock_Obtain_def)
qed

lemma ObtainReadLock_wf:
  assumes "lock_wf n s" "n \<le> 255" "t < n" "phase s t = Idle"
  shows "\<exists>s'. ObtainReadLock t s = Some s' \<and> lock_wf n s'"
  using idle_obtain [OF assms, of Read] not_owner [OF assms(1), of t] assms(4) by (simp add: ObtainReadLock_def del: obtained.simps acquire.simps)

lemma ObtainWriteLock_wf:
  assumes "lock_wf n s" "n \<le> 255" "t < n" "phase s t = Idle"
  shows "\<exists>s'. ObtainWriteLock t s = Some s' \<and> lock_wf n s'"
  using idle_obtain [OF assms, of Write] not_owner [OF assms(1), of t] assms(4) by (auto simp: ObtainWriteLock_def simp del: obtained.simps acquire.simps)

lemma ObtainSharedLock_wf:
  assumes "lock_wf n s" "n \<le> 255" "t < n" "phase s t = Idle"
  shows "\<exists>s'. ObtainSharedLock t s = Some s' \<and> lock_wf n s'"
  using idle_obtain [OF assms, of Shared] not_owner [OF assms(1), of t] assms(4) by (auto simp: ObtainSharedLock_def simp del: obtained.simps acquire.simps)

lemma BoostSharedLock_wf:
  assumes wf: "lock_wf n s" and n: "n \<le> 255" and t: "t < n" "phase s t = Holds Shared"
  shows "\<exists>s'. BoostSharedLock t s = Some s' \<and> lock_wf n s'"
proof -
  have i: "awake s t" "t \<notin> readers s" "t \<in> owners s" "t \<notin> waiting s" "waiting s - {t} = waiting s"
    using t(2) by (auto simp: awake_def readers_def owners_def waiting_def)
  have eq: "(lk s)\<lparr>num_waiting := of_nat (card (waiting s))\<rparr> = lk s" using wf by (cases "lk s") (simp add: lock_wf_def lock_pre_def)
  have no: "thread_index (lk s) \<noteq> int t" using not_owner [OF wf, of t] t(2) by simp
  show ?thesis
  proof (cases "readers_reading (lk s) = 0")
    case True
    then show ?thesis using take_wf [OF wf t(1) i(1,2) _ refl _ _ n, of Boosted] t(2) i eq no
      by (simp add: BoostSharedLock_def del: obtained.simps acquire.simps)
  next
    case False
    then have r: "readers s \<noteq> {}" using no_readers [OF wf_pre [OF wf] n] by simp
    have act: "active s - {t} \<noteq> {}" using blocked_active [OF wf n i(2), of Boosted] t(2) False by simp
    have "num_waiting (lk s) + 1 = of_nat (card (insert t (waiting s)))" using card_go(3) [OF wf_pre [OF wf] i(4)] by simp
    from sleep_wf [OF wf t(1) i(1,2) _ this _ act, of Boosted] show ?thesis using t(2) i(3) r False no by (simp add: BoostSharedLock_def Lock_Obtain_def)
  qed
qed

lemma resume_wf:
  assumes wf: "lock_wf n s" and n: "n \<le> 255" and t: "t < n" "phase s t = Woken h"
  shows "\<exists>s'. Lock_Obtain_resume h t s = Some s' \<and> lock_wf n s'"
proof -
  have i: "awake s t" "t \<notin> readers s" "t \<in> owners s \<longleftrightarrow> h = Boosted" "t \<in> waiting s"
    using t(2) by (auto simp: awake_def readers_def owners_def waiting_def)
  have own: "if h = Boosted then t \<in> owners s else t \<notin> owners s" using i(3) by simp
  show ?thesis
  proof (cases "still_blocked h (lk s)")
    case False
    have "num_waiting (lk s) - 1 = of_nat (card (waiting s - {t}))" using card_go(4) [OF wf_pre [OF wf] i(4)] by simp
    from take_wf [OF wf t(1) i(1,2) _ this own False n] show ?thesis using t(2) False by (simp add: Lock_Obtain_resume_def del: obtained.simps acquire.simps)
  next
    case True
    have act: "active s - {t} \<noteq> {}" using blocked_active [OF wf n i(2) _ _ True] t(2) i(3) by simp
    have "readers s \<noteq> {}" if "h = Boosted" using True that no_readers [OF wf_pre [OF wf] n] by simp
    moreover have "s\<lparr>lk := (lk s)\<lparr>num_waiting := of_nat (card (insert t (waiting s)))\<rparr>\<rparr> = s"
      using wf i(4) by (cases s, cases "lk s") (simp add: lock_wf_def lock_pre_def insert_absorb)
    ultimately have "lock_wf n (wait_process h t s)" using sleep_wf [OF wf t(1) i(1,2) _ refl _ act, of h] t(2) own by simp
    then show ?thesis using True by (simp add: Lock_Obtain_resume_def)
  qed
qed

lemma ReleaseReadLock_wf:
  assumes wf: "lock_wf n s" and n: "n \<le> 255" and t: "t < n" "phase s t = Holds Read"
  shows "\<exists>s'. ReleaseReadLock t s = Some s' \<and> lock_wf n s'"
proof -
  note pre = wf_pre [OF wf]
  note o = pre_owner [OF pre]
  have i: "awake s t" "t \<in> readers s" "t \<notin> owners s" "t \<notin> waiting s" "waiting s - {t} = waiting s"
    using t(2) by (auto simp: awake_def readers_def owners_def waiting_def)
  have nw: "\<forall>u. phase s u \<noteq> Holds Write" using owner_facts(3) [OF o] i(2) by blast
  let ?l = "(lk s)\<lparr>readers_reading := readers_reading (lk s) - 1\<rparr>"
  let ?s = "go t Idle (s\<lparr>lk := ?l\<rparr>)"
  have "owner_ok ?s" using o i(3) by (intro owner_other) simp_all
  then have p: "lock_pre n ?s" using pre t(1) i card_go(2) [OF pre i(2)] by (intro pre_go) (simp_all add: go_sets lock_pre_def)
  have ti: "thread_index (lk s) = LWP_INVALIDTHREADID" by (rule owner_facts(4) [OF o nw])
  have no: "thread_index (lk s) \<noteq> int t" using not_owner [OF wf, of t] t(2) by simp
  have sl: "sleeps ?s h = sleeps s h" for h using i(1) by (simp add: go_sets)
  have nr: "readers_reading ?l = 0 \<longleftrightarrow> readers ?s = {}" using no_readers [OF p n] by simp
  show ?thesis
  proof (cases "readers_reading ?l = 0 \<and> wait_states (lk s) \<noteq> 0")
    case True
    then have "wait_states (lk ?s) \<noteq> 0" by simp
    note w = ReleaseW_ok [OF p this]
    have "lock_wf n (Lock_ReleaseW ?s)" using w by (simp add: lock_wf_def)
    then show ?thesis using True w(5) ti no by (simp add: ReleaseReadLock_def)
  next
    case False
    have "lock_wf n ?s"
    proof (cases "wait_states (lk s) = 0")
      case True
      have "wait_states (lk ?s) = bits (sleeps ?s Read) (sleeps ?s Write \<or> sleeps ?s Boosted) (sleeps ?s Shared)" using p by (simp only: lock_pre_def)
      then have "\<not> sleeps ?s h" for h using True bits_simps(1) by (cases h) auto
      then show ?thesis using p by (simp add: lock_wf_def)
    next
      case w: False
      then have "readers ?s \<noteq> {}" using False nr by simp
      moreover from this have "active ?s \<noteq> {}" by (rule readers_active)
      ultimately show ?thesis using p by (simp add: lock_wf_def)
    qed
    moreover have "ReleaseReadLock t s = Some ?s" unfolding ReleaseReadLock_def Let_def using False ti no by auto
    ultimately show ?thesis by blast
  qed
qed

lemma release_owner:
  assumes wf: "lock_wf n s" and t: "t < n" "phase s t \<in> {Holds Shared, Holds Write}"
  defines "s1 \<equiv> go t Idle (s\<lparr>lk := (lk s)\<lparr>thread_index := LWP_INVALIDTHREADID, excl_locked := 0\<rparr>\<rparr>)"
  shows "lock_wf n (if wait_states (lk s1) \<noteq> 0 then Lock_ReleaseR s1 else s1)"
    "thread_index (lk (if wait_states (lk s1) \<noteq> 0 then Lock_ReleaseR s1 else s1)) = LWP_INVALIDTHREADID"
proof -
  note pre = wf_pre [OF wf]
  have i: "awake s t" "t \<notin> readers s" "t \<in> owners s" "t \<notin> waiting s" "waiting s - {t} = waiting s" "readers s - {t} = readers s"
    using t(2) by (auto simp: awake_def readers_def owners_def waiting_def)
  have ow: "owners s = {t}" using owner_facts(5) [OF pre_owner [OF pre] i(3)] .
  have "owner_ok s1" unfolding s1_def using ow by (intro owner_none) (simp_all add: go_sets)
  then have p: "lock_pre n s1" unfolding s1_def using pre t(1) i by (intro pre_go) (simp_all add: go_sets lock_pre_def)
  have "\<not> sleeps s Boosted"
  proof
    assume "sleeps s Boosted"
    then obtain u where u: "phase s u = Asleep Boosted" by (auto simp: sleeps_def)
    then have "u \<in> owners s" by (simp add: owners_def)
    then show False using ow u t(2) by auto
  qed
  then have sb: "\<not> sleeps s1 Boosted" unfolding s1_def using i(1) by (simp add: go_sets)
  have w0: "\<not> sleeps s1 h" if "wait_states (lk s1) = 0" for h
  proof -
    have "wait_states (lk s1) = bits (sleeps s1 Read) (sleeps s1 Write \<or> sleeps s1 Boosted) (sleeps s1 Shared)" using p by (simp only: lock_pre_def)
    then show ?thesis using that bits_simps(1) by (cases h) auto
  qed
  show "lock_wf n (if wait_states (lk s1) \<noteq> 0 then Lock_ReleaseR s1 else s1)"
    using p sb w0 ReleaseR_ok [OF p] by (auto simp: lock_wf_def)
  show "thread_index (lk (if wait_states (lk s1) \<noteq> 0 then Lock_ReleaseR s1 else s1)) = LWP_INVALIDTHREADID"
    using ReleaseR_ok(5) [OF p] by (simp add: s1_def)
qed

lemma clear_excl:
  assumes "lock_wf n s" "phase s t \<in> {Holds Shared, Holds Write}"
  shows "excl_locked (lk s) AND NOT (SHARED_LOCK OR WRITE_LOCK) = 0" "phase s t = Holds Write \<Longrightarrow> excl_locked (lk s) AND NOT WRITE_LOCK = 0 \<and> thread_index (lk s) = int t"
proof -
  note o = pre_owner [OF wf_pre [OF assms(1)]]
  have "t \<in> owners s" using assms(2) by (auto simp: owners_def)
  then show "excl_locked (lk s) AND NOT (SHARED_LOCK OR WRITE_LOCK) = 0" using owner_facts(3,6) [OF o, of t] assms(2) by (auto simp: lock_consts)
  show "phase s t = Holds Write \<Longrightarrow> excl_locked (lk s) AND NOT WRITE_LOCK = 0 \<and> thread_index (lk s) = int t"
    using owner_facts(3) [OF o, of t] by (simp add: lock_consts)
qed

lemma ReleaseWriteLock_wf:
  assumes "lock_wf n s" "t < n" "phase s t = Holds Write"
  shows "\<exists>s'. ReleaseWriteLock t s = Some s' \<and> lock_wf n s'"
  using release_owner [OF assms(1,2)] clear_excl [OF assms(1), of t] assms(3) by (simp add: ReleaseWriteLock_def Let_def)

lemma ReleaseSharedLock_wf:
  assumes "lock_wf n s" "t < n" "phase s t \<in> {Holds Shared, Holds Write}"
  shows "\<exists>s'. ReleaseSharedLock t s = Some s' \<and> lock_wf n s'"
  using release_owner [OF assms] clear_excl(1) [OF assms(1,3)] by (simp add: ReleaseSharedLock_def Let_def)

lemma UnBoost_owner: "lock_wf n s \<Longrightarrow> phase s t = Holds Write \<Longrightarrow> UnBoostSharedLock t s = None"
  using clear_excl(2) [of n s t] by (simp add: UnBoostSharedLock_def)

lemma init_wf: "lock_wf n \<lparr>lk = Lock_Init, phase = \<lambda>_. Idle\<rparr>"
  by (simp add: lock_wf_def lock_pre_def Lock_Init_def readers_def waiting_def sleeps_def owner_ok_def owners_def bits_def)

lemma step_wf:
  assumes "lock_wf n s" "n \<le> 255" "lock_step n s s'"
  shows "lock_wf n s'"
  using assms(3)
proof (cases rule: lock_step.cases)
  case (obtain_read t)
  then show ?thesis using ObtainReadLock_wf [OF assms(1,2), of t] by simp
next
  case (obtain_write t)
  then show ?thesis using ObtainWriteLock_wf [OF assms(1,2), of t] by simp
next
  case (obtain_shared t)
  then show ?thesis using ObtainSharedLock_wf [OF assms(1,2), of t] by simp
next
  case (boost t)
  then show ?thesis using BoostSharedLock_wf [OF assms(1,2), of t] by simp
next
  case (unboost t)
  then show ?thesis using UnBoost_owner [OF assms(1), of t] by simp
next
  case (resume t h)
  then show ?thesis using resume_wf [OF assms(1,2), of t] by simp
next
  case (release_read t)
  then show ?thesis using ReleaseReadLock_wf [OF assms(1,2), of t] by simp
next
  case (release_write t)
  then show ?thesis using ReleaseWriteLock_wf [OF assms(1), of t] by simp
next
  case (release_shared t)
  then show ?thesis using ReleaseSharedLock_wf [OF assms(1), of t] by simp
qed

lemma reach_wf: "lock_reach n s \<Longrightarrow> n \<le> 255 \<Longrightarrow> lock_wf n s"
  by (induction rule: lock_reach.induct) (auto simp: init_wf step_wf)

section \<open>Properties\<close>

text \<open>
  C13: in every reachable state of at most 255 threads the fields of the lock have the form the macros
  rely on. The two counters are the numbers of readers and of waiting threads; \<open>excl_locked\<close> is 0,
  \<open>WRITE_LOCK\<close> or \<open>SHARED_LOCK\<close> as nobody, a writer or a holder of a shared lock owns it;
  \<open>wait_states\<close> has exactly the bits of those who sleep; the owner is recorded exactly for a writer.
\<close>

theorem lock_fields_well_formed:
  assumes "lock_reach n s" and "n \<le> 255"
  shows "unat (readers_reading (lk s)) = card {t. phase s t = Holds Read} \<and>
    unat (num_waiting (lk s)) = card {t. \<exists>h. phase s t \<in> {Asleep h, Woken h}} \<and>
    excl_locked (lk s) = (if \<exists>t. phase s t = Holds Write then WRITE_LOCK
      else if \<exists>t. phase s t \<in> {Holds Shared, Asleep Boosted, Woken Boosted} then SHARED_LOCK else 0) \<and>
    (wait_states (lk s) AND READ_LOCK \<noteq> 0 \<longleftrightarrow> (\<exists>t. phase s t = Asleep Read)) \<and>
    (wait_states (lk s) AND EXCL_LOCKS \<noteq> 0 \<longleftrightarrow> (\<exists>t h. phase s t = Asleep h \<and> h \<noteq> Read)) \<and>
    (\<forall>t. thread_index (lk s) = int t \<longleftrightarrow> phase s t = Holds Write)"
proof -
  have wf: "lock_wf n s" using reach_wf assms by blast
  note pre = wf_pre [OF wf]
  note o = pre_owner [OF pre]
  have c: "readers_reading (lk s) = of_nat (card (readers s))" "num_waiting (lk s) = of_nat (card (waiting s))"
    "wait_states (lk s) = bits (sleeps s Read) (sleeps s Write \<or> sleeps s Boosted) (sleeps s Shared)" using pre by (simp_all add: lock_pre_def)
  have b: "card (readers s) < 256" "card (waiting s) < 256" using pre_finite(3,4) [OF pre] assms(2) by simp_all
  have 1: "unat (readers_reading (lk s)) = card {t. phase s t = Holds Read}" using c(1) b(1) by (simp add: readers_def unat_of_nat)
  have "waiting s = {t. \<exists>h. phase s t \<in> {Asleep h, Woken h}}" by (auto simp: waiting_def)
  then have 2: "unat (num_waiting (lk s)) = card {t. \<exists>h. phase s t \<in> {Asleep h, Woken h}}" using c(2) b(2) by (simp add: unat_of_nat)
  have 3: "excl_locked (lk s) = (if \<exists>t. phase s t = Holds Write then WRITE_LOCK
      else if \<exists>t. phase s t \<in> {Holds Shared, Asleep Boosted, Woken Boosted} then SHARED_LOCK else 0)"
  proof (cases "owners s = {}")
    case True
    then have "\<forall>t. phase s t \<notin> {Holds Write, Holds Shared, Asleep Boosted, Woken Boosted}" unfolding owners_def by blast
    then show ?thesis using owner_facts(1) [OF o] True by auto
  next
    case False
    then obtain t where t: "t \<in> owners s" by blast
    then have ot: "owners s = {t}" by (rule owner_facts(5) [OF o])
    have only: "u = t" if "phase s u \<in> {Holds Write, Holds Shared, Asleep Boosted, Woken Boosted}" for u using that ot unfolding owners_def by blast
    show ?thesis using t owner_facts(3,6) [OF o, of t] only by (cases "phase s t = Holds Write") (auto simp: owners_def)
  qed
  have 4: "wait_states (lk s) AND READ_LOCK \<noteq> 0 \<longleftrightarrow> (\<exists>t. phase s t = Asleep Read)" unfolding c(3) bits_simps by (simp add: sleeps_def)
  have "h \<noteq> Read \<longleftrightarrow> h = Write \<or> h = Boosted \<or> h = Shared" for h by (cases h) simp_all
  then have 5: "wait_states (lk s) AND EXCL_LOCKS \<noteq> 0 \<longleftrightarrow> (\<exists>t h. phase s t = Asleep h \<and> h \<noteq> Read)"
    unfolding c(3) bits_simps sleeps_def by auto
  have 6: "thread_index (lk s) = int t \<longleftrightarrow> phase s t = Holds Write" for t using owner_facts(3,7) [OF o, of t] by blast
  show ?thesis using 1 2 3 4 5 6 by blast
qed

text \<open>Two threads: the first reads, the second sleeps and waits to write; or the first has released again.\<close>

definition one_reads :: lsys where
  "one_reads = go 0 (Holds Read) \<lparr>lk = Lock_Init\<lparr>readers_reading := 1\<rparr>, phase = (\<lambda>_. Idle)\<rparr>"

definition one_waits :: lsys where
  "one_waits = go 1 (Asleep Write) (one_reads\<lparr>lk := (lk one_reads)\<lparr>num_waiting := 1, wait_states := WRITE_LOCK\<rparr>\<rparr>)"

definition one_woken :: lsys where
  "one_woken = signal_excl (go 0 Idle (one_waits\<lparr>lk := (lk one_waits)\<lparr>readers_reading := 0, wait_states := 0\<rparr>\<rparr>))"

definition one_writes :: lsys where
  "one_writes = go 1 (Holds Write) (one_woken\<lparr>lk := (lk one_woken)\<lparr>num_waiting := 0, excl_locked := WRITE_LOCK, thread_index := 1\<rparr>\<rparr>)"

lemma one_reads_reach: "lock_reach 2 one_reads"
  by (rule lock_reach.step [OF lock_reach.start], rule lock_step.obtain_read [of 0])
    (simp_all add: one_reads_def ObtainReadLock_def Lock_Init_def lock_consts go_def)

lemma one_waits_reach: "lock_reach 2 one_waits"
  by (rule lock_reach.step [OF one_reads_reach], rule lock_step.obtain_write [of 1])
    (simp_all add: one_waits_def one_reads_def ObtainWriteLock_def Lock_Obtain_def wait_process_def Lock_Init_def lock_consts)

lemma one_woken_reach: "lock_reach 2 one_woken"
  by (rule lock_reach.step [OF one_waits_reach], rule lock_step.release_read [of 0])
    (simp_all add: one_woken_def one_waits_def one_reads_def ReleaseReadLock_def Lock_ReleaseW_def Lock_Init_def lock_consts go_def)

lemma one_writes_reach: "lock_reach 2 one_writes"
  by (rule lock_reach.step [OF one_woken_reach], rule lock_step.resume [of 1 _ _ Write])
    (simp_all add: one_writes_def one_woken_def one_waits_def one_reads_def Lock_Obtain_resume_def Lock_Init_def lock_consts)

theorem lock_fields_well_formed_witness:
  "lock_reach 2 one_waits \<and> phase one_waits 0 = Holds Read \<and> phase one_waits 1 = Asleep Write \<and>
    unat (readers_reading (lk one_waits)) = card {t. phase one_waits t = Holds Read} \<and>
    (wait_states (lk one_waits) AND EXCL_LOCKS \<noteq> 0 \<longleftrightarrow> (\<exists>t h. phase one_waits t = Asleep h \<and> h \<noteq> Read))"
  using lock_fields_well_formed [OF one_waits_reach] one_waits_reach by (simp add: one_waits_def one_reads_def)

text \<open>
  C6: a thread that holds the write lock, obtained as such or boosted, is the only one that holds the lock in
  any way, and at most one thread holds it shared.
\<close>

theorem lock_mutual_exclusion:
  assumes "lock_reach n s" and "n \<le> 255" and "t \<noteq> u"
  shows "(phase s t = Holds Write \<longrightarrow> phase s u \<notin> {Holds Read, Holds Write, Holds Shared}) \<and>
    (phase s t = Holds Shared \<longrightarrow> phase s u \<noteq> Holds Shared)"
proof -
  note o = pre_owner [OF wf_pre [OF reach_wf [OF assms(1,2)]]]
  have "u \<notin> readers s \<and> u \<notin> owners s" if "phase s t = Holds Write" using owner_facts(3) [OF o that] assms(3) by auto
  moreover have "u \<notin> owners s" if "t \<in> owners s" using owner_facts(5) [OF o that] assms(3) by auto
  ultimately show ?thesis by (auto simp: readers_def owners_def)
qed

theorem lock_mutual_exclusion_witness:
  "lock_reach 2 one_writes \<and> phase one_writes 1 = Holds Write \<and> phase one_writes 0 \<notin> {Holds Read, Holds Write, Holds Shared}"
  using lock_mutual_exclusion [OF one_writes_reach, of 1 0] one_writes_reach by (simp add: one_writes_def)

text \<open>
  C5: no wake-up is lost. When threads wait for the lock and none holds it, one of those that wait has been
  signalled, and it gets the lock as soon as it runs.
\<close>

theorem lock_handed_over:
  assumes "lock_reach n s" and "n \<le> 255" and "\<forall>t h. phase s t \<noteq> Holds h" and "phase s u \<in> {Asleep k, Woken k}"
  shows "\<exists>t h s'. phase s t = Woken h \<and> Lock_Obtain_resume h t s = Some s' \<and> (\<exists>k. phase s' t = Holds k)"
proof -
  have wf: "lock_wf n s" using reach_wf assms(1,2) by blast
  note o = pre_owner [OF wf_pre [OF wf]]
  have r: "readers s = {}" using assms(3) by (simp add: readers_def)
  have rr: "readers_reading (lk s) = 0" using no_readers [OF wf_pre [OF wf] assms(2)] r by simp
  have "\<not> sleeps s Boosted" using wf r by (auto simp: lock_wf_def)
  then have nb: "phase s t \<noteq> Asleep Boosted" for t by (auto simp: sleeps_def)
  have "active s \<noteq> {}"
  proof (cases "phase s u = Woken k")
    case False
    then have "sleeps s k" using assms(4) by (auto simp: sleeps_def)
    then show ?thesis using wf by (auto simp: lock_wf_def)
  qed (auto simp: active_def)
  then obtain t h where t: "phase s t = Woken h" using assms(3) by (auto simp: active_def)
  have "\<forall>t. phase s t \<noteq> Holds Write" using assms(3) by blast
  note ti = owner_facts(4) [OF o this]
  have fin: "\<exists>t h s'. phase s t = Woken h \<and> Lock_Obtain_resume h t s = Some s' \<and> (\<exists>k. phase s' t = Holds k)"
    if "phase s v = Woken g" "\<not> still_blocked g (lk s)" for v g
    by (rule exI [of _ v], rule exI [of _ g]) (use that ti in \<open>cases g; simp add: Lock_Obtain_resume_def\<close>)
  show ?thesis
  proof (cases "owners s = {}")
    case True
    then have "excl_locked (lk s) = 0" using owner_facts(1) [OF o] by simp
    then show ?thesis using fin [OF t] rr by (cases h) simp_all
  next
    case False
    then obtain v where v: "phase s v = Woken Boosted" using assms(3) nb by (auto simp: owners_def)
    then show ?thesis using fin [OF v] rr by simp
  qed
qed

theorem lock_handed_over_witness:
  "lock_reach 2 one_woken \<and> (\<exists>t h s'. phase one_woken t = Woken h \<and> Lock_Obtain_resume h t one_woken = Some s' \<and> (\<exists>k. phase s' t = Holds k))"
proof
  show "lock_reach 2 one_woken" by (rule one_woken_reach)
  have p: "phase one_woken t = (if t = 1 then Woken Write else Idle)" for t
    by (auto simp: one_woken_def one_waits_def one_reads_def signal_excl_def)
  show "\<exists>t h s'. phase one_woken t = Woken h \<and> Lock_Obtain_resume h t one_woken = Some s' \<and> (\<exists>k. phase s' t = Holds k)"
    by (rule lock_handed_over [OF one_woken_reach, of 1 Write]) (simp_all add: p)
qed

text \<open>
  C14: used in turn, the macros never fail one of their checks of the owner, with one exception: a thread that has
  a write lock or has boosted a shared lock is the owner, and \<open>UnBoostSharedLock\<close>, which only such a thread
  may call, stops the process for it.
\<close>

theorem lock_checks_pass:
  assumes "lock_reach n s" and "n \<le> 255" and "t < n"
  shows "(phase s t = Idle \<longrightarrow> ObtainReadLock t s \<noteq> None \<and> ObtainWriteLock t s \<noteq> None \<and> ObtainSharedLock t s \<noteq> None) \<and>
    (\<forall>h. phase s t = Woken h \<longrightarrow> Lock_Obtain_resume h t s \<noteq> None) \<and>
    (phase s t = Holds Read \<longrightarrow> ReleaseReadLock t s \<noteq> None) \<and>
    (phase s t = Holds Shared \<longrightarrow> ReleaseSharedLock t s \<noteq> None \<and> BoostSharedLock t s \<noteq> None) \<and>
    (phase s t = Holds Write \<longrightarrow> ReleaseWriteLock t s \<noteq> None \<and> ReleaseSharedLock t s \<noteq> None \<and> UnBoostSharedLock t s = None)"
proof -
  note wf = reach_wf [OF assms(1,2)]
  show ?thesis
    using ObtainReadLock_wf [OF wf assms(2,3)] ObtainWriteLock_wf [OF wf assms(2,3)] ObtainSharedLock_wf [OF wf assms(2,3)]
      resume_wf [OF wf assms(2,3)] ReleaseReadLock_wf [OF wf assms(2,3)] ReleaseSharedLock_wf [OF wf assms(3)]
      BoostSharedLock_wf [OF wf assms(2,3)] ReleaseWriteLock_wf [OF wf assms(3)] UnBoost_owner [OF wf, of t]
    by (intro conjI allI impI) (metis option.distinct(1) insertI1 insertI2)+
qed

theorem lock_checks_pass_witness:
  "lock_reach 2 one_writes \<and> phase one_writes 1 = Holds Write \<and> ReleaseWriteLock 1 one_writes \<noteq> None \<and> UnBoostSharedLock 1 one_writes = None"
  using lock_checks_pass [OF one_writes_reach, of 1] one_writes_reach by (simp add: one_writes_def)

section \<open>Limits\<close>

text \<open>The count of readers is a byte: with 256 readers it is 0, and a writer is let in beside them.\<close>

fun all_read :: "nat \<Rightarrow> lsys \<Rightarrow> lsys option" where
  "all_read 0 s = Some s"
| "all_read (Suc n) s = do { s \<leftarrow> all_read n s; ObtainReadLock n s }"

lemma all_read_eq:
  "all_read n \<lparr>lk = Lock_Init, phase = \<lambda>_. Idle\<rparr> =
   Some \<lparr>lk = Lock_Init\<lparr>readers_reading := of_nat n\<rparr>, phase = \<lambda>t. if t < n then Holds Read else Idle\<rparr>"
  by (induction n) (auto simp: Lock_Init_def ObtainReadLock_def lock_consts go_def fun_eq_iff)

theorem lock_reader_count_wraps:
  "\<exists>s s'. all_read 256 \<lparr>lk = Lock_Init, phase = \<lambda>_. Idle\<rparr> = Some s \<and> ObtainWriteLock 256 s = Some s' \<and>
    phase s' 256 = Holds Write \<and> (\<forall>t < 256. phase s' t = Holds Read)"
  unfolding all_read_eq by (simp add: ObtainWriteLock_def Lock_Init_def lock_consts)

text \<open>A write lock that \<open>ObtainTwoLocks\<close> has obtained has no owner, so \<open>ReleaseWriteLock\<close> stops the process.\<close>

theorem two_locks_release_aborts:
  assumes "two_locks_round Write h t (s1, s2) = Some (True, s1', s2')" and "thread_index (lk s1) = LWP_INVALIDTHREADID"
  shows "phase s1' t = Holds Write \<and> ReleaseWriteLock t s1' = None"
proof -
  have "s1' = go t (Holds Write) (upd_lk (acquire Write) s1)" using assms(1) by (auto simp: two_locks_round_def bind_eq_Some_conv Let_def split: if_splits)
  moreover from this have "thread_index (lk s1') \<noteq> int t" using assms(2) by (simp add: lock_consts)
  ultimately show ?thesis by (simp add: ReleaseWriteLock_def)
qed

end
