(* ===== verification/Vdb_Flat.thy ===== *)
theory Vdb_Flat
  imports Milko_Prelude
begin

text \<open>
  The flat vnode database of a volume: \<open>milko/lib/voldb/vdb_flat.c\<close>, the inline dispatchers
  of \<open>voldb_internal.h\<close> and the header functions of \<open>voldb.c\<close> that it calls back.

  The database is one file, mapped shared into memory: a 40-byte header, of which the first
  half belongs to \<open>voldb.c\<close> and the second to \<open>vdb_flat.c\<close>, followed by fixed-size entries.
  Free entries form a singly linked list through \<open>nextptr\<close>; \<open>freeptr\<close> is its head. The model
  keeps the bytes of the file. A write or read outside the file, or through a mapping that is
  gone, is \<^const>\<open>None\<close>.

  The encoder and decoder of the opaque inode (\<open>ydr_encode_onode_opaque\<close>,
  \<open>ydr_decode_onode_opaque\<close>) are generated by the build and are parameters (\<open>onode_codec\<close>).
\<close>

section \<open>Data\<close>

definition VOLDB_HEADER_SIZE :: nat where "VOLDB_HEADER_SIZE = 10 * 4"
definition VOLDB_HEADER_HALF :: nat where "VOLDB_HEADER_HALF = VOLDB_HEADER_SIZE div 2"
definition ONODE_OPAQUE_SIZE :: nat where "ONODE_OPAQUE_SIZE = 404"
definition FS_MAX_ACL :: nat where "FS_MAX_ACL = 8"
definition VOLDB_FILE_SIZE :: nat where "VOLDB_FILE_SIZE = 19 * 4 + 404"
definition VOLDB_DIR_SIZE :: nat where "VOLDB_DIR_SIZE = VOLDB_FILE_SIZE + FS_MAX_ACL * 2 * 2 * 4"

definition VOLDB_MAGIC_HEADER :: u32 where "VOLDB_MAGIC_HEADER = 0x47111147"
definition VOLDB_FILE :: u32 where "VOLDB_FILE = 1"
definition VOLDB_DIR :: u32 where "VOLDB_DIR = 2"
definition VOLDB_FREELIST_END :: u32 where "VOLDB_FREELIST_END = 0xffffffff"
definition VOLDB_ENTRY_USED :: u32 where "VOLDB_ENTRY_USED = 0xfffffffe"
definition VOLDB_ENTEND_NUM :: u32 where "VOLDB_ENTEND_NUM = 10"

definition TYPE_FILE :: u32 where "TYPE_FILE = 1"
definition TYPE_DIR :: u32 where "TYPE_DIR = 2"
definition TYPE_LINK :: u32 where "TYPE_LINK = 3"

lemmas voldb_sizes = VOLDB_HEADER_SIZE_def VOLDB_HEADER_HALF_def ONODE_OPAQUE_SIZE_def FS_MAX_ACL_def
  VOLDB_FILE_SIZE_def VOLDB_DIR_SIZE_def

record 'o voldb_file_entry =
  nextptr :: u32
  unique :: u32
  ino :: 'o
  spare2 :: u32
  InterfaceVersion :: u32
  FileType :: u32
  LinkCount :: u32
  Length :: u32
  spare3 :: u32
  DataVersion :: u32
  Author :: u32
  Owner :: u32
  UnixModeBits :: u32
  ParentVnode :: u32
  ParentUnique :: u32
  SegSize :: u32
  ServerModTime :: u32
  spare4 :: u32
  Group :: u32
  spare5 :: u32

record acl_entry =
  owner :: u32
  acl_flags :: u32

text \<open>A directory entry has the fields of a file entry, in the same order, and two lists.\<close>

record 'o voldb_dir_entry = "'o voldb_file_entry" +
  negacl :: "acl_entry list"
  acl :: "acl_entry list"

record 'o onode_codec =
  enc_onode :: "'o \<Rightarrow> bytes"
  dec_onode :: "bytes \<Rightarrow> 'o"
  zero_onode :: 'o

record vdbflat =
  freeptr :: u32
  mapped :: bool

record voldb =
  hdr_magic :: u32
  hdr_num :: u32
  hdr_flags :: u32
  db_type :: int
  db_size :: nat
  db_volume :: int
  fbytes :: bytes
  db_ptr :: "vdbflat option"

text \<open>
  The outcomes of the system calls (0, or the value of \<open>errno\<close>), of \<open>calloc\<close>, and the
  indeterminate contents of the stack buffer in \<open>voldb_write_hdr\<close>.
\<close>

record sys =
  r_mmap :: int
  r_munmap :: int
  r_ftruncate :: int
  r_msync :: int
  r_calloc :: bool
  junk :: "nat \<Rightarrow> byte"

section \<open>Access to the mapping\<close>

definition mget :: "voldb \<Rightarrow> nat \<Rightarrow> bytes option" where
  "mget db off = (case db_ptr db of None \<Rightarrow> None
     | Some v \<Rightarrow> if mapped v \<and> off \<le> length (fbytes db) then Some (drop off (fbytes db)) else None)"

definition mput :: "voldb \<Rightarrow> nat \<Rightarrow> bytes \<Rightarrow> voldb option" where
  "mput db off bs = (case db_ptr db of None \<Rightarrow> None
     | Some v \<Rightarrow> if mapped v \<and> off + length bs \<le> length (fbytes db)
                then Some (db\<lparr>fbytes := splice (fbytes db) off bs\<rparr>) else None)"

text \<open>The product is computed in \<open>uint32_t\<close>, so it wraps.\<close>

definition entry_off :: "nat \<Rightarrow> u32 \<Rightarrow> nat" where
  "entry_off sz n = VOLDB_HEADER_SIZE + unat (of_nat sz * n)"

definition set_volhdr_union_ptr :: "voldb \<Rightarrow> voldb option" where
  "set_volhdr_union_ptr db =
     (if hdr_flags db AND VOLDB_DIR \<noteq> 0 then Some db
      else if hdr_flags db AND VOLDB_FILE \<noteq> 0 then Some db
      else None)"

section \<open>Encoding of entries\<close>

definition put_common :: "'o onode_codec \<Rightarrow> ('o, 'r) voldb_file_entry_scheme \<Rightarrow> bytes" where
  "put_common oc e =
     be32 (nextptr e) @ be32 (unique e) @ enc_onode oc (ino e) @
     be32 (spare2 e) @ be32 (InterfaceVersion e) @ be32 (FileType e) @ be32 (LinkCount e) @
     be32 (Length e) @ be32 (spare3 e) @ be32 (DataVersion e) @ be32 (Author e) @
     be32 (Owner e) @ be32 (UnixModeBits e) @ be32 (ParentVnode e) @ be32 (ParentUnique e) @
     be32 (SegSize e) @ be32 (ServerModTime e) @ be32 (spare4 e) @ be32 (Group e) @ be32 (spare5 e)"

definition get_common :: "'o onode_codec \<Rightarrow> bytes \<Rightarrow> ('o voldb_file_entry \<times> bytes) option" where
  "get_common oc p = do {
     (nextptr, p) \<leftarrow> rd32 p;
     (unique, p) \<leftarrow> rd32 p;
     cassert (ONODE_OPAQUE_SIZE \<le> length p);
     let ino = dec_onode oc (take ONODE_OPAQUE_SIZE p);
     let p = drop ONODE_OPAQUE_SIZE p;
     (spare2, p) \<leftarrow> rd32 p;
     (InterfaceVersion, p) \<leftarrow> rd32 p;
     (FileType, p) \<leftarrow> rd32 p;
     (LinkCount, p) \<leftarrow> rd32 p;
     (Length, p) \<leftarrow> rd32 p;
     (spare3, p) \<leftarrow> rd32 p;
     (DataVersion, p) \<leftarrow> rd32 p;
     (Author, p) \<leftarrow> rd32 p;
     (Owner, p) \<leftarrow> rd32 p;
     (UnixModeBits, p) \<leftarrow> rd32 p;
     (ParentVnode, p) \<leftarrow> rd32 p;
     (ParentUnique, p) \<leftarrow> rd32 p;
     (SegSize, p) \<leftarrow> rd32 p;
     (ServerModTime, p) \<leftarrow> rd32 p;
     (spare4, p) \<leftarrow> rd32 p;
     (Group, p) \<leftarrow> rd32 p;
     (spare5, p) \<leftarrow> rd32 p;
     Some (\<lparr>nextptr = nextptr, unique = unique, ino = ino, spare2 = spare2,
            InterfaceVersion = InterfaceVersion, FileType = FileType, LinkCount = LinkCount,
            Length = Length, spare3 = spare3, DataVersion = DataVersion, Author = Author,
            Owner = Owner, UnixModeBits = UnixModeBits, ParentVnode = ParentVnode,
            ParentUnique = ParentUnique, SegSize = SegSize, ServerModTime = ServerModTime,
            spare4 = spare4, Group = Group, spare5 = spare5\<rparr>, p) }"

fun put_acls :: "acl_entry list \<Rightarrow> bytes" where
  "put_acls [] = []"
| "put_acls (a # as) = be32 (owner a) @ be32 (acl_flags a) @ put_acls as"

fun get_acls :: "nat \<Rightarrow> bytes \<Rightarrow> (acl_entry list \<times> bytes) option" where
  "get_acls 0 p = Some ([], p)"
| "get_acls (Suc n) p = do {
     (ow, p) \<leftarrow> rd32 p;
     (fl, p) \<leftarrow> rd32 p;
     (as, p) \<leftarrow> get_acls n p;
     Some (\<lparr>owner = ow, acl_flags = fl\<rparr> # as, p) }"

definition mk_dir :: "'o voldb_file_entry \<Rightarrow> acl_entry list \<Rightarrow> acl_entry list \<Rightarrow> 'o voldb_dir_entry" where
  "mk_dir e neg pos = voldb_file_entry.extend e \<lparr>negacl = neg, acl = pos\<rparr>"

section \<open>Operations of vdb\_flat.c\<close>

definition voldb_parse_header :: "voldb \<Rightarrow> bytes \<Rightarrow> nat \<Rightarrow> voldb option" where
  "voldb_parse_header db d sz = do {
     cassert (sz \<ge> VOLDB_HEADER_HALF);
     (m, d) \<leftarrow> rd32 d;
     (n, d) \<leftarrow> rd32 d;
     (f, d) \<leftarrow> rd32 d;
     Some (db\<lparr>hdr_magic := m, hdr_num := n, hdr_flags := f\<rparr>) }"

text \<open>The sanity checks at the end of \<open>vdbflat_init\<close>.\<close>

definition init_check :: "voldb \<Rightarrow> int" where
  "init_check db =
     (let fl = hdr_flags db AND (VOLDB_FILE OR VOLDB_DIR);
          chk = (\<lambda>sz. if (db_size db - VOLDB_HEADER_SIZE) mod sz \<noteq> 0 then EIO
                     else if unat (hdr_num db) \<noteq> (db_size db - VOLDB_HEADER_SIZE) div sz then EINVAL
                     else 0)
      in if fl = VOLDB_FILE then chk VOLDB_FILE_SIZE
         else if fl = VOLDB_DIR then chk VOLDB_DIR_SIZE
         else EIO)"

definition vdbflat_init :: "sys \<Rightarrow> voldb \<Rightarrow> bool \<Rightarrow> (int \<times> voldb) option" where
  "vdbflat_init os db createp = do {
     cassert (db_size db \<ge> VOLDB_HEADER_SIZE);
     if \<not> r_calloc os then Some (ENOMEM, db)
     else if r_mmap os \<noteq> 0 then Some (r_mmap os, db)
     else do {
       (db, fp) \<leftarrow> (if createp then Some (db, VOLDB_FREELIST_END)
         else do {
           db \<leftarrow> voldb_parse_header db (fbytes db) VOLDB_HEADER_HALF;
           (i, _) \<leftarrow> rd32 (drop VOLDB_HEADER_HALF (fbytes db));
           Some (db, i) });
       let ret = init_check db;
       if ret \<noteq> 0 then do { cassert (r_munmap os = 0); Some (ret, db) }
       else do {
         db \<leftarrow> set_volhdr_union_ptr (db\<lparr>db_ptr := Some \<lparr>freeptr = fp, mapped = True\<rparr>\<rparr>);
         Some (0, db) } } }"

definition vdbflat_close :: "sys \<Rightarrow> voldb \<Rightarrow> (int \<times> voldb) option" where
  "vdbflat_close os db = do {
     cassert (hdr_magic db = VOLDB_MAGIC_HEADER);
     v \<leftarrow> db_ptr db;
     cassert (r_msync os = 0);
     Some (r_munmap os, db\<lparr>db_ptr := None\<rparr>) }"

definition vdbflat_get_dir ::
  "'o onode_codec \<Rightarrow> voldb \<Rightarrow> u32 \<Rightarrow> (int \<times> 'o voldb_dir_entry option) option" where
  "vdbflat_get_dir oc db n =
     (if hdr_flags db AND VOLDB_DIR = 0 then Some (EINVAL, None)
      else if hdr_num db < n then Some (EINVAL, None)
      else do {
        p \<leftarrow> mget db (entry_off VOLDB_DIR_SIZE n);
        (e, p) \<leftarrow> get_common oc p;
        (neg, p) \<leftarrow> get_acls FS_MAX_ACL p;
        (pos, p) \<leftarrow> get_acls FS_MAX_ACL p;
        Some (0, Some (mk_dir e neg pos)) })"

text \<open>The access lists are not stored by this function.\<close>

definition vdbflat_put_dir ::
  "'o onode_codec \<Rightarrow> voldb \<Rightarrow> u32 \<Rightarrow> 'o voldb_dir_entry \<Rightarrow> (int \<times> voldb) option" where
  "vdbflat_put_dir oc db n e =
     (if hdr_flags db AND VOLDB_DIR = 0 then Some (EINVAL, db)
      else if hdr_num db < n then Some (EINVAL, db)
      else do {
        db \<leftarrow> mput db (entry_off VOLDB_DIR_SIZE n) (put_common oc e);
        Some (0, db) })"

definition vdbflat_put_acl :: "voldb \<Rightarrow> u32 \<Rightarrow> 'o voldb_dir_entry \<Rightarrow> (int \<times> voldb) option" where
  "vdbflat_put_acl db n e =
     (if hdr_flags db AND VOLDB_DIR = 0 then Some (EINVAL, db)
      else if hdr_num db < n then Some (EINVAL, db)
      else do {
        cassert (FS_MAX_ACL \<le> length (negacl e) \<and> FS_MAX_ACL \<le> length (acl e));
        db \<leftarrow> mput db (entry_off VOLDB_DIR_SIZE n + VOLDB_FILE_SIZE)
                (put_acls (take FS_MAX_ACL (negacl e)) @ put_acls (take FS_MAX_ACL (acl e)));
        Some (0, db) })"

definition vdbflat_get_file ::
  "'o onode_codec \<Rightarrow> voldb \<Rightarrow> u32 \<Rightarrow> (int \<times> 'o voldb_file_entry option) option" where
  "vdbflat_get_file oc db n =
     (if hdr_flags db AND VOLDB_FILE = 0 then Some (EINVAL, None)
      else if hdr_num db < n then Some (EINVAL, None)
      else do {
        p \<leftarrow> mget db (entry_off VOLDB_FILE_SIZE n);
        (e, p) \<leftarrow> get_common oc p;
        Some (0, Some e) })"

definition vdbflat_put_file ::
  "'o onode_codec \<Rightarrow> voldb \<Rightarrow> u32 \<Rightarrow> 'o voldb_file_entry \<Rightarrow> (int \<times> voldb) option" where
  "vdbflat_put_file oc db n e =
     (if hdr_flags db AND VOLDB_FILE = 0 then Some (EINVAL, db)
      else if hdr_num db < n then Some (EINVAL, db)
      else do {
        db \<leftarrow> mput db (entry_off VOLDB_FILE_SIZE n) (put_common oc e);
        Some (0, db) })"

text \<open>
  \<open>VOLDB_FUNC\<close> indexes the one-element table \<open>voltypes\<close>: every other type is outside it.
\<close>

definition VOLDB_FUNC :: "voldb \<Rightarrow> 'a option \<Rightarrow> 'a option" where
  "VOLDB_FUNC db x = (if db_type db = 0 then x else None)"

definition voldb_get_dir where
  "voldb_get_dir oc db n = VOLDB_FUNC db (vdbflat_get_dir oc db n)"
definition voldb_get_file where
  "voldb_get_file oc db n = VOLDB_FUNC db (vdbflat_get_file oc db n)"
definition voldb_put_dir where
  "voldb_put_dir oc db n e = VOLDB_FUNC db (vdbflat_put_dir oc db n e)"
definition voldb_put_file where
  "voldb_put_file oc db n e = VOLDB_FUNC db (vdbflat_put_file oc db n e)"

definition vdbflat_write_header :: "sys \<Rightarrow> voldb \<Rightarrow> bytes \<Rightarrow> nat \<Rightarrow> (int \<times> voldb) option" where
  "vdbflat_write_header os db d sz = do {
     cassert (sz = VOLDB_HEADER_SIZE);
     cassert (sz - VOLDB_HEADER_HALF \<ge> 4);
     let i = (case db_ptr db of None \<Rightarrow> VOLDB_FREELIST_END | Some v \<Rightarrow> freeptr v);
     let d = splice d VOLDB_HEADER_HALF (be32 i);
     db \<leftarrow> mput db 0 (take sz d);
     Some (r_msync os, db) }"

definition voldb_write_hdr :: "sys \<Rightarrow> voldb \<Rightarrow> (int \<times> voldb) option" where
  "voldb_write_hdr os db =
     (let data = map (junk os) [0..<VOLDB_HEADER_SIZE];
          data = splice data 0 (be32 (hdr_magic db) @ be32 (hdr_num db) @ be32 (hdr_flags db))
      in VOLDB_FUNC db (vdbflat_write_header os db data VOLDB_HEADER_SIZE))"

definition set_freeptr :: "u32 \<Rightarrow> voldb \<Rightarrow> voldb" where
  "set_freeptr fp db = db\<lparr>db_ptr := map_option (\<lambda>v. v\<lparr>freeptr := fp\<rparr>) (db_ptr db)\<rparr>"

definition zero_entry :: "'o onode_codec \<Rightarrow> 'o voldb_file_entry" where
  "zero_entry oc = \<lparr>nextptr = 0, unique = 0, ino = zero_onode oc, spare2 = 0, InterfaceVersion = 0,
     FileType = 0, LinkCount = 0, Length = 0, spare3 = 0, DataVersion = 0, Author = 0, Owner = 0,
     UnixModeBits = 0, ParentVnode = 0, ParentUnique = 0, SegSize = 0, ServerModTime = 0,
     spare4 = 0, Group = 0, spare5 = 0\<rparr>"

definition zero_dir :: "'o onode_codec \<Rightarrow> 'o voldb_dir_entry" where
  "zero_dir oc = mk_dir (zero_entry oc) (replicate FS_MAX_ACL \<lparr>owner = 0, acl_flags = 0\<rparr>)
                   (replicate FS_MAX_ACL \<lparr>owner = 0, acl_flags = 0\<rparr>)"

text \<open>
  The loops of \<open>vdbflat_extend_db\<close> over the new entries, one for each kind of database; \<open>n\<close>
  and \<open>fp\<close> are \<open>db->hdr.num\<close> and \<open>vdb->freeptr\<close>, which the stores leave alone. A failed store
  aborts the process.
\<close>

function extend_loop :: "(voldb \<Rightarrow> u32 \<Rightarrow> u32 \<Rightarrow> (int \<times> voldb) option) \<Rightarrow> u32 \<Rightarrow> u32 \<Rightarrow> u32 \<Rightarrow> voldb \<Rightarrow> voldb option" where
  "extend_loop put n fp i db =
     (if i < n then do {
        (ret, db) \<leftarrow> put db i (if i < n - 1 then i + 1 else fp);
        cassert (ret = 0);
        extend_loop put n fp (i + 1) db }
      else Some db)"
  by pat_completeness auto
termination
  by (relation "measure (\<lambda>(put, n, fp, i, db). unat (n - i))") (auto intro!: unat_diff_Suc_less)

definition extend_dirs :: "'o onode_codec \<Rightarrow> u32 \<Rightarrow> u32 \<Rightarrow> u32 \<Rightarrow> voldb \<Rightarrow> voldb option" where
  "extend_dirs oc = extend_loop (\<lambda>db i nx. voldb_put_dir oc db i ((zero_dir oc)\<lparr>nextptr := nx\<rparr>))"

definition extend_files :: "'o onode_codec \<Rightarrow> u32 \<Rightarrow> u32 \<Rightarrow> u32 \<Rightarrow> voldb \<Rightarrow> voldb option" where
  "extend_files oc = extend_loop (\<lambda>db i nx. voldb_put_file oc db i ((zero_entry oc)\<lparr>nextptr := nx\<rparr>))"

definition vdbflat_extend_db :: "'o onode_codec \<Rightarrow> sys \<Rightarrow> voldb \<Rightarrow> u32 \<Rightarrow> (int \<times> voldb) option" where
  "vdbflat_extend_db oc os db n =
     (if hdr_magic db \<noteq> VOLDB_MAGIC_HEADER then Some (EINVAL, db)
      else let fl = hdr_flags db AND (VOLDB_FILE OR VOLDB_DIR) in
      if fl \<noteq> VOLDB_DIR \<and> fl \<noteq> VOLDB_FILE then Some (EINVAL, db)
      else do {
        let esz = (if fl = VOLDB_DIR then VOLDB_DIR_SIZE else VOLDB_FILE_SIZE);
        let newsize = db_size db + unat (n * of_nat esz);
        let oldnum = hdr_num db;
        v \<leftarrow> db_ptr db;
        if r_munmap os \<noteq> 0 then Some (r_munmap os, db)
        else do {
          let db = db\<lparr>db_ptr := Some (v\<lparr>mapped := False\<rparr>)\<rparr>;
          if r_ftruncate os \<noteq> 0 then Some (r_ftruncate os, db)
          else do {
            let db = db\<lparr>fbytes := take newsize (fbytes db) @ replicate (newsize - length (fbytes db)) 0,
                        db_size := newsize, hdr_num := oldnum + n\<rparr>;
            if r_mmap os \<noteq> 0 then Some (r_mmap os, db)
            else do {
              db \<leftarrow> set_volhdr_union_ptr (db\<lparr>db_ptr := Some (v\<lparr>mapped := True\<rparr>)\<rparr>);
              db \<leftarrow> (if fl = VOLDB_DIR then extend_dirs oc (hdr_num db) (freeptr v) oldnum db
                     else extend_files oc (hdr_num db) (freeptr v) oldnum db);
              voldb_write_hdr os (set_freeptr oldnum db) } } } })"

text \<open>
  Taking an entry off the free list. The two branches of \<open>vdbflat_new_entry\<close> differ in the
  kind of entry only. The result carries the number and the uniquifier on success.
\<close>

definition new_entry_dir :: "'o onode_codec \<Rightarrow> voldb \<Rightarrow> u32 \<Rightarrow> (int \<times> voldb \<times> u32 \<times> u32) option" where
  "new_entry_dir oc db fp = do {
     (ret, eo) \<leftarrow> voldb_get_dir oc db fp;
     if ret \<noteq> 0 then Some (ret, db, 0, 0)
     else do {
       e \<leftarrow> eo;
       cassert (nextptr e \<noteq> VOLDB_ENTRY_USED);
       let newunique = unique e + 1;
       (ret, db) \<leftarrow> voldb_put_dir oc db fp
          (e\<lparr>unique := newunique, nextptr := VOLDB_ENTRY_USED, FileType := TYPE_DIR\<rparr>);
       Some (ret, db, nextptr e, newunique) } }"

definition new_entry_file :: "'o onode_codec \<Rightarrow> voldb \<Rightarrow> u32 \<Rightarrow> (int \<times> voldb \<times> u32 \<times> u32) option" where
  "new_entry_file oc db fp = do {
     (ret, eo) \<leftarrow> voldb_get_file oc db fp;
     if ret \<noteq> 0 then Some (ret, db, 0, 0)
     else do {
       e \<leftarrow> eo;
       cassert (nextptr e \<noteq> VOLDB_ENTRY_USED);
       let newunique = unique e + 1;
       (ret, db) \<leftarrow> voldb_put_file oc db fp
          (e\<lparr>unique := newunique, nextptr := VOLDB_ENTRY_USED, FileType := TYPE_FILE\<rparr>);
       Some (ret, db, nextptr e, newunique) } }"

definition vdbflat_new_entry ::
  "'o onode_codec \<Rightarrow> sys \<Rightarrow> voldb \<Rightarrow> (int \<times> voldb \<times> (u32 \<times> u32) option) option" where
  "vdbflat_new_entry oc os db = do {
     v \<leftarrow> db_ptr db;
     (ret, db) \<leftarrow> (if freeptr v = VOLDB_FREELIST_END then vdbflat_extend_db oc os db VOLDB_ENTEND_NUM
                   else Some (0, db));
     if ret \<noteq> 0 then Some (ret, db, None)
     else do {
       v \<leftarrow> db_ptr db;
       let oldfreeptr = freeptr v;
       (ret, db, newfreeptr, newunique) \<leftarrow>
         (if hdr_flags db AND VOLDB_DIR = VOLDB_DIR then new_entry_dir oc db oldfreeptr
          else if hdr_flags db AND VOLDB_FILE = VOLDB_FILE then new_entry_file oc db oldfreeptr
          else None);
       if ret \<noteq> 0 then Some (ret, db, None)
       else do {
         (ret, db) \<leftarrow> voldb_write_hdr os (set_freeptr newfreeptr db);
         Some (ret, db, if ret \<noteq> 0 then None else Some (oldfreeptr, newunique)) } } }"

text \<open>What \<open>vdbflat_del_entry\<close> does to the entry.\<close>

definition clear_entry ::
  "'o onode_codec \<Rightarrow> u32 \<Rightarrow> ('o, 'r) voldb_file_entry_scheme \<Rightarrow> ('o, 'r) voldb_file_entry_scheme" where
  "clear_entry oc fp e = e\<lparr>FileType := 0, ParentVnode := 0, ParentUnique := 0, LinkCount := 0,
     nextptr := fp, ino := zero_onode oc\<rparr>"

definition vdbflat_del_entry ::
  "'o onode_codec \<Rightarrow> sys \<Rightarrow> voldb \<Rightarrow> u32 \<Rightarrow> (int \<times> voldb \<times> 'o option) option" where
  "vdbflat_del_entry oc os db n = do {
     v \<leftarrow> db_ptr db;
     let fl = hdr_flags db AND (VOLDB_DIR OR VOLDB_FILE);
     (ret, db, ino) \<leftarrow>
       (if fl = VOLDB_DIR then do {
          (ret, eo) \<leftarrow> voldb_get_dir oc db n;
          if ret \<noteq> 0 then Some (ret, db, None)
          else do {
            e \<leftarrow> eo;
            cassert (nextptr e = VOLDB_ENTRY_USED);
            (ret, db) \<leftarrow> voldb_put_dir oc db n (clear_entry oc (freeptr v) e);
            Some (ret, db, Some (ino e)) } }
        else if fl = VOLDB_FILE then do {
          (ret, eo) \<leftarrow> voldb_get_file oc db n;
          if ret \<noteq> 0 then Some (ret, db, None)
          else do {
            e \<leftarrow> eo;
            cassert (nextptr e = VOLDB_ENTRY_USED);
            (ret, db) \<leftarrow> voldb_put_file oc db n (clear_entry oc (freeptr v) e);
            Some (ret, db, Some (ino e)) } }
        else Some (EINVAL, db, None));
     if ret \<noteq> 0 then Some (ret, db, ino)
     else do {
       (ret, db) \<leftarrow> voldb_write_hdr os (set_freeptr n db);
       Some (ret, db, ino) } }"

definition vdbflat_flush :: "sys \<Rightarrow> voldb \<Rightarrow> int option" where
  "vdbflat_flush os db = do { v \<leftarrow> db_ptr db; Some (r_msync os) }"

text \<open>The number of entries that are missing is computed modulo $2^{32}$ and read as signed.\<close>

definition vdbflat_expand :: "'o onode_codec \<Rightarrow> sys \<Rightarrow> voldb \<Rightarrow> u32 \<Rightarrow> (int \<times> voldb) option" where
  "vdbflat_expand oc os db n =
     (let entriesneeded = n - hdr_num db + 1
      in if sint entriesneeded > 0 then vdbflat_extend_db oc os db (entriesneeded + VOLDB_ENTEND_NUM)
         else Some (0, db))"

text \<open>One round of \<open>vdbflat_rebuild\<close>, then the loop from \<open>k - 1\<close> down to 0.\<close>

definition rebuild_step ::
  "'o onode_codec \<Rightarrow> voldb \<Rightarrow> u32 \<Rightarrow> u32 \<Rightarrow> (int \<times> voldb \<times> u32) option" where
  "rebuild_step oc db fp i =
     (if hdr_flags db AND VOLDB_DIR = VOLDB_DIR then do {
        (ret, eo) \<leftarrow> voldb_get_dir oc db i;
        if ret \<noteq> 0 then Some (ret, db, fp)
        else do {
          e \<leftarrow> eo;
          if nextptr e = VOLDB_ENTRY_USED
          then do { cassert (FileType e = TYPE_DIR); Some (0, db, fp) }
          else do {
            (ret, db) \<leftarrow> voldb_put_dir oc db i (e\<lparr>nextptr := VOLDB_FREELIST_END\<rparr>);
            Some (ret, db, i) } } }
      else do {
        (ret, eo) \<leftarrow> voldb_get_file oc db i;
        if ret \<noteq> 0 then Some (ret, db, fp)
        else do {
          e \<leftarrow> eo;
          if nextptr e = VOLDB_ENTRY_USED
          then do { cassert (FileType e = TYPE_FILE); Some (0, db, fp) }
          else do {
            (ret, db) \<leftarrow> voldb_put_file oc db i (e\<lparr>nextptr := VOLDB_FREELIST_END\<rparr>);
            Some (ret, db, i) } } })"

fun rebuild_loop :: "'o onode_codec \<Rightarrow> nat \<Rightarrow> voldb \<Rightarrow> u32 \<Rightarrow> (int \<times> voldb \<times> u32) option" where
  "rebuild_loop oc 0 db fp = Some (0, db, fp)"
| "rebuild_loop oc (Suc k) db fp = do {
     (ret, db, fp) \<leftarrow> rebuild_step oc db fp (of_nat k);
     if ret \<noteq> 0 then Some (ret, db, fp) else rebuild_loop oc k db fp }"

text \<open>
  The loop counter is an \<open>int\<close> that starts at \<open>hdr.num - 1\<close>: from $2^{31} + 1$ entries on it
  starts negative and the loop is not entered.
\<close>

definition vdbflat_rebuild :: "'o onode_codec \<Rightarrow> voldb \<Rightarrow> (int \<times> voldb) option" where
  "vdbflat_rebuild oc db = do {
     v \<leftarrow> db_ptr db;
     (ret, db, fp) \<leftarrow> rebuild_loop oc (nat (sint (hdr_num db - 1) + 1)) db VOLDB_FREELIST_END;
     if ret \<noteq> 0 then Some (ret, db) else Some (0, set_freeptr fp db) }"

section \<open>Round trip of the encodings\<close>

definition onode_codec_ok :: "'o onode_codec \<Rightarrow> bool" where
  "onode_codec_ok oc \<longleftrightarrow>
     (\<forall>x. length (enc_onode oc x) = ONODE_OPAQUE_SIZE \<and> dec_onode oc (enc_onode oc x) = x)"

lemma length_put_common: "onode_codec_ok oc \<Longrightarrow> length (put_common oc e) = VOLDB_FILE_SIZE"
  by (simp add: put_common_def onode_codec_ok_def voldb_sizes)

lemma get_put_common:
  "onode_codec_ok oc \<Longrightarrow> get_common oc (put_common oc e @ p) = Some (voldb_file_entry.truncate e, p)"
  by (simp add: get_common_def put_common_def onode_codec_ok_def voldb_file_entry.truncate_def)

lemma reads_get_common: "reads VOLDB_FILE_SIZE (get_common oc)"
proof -
  have "reads (4 + (4 + (ONODE_OPAQUE_SIZE + (4 + (4 + (4 + (4 + (4 + (4 + (4 + (4 + (4 + (4 + (4 + (4 + (4 + (4 + (4 + (4 + (4 + 0))))))))))))))))))))
      (get_common oc)"
    unfolding get_common_def Let_def
    by (intro reads_bind reads_rd32 reads_opaque reads_return)
  then show ?thesis by (simp add: voldb_sizes)
qed

lemma reads_get_acls: "reads (8 * n) (get_acls n)"
proof (induction n)
  case 0
  show ?case using reads_return by (simp add: reads_return [unfolded reads_def] reads_def)
next
  case (Suc n)
  have "reads (4 + (4 + (8 * n + 0))) (get_acls (Suc n))"
    unfolding get_acls.simps by (intro reads_bind reads_rd32 reads_return Suc)
  then show ?case by (simp del: get_acls.simps)
qed

lemma get_put_acls: "get_acls (length as) (put_acls as @ p) = Some (as, p)"
  by (induction as) auto

lemma length_put_acls: "length (put_acls as) = 8 * length as"
  by (induction as) auto

section \<open>Well-formed databases\<close>

definition is_dir_db :: "voldb \<Rightarrow> bool" where
  "is_dir_db db \<longleftrightarrow> hdr_flags db AND VOLDB_DIR \<noteq> 0"

definition esz :: "voldb \<Rightarrow> nat" where
  "esz db = (if is_dir_db db then VOLDB_DIR_SIZE else VOLDB_FILE_SIZE)"

text \<open>
  A database that is open: the file holds the header and exactly \<open>hdr.num\<close> entries, the
  mapping is there, it is of one kind, and offsets do not wrap.
\<close>

definition voldb_wf :: "voldb \<Rightarrow> bool" where
  "voldb_wf db \<longleftrightarrow>
     db_type db = 0 \<and> hdr_magic db = VOLDB_MAGIC_HEADER \<and>
     hdr_flags db AND (VOLDB_FILE OR VOLDB_DIR) \<in> {VOLDB_FILE, VOLDB_DIR} \<and>
     (\<exists>v. db_ptr db = Some v \<and> mapped v) \<and>
     length (fbytes db) = db_size db \<and>
     db_size db = VOLDB_HEADER_SIZE + esz db * unat (hdr_num db) \<and>
     db_size db < 2 ^ 32"

text \<open>The common part of entry \<open>i\<close> as the bytes of the file have it.\<close>

definition ent :: "'o onode_codec \<Rightarrow> voldb \<Rightarrow> u32 \<Rightarrow> 'o voldb_file_entry" where
  "ent oc db i = fst (the (get_common oc (drop (VOLDB_HEADER_SIZE + esz db * unat i) (fbytes db))))"

definition dir_acls :: "voldb \<Rightarrow> u32 \<Rightarrow> acl_entry list \<times> acl_entry list" where
  "dir_acls db i =
     (case get_acls FS_MAX_ACL (drop (VOLDB_HEADER_SIZE + esz db * unat i + VOLDB_FILE_SIZE) (fbytes db)) of
        Some (neg, p) \<Rightarrow> (neg, fst (the (get_acls FS_MAX_ACL p))) | None \<Rightarrow> ([], []))"

lemma and_flag:
  "f AND VOLDB_FILE = (if bit f 0 then VOLDB_FILE else 0)"
  "f AND VOLDB_DIR = (if bit f 1 then VOLDB_DIR else 0)"
proof -
  have 1: "bit VOLDB_FILE n \<longleftrightarrow> n = 0" for n by (simp add: VOLDB_FILE_def bit_1_iff)
  have 2: "bit VOLDB_DIR n \<longleftrightarrow> n = 1" for n
    using bit_push_bit_iff [of 1 "1::u32" n] by (auto simp: VOLDB_DIR_def bit_1_iff)
  show "f AND VOLDB_FILE = (if bit f 0 then VOLDB_FILE else 0)"
    by (rule bit_word_eqI) (auto simp: bit_and_iff 1 intro: gr0I)
  show "f AND VOLDB_DIR = (if bit f 1 then VOLDB_DIR else 0)"
    by (rule bit_word_eqI) (auto simp: bit_and_iff 2)
qed

lemma flags_mask:
  "f AND (VOLDB_FILE OR VOLDB_DIR) = VOLDB_FILE \<longleftrightarrow> f AND VOLDB_FILE \<noteq> 0 \<and> f AND VOLDB_DIR = 0"
  "f AND (VOLDB_FILE OR VOLDB_DIR) = VOLDB_DIR \<longleftrightarrow> f AND VOLDB_FILE = 0 \<and> f AND VOLDB_DIR \<noteq> 0"
  "f AND VOLDB_DIR = VOLDB_DIR \<longleftrightarrow> f AND VOLDB_DIR \<noteq> 0"
  "f AND VOLDB_FILE = VOLDB_FILE \<longleftrightarrow> f AND VOLDB_FILE \<noteq> 0"
  unfolding bit.conj_disj_distrib and_flag by (auto simp: VOLDB_FILE_def VOLDB_DIR_def)

lemma wf_kind:
  assumes "voldb_wf db"
  shows "is_dir_db db \<Longrightarrow> hdr_flags db AND VOLDB_FILE = 0" "\<not> is_dir_db db \<Longrightarrow> hdr_flags db AND VOLDB_FILE \<noteq> 0"
    "is_dir_db db \<longleftrightarrow> hdr_flags db AND VOLDB_DIR \<noteq> 0"
  using assms by (auto simp: voldb_wf_def is_dir_db_def flags_mask)

lemma esz_bounds: "VOLDB_FILE_SIZE \<le> esz db" "esz db \<noteq> 0"
  by (simp_all add: esz_def voldb_sizes)

lemma entry_in_file:
  assumes "voldb_wf db" "i < hdr_num db"
  shows "VOLDB_HEADER_SIZE + esz db * unat i + esz db \<le> length (fbytes db)"
proof -
  have "esz db * (unat i + 1) \<le> esz db * unat (hdr_num db)"
    using assms(2) by (intro mult_le_mono) (auto simp: word_less_nat_alt)
  then show ?thesis using assms(1) by (simp add: voldb_wf_def)
qed

lemma entry_off_exact:
  assumes "voldb_wf db" "i < hdr_num db"
  shows "entry_off (esz db) i = VOLDB_HEADER_SIZE + esz db * unat i"
proof -
  have "esz db * unat i < 2 ^ 32" using entry_in_file [OF assms] assms(1) by (simp add: voldb_wf_def)
  moreover have "unat (of_nat (esz db) :: u32) = esz db"
    by (simp add: esz_def voldb_sizes)
  ultimately show ?thesis by (simp add: entry_off_def unat_word_ariths)
qed

lemma mget_entry:
  assumes "voldb_wf db" "i < hdr_num db"
  shows "mget db (entry_off (esz db) i) = Some (drop (VOLDB_HEADER_SIZE + esz db * unat i) (fbytes db))"
proof -
  have "VOLDB_HEADER_SIZE + esz db * unat i \<le> length (fbytes db)"
    using entry_in_file [OF assms] by linarith
  moreover obtain v where "db_ptr db = Some v" "mapped v" using assms(1) by (auto simp: voldb_wf_def)
  ultimately show ?thesis unfolding entry_off_exact [OF assms] by (simp add: mget_def)
qed

lemma ent_get:
  assumes "voldb_wf db" "i < hdr_num db"
  shows "get_common oc (drop (VOLDB_HEADER_SIZE + esz db * unat i) (fbytes db)) =
    Some (ent oc db i, drop (VOLDB_HEADER_SIZE + esz db * unat i + VOLDB_FILE_SIZE) (fbytes db))"
proof -
  have "VOLDB_FILE_SIZE \<le> length (drop (VOLDB_HEADER_SIZE + esz db * unat i) (fbytes db))"
    using entry_in_file [OF assms] esz_bounds [of db] by simp
  from readsD [OF reads_get_common this, of oc] show ?thesis
    by (auto simp: ent_def add.commute)
qed

lemma get_file_ent:
  assumes "voldb_wf db" "i < hdr_num db" "\<not> is_dir_db db"
  shows "voldb_get_file oc db i = Some (0, Some (ent oc db i))"
  using mget_entry [OF assms(1,2)] ent_get [OF assms(1,2), of oc] wf_kind(2) [OF assms(1,3)] assms
  by (simp add: voldb_get_file_def VOLDB_FUNC_def vdbflat_get_file_def voldb_wf_def esz_def not_less_iff_gr_or_eq)

lemma get_dir_ent:
  assumes "voldb_wf db" "i < hdr_num db" "is_dir_db db"
  shows "voldb_get_dir oc db i = Some (0, Some (mk_dir (ent oc db i) (fst (dir_acls db i)) (snd (dir_acls db i))))"
proof -
  have e: "esz db = VOLDB_DIR_SIZE" using assms by (simp add: esz_def)
  let ?o = "VOLDB_HEADER_SIZE + esz db * unat i"
  let ?p = "drop (?o + VOLDB_FILE_SIZE) (fbytes db)"
  have l: "8 * FS_MAX_ACL + 8 * FS_MAX_ACL \<le> length ?p"
    using entry_in_file [OF assms(1,2)] by (simp add: e voldb_sizes)
  have "8 * FS_MAX_ACL \<le> length ?p" using l by simp
  from readsD [OF reads_get_acls this] obtain neg where
    1: "get_acls FS_MAX_ACL ?p = Some (neg, drop (8 * FS_MAX_ACL) ?p)" by blast
  have "8 * FS_MAX_ACL \<le> length (drop (8 * FS_MAX_ACL) ?p)" using l by simp
  from readsD [OF reads_get_acls this] obtain pos q where
    2: "get_acls FS_MAX_ACL (drop (8 * FS_MAX_ACL) ?p) = Some (pos, q)" by blast
  have "dir_acls db i = (neg, pos)" using 1 2 by (simp add: dir_acls_def)
  moreover have "mget db (entry_off VOLDB_DIR_SIZE i) = Some (drop ?o (fbytes db))"
    using mget_entry [OF assms(1,2)] by (simp add: e)
  ultimately show ?thesis
    using assms ent_get [OF assms(1,2), of oc] 1 2
    by (simp add: voldb_get_dir_def VOLDB_FUNC_def vdbflat_get_dir_def voldb_wf_def is_dir_db_def
        not_less_iff_gr_or_eq)
qed

text \<open>Storing the common part of an entry, for both kinds of database.\<close>

definition put_ent :: "'o onode_codec \<Rightarrow> voldb \<Rightarrow> u32 \<Rightarrow> ('o, 'r) voldb_file_entry_scheme \<Rightarrow> voldb" where
  "put_ent oc db i e =
     db\<lparr>fbytes := splice (fbytes db) (VOLDB_HEADER_SIZE + esz db * unat i) (put_common oc e)\<rparr>"

lemma mput_ent:
  assumes "onode_codec_ok oc" "voldb_wf db" "i < hdr_num db"
  shows "mput db (entry_off (esz db) i) (put_common oc e) = Some (put_ent oc db i e)"
  using assms entry_in_file [OF assms(2,3)] entry_off_exact [OF assms(2,3)] esz_bounds [of db]
  by (auto simp: mput_def put_ent_def voldb_wf_def length_put_common)

lemma put_file_ent:
  assumes "onode_codec_ok oc" "voldb_wf db" "i < hdr_num db" "\<not> is_dir_db db"
  shows "voldb_put_file oc db i e = Some (0, put_ent oc db i e)"
  using assms mput_ent [OF assms(1-3), of e] wf_kind [OF assms(2)]
  by (auto simp: voldb_put_file_def VOLDB_FUNC_def vdbflat_put_file_def voldb_wf_def esz_def)

lemma put_dir_ent:
  assumes "onode_codec_ok oc" "voldb_wf db" "i < hdr_num db" "is_dir_db db"
  shows "voldb_put_dir oc db i e = Some (0, put_ent oc db i e)"
  using assms mput_ent [OF assms(1-3), of e] wf_kind [OF assms(2)]
  by (auto simp: voldb_put_dir_def VOLDB_FUNC_def vdbflat_put_dir_def voldb_wf_def esz_def)

lemma put_ent_frame [simp]:
  "hdr_magic (put_ent oc db i e) = hdr_magic db" "hdr_num (put_ent oc db i e) = hdr_num db"
  "hdr_flags (put_ent oc db i e) = hdr_flags db" "db_ptr (put_ent oc db i e) = db_ptr db"
  "db_size (put_ent oc db i e) = db_size db" "db_type (put_ent oc db i e) = db_type db"
  "db_volume (put_ent oc db i e) = db_volume db"
  "esz (put_ent oc db i e) = esz db" "is_dir_db (put_ent oc db i e) = is_dir_db db"
  by (simp_all add: put_ent_def esz_def is_dir_db_def)

lemma length_put_ent:
  assumes "onode_codec_ok oc" "voldb_wf db" "i < hdr_num db"
  shows "length (fbytes (put_ent oc db i e)) = length (fbytes db)"
  using entry_in_file [OF assms(2,3)] esz_bounds [of db]
  by (simp add: put_ent_def length_put_common [OF assms(1)])

lemma wf_put_ent:
  assumes "onode_codec_ok oc" "voldb_wf db" "i < hdr_num db"
  shows "voldb_wf (put_ent oc db i e)"
  using assms length_put_ent [OF assms] by (auto simp: voldb_wf_def)

lemma header_put_ent:
  assumes "onode_codec_ok oc" "voldb_wf db" "i < hdr_num db"
  shows "take VOLDB_HEADER_SIZE (fbytes (put_ent oc db i e)) = take VOLDB_HEADER_SIZE (fbytes db)"
  using entry_in_file [OF assms(2,3)] esz_bounds [of db]
    splice_disjoint [of "VOLDB_HEADER_SIZE + esz db * unat i" "put_common oc e" "fbytes db" 0 VOLDB_HEADER_SIZE]
  by (simp add: put_ent_def length_put_common [OF assms(1)])

lemma slots_apart:
  assumes "unat i \<noteq> unat (j :: u32)"
  shows "E * unat j + E \<le> E * unat i \<or> E * unat i + E \<le> E * unat j"
proof -
  have "E * (unat j + 1) \<le> E * unat i \<or> E * (unat i + 1) \<le> E * unat j"
    using assms by (metis Suc_eq_plus1 less_eq_Suc_le linorder_neqE_nat mult_le_mono2)
  then show ?thesis by (simp add: algebra_simps)
qed

lemma ent_put_ent:
  assumes "onode_codec_ok oc" "voldb_wf db" "i < hdr_num db" "j < hdr_num db"
  shows "ent oc (put_ent oc db i e) j = (if j = i then voldb_file_entry.truncate e else ent oc db j)"
proof (cases "j = i")
  case True
  have "VOLDB_HEADER_SIZE + esz db * unat i \<le> length (fbytes db)"
    using entry_in_file [OF assms(2,3)] by simp
  then have "drop (VOLDB_HEADER_SIZE + esz db * unat i) (fbytes (put_ent oc db i e)) = put_common oc e @
      drop (VOLDB_HEADER_SIZE + esz db * unat i + VOLDB_FILE_SIZE) (fbytes db)"
    by (simp add: put_ent_def drop_splice_same length_put_common [OF assms(1)])
  then show ?thesis using True get_put_common [OF assms(1), of e] by (simp add: ent_def)
next
  case False
  let ?o = "\<lambda>i. VOLDB_HEADER_SIZE + esz db * unat i" and ?f = "fbytes (put_ent oc db i e)"
  have n: "unat i \<noteq> unat j" using False by (metis word_unat_eq_iff)
  have "take VOLDB_FILE_SIZE (drop (?o j) ?f) = take VOLDB_FILE_SIZE (drop (?o j) (fbytes db))"
    unfolding put_ent_def using entry_in_file [OF assms(2,3)] slots_apart [OF n, of "esz db"] esz_bounds [of db]
    by (simp, intro splice_disjoint) (auto simp: length_put_common [OF assms(1)])
  moreover have "VOLDB_FILE_SIZE \<le> length (drop (?o j) (fbytes db))" "VOLDB_FILE_SIZE \<le> length (drop (?o j) ?f)"
    using entry_in_file [OF assms(2,4)] esz_bounds [of db] length_put_ent [OF assms(1-3), of e] by simp_all
  ultimately have "fst (the (get_common oc (drop (?o j) ?f))) = fst (the (get_common oc (drop (?o j) (fbytes db))))"
    using readsD [OF reads_get_common, of "drop (?o j) (fbytes db)" oc] by fastforce
  with False show ?thesis by (simp add: ent_def)
qed

lemma acls_cong:
  assumes "take (16 * FS_MAX_ACL) p = take (16 * FS_MAX_ACL) q"
    and "16 * FS_MAX_ACL \<le> length p" "16 * FS_MAX_ACL \<le> length q"
  shows "(case get_acls FS_MAX_ACL p of Some (neg, p) \<Rightarrow> (neg, fst (the (get_acls FS_MAX_ACL p))) | None \<Rightarrow> ([], [])) =
    (case get_acls FS_MAX_ACL q of Some (neg, p) \<Rightarrow> (neg, fst (the (get_acls FS_MAX_ACL p))) | None \<Rightarrow> ([], []))"
proof -
  let ?n = "8 * FS_MAX_ACL"
  have t: "take ?n q = take ?n p" "take ?n (drop ?n q) = take ?n (drop ?n p)"
    using arg_cong [OF assms(1), of "take ?n"] arg_cong [OF assms(1), of "drop ?n"]
    by (simp_all add: drop_take)
  obtain a where a: "get_acls FS_MAX_ACL p = Some (a, drop ?n p)" "get_acls FS_MAX_ACL q = Some (a, drop ?n q)"
    using readsD [OF reads_get_acls, of FS_MAX_ACL p] t assms(2,3) by fastforce
  obtain b where "get_acls FS_MAX_ACL (drop ?n p) = Some (b, drop ?n (drop ?n p))"
      "get_acls FS_MAX_ACL (drop ?n q) = Some (b, drop ?n (drop ?n q))"
    using readsD [OF reads_get_acls, of FS_MAX_ACL "drop ?n p"] t assms(2,3) by fastforce
  with a show ?thesis by simp
qed

lemma dir_acls_put_ent:
  assumes "onode_codec_ok oc" "voldb_wf db" "i < hdr_num db" "j < hdr_num db" "is_dir_db db"
  shows "dir_acls (put_ent oc db i e) j = dir_acls db j"
proof -
  let ?o = "\<lambda>i. VOLDB_HEADER_SIZE + esz db * unat i" and ?f = "fbytes (put_ent oc db i e)"
  have E: "esz db = VOLDB_FILE_SIZE + 16 * FS_MAX_ACL" using assms(5) by (simp add: esz_def voldb_sizes)
  have "?o i + VOLDB_FILE_SIZE \<le> ?o j + VOLDB_FILE_SIZE \<or> ?o j + esz db \<le> ?o i"
    using slots_apart [of i j "esz db"] by (cases "unat i = unat j") (simp, linarith)
  then have "take (16 * FS_MAX_ACL) (drop (?o j + VOLDB_FILE_SIZE) ?f) =
      take (16 * FS_MAX_ACL) (drop (?o j + VOLDB_FILE_SIZE) (fbytes db))"
    unfolding put_ent_def using entry_in_file [OF assms(2,3)]
    by (simp, intro splice_disjoint) (auto simp: length_put_common [OF assms(1)] E)
  moreover have "16 * FS_MAX_ACL \<le> length (drop (?o j + VOLDB_FILE_SIZE) (fbytes db))"
    "16 * FS_MAX_ACL \<le> length (drop (?o j + VOLDB_FILE_SIZE) ?f)"
    using entry_in_file [OF assms(2,4)] length_put_ent [OF assms(1-3), of e] by (simp_all add: E)
  ultimately show ?thesis unfolding dir_acls_def put_ent_frame by (intro acls_cong)
qed

section \<open>The header on disk\<close>

definition hdr_bytes :: "sys \<Rightarrow> voldb \<Rightarrow> bytes" where
  "hdr_bytes os db =
     be32 (hdr_magic db) @ be32 (hdr_num db) @ be32 (hdr_flags db) @ map (junk os) [12..<20] @
     be32 (case db_ptr db of None \<Rightarrow> VOLDB_FREELIST_END | Some v \<Rightarrow> freeptr v) @ map (junk os) [24..<40]"

definition put_hdr :: "sys \<Rightarrow> voldb \<Rightarrow> voldb" where
  "put_hdr os db = db\<lparr>fbytes := splice (fbytes db) 0 (hdr_bytes os db)\<rparr>"

text \<open>The header in the file is the one in memory, free list pointer included.\<close>

definition hdr_synced :: "voldb \<Rightarrow> bool" where
  "hdr_synced db \<longleftrightarrow> (\<exists>os. take VOLDB_HEADER_SIZE (fbytes db) = hdr_bytes os db)"

lemma length_hdr_bytes [simp]: "length (hdr_bytes os db) = VOLDB_HEADER_SIZE"
  by (simp add: hdr_bytes_def voldb_sizes)

lemma write_hdr_put:
  assumes "voldb_wf db"
  shows "voldb_write_hdr os db = Some (r_msync os, put_hdr os db)"
proof -
  obtain v where v: "db_ptr db = Some v" "mapped v" using assms by (auto simp: voldb_wf_def)
  have "40 \<le> length (fbytes db)" using assms by (simp add: voldb_wf_def voldb_sizes)
  then show ?thesis using assms v
    by (simp add: voldb_write_hdr_def VOLDB_FUNC_def vdbflat_write_header_def voldb_wf_def Let_def
        voldb_sizes splice_def mput_def put_hdr_def hdr_bytes_def drop_map take_map)
qed

lemma put_hdr_frame [simp]:
  "hdr_magic (put_hdr os db) = hdr_magic db" "hdr_num (put_hdr os db) = hdr_num db"
  "hdr_flags (put_hdr os db) = hdr_flags db" "db_ptr (put_hdr os db) = db_ptr db"
  "db_size (put_hdr os db) = db_size db" "db_type (put_hdr os db) = db_type db"
  "db_volume (put_hdr os db) = db_volume db"
  "esz (put_hdr os db) = esz db" "is_dir_db (put_hdr os db) = is_dir_db db"
  by (simp_all add: put_hdr_def esz_def is_dir_db_def)

lemma drop_put_hdr:
  "voldb_wf db \<Longrightarrow> VOLDB_HEADER_SIZE \<le> k \<Longrightarrow> drop k (fbytes (put_hdr os db)) = drop k (fbytes db)"
  by (simp add: put_hdr_def voldb_wf_def splice_after)

lemma put_hdr_keeps [simp]:
  assumes "voldb_wf db"
  shows "voldb_wf (put_hdr os db)" "hdr_synced (put_hdr os db)"
    "ent oc (put_hdr os db) i = ent oc db i" "dir_acls (put_hdr os db) i = dir_acls db i"
proof -
  have l: "VOLDB_HEADER_SIZE \<le> length (fbytes db)" using assms by (simp add: voldb_wf_def)
  have f: "length (fbytes (put_hdr os db)) = length (fbytes db)"
    using l by (simp add: put_hdr_def)
  show "voldb_wf (put_hdr os db)" using assms unfolding voldb_wf_def f put_hdr_frame .
  have "take VOLDB_HEADER_SIZE (fbytes (put_hdr os db)) = hdr_bytes os (put_hdr os db)"
    by (simp add: put_hdr_def splice_def hdr_bytes_def voldb_sizes)
  then show "hdr_synced (put_hdr os db)" unfolding hdr_synced_def by blast
  show "ent oc (put_hdr os db) i = ent oc db i"
    using drop_put_hdr [OF assms] by (simp add: ent_def)
  show "dir_acls (put_hdr os db) i = dir_acls db i"
    using drop_put_hdr [OF assms] by (simp add: dir_acls_def)
qed

lemma set_freeptr_frame [simp]:
  "hdr_magic (set_freeptr fp db) = hdr_magic db" "hdr_num (set_freeptr fp db) = hdr_num db"
  "hdr_flags (set_freeptr fp db) = hdr_flags db" "fbytes (set_freeptr fp db) = fbytes db"
  "db_size (set_freeptr fp db) = db_size db" "db_type (set_freeptr fp db) = db_type db"
  "db_volume (set_freeptr fp db) = db_volume db"
  "esz (set_freeptr fp db) = esz db" "is_dir_db (set_freeptr fp db) = is_dir_db db"
  "ent oc (set_freeptr fp db) i = ent oc db i" "dir_acls (set_freeptr fp db) i = dir_acls db i"
  by (simp_all add: set_freeptr_def esz_def is_dir_db_def ent_def dir_acls_def)

lemma wf_set_freeptr [simp]: "voldb_wf (set_freeptr fp db) = voldb_wf db"
  by (auto simp: voldb_wf_def) (auto simp: set_freeptr_def)

section \<open>The free list\<close>

fun chain :: "(u32 \<Rightarrow> u32) \<Rightarrow> u32 \<Rightarrow> u32 list \<Rightarrow> bool" where
  "chain nx p [] \<longleftrightarrow> p = VOLDB_FREELIST_END"
| "chain nx p (i # is) \<longleftrightarrow> p = i \<and> chain nx (nx i) is"

lemma chain_cong: "(\<And>i. i \<in> set is \<Longrightarrow> nx i = nx' i) \<Longrightarrow> chain nx p is = chain nx' p is"
  by (induction "is" arbitrary: p) auto

definition db_freeptr :: "voldb \<Rightarrow> u32" where
  "db_freeptr db = freeptr (the (db_ptr db))"

text \<open>
  The invariant of an open database: the free list from \<open>freeptr\<close> visits exactly the entries
  that are not marked as used, each once, and the header on disk is up to date.
\<close>

definition free_inv :: "'o onode_codec \<Rightarrow> voldb \<Rightarrow> u32 list \<Rightarrow> bool" where
  "free_inv oc db fs \<longleftrightarrow>
     voldb_wf db \<and> hdr_synced db \<and> chain (\<lambda>i. nextptr (ent oc db i)) (db_freeptr db) fs \<and>
     distinct fs \<and> (\<forall>i \<in> set fs. i < hdr_num db) \<and>
     (\<forall>i < hdr_num db. nextptr (ent oc db i) = VOLDB_ENTRY_USED \<longleftrightarrow> i \<notin> set fs)"

lemma num_bound:
  assumes "voldb_wf db"
  shows "unat (hdr_num db) < 2 ^ 24"
proof -
  have "480 * unat (hdr_num db) \<le> esz db * unat (hdr_num db)"
    using esz_bounds(1) [of db] by (intro mult_le_mono1) (simp add: voldb_sizes)
  also have "\<dots> < 2 ^ 32" using assms by (simp add: voldb_wf_def)
  finally show ?thesis by simp
qed

lemma not_special:
  assumes "voldb_wf db" "i < hdr_num db"
  shows "i \<noteq> VOLDB_FREELIST_END" "i \<noteq> VOLDB_ENTRY_USED"
proof -
  have "unat i < 2 ^ 24" using num_bound [OF assms(1)] assms(2) by (simp add: word_less_nat_alt)
  then show "i \<noteq> VOLDB_FREELIST_END" "i \<noteq> VOLDB_ENTRY_USED"
    by (auto simp: VOLDB_FREELIST_END_def VOLDB_ENTRY_USED_def)
qed

lemma db_freeptr_simps [simp]:
  "db_freeptr (put_ent oc db i e) = db_freeptr db" "db_freeptr (put_hdr os db) = db_freeptr db"
  "voldb_wf db \<Longrightarrow> db_freeptr (set_freeptr fp db) = fp"
  by (auto simp: db_freeptr_def set_freeptr_def voldb_wf_def)

section \<open>Taking an entry and giving it back\<close>

definition os_ok :: "sys \<Rightarrow> bool" where
  "os_ok os \<longleftrightarrow> r_mmap os = 0 \<and> r_munmap os = 0 \<and> r_ftruncate os = 0 \<and> r_msync os = 0 \<and> r_calloc os"

definition entry_type :: "voldb \<Rightarrow> u32" where
  "entry_type db = (if is_dir_db db then TYPE_DIR else TYPE_FILE)"

definition taken :: "u32 \<Rightarrow> 'o voldb_file_entry \<Rightarrow> 'o voldb_file_entry" where
  "taken t e = e\<lparr>unique := unique e + 1, nextptr := VOLDB_ENTRY_USED, FileType := t\<rparr>"

text \<open>The part of \<open>vdbflat_new_entry\<close> after the extension of the file.\<close>

lemma new_entry_step:
  assumes oc: "onode_codec_ok oc" and wf: "voldb_wf db" and i: "i < hdr_num db"
    and used: "nextptr (ent oc db i) \<noteq> VOLDB_ENTRY_USED"
  shows "(if hdr_flags db AND VOLDB_DIR = VOLDB_DIR then new_entry_dir oc db i
      else if hdr_flags db AND VOLDB_FILE = VOLDB_FILE then new_entry_file oc db i else None) =
    Some (0, put_ent oc db i (taken (entry_type db) (ent oc db i)), nextptr (ent oc db i), unique (ent oc db i) + 1)"
proof -
  have eq: "put_ent oc db i (voldb_file_entry.extend (taken t e) x) = put_ent oc db i (taken t e)" for t e x
    by (simp add: put_ent_def put_common_def voldb_file_entry.defs)
  show ?thesis
  proof (cases "is_dir_db db")
    case True
    let ?a = "dir_acls db i"
    have "(mk_dir (ent oc db i) (fst ?a) (snd ?a))\<lparr>unique := unique (ent oc db i) + 1,
        nextptr := VOLDB_ENTRY_USED, FileType := TYPE_DIR\<rparr> =
      voldb_file_entry.extend (taken TYPE_DIR (ent oc db i)) \<lparr>negacl = fst ?a, acl = snd ?a\<rparr>"
      by (simp add: mk_dir_def voldb_file_entry.defs taken_def)
    then show ?thesis
      using True wf_kind [OF wf] get_dir_ent [OF wf i True, of oc] put_dir_ent [OF oc wf i True] used eq
      by (simp add: flags_mask new_entry_dir_def Let_def entry_type_def mk_dir_def voldb_file_entry.defs taken_def)
  next
    case False
    then show ?thesis
      using wf_kind [OF wf] get_file_ent [OF wf i False, of oc] put_file_ent [OF oc wf i False] used
      by (simp add: flags_mask new_entry_file_def Let_def entry_type_def taken_def VOLDB_DIR_def)
  qed
qed


definition take_entry :: "'o onode_codec \<Rightarrow> sys \<Rightarrow> voldb \<Rightarrow> u32 \<Rightarrow> voldb" where
  "take_entry oc os db i =
     put_hdr os (set_freeptr (nextptr (ent oc db i)) (put_ent oc db i (taken (entry_type db) (ent oc db i))))"

lemma truncate_file [simp]: "voldb_file_entry.truncate (e :: 'o voldb_file_entry) = e"
  by (simp add: voldb_file_entry.truncate_def)

lemma take_entry_facts:
  fixes os :: sys
  assumes oc: "onode_codec_ok oc" and wf: "voldb_wf db" and i: "i < hdr_num db"
  defines "db' \<equiv> take_entry oc os db i"
  shows "voldb_wf db'" "hdr_synced db'" "hdr_num db' = hdr_num db" "is_dir_db db' = is_dir_db db"
    "db_freeptr db' = nextptr (ent oc db i)"
    "j < hdr_num db \<Longrightarrow> ent oc db' j = (if j = i then taken (entry_type db) (ent oc db i) else ent oc db j)"
    "j < hdr_num db \<Longrightarrow> is_dir_db db \<Longrightarrow> dir_acls db' j = dir_acls db j"
  using wf_put_ent [OF oc wf i, of "taken (entry_type db) (ent oc db i)"] ent_put_ent [OF oc wf i, where e = "taken (entry_type db) (ent oc db i)"]
    dir_acls_put_ent [OF oc wf i, where e = "taken (entry_type db) (ent oc db i)"]
  by (simp_all add: db'_def take_entry_def)

lemma free_inv_take:
  assumes oc: "onode_codec_ok oc" and inv: "free_inv oc db (i # fs)"
  shows "free_inv oc (take_entry oc os db i) fs"
proof -
  have wf: "voldb_wf db" and i: "i < hdr_num db" and lt: "\<forall>j \<in> set fs. j < hdr_num db" and d: "i \<notin> set fs" "distinct fs"
    using inv by (auto simp: free_inv_def)
  note t = take_entry_facts [OF oc wf i, where os = os]
  have "chain (\<lambda>j. nextptr (ent oc (take_entry oc os db i) j)) (nextptr (ent oc db i)) fs
      = chain (\<lambda>j. nextptr (ent oc db j)) (nextptr (ent oc db i)) fs"
    using t(6) lt d by (intro chain_cong) auto
  moreover have "nextptr (taken t e) = VOLDB_ENTRY_USED" for t e by (simp add: taken_def)
  ultimately show ?thesis using inv t d by (auto simp: free_inv_def)
qed

lemma new_entry_free:
  assumes oc: "onode_codec_ok oc" and inv: "free_inv oc db (i # fs)"
  shows "vdbflat_new_entry oc os db = Some (r_msync os, take_entry oc os db i,
    if r_msync os \<noteq> 0 then None else Some (i, unique (ent oc db i) + 1))"
proof -
  have wf: "voldb_wf db" and i: "i < hdr_num db" and fp: "db_freeptr db = i"
    and nu: "nextptr (ent oc db i) \<noteq> VOLDB_ENTRY_USED"
    using inv by (auto simp: free_inv_def)
  obtain v where v: "db_ptr db = Some v" "freeptr v = i" using wf fp by (auto simp: voldb_wf_def db_freeptr_def)
  have "voldb_wf (set_freeptr fp' (put_ent oc db i e))" for fp' and e :: "'a voldb_file_entry"
    using wf_put_ent [OF oc wf i] by simp
  then show ?thesis
    using v not_special(1) [OF wf i] new_entry_step [OF oc wf i nu]
    by (simp add: vdbflat_new_entry_def write_hdr_put take_entry_def)
qed

definition give_entry :: "'o onode_codec \<Rightarrow> sys \<Rightarrow> voldb \<Rightarrow> u32 \<Rightarrow> voldb" where
  "give_entry oc os db i =
     put_hdr os (set_freeptr i (put_ent oc db i (clear_entry oc (db_freeptr db) (ent oc db i))))"

lemma give_entry_facts:
  fixes os :: sys
  assumes oc: "onode_codec_ok oc" and wf: "voldb_wf db" and i: "i < hdr_num db"
  defines "db' \<equiv> give_entry oc os db i"
  shows "voldb_wf db'" "hdr_synced db'" "hdr_num db' = hdr_num db" "is_dir_db db' = is_dir_db db"
    "db_freeptr db' = i"
    "j < hdr_num db \<Longrightarrow> ent oc db' j = (if j = i then clear_entry oc (db_freeptr db) (ent oc db i) else ent oc db j)"
    "j < hdr_num db \<Longrightarrow> is_dir_db db \<Longrightarrow> dir_acls db' j = dir_acls db j"
  using wf_put_ent [OF oc wf i, of "clear_entry oc (db_freeptr db) (ent oc db i)"] ent_put_ent [OF oc wf i, where e = "clear_entry oc (db_freeptr db) (ent oc db i)"]
    dir_acls_put_ent [OF oc wf i, where e = "clear_entry oc (db_freeptr db) (ent oc db i)"]
  by (simp_all add: db'_def give_entry_def)

lemma chain_head: "chain nx p fs \<Longrightarrow> p = VOLDB_FREELIST_END \<or> p \<in> set fs"
  by (cases fs) auto

lemma freeptr_not_used:
  assumes inv: "free_inv oc db fs"
  shows "db_freeptr db \<noteq> VOLDB_ENTRY_USED"
proof -
  have "db_freeptr db = VOLDB_FREELIST_END \<or> db_freeptr db < hdr_num db"
    using inv chain_head unfolding free_inv_def by blast
  then show ?thesis
    using inv not_special(2) [of db "db_freeptr db"]
    by (auto simp: free_inv_def VOLDB_FREELIST_END_def VOLDB_ENTRY_USED_def)
qed

lemma free_inv_give:
  assumes oc: "onode_codec_ok oc" and inv: "free_inv oc db fs" and i: "i < hdr_num db" "i \<notin> set fs"
  shows "free_inv oc (give_entry oc os db i) (i # fs)"
proof -
  have wf: "voldb_wf db" and lt: "\<forall>j \<in> set fs. j < hdr_num db" using inv by (auto simp: free_inv_def)
  note t = give_entry_facts [OF oc wf i(1), where os = os]
  have "chain (\<lambda>j. nextptr (ent oc (give_entry oc os db i) j)) (db_freeptr db) fs
      = chain (\<lambda>j. nextptr (ent oc db j)) (db_freeptr db) fs"
    using t(6) lt i by (intro chain_cong) auto
  moreover have "nextptr (clear_entry oc fp (e :: 'a voldb_file_entry)) = fp" for fp e
    by (simp add: clear_entry_def)
  moreover have "db_freeptr db \<noteq> VOLDB_ENTRY_USED" by (rule freeptr_not_used [OF inv])
  ultimately show ?thesis using inv t i by (auto simp: free_inv_def)
qed

lemma del_entry_used:
  assumes oc: "onode_codec_ok oc" and wf: "voldb_wf db" and i: "i < hdr_num db"
    and u: "nextptr (ent oc db i) = VOLDB_ENTRY_USED"
  shows "vdbflat_del_entry oc os db i = Some (r_msync os, give_entry oc os db i, Some (ino (ent oc db i)))"
proof -
  obtain v where v: "db_ptr db = Some v" "freeptr v = db_freeptr db" using wf by (auto simp: voldb_wf_def db_freeptr_def)
  have w: "voldb_wf (set_freeptr fp' (put_ent oc db i e))" for fp' and e :: "'a voldb_file_entry"
    using wf_put_ent [OF oc wf i] by simp
  have k: "hdr_flags db AND (VOLDB_DIR OR VOLDB_FILE) = VOLDB_DIR \<longleftrightarrow> is_dir_db db"
    "hdr_flags db AND (VOLDB_DIR OR VOLDB_FILE) = VOLDB_FILE \<longleftrightarrow> \<not> is_dir_db db"
    using wf_kind [OF wf] by (auto simp: or.commute [of VOLDB_DIR] flags_mask)
  show ?thesis
  proof (cases "is_dir_db db")
    case True
    let ?m = "mk_dir (ent oc db i) (fst (dir_acls db i)) (snd (dir_acls db i))"
    have "put_ent oc db i (clear_entry oc fp ?m) = put_ent oc db i (clear_entry oc fp (ent oc db i))" for fp
      by (simp add: put_ent_def put_common_def mk_dir_def clear_entry_def voldb_file_entry.defs)
    moreover have "nextptr ?m = nextptr (ent oc db i)" "ino ?m = ino (ent oc db i)"
      by (simp_all add: mk_dir_def voldb_file_entry.defs)
    ultimately show ?thesis
      using True v u w get_dir_ent [OF wf i True, of oc] put_dir_ent [OF oc wf i True]
      by (simp add: vdbflat_del_entry_def Let_def k give_entry_def write_hdr_put)
  next
    case False
    then show ?thesis
      using v u w get_file_ent [OF wf i False, of oc] put_file_ent [OF oc wf i False]
      by (simp add: vdbflat_del_entry_def Let_def k give_entry_def write_hdr_put)
  qed
qed

section \<open>Extending the file\<close>

definition acls_kept :: "voldb \<Rightarrow> voldb \<Rightarrow> u32 \<Rightarrow> bool" where
  "acls_kept db db' n \<longleftrightarrow> (is_dir_db db \<longrightarrow> (\<forall>j < n. dir_acls db' j = dir_acls db j))"

declare extend_loop.simps [simp del]

text \<open>What the extension loop stores into entry \<open>j\<close>.\<close>

definition fresh_entry :: "'o onode_codec \<Rightarrow> u32 \<Rightarrow> u32 \<Rightarrow> u32 \<Rightarrow> 'o voldb_file_entry" where
  "fresh_entry oc n fp j = (zero_entry oc)\<lparr>nextptr := (if j < n - 1 then j + 1 else fp)\<rparr>"

lemma extend_loop_ok:
  fixes oc :: "'o onode_codec"
  assumes oc: "onode_codec_ok oc" and "voldb_wf db" "hdr_num db = n" "i \<le> n"
    and put: "\<And>db' j nx. voldb_wf db' \<Longrightarrow> hdr_num db' = n \<Longrightarrow> is_dir_db db' = is_dir_db db \<Longrightarrow> j < n \<Longrightarrow>
      put db' j nx = Some (0, put_ent oc db' j ((zero_entry oc)\<lparr>nextptr := nx\<rparr>))"
  shows "\<exists>db'. extend_loop put n fp i db = Some db' \<and> voldb_wf db' \<and> hdr_num db' = n \<and>
    is_dir_db db' = is_dir_db db \<and> hdr_flags db' = hdr_flags db \<and> db_ptr db' = db_ptr db \<and> acls_kept db db' n \<and>
    (\<forall>j < n. ent oc db' j = (if i \<le> j then fresh_entry oc n fp j else ent oc db j))"
  using assms(2-)
proof (induction "unat (n - i)" arbitrary: i db rule: less_induct)
  case less
  show ?case
  proof (cases "i < n")
    case False
    then have "extend_loop put n fp i db = Some db" by (simp add: extend_loop.simps [of put n fp i])
    with False less.prems show ?thesis by (auto simp: acls_kept_def)
  next
    case True
    let ?nx = "if i < n - 1 then i + 1 else fp"
    let ?db = "put_ent oc db i ((zero_entry oc)\<lparr>nextptr := ?nx\<rparr>)"
    have i: "i < hdr_num db" using True less.prems by simp
    have wf: "voldb_wf ?db" using wf_put_ent [OF oc less.prems(1) i] .
    have "unat (n - (i + 1)) < unat (n - i)" using True by (intro unat_diff_Suc_less) auto
    moreover have "i + 1 \<le> n" using True by (simp add: inc_le)
    ultimately obtain db' where db': "extend_loop put n fp (i + 1) ?db = Some db'" "voldb_wf db'"
      "hdr_num db' = n" "is_dir_db db' = is_dir_db ?db" "hdr_flags db' = hdr_flags ?db" "db_ptr db' = db_ptr ?db"
      "acls_kept ?db db' n" "\<forall>j < n. ent oc db' j = (if i + 1 \<le> j then fresh_entry oc n fp j else ent oc ?db j)"
      using less.hyps [of "i + 1" ?db] wf less.prems by auto
    have "put db i ?nx = Some (0, ?db)" using less.prems True by blast
    with db'(1) True have "extend_loop put n fp i db = Some db'" by (simp add: extend_loop.simps [of put n fp i])
    moreover have "acls_kept db db' n"
      using db'(7) dir_acls_put_ent [OF oc less.prems(1) i] less.prems(2) by (auto simp: acls_kept_def)
    moreover have "ent oc db' j = (if i \<le> j then fresh_entry oc n fp j else ent oc db j)" if "j < n" for j
    proof -
      note le = word_Suc_less_eq(1) [OF True, of j]
      show ?thesis
        using db'(8) that ent_put_ent [OF oc less.prems(1) i, of j] less.prems(2) le
        by (cases "j = i") (auto simp: fresh_entry_def)
    qed
    ultimately show ?thesis using db' by auto
  qed
qed

lemma chain_upt:
  assumes "a < b" "\<And>j. a \<le> j \<Longrightarrow> j < b \<Longrightarrow> nx (of_nat j) = (if Suc j < b then of_nat (Suc j) else fp)"
    and "chain nx fp fs"
  shows "chain nx (of_nat a) (map of_nat [a..<b] @ fs)"
  using assms
proof (induction "b - a" arbitrary: a)
  case (Suc k)
  show ?case
  proof (cases "Suc a < b")
    case True
    then have "chain nx (of_nat (Suc a)) (map of_nat [Suc a..<b] @ fs)"
      using Suc by (intro Suc.hyps) auto
    with True Suc.prems(2) [of a] show ?thesis by (simp add: upt_conv_Cons [of a])
  next
    case False
    then have "b = Suc a" using Suc.prems by simp
    with Suc.prems show ?thesis by simp
  qed
qed simp

text \<open>The database after \<open>ftruncate\<close> and the second \<open>mmap\<close>.\<close>

definition grown :: "voldb \<Rightarrow> u32 \<Rightarrow> voldb" where
  "grown db n = db\<lparr>fbytes := fbytes db @ replicate (esz db * unat n) 0,
     db_size := db_size db + esz db * unat n, hdr_num := hdr_num db + n\<rparr>"

lemma grown_frame [simp]:
  "hdr_flags (grown db n) = hdr_flags db" "db_ptr (grown db n) = db_ptr db" "is_dir_db (grown db n) = is_dir_db db"
  "esz (grown db n) = esz db" "db_freeptr (grown db n) = db_freeptr db" "hdr_magic (grown db n) = hdr_magic db"
  "db_type (grown db n) = db_type db"
  by (simp_all add: grown_def is_dir_db_def esz_def db_freeptr_def)

lemma grown_num:
  assumes "voldb_wf db" "db_size db + esz db * unat n < 2 ^ 32"
  shows "unat (hdr_num (grown db n)) = unat (hdr_num db) + unat n"
proof -
  have "unat (hdr_num db) \<le> esz db * unat (hdr_num db)" "unat n \<le> esz db * unat n"
    using esz_bounds(2) [of db] by simp_all
  moreover have "db_size db = VOLDB_HEADER_SIZE + esz db * unat (hdr_num db)"
    using assms(1) by (simp add: voldb_wf_def)
  ultimately have "unat (hdr_num db) + unat n < 2 ^ 32" using assms(2) by linarith
  then show ?thesis by (simp add: grown_def unat_word_ariths)
qed

lemma grown_wf:
  assumes "voldb_wf db" "db_size db + esz db * unat n < 2 ^ 32"
  shows "voldb_wf (grown db n)"
proof -
  have "db_size (grown db n) = VOLDB_HEADER_SIZE + esz db * unat (hdr_num (grown db n))"
    unfolding grown_num [OF assms] using assms(1) by (simp add: grown_def voldb_wf_def algebra_simps)
  then show ?thesis
    using assms unfolding voldb_wf_def by (simp add: grown_def esz_def is_dir_db_def)
qed

lemma grown_keeps:
  assumes "voldb_wf db" "j < hdr_num db"
  shows "ent oc (grown db n) j = ent oc db j" "is_dir_db db \<Longrightarrow> dir_acls (grown db n) j = dir_acls db j"
proof -
  let ?o = "VOLDB_HEADER_SIZE + esz db * unat j" and ?z = "replicate (esz db * unat n) 0"
  have l: "?o + esz db \<le> length (fbytes db)" using entry_in_file [OF assms] .
  have d: "drop k (fbytes (grown db n)) = drop k (fbytes db) @ ?z" if "k \<le> length (fbytes db)" for k
    using that by (simp add: grown_def)
  have "VOLDB_FILE_SIZE \<le> length (drop ?o (fbytes db))" using l esz_bounds(1) [of db] by simp
  from readsD [OF reads_get_common this, of oc] show "ent oc (grown db n) j = ent oc db j"
    using d [of ?o] l esz_bounds(1) [of db] by (auto simp: ent_def)
  assume "is_dir_db db"
  then have E: "esz db = VOLDB_FILE_SIZE + 16 * FS_MAX_ACL" by (simp add: esz_def voldb_sizes)
  show "dir_acls (grown db n) j = dir_acls db j"
    unfolding dir_acls_def grown_frame using l d [of "?o + VOLDB_FILE_SIZE"] by (intro acls_cong) (auto simp: E)
qed

lemma extend_db_unfold:
  assumes wf: "voldb_wf db" and os: "os_ok os" and room: "db_size db + esz db * unat n < 2 ^ 32"
    and v: "db_ptr db = Some v"
  shows "vdbflat_extend_db oc os db n = Option.bind
     (if is_dir_db db then extend_dirs oc (hdr_num db + n) (freeptr v) (hdr_num db) (grown db n)
      else extend_files oc (hdr_num db + n) (freeptr v) (hdr_num db) (grown db n))
     (\<lambda>db'. voldb_write_hdr os (set_freeptr (hdr_num db) db'))"
proof -
  have fl: "hdr_flags db AND (VOLDB_FILE OR VOLDB_DIR) = (if is_dir_db db then VOLDB_DIR else VOLDB_FILE)"
    "hdr_flags db AND VOLDB_DIR \<noteq> 0 \<or> hdr_flags db AND VOLDB_FILE \<noteq> 0"
    using wf wf_kind [OF wf] by (auto simp: voldb_wf_def flags_mask)
  have ne: "VOLDB_FILE \<noteq> VOLDB_DIR" by (simp add: VOLDB_FILE_def VOLDB_DIR_def)
  have "unat (of_nat (esz db) :: u32) = esz db" by (simp add: esz_def voldb_sizes)
  then have p: "unat (n * of_nat (esz db)) = esz db * unat n"
    using room by (simp add: unat_word_ariths mult.commute)
  have m: "v\<lparr>mapped := True\<rparr> = v" using wf v by (auto simp: voldb_wf_def)
  have len: "length (fbytes db) = db_size db" using wf by (simp add: voldb_wf_def)
  have g: "db\<lparr>fbytes := fbytes db @ replicate (esz db * unat n) 0, db_size := db_size db + esz db * unat n,
      hdr_num := hdr_num db + n, db_ptr := Some v\<rparr> = grown db n"
    using v by (simp add: grown_def)
  have gd: "hdr_num (grown db n) = hdr_num db + n" by (simp add: grown_def)
  have mg: "hdr_magic db = VOLDB_MAGIC_HEADER" using wf by (simp add: voldb_wf_def)
  show ?thesis
  proof (cases "is_dir_db db")
    case True
    then have e: "esz db = VOLDB_DIR_SIZE" by (simp add: esz_def)
    show ?thesis
      using fl True mg os v p g gd len unfolding e
      by (simp add: vdbflat_extend_db_def Let_def set_volhdr_union_ptr_def os_ok_def m)
  next
    case False
    then have e: "esz db = VOLDB_FILE_SIZE" by (simp add: esz_def)
    show ?thesis
      using fl False mg os v p g gd len ne unfolding e
      by (simp add: vdbflat_extend_db_def Let_def set_volhdr_union_ptr_def os_ok_def m)
  qed
qed

lemma extend_db_eq:
  assumes oc: "onode_codec_ok oc" and wf: "voldb_wf db" and os: "os_ok os"
    and room: "db_size db + esz db * unat n < 2 ^ 32"
  shows "\<exists>db'. vdbflat_extend_db oc os db n = Some (0, put_hdr os (set_freeptr (hdr_num db) db')) \<and>
    voldb_wf db' \<and> hdr_num db' = hdr_num db + n \<and> is_dir_db db' = is_dir_db db \<and> acls_kept db db' (hdr_num db) \<and>
    (\<forall>j < hdr_num db + n. ent oc db' j =
       (if hdr_num db \<le> j then fresh_entry oc (hdr_num db + n) (db_freeptr db) j else ent oc db j))"
proof -
  let ?g = "grown db n" and ?N = "hdr_num db + n" and ?fp = "db_freeptr db"
  have gw: "voldb_wf ?g" and gn: "hdr_num ?g = ?N"
    using grown_wf [OF wf room] by (simp_all add: grown_def)
  have le: "hdr_num db \<le> ?N"
    using grown_num [OF wf room] gn by (simp add: word_le_nat_alt)
  have lt: "j < ?N" if "j < hdr_num db" for j using that le by simp
  obtain v where v: "db_ptr db = Some v" "mapped v" "freeptr v = ?fp"
    using wf by (auto simp: voldb_wf_def db_freeptr_def)
  have ex: "\<exists>db'. (if is_dir_db db then extend_dirs oc ?N ?fp (hdr_num db) ?g else extend_files oc ?N ?fp (hdr_num db) ?g)
      = Some db' \<and> voldb_wf db' \<and> hdr_num db' = ?N \<and>
    is_dir_db db' = is_dir_db ?g \<and> hdr_flags db' = hdr_flags ?g \<and> db_ptr db' = db_ptr ?g \<and> acls_kept ?g db' ?N \<and>
    (\<forall>j < ?N. ent oc db' j = (if hdr_num db \<le> j then fresh_entry oc ?N ?fp j else ent oc ?g j))"
  proof (cases "is_dir_db db")
    case True
    have z: "put_ent oc db' j ((zero_dir oc)\<lparr>nextptr := nx\<rparr>) = put_ent oc db' j ((zero_entry oc)\<lparr>nextptr := nx\<rparr>)" for db' j nx
      by (simp add: put_ent_def put_common_def zero_dir_def mk_dir_def voldb_file_entry.defs)
    have "voldb_put_dir oc db' j ((zero_dir oc)\<lparr>nextptr := nx\<rparr>) = Some (0, put_ent oc db' j ((zero_entry oc)\<lparr>nextptr := nx\<rparr>))"
      if "voldb_wf db'" "hdr_num db' = ?N" "is_dir_db db' = is_dir_db ?g" "j < ?N" for db' j nx
      using put_dir_ent [OF oc, of db' j "(zero_dir oc)\<lparr>nextptr := nx\<rparr>"] that True z by simp
    from extend_loop_ok [OF oc gw gn le this] True show ?thesis unfolding extend_dirs_def by simp
  next
    case False
    have "voldb_put_file oc db' j ((zero_entry oc)\<lparr>nextptr := nx\<rparr>) = Some (0, put_ent oc db' j ((zero_entry oc)\<lparr>nextptr := nx\<rparr>))"
      if "voldb_wf db'" "hdr_num db' = ?N" "is_dir_db db' = is_dir_db ?g" "j < ?N" for db' j nx
      using put_file_ent [OF oc, of db' j "(zero_entry oc)\<lparr>nextptr := nx\<rparr>"] that False by simp
    from extend_loop_ok [OF oc gw gn le this] False show ?thesis unfolding extend_files_def by simp
  qed
  then obtain db' where db': "(if is_dir_db db then extend_dirs oc ?N ?fp (hdr_num db) ?g else extend_files oc ?N ?fp (hdr_num db) ?g)
      = Some db'" "voldb_wf db'" "hdr_num db' = ?N" "is_dir_db db' = is_dir_db ?g" "acls_kept ?g db' ?N"
    "\<forall>j < ?N. ent oc db' j = (if hdr_num db \<le> j then fresh_entry oc ?N ?fp j else ent oc ?g j)" by blast
  have "vdbflat_extend_db oc os db n = Some (0, put_hdr os (set_freeptr (hdr_num db) db'))"
    unfolding extend_db_unfold [OF wf os room v(1)] v(3) db'(1) using db'(2) os by (simp add: write_hdr_put os_ok_def)
  moreover have "acls_kept db db' (hdr_num db)"
    using db'(5) grown_keeps(2) [OF wf] lt by (auto simp: acls_kept_def)
  moreover have "ent oc ?g j = ent oc db j" if "\<not> hdr_num db \<le> j" for j
    using grown_keeps(1) [OF wf, of j] that by (simp add: not_le)
  ultimately show ?thesis using db' by auto
qed

text \<open>The numbers of the entries that an extension adds.\<close>

definition new_nums :: "u32 \<Rightarrow> u32 \<Rightarrow> u32 list" where
  "new_nums old n = map of_nat [unat old..<unat (old + n)]"

lemma unat_of_nat_below: "j < unat (N :: u32) \<Longrightarrow> unat (of_nat j :: u32) = j"
  using order_less_trans [OF _ unsigned_less [of N, where 'a = nat]] by (simp add: unat_of_nat)

lemma set_new_nums: "i \<in> set (new_nums old n) \<longleftrightarrow> old \<le> i \<and> i < old + n"
proof -
  have "i \<in> set (new_nums old n) \<longleftrightarrow> (\<exists>j. unat old \<le> j \<and> j < unat (old + n) \<and> i = of_nat j)"
    by (auto simp: new_nums_def)
  also have "\<dots> \<longleftrightarrow> unat old \<le> unat i \<and> unat i < unat (old + n)"
  proof
    assume "\<exists>j. unat old \<le> j \<and> j < unat (old + n) \<and> i = of_nat j"
    then obtain j where j: "unat old \<le> j" "j < unat (old + n)" "i = of_nat j" by blast
    then show "unat old \<le> unat i \<and> unat i < unat (old + n)" using unat_of_nat_below [OF j(2)] by simp
  next
    assume "unat old \<le> unat i \<and> unat i < unat (old + n)"
    then show "\<exists>j. unat old \<le> j \<and> j < unat (old + n) \<and> i = of_nat j"
      by (intro exI [of _ "unat i"]) simp
  qed
  finally show ?thesis by (simp add: word_le_nat_alt word_less_nat_alt)
qed

lemma distinct_new_nums: "distinct (new_nums old n)"
proof -
  have "inj_on (of_nat :: nat \<Rightarrow> u32) {unat old..<unat (old + n)}"
    by (intro inj_onI) (metis atLeastLessThan_iff unat_of_nat_below)
  then show ?thesis by (simp add: new_nums_def distinct_map)
qed

lemma fresh_next:
  assumes "j < unat N"
  shows "nextptr (fresh_entry oc N fp (of_nat j)) = (if Suc j < unat N then of_nat (Suc j) else fp)"
proof -
  have "N \<noteq> 0" using assms by auto
  then have "unat (N - 1) = unat N - 1" by (rule unat_minus_one)
  then have "(of_nat j :: u32) < N - 1 \<longleftrightarrow> Suc j < unat N"
    using unat_of_nat_below [OF assms] by (simp add: word_less_nat_alt less_diff_conv)
  then show ?thesis by (simp add: fresh_entry_def add.commute)
qed

lemma fresh_not_used:
  assumes "voldb_wf d" "hdr_num d = N" "i < N" "fp \<noteq> VOLDB_ENTRY_USED"
  shows "nextptr (fresh_entry oc N fp i) \<noteq> VOLDB_ENTRY_USED"
proof -
  have "i + 1 < N" if "i < N - 1"
  proof -
    have "N \<noteq> 0" using assms(3) by auto
    then have "unat (N - 1) = unat N - 1" by (rule unat_minus_one)
    then show ?thesis using that word_Suc_less_eq(2) [OF that] by (simp add: word_less_nat_alt)
  qed
  then show ?thesis using not_special(2) [OF assms(1)] assms by (auto simp: fresh_entry_def)
qed

lemma free_inv_extend:
  assumes oc: "onode_codec_ok oc" and inv: "free_inv oc db fs" and os: "os_ok os" and n: "n \<noteq> 0"
    and room: "db_size db + esz db * unat n < 2 ^ 32"
  shows "\<exists>db'. vdbflat_extend_db oc os db n = Some (0, db') \<and> free_inv oc db' (new_nums (hdr_num db) n @ fs) \<and>
    hdr_num db' = hdr_num db + n \<and> is_dir_db db' = is_dir_db db \<and> acls_kept db db' (hdr_num db) \<and>
    (\<forall>j < hdr_num db + n. ent oc db' j =
       (if hdr_num db \<le> j then fresh_entry oc (hdr_num db + n) (db_freeptr db) j else ent oc db j))"
proof -
  let ?old = "hdr_num db" and ?N = "hdr_num db + n" and ?fp = "db_freeptr db"
  have wf: "voldb_wf db" and lt: "\<forall>i \<in> set fs. i < ?old" and ch: "chain (\<lambda>i. nextptr (ent oc db i)) ?fp fs"
    and dist: "distinct fs" and used: "\<forall>i < ?old. nextptr (ent oc db i) = VOLDB_ENTRY_USED \<longleftrightarrow> i \<notin> set fs"
    using inv by (auto simp: free_inv_def)
  have ab: "unat ?old < unat ?N"
    using grown_num [OF wf room] n by (simp add: grown_def unat_gt_0)
  have oldlt: "i < ?N" "\<not> ?old \<le> i" if "i < ?old" for i
    using that ab by (auto simp: word_less_nat_alt word_le_nat_alt)
  from extend_db_eq [OF oc wf os room] obtain d where d:
    "vdbflat_extend_db oc os db n = Some (0, put_hdr os (set_freeptr ?old d))" "voldb_wf d" "hdr_num d = ?N"
    "is_dir_db d = is_dir_db db" "acls_kept db d ?old"
    "\<forall>j < ?N. ent oc d j = (if ?old \<le> j then fresh_entry oc ?N ?fp j else ent oc db j)" by blast
  let ?nx = "\<lambda>i. nextptr (ent oc d i)"
  have "?nx (of_nat j) = (if Suc j < unat ?N then of_nat (Suc j) else ?fp)" if "unat ?old \<le> j" "j < unat ?N" for j
    using d(6) fresh_next [OF that(2), of oc ?fp] unat_of_nat_below [OF that(2)] that
    by (simp add: word_le_nat_alt word_less_nat_alt)
  moreover have "chain ?nx ?fp fs"
    using ch d(6) lt oldlt by (subst chain_cong [of _ _ "\<lambda>i. nextptr (ent oc db i)"]) auto
  ultimately have "chain ?nx (of_nat (unat ?old)) (new_nums ?old n @ fs)"
    unfolding new_nums_def using ab by (intro chain_upt) auto
  moreover have "set (new_nums ?old n) \<inter> set fs = {}" using set_new_nums lt oldlt(2) by blast
  moreover have "?nx i = VOLDB_ENTRY_USED \<longleftrightarrow> i \<notin> set (new_nums ?old n @ fs)" if "i < ?N" for i
    using that d(6) used fresh_not_used [OF d(2,3) that freeptr_not_used [OF inv], of oc]
    by (cases "?old \<le> i") (auto simp: set_new_nums)
  ultimately have "free_inv oc (put_hdr os (set_freeptr ?old d)) (new_nums ?old n @ fs)"
    using d(2,3) lt oldlt dist distinct_new_nums by (auto simp: free_inv_def set_new_nums)
  then show ?thesis using d by (auto simp: acls_kept_def)
qed

lemma new_entry_extend:
  assumes oc: "onode_codec_ok oc" and inv: "free_inv oc db []" and os: "os_ok os"
    and room: "db_size db + esz db * 10 < 2 ^ 32"
  shows "\<exists>db'. vdbflat_new_entry oc os db = Some (0, db', Some (hdr_num db, 1)) \<and>
    free_inv oc db' (tl (new_nums (hdr_num db) VOLDB_ENTEND_NUM)) \<and>
    hdr_num db' = hdr_num db + VOLDB_ENTEND_NUM \<and> is_dir_db db' = is_dir_db db \<and> acls_kept db db' (hdr_num db) \<and>
    ent oc db' (hdr_num db) = (zero_entry oc)\<lparr>unique := 1, nextptr := VOLDB_ENTRY_USED, FileType := entry_type db\<rparr> \<and>
    (\<forall>j < hdr_num db. ent oc db' j = ent oc db j)"
proof -
  let ?old = "hdr_num db" and ?N = "hdr_num db + VOLDB_ENTEND_NUM"
  have ten: "unat VOLDB_ENTEND_NUM = 10" "VOLDB_ENTEND_NUM \<noteq> 0" by (simp_all add: VOLDB_ENTEND_NUM_def)
  have wf: "voldb_wf db" and fp: "db_freeptr db = VOLDB_FREELIST_END" using inv by (auto simp: free_inv_def)
  from free_inv_extend [OF oc inv os ten(2)] room obtain d where d:
    "vdbflat_extend_db oc os db VOLDB_ENTEND_NUM = Some (0, d)" "free_inv oc d (new_nums ?old VOLDB_ENTEND_NUM)"
    "hdr_num d = ?N" "is_dir_db d = is_dir_db db" "acls_kept db d ?old"
    "\<forall>j < ?N. ent oc d j = (if ?old \<le> j then fresh_entry oc ?N (db_freeptr db) j else ent oc db j)"
    unfolding ten by auto
  have gn: "unat ?N = unat ?old + 10" using grown_num [OF wf, of VOLDB_ENTEND_NUM] room ten by (simp add: grown_def)
  then have nn: "new_nums ?old VOLDB_ENTEND_NUM = ?old # tl (new_nums ?old VOLDB_ENTEND_NUM)"
    by (simp add: new_nums_def upt_conv_Cons)
  have lt: "?old < ?N" "j < ?old \<Longrightarrow> j < ?N" "j < ?old \<Longrightarrow> \<not> ?old \<le> j" for j
    using gn by (auto simp: word_less_nat_alt word_le_nat_alt)
  have dw: "voldb_wf d" using d(2) by (simp add: free_inv_def)
  have u: "unique (ent oc d ?old) = 0" using d(6) lt by (simp add: fresh_entry_def zero_entry_def)
  from d(2) have inv': "free_inv oc d (?old # tl (new_nums ?old VOLDB_ENTEND_NUM))" unfolding nn [symmetric] .
  then have "db_freeptr d \<noteq> VOLDB_FREELIST_END"
    using not_special(1) [OF dw, of ?old] lt(1) d(3) by (simp add: free_inv_def)
  then have "vdbflat_new_entry oc os db = vdbflat_new_entry oc os d"
    using d(1) fp wf dw unfolding vdbflat_new_entry_def voldb_wf_def db_freeptr_def by auto
  then have "vdbflat_new_entry oc os db = Some (0, take_entry oc os d ?old, Some (?old, 1))"
    using new_entry_free [OF oc inv', of os] os u by (simp add: os_ok_def)
  moreover note take_entry_facts [OF oc dw, of ?old, where os = os, unfolded d(3), OF lt(1)]
    free_inv_take [OF oc inv', where os = os]
  moreover have "taken (entry_type d) (ent oc d ?old) = (zero_entry oc)\<lparr>unique := 1, nextptr := VOLDB_ENTRY_USED, FileType := entry_type db\<rparr>"
    using d(4,6) lt(1) by (simp add: taken_def fresh_entry_def zero_entry_def entry_type_def)
  ultimately show ?thesis using d lt by (auto simp: acls_kept_def)
qed

section \<open>Opening a file again\<close>

lemma synced_header:
  assumes "hdr_synced db" "voldb_wf db"
  obtains x y where "fbytes db = be32 (hdr_magic db) @ be32 (hdr_num db) @ be32 (hdr_flags db) @ x @
    be32 (db_freeptr db) @ y" "length x = 8"
proof -
  from assms(1) obtain os where "take VOLDB_HEADER_SIZE (fbytes db) = hdr_bytes os db" by (auto simp: hdr_synced_def)
  then have "fbytes db = hdr_bytes os db @ drop VOLDB_HEADER_SIZE (fbytes db)" by (metis append_take_drop_id)
  moreover obtain v where "db_ptr db = Some v" using assms(2) by (auto simp: voldb_wf_def)
  ultimately show ?thesis
    using that [of "map (junk os) [12..<20]"] by (simp add: hdr_bytes_def db_freeptr_def)
qed

lemma init_check_wf:
  assumes "voldb_wf db"
  shows "init_check db = 0"
proof -
  have sz: "db_size db - VOLDB_HEADER_SIZE = esz db * unat (hdr_num db)" using assms by (simp add: voldb_wf_def)
  have ne: "VOLDB_FILE \<noteq> VOLDB_DIR" "VOLDB_DIR_SIZE \<noteq> 0" "VOLDB_FILE_SIZE \<noteq> 0"
    by (simp_all add: VOLDB_FILE_def VOLDB_DIR_def voldb_sizes)
  show ?thesis
  proof (cases "is_dir_db db")
    case True
    then have "hdr_flags db AND (VOLDB_FILE OR VOLDB_DIR) = VOLDB_DIR"
      using wf_kind [OF assms] by (simp add: flags_mask)
    with True ne sz show ?thesis by (simp add: init_check_def esz_def)
  next
    case False
    then have "hdr_flags db AND (VOLDB_FILE OR VOLDB_DIR) = VOLDB_FILE"
      using wf_kind [OF assms] by (simp add: flags_mask)
    with False ne sz show ?thesis by (simp add: init_check_def esz_def)
  qed
qed

definition closed_db :: "bytes \<Rightarrow> int \<Rightarrow> voldb" where
  "closed_db f vol = \<lparr>hdr_magic = 0, hdr_num = 0, hdr_flags = 0, db_type = 0, db_size = length f,
     db_volume = vol, fbytes = f, db_ptr = None\<rparr>"

lemma init_reopen:
  assumes sy: "hdr_synced db" and wf: "voldb_wf db" and os: "os_ok os"
  shows "vdbflat_init os (closed_db (fbytes db) vol) False = Some (0, db\<lparr>db_volume := vol\<rparr>)"
proof -
  obtain x y where f: "fbytes db = be32 (hdr_magic db) @ be32 (hdr_num db) @ be32 (hdr_flags db) @ x @
    be32 (db_freeptr db) @ y" "length x = 8" using synced_header [OF sy wf] .
  obtain v where v: "db_ptr db = Some v" "mapped v" using wf by (auto simp: voldb_wf_def)
  have "drop 20 (fbytes db) = be32 (db_freeptr db) @ y" using f(2) unfolding f(1) by simp
  then have r: "rd32 (drop VOLDB_HEADER_HALF (fbytes db)) = Some (db_freeptr db, y)"
    by (simp add: voldb_sizes)
  have p: "voldb_parse_header (closed_db (fbytes db) vol) (fbytes db) VOLDB_HEADER_HALF = Some
      ((closed_db (fbytes db) vol)\<lparr>hdr_magic := hdr_magic db, hdr_num := hdr_num db, hdr_flags := hdr_flags db\<rparr>)"
    by (subst f(1)) (simp add: voldb_parse_header_def)
  let ?d = "(closed_db (fbytes db) vol)\<lparr>hdr_magic := hdr_magic db, hdr_num := hdr_num db, hdr_flags := hdr_flags db\<rparr>"
  have d: "?d\<lparr>db_ptr := Some \<lparr>freeptr = db_freeptr db, mapped = True\<rparr>\<rparr> = db\<lparr>db_volume := vol\<rparr>"
    using wf v by (cases v) (auto simp: closed_db_def voldb_wf_def db_freeptr_def)
  have "init_check ?d = init_check db" using wf by (simp add: init_check_def closed_db_def voldb_wf_def)
  moreover have "VOLDB_HEADER_SIZE \<le> db_size (closed_db (fbytes db) vol)" using wf by (simp add: voldb_wf_def closed_db_def)
  moreover have "set_volhdr_union_ptr (db\<lparr>db_volume := vol\<rparr>) = Some (db\<lparr>db_volume := vol\<rparr>)"
    using wf_kind [OF wf] by (auto simp: set_volhdr_union_ptr_def)
  moreover have "fbytes ?d = fbytes db" "fbytes (closed_db (fbytes db) vol) = fbytes db" by (simp_all add: closed_db_def)
  ultimately show ?thesis
    using os p r d init_check_wf [OF wf] by (simp add: vdbflat_init_def os_ok_def)
qed

section \<open>Rebuilding the free list\<close>

definition free_ent :: "'o onode_codec \<Rightarrow> voldb \<Rightarrow> u32 \<Rightarrow> bool" where
  "free_ent oc db i \<longleftrightarrow> nextptr (ent oc db i) \<noteq> VOLDB_ENTRY_USED"

lemma rebuild_step_eq:
  assumes oc: "onode_codec_ok oc" and wf: "voldb_wf db" and i: "i < hdr_num db"
    and ty: "\<not> free_ent oc db i \<Longrightarrow> FileType (ent oc db i) = entry_type db"
  shows "rebuild_step oc db fp i = Some (0,
     if free_ent oc db i then put_ent oc db i ((ent oc db i)\<lparr>nextptr := VOLDB_FREELIST_END\<rparr>) else db,
     if free_ent oc db i then i else fp)"
proof (cases "is_dir_db db")
  case True
  let ?m = "mk_dir (ent oc db i) (fst (dir_acls db i)) (snd (dir_acls db i))"
  have "put_ent oc db i (?m\<lparr>nextptr := x\<rparr>) = put_ent oc db i ((ent oc db i)\<lparr>nextptr := x\<rparr>)" for x
    by (simp add: put_ent_def put_common_def mk_dir_def voldb_file_entry.defs)
  moreover have "nextptr ?m = nextptr (ent oc db i)" "FileType ?m = FileType (ent oc db i)"
    by (simp_all add: mk_dir_def voldb_file_entry.defs)
  ultimately show ?thesis
    using True wf_kind [OF wf] ty get_dir_ent [OF wf i True, of oc] put_dir_ent [OF oc wf i True, of "?m\<lparr>nextptr := VOLDB_FREELIST_END\<rparr>"]
    by (simp add: rebuild_step_def flags_mask free_ent_def entry_type_def)
next
  case False
  then show ?thesis
    using wf_kind [OF wf] ty get_file_ent [OF wf i False, of oc]
      put_file_ent [OF oc wf i False, of "(ent oc db i)\<lparr>nextptr := VOLDB_FREELIST_END\<rparr>"]
    by (simp add: rebuild_step_def flags_mask free_ent_def entry_type_def VOLDB_DIR_def)
qed

text \<open>What the pointer to the head of the list is after the rounds for \<open>k - 1\<close> down to 0.\<close>

definition rebuilt_fp :: "'o onode_codec \<Rightarrow> voldb \<Rightarrow> nat \<Rightarrow> u32 \<Rightarrow> u32 \<Rightarrow> bool" where
  "rebuilt_fp oc db k fp fp' \<longleftrightarrow>
     (\<forall>j < k. \<not> free_ent oc db (of_nat j)) \<and> fp' = fp \<or>
     (\<exists>m < k. free_ent oc db (of_nat m) \<and> fp' = of_nat m \<and> (\<forall>j < m. \<not> free_ent oc db (of_nat j)))"

lemma rebuild_loop_ok:
  assumes oc: "onode_codec_ok oc" and "voldb_wf db" "k \<le> unat (hdr_num db)"
    and "\<forall>i < hdr_num db. \<not> free_ent oc db i \<longrightarrow> FileType (ent oc db i) = entry_type db"
  shows "\<exists>db' fp'. rebuild_loop oc k db fp = Some (0, db', fp') \<and> rebuilt_fp oc db k fp fp' \<and>
     voldb_wf db' \<and> hdr_num db' = hdr_num db \<and> db_ptr db' = db_ptr db \<and>
     (\<forall>i < hdr_num db. ent oc db' i =
        (if unat i < k \<and> free_ent oc db i then (ent oc db i)\<lparr>nextptr := VOLDB_FREELIST_END\<rparr> else ent oc db i))"
  using assms(2-)
proof (induction k arbitrary: db fp)
  case 0
  then show ?case by (simp add: rebuilt_fp_def)
next
  case (Suc k)
  let ?i = "of_nat k :: u32" and ?e = "(ent oc db (of_nat k))\<lparr>nextptr := VOLDB_FREELIST_END\<rparr>"
  have i: "?i < hdr_num db" "unat ?i = k"
    using Suc.prems(2) unat_of_nat_below [of k "hdr_num db"] by (simp_all add: word_less_nat_alt)
  define d where "d = (if free_ent oc db ?i then put_ent oc db ?i ?e else db)"
  define f where "f = (if free_ent oc db ?i then ?i else fp)"
  have st: "rebuild_step oc db fp ?i = Some (0, d, f)"
    unfolding d_def f_def using rebuild_step_eq [OF oc Suc.prems(1) i(1)] Suc.prems(3) i(1) by blast
  have e: "ent oc d j = (if j = ?i \<and> free_ent oc db ?i then ?e else ent oc db j)" if "j < hdr_num db" for j
    using ent_put_ent [OF oc Suc.prems(1) i(1) that, of ?e] by (cases "j = ?i") (simp_all add: d_def)
  have dw: "voldb_wf d" "hdr_num d = hdr_num db" "db_ptr d = db_ptr db" "entry_type d = entry_type db"
    using wf_put_ent [OF oc Suc.prems(1) i(1), of ?e] Suc.prems(1) by (simp_all add: d_def entry_type_def)
  have fr: "free_ent oc d j = free_ent oc db j" if "j < hdr_num db" for j
    using e [OF that] by (auto simp: free_ent_def VOLDB_FREELIST_END_def VOLDB_ENTRY_USED_def)
  have frn: "free_ent oc d (of_nat j) = free_ent oc db (of_nat j)" if "j < Suc k" for j
    using fr [of "of_nat j"] Suc.prems(2) that unat_of_nat_below [of j "hdr_num db"] by (simp add: word_less_nat_alt)
  have "\<forall>i < hdr_num d. \<not> free_ent oc d i \<longrightarrow> FileType (ent oc d i) = entry_type d"
    using Suc.prems(3) e fr dw by auto
  with Suc.IH [of d f] dw Suc.prems(2) obtain db' fp' where IH: "rebuild_loop oc k d f = Some (0, db', fp')"
    "rebuilt_fp oc d k f fp'" "voldb_wf db'" "hdr_num db' = hdr_num db" "db_ptr db' = db_ptr db"
    "\<forall>i < hdr_num db. ent oc db' i =
        (if unat i < k \<and> free_ent oc d i then (ent oc d i)\<lparr>nextptr := VOLDB_FREELIST_END\<rparr> else ent oc d i)"
    by auto
  have "rebuilt_fp oc db (Suc k) fp fp'"
    using IH(2) frn unfolding rebuilt_fp_def f_def by (auto simp: less_Suc_eq split: if_splits)
  moreover have "ent oc db' j = (if unat j < Suc k \<and> free_ent oc db j then (ent oc db j)\<lparr>nextptr := VOLDB_FREELIST_END\<rparr> else ent oc db j)"
    if "j < hdr_num db" for j
  proof -
    have "j = ?i \<longleftrightarrow> unat j = k" using i(2) by (metis word_unat_eq_iff)
    then show ?thesis using IH(6) that e [OF that] fr [OF that] by (auto simp: less_Suc_eq)
  qed
  ultimately show ?case using st IH by auto
qed


lemma rebuild_rounds:
  assumes wf: "voldb_wf db"
  shows "nat (sint (hdr_num db - 1) + 1) = unat (hdr_num db)"
proof (cases "hdr_num db = 0")
  case True
  then show ?thesis by simp
next
  case False
  then have u: "unat (hdr_num db - 1) = unat (hdr_num db) - 1" "0 < unat (hdr_num db)"
    by (simp_all add: unat_minus_one unat_gt_0)
  then have "unat (hdr_num db - 1) < 2 ^ 31" using num_bound [OF wf] by simp
  then have "sint (hdr_num db - 1) = int (unat (hdr_num db - 1))" by (rule sint_small)
  then show ?thesis using u by simp
qed

text \<open>The whole function, for a database of fewer than $2^{24}$ entries (which the file size implies).\<close>

lemma rebuild_ok:
  assumes oc: "onode_codec_ok oc" and wf: "voldb_wf db"
    and ty: "\<forall>i < hdr_num db. \<not> free_ent oc db i \<longrightarrow> FileType (ent oc db i) = entry_type db"
  shows "\<exists>db'. vdbflat_rebuild oc db = Some (0, db') \<and> voldb_wf db' \<and> hdr_num db' = hdr_num db \<and>
     rebuilt_fp oc db (unat (hdr_num db)) VOLDB_FREELIST_END (db_freeptr db') \<and>
     (\<forall>i < hdr_num db. ent oc db' i =
        (if free_ent oc db i then (ent oc db i)\<lparr>nextptr := VOLDB_FREELIST_END\<rparr> else ent oc db i))"
proof -
  note k = rebuild_rounds [OF wf]
  obtain v where v: "db_ptr db = Some v" using wf by (auto simp: voldb_wf_def)
  from rebuild_loop_ok [OF oc wf le_refl ty, of VOLDB_FREELIST_END] obtain d fp where d:
    "rebuild_loop oc (unat (hdr_num db)) db VOLDB_FREELIST_END = Some (0, d, fp)"
    "rebuilt_fp oc db (unat (hdr_num db)) VOLDB_FREELIST_END fp" "voldb_wf d" "hdr_num d = hdr_num db"
    "\<forall>i < hdr_num db. ent oc d i =
        (if unat i < unat (hdr_num db) \<and> free_ent oc db i then (ent oc db i)\<lparr>nextptr := VOLDB_FREELIST_END\<rparr> else ent oc db i)"
    by blast
  have "vdbflat_rebuild oc db = Some (0, set_freeptr fp d)" using d(1) v by (simp add: vdbflat_rebuild_def k)
  then show ?thesis using d by (auto simp: word_less_nat_alt)
qed

end
