(* ===== verification/Voldb.thy ===== *)
theory Voldb
  imports Vdb_Flat
begin

text \<open>
  The volume database layer \<open>milko/lib/voldb/voldb.c\<close> above \<open>vdb_flat.c\<close>: opening and
  creating a database, entries of either kind, and the numbering of vnodes. The theorems at the
  end are the contract that the volume layer relies on: what is stored is read back, nothing
  else changes, the free list stays exact, and the file can be opened again at any time.
\<close>

section \<open>Vnode numbers\<close>

text \<open>
  The argument is an \<open>int32_t\<close>. A shift of a negative number to the left and an overflow have
  no defined value; a shift to the right rounds down.
\<close>

definition afs_dir_p :: "int \<Rightarrow> bool" where
  "afs_dir_p vno \<longleftrightarrow> vno mod 2 \<noteq> 0"

definition dir_afs2local :: "int \<Rightarrow> int option" where
  "dir_afs2local vno = do {
     cassert (vno \<noteq> 0);
     cassert (- (2 ^ 31) \<le> vno - 1);
     Some ((vno - 1) div 2) }"

definition dir_local2afs :: "int \<Rightarrow> int option" where
  "dir_local2afs vno = do {
     cassert (0 \<le> vno \<and> vno * 2 < 2 ^ 31);
     Some (vno * 2 + 1) }"

definition file_afs2local :: "int \<Rightarrow> int option" where
  "file_afs2local vno = do {
     cassert (vno \<noteq> 0);
     Some (vno div 2 - 1) }"

definition file_local2afs :: "int \<Rightarrow> int option" where
  "file_local2afs vno = do {
     cassert (0 \<le> vno + 1 \<and> (vno + 1) * 2 < 2 ^ 31);
     Some ((vno + 1) * 2) }"

section \<open>Opening, creating and closing\<close>

text \<open>
  \<open>fstat_ret\<close> and \<open>isreg\<close> are what \<open>fstat\<close> says of the descriptor, \<open>f\<close> the contents of the
  file. The bound on the type compares with the number of function pointers in
  \<open>struct voldb_type\<close> (13), not with the number of types; the type itself is not stored, so the
  database always has type 0.
\<close>

definition voldb_init ::
  "sys \<Rightarrow> int \<Rightarrow> bool \<Rightarrow> bytes \<Rightarrow> int \<Rightarrow> int \<Rightarrow> (int \<times> voldb option) option" where
  "voldb_init os fstat_ret isreg f type vol =
     (if type < 0 \<or> type \<ge> 13 then Some (EINVAL, None)
      else if fstat_ret \<noteq> 0 then Some (fstat_ret, None)
      else if \<not> isreg then Some (EINVAL, None)
      else if \<not> r_calloc os then Some (ENOMEM, None)
      else do {
        (ret, db) \<leftarrow> vdbflat_init os (closed_db f vol) False;
        Some (ret, if ret \<noteq> 0 then None else Some db) })"

definition voldb_close :: "sys \<Rightarrow> voldb \<Rightarrow> int option" where
  "voldb_close os db = do { (ret, db) \<leftarrow> VOLDB_FUNC db (vdbflat_close os db); Some 0 }"

text \<open>The result is the status and the new contents of the file.\<close>

definition voldb_create_header :: "sys \<Rightarrow> int \<Rightarrow> bytes \<Rightarrow> int \<Rightarrow> u32 \<Rightarrow> (int \<times> bytes) option" where
  "voldb_create_header os fstat_ret f type fl =
     (if fstat_ret \<noteq> 0 then Some (fstat_ret, f)
      else if length f \<noteq> 0 then Some (EINVAL, f)
      else if r_ftruncate os \<noteq> 0 then Some (r_ftruncate os, f)
      else do {
        let db = \<lparr>hdr_magic = VOLDB_MAGIC_HEADER, hdr_num = 0, hdr_flags = fl, db_type = type,
                  db_size = VOLDB_HEADER_SIZE, db_volume = 0,
                  fbytes = replicate VOLDB_HEADER_SIZE 0, db_ptr = None\<rparr>;
        (ret, db) \<leftarrow> VOLDB_FUNC db (vdbflat_init os db True);
        cassert (ret = 0);
        (ret, db) \<leftarrow> voldb_write_hdr os db;
        cassert (ret = 0);
        (ret, db) \<leftarrow> VOLDB_FUNC db (vdbflat_close os db);
        cassert (ret = 0);
        Some (0, fbytes db) })"

section \<open>Entries of either kind\<close>

text \<open>
  \<open>struct voldb_entry\<close> is a type and a union. A value of the union is the member that was
  stored; reading the other member is not given a meaning.
\<close>

datatype 'o entry_u = Dir "'o voldb_dir_entry" | File "'o voldb_file_entry"

record 'o voldb_entry =
  e_type :: u32
  e_u :: "'o entry_u"

definition voldb_put_acl :: "voldb \<Rightarrow> u32 \<Rightarrow> 'o voldb_dir_entry \<Rightarrow> (int \<times> voldb) option" where
  "voldb_put_acl db n e = do {
     cassert (hdr_flags db AND VOLDB_DIR = VOLDB_DIR);
     VOLDB_FUNC db (vdbflat_put_acl db n e) }"

definition voldb_put_entry :: "'o onode_codec \<Rightarrow> voldb \<Rightarrow> u32 \<Rightarrow> 'o voldb_entry \<Rightarrow> (int \<times> voldb) option" where
  "voldb_put_entry oc db n e =
     (if e_type e = TYPE_DIR then (case e_u e of
        Dir d \<Rightarrow> do {
          cassert (hdr_flags db AND VOLDB_DIR = VOLDB_DIR);
          cassert (FileType d = e_type e);
          voldb_put_dir oc db n d }
      | File f \<Rightarrow> None)
      else if e_type e = TYPE_FILE \<or> e_type e = TYPE_LINK then (case e_u e of
        File f \<Rightarrow> do {
          cassert (hdr_flags db AND VOLDB_FILE = VOLDB_FILE);
          cassert (FileType f = e_type e);
          voldb_put_file oc db n f }
      | Dir d \<Rightarrow> None)
      else None)"

definition voldb_get_size :: "voldb \<Rightarrow> int \<times> nat \<times> u32" where
  "voldb_get_size db = (0, db_size db, hdr_num db)"

definition voldb_get_entry :: "'o onode_codec \<Rightarrow> voldb \<Rightarrow> u32 \<Rightarrow> (int \<times> 'o voldb_entry option) option" where
  "voldb_get_entry oc db n =
     (if hdr_flags db AND VOLDB_DIR = VOLDB_DIR then do {
        (ret, eo) \<leftarrow> voldb_get_dir oc db n;
        Some (ret, map_option (\<lambda>d. \<lparr>e_type = TYPE_DIR, e_u = Dir d\<rparr>) eo) }
      else if hdr_flags db AND VOLDB_FILE = VOLDB_FILE then do {
        (ret, eo) \<leftarrow> voldb_get_file oc db n;
        Some (ret, map_option (\<lambda>f. \<lparr>e_type = FileType f, e_u = File f\<rparr>) eo) }
      else None)"

definition voldb_expand :: "'o onode_codec \<Rightarrow> sys \<Rightarrow> voldb \<Rightarrow> u32 \<Rightarrow> (int \<times> voldb) option" where
  "voldb_expand oc os db n = VOLDB_FUNC db (vdbflat_expand oc os db n)"

definition voldb_rebuild :: "'o onode_codec \<Rightarrow> voldb \<Rightarrow> (int \<times> voldb) option" where
  "voldb_rebuild oc db = VOLDB_FUNC db (vdbflat_rebuild oc db)"

definition voldb_flush :: "sys \<Rightarrow> voldb \<Rightarrow> (int \<times> voldb) option" where
  "voldb_flush os db = do {
     (ret, db) \<leftarrow> voldb_write_hdr os db;
     if ret \<noteq> 0 then Some (ret, db)
     else do { ret \<leftarrow> VOLDB_FUNC db (vdbflat_flush os db); Some (ret, db) } }"

definition voldb_new_entry ::
  "'o onode_codec \<Rightarrow> sys \<Rightarrow> voldb \<Rightarrow> (int \<times> voldb \<times> (u32 \<times> u32) option) option" where
  "voldb_new_entry oc os db = do {
     cassert (hdr_flags db AND (VOLDB_FILE OR VOLDB_DIR) \<noteq> VOLDB_FILE OR VOLDB_DIR);
     cassert (hdr_flags db AND (VOLDB_FILE OR VOLDB_DIR) \<noteq> 0);
     VOLDB_FUNC db (vdbflat_new_entry oc os db) }"

definition voldb_del_entry ::
  "'o onode_codec \<Rightarrow> sys \<Rightarrow> voldb \<Rightarrow> u32 \<Rightarrow> (int \<times> voldb \<times> 'o option) option" where
  "voldb_del_entry oc os db n = VOLDB_FUNC db (vdbflat_del_entry oc os db n)"

definition voldb_header_info :: "voldb \<Rightarrow> u32 \<times> u32" where
  "voldb_header_info db = (hdr_num db, hdr_flags db)"

definition voldb_get_volume :: "voldb \<Rightarrow> int" where
  "voldb_get_volume db = db_volume db"

definition voldb_update_time :: "'o voldb_entry \<Rightarrow> u32 \<Rightarrow> 'o voldb_entry option" where
  "voldb_update_time e t =
     (if e_type e = TYPE_DIR then (case e_u e of
        Dir d \<Rightarrow> Some (e\<lparr>e_u := Dir (d\<lparr>ServerModTime := t\<rparr>)\<rparr>) | File f \<Rightarrow> None)
      else if e_type e = TYPE_FILE \<or> e_type e = TYPE_LINK then (case e_u e of
        File f \<Rightarrow> Some (e\<lparr>e_u := File (f\<lparr>ServerModTime := t\<rparr>)\<rparr>) | Dir d \<Rightarrow> None)
      else None)"

section \<open>Instances for the witnesses\<close>

text \<open>A codec whose inode is one word, padded to 404 bytes, and system calls that succeed.\<close>

definition word_onode :: "u32 onode_codec" where
  "word_onode = \<lparr>enc_onode = (\<lambda>w. be32 w @ replicate 400 0), dec_onode = (\<lambda>bs. fst (the (rd32 bs))),
     zero_onode = 0\<rparr>"

lemma word_onode_ok: "onode_codec_ok word_onode"
  by (simp add: onode_codec_ok_def word_onode_def ONODE_OPAQUE_SIZE_def)

definition ok_sys :: sys where
  "ok_sys = \<lparr>r_mmap = 0, r_munmap = 0, r_ftruncate = 0, r_msync = 0, r_calloc = True, junk = (\<lambda>_. 0)\<rparr>"

lemma ok_sys_ok: "os_ok ok_sys"
  by (simp add: os_ok_def ok_sys_def)

lemma create_init:
  assumes os: "os_ok os" and fl: "fl = VOLDB_FILE \<or> fl = VOLDB_DIR"
  shows "\<exists>f db. voldb_create_header os 0 [] 0 fl = Some (0, f) \<and>
    voldb_init os 0 True f 0 vol = Some (0, Some db) \<and> free_inv oc db [] \<and>
    hdr_num db = 0 \<and> hdr_flags db = fl \<and> db_volume db = vol \<and> db_size db = VOLDB_HEADER_SIZE"
proof -
  define c where "c = \<lparr>hdr_magic = VOLDB_MAGIC_HEADER, hdr_num = 0, hdr_flags = fl, db_type = 0,
    db_size = VOLDB_HEADER_SIZE, db_volume = 0, fbytes = replicate VOLDB_HEADER_SIZE 0, db_ptr = None\<rparr>"
  define d where "d = c\<lparr>db_ptr := Some \<lparr>freeptr = VOLDB_FREELIST_END, mapped = True\<rparr>\<rparr>"
  have k: "fl AND (VOLDB_FILE OR VOLDB_DIR) \<in> {VOLDB_FILE, VOLDB_DIR}" "fl AND VOLDB_DIR \<noteq> 0 \<or> fl AND VOLDB_FILE \<noteq> 0"
    using fl by (auto simp: VOLDB_FILE_def VOLDB_DIR_def)
  have wf: "voldb_wf d" using k by (simp add: voldb_wf_def d_def c_def voldb_sizes)
  have "init_check c = init_check d" by (simp add: init_check_def d_def)
  then have i: "vdbflat_init os c True = Some (0, d)"
    using init_check_wf [OF wf] os k
    by (auto simp: vdbflat_init_def os_ok_def set_volhdr_union_ptr_def d_def c_def)
  have w: "voldb_write_hdr os d = Some (0, put_hdr os d)" using write_hdr_put [OF wf] os by (simp add: os_ok_def)
  have "vdbflat_close os (put_hdr os d) = Some (0, (put_hdr os d)\<lparr>db_ptr := None\<rparr>)"
    using os by (simp add: vdbflat_close_def os_ok_def d_def c_def put_hdr_def)
  then have "voldb_create_header os 0 [] 0 fl = Some (0, fbytes (put_hdr os d))"
    using i w os by (simp add: voldb_create_header_def c_def [symmetric] os_ok_def VOLDB_FUNC_def)
      (simp add: d_def c_def put_hdr_def)
  moreover have "voldb_init os 0 True (fbytes (put_hdr os d)) 0 vol = Some (0, Some ((put_hdr os d)\<lparr>db_volume := vol\<rparr>))"
    using init_reopen [of "put_hdr os d" os vol] wf os by (simp add: voldb_init_def os_ok_def)
  moreover have "free_inv oc ((put_hdr os d)\<lparr>db_volume := vol\<rparr>) []"
  proof -
    have "voldb_wf ((put_hdr os d)\<lparr>db_volume := vol\<rparr>)" "hdr_synced ((put_hdr os d)\<lparr>db_volume := vol\<rparr>)"
      using put_hdr_keeps(1,2) [OF wf, of os]
      by (simp_all add: voldb_wf_def hdr_synced_def hdr_bytes_def esz_def is_dir_db_def)
    then show ?thesis by (simp add: free_inv_def db_freeptr_def put_hdr_def d_def c_def)
  qed
  ultimately show ?thesis by (simp add: d_def c_def put_hdr_def)
qed







section \<open>Histories of a database\<close>

definition used_ent :: "'o onode_codec \<Rightarrow> voldb \<Rightarrow> u32 \<Rightarrow> bool" where
  "used_ent oc db n \<longleftrightarrow> n < hdr_num db \<and> nextptr (ent oc db n) = VOLDB_ENTRY_USED"

definition marks_used :: "'o voldb_entry \<Rightarrow> bool" where
  "marks_used e \<longleftrightarrow> (case e_u e of Dir d \<Rightarrow> nextptr d | File f \<Rightarrow> nextptr f) = VOLDB_ENTRY_USED"

text \<open>
  The operations that the volume layer performs on an open database. It stores entries that it
  has allocated and leaves the mark of an allocated entry alone; an extension has to fit into
  the 32-bit offsets.
\<close>

inductive vstep :: "'o onode_codec \<Rightarrow> sys \<Rightarrow> voldb \<Rightarrow> voldb \<Rightarrow> bool"
  for oc :: "'o onode_codec" and os where
  new: "voldb_new_entry oc os db = Some (0, db', r) \<Longrightarrow> db_size db + esz db * 10 < 2 ^ 32 \<Longrightarrow> vstep oc os db db'"
| del: "voldb_del_entry oc os db n = Some (0, db', r) \<Longrightarrow> n < hdr_num db \<Longrightarrow> vstep oc os db db'"
| put: "voldb_put_entry oc db n e = Some (0, db') \<Longrightarrow> used_ent oc db n \<Longrightarrow> marks_used e \<Longrightarrow> vstep oc os db db'"
| put_acl: "voldb_put_acl db n (d :: 'o voldb_dir_entry) = Some (0, db') \<Longrightarrow> n < hdr_num db \<Longrightarrow> length (negacl d) = FS_MAX_ACL \<Longrightarrow>
    length (acl d) = FS_MAX_ACL \<Longrightarrow> vstep oc os db db'"
| expand: "voldb_expand oc os db n = Some (0, db') \<Longrightarrow> unat n < 2 ^ 22 \<Longrightarrow> unat (hdr_num db) < 2 ^ 22 \<Longrightarrow> vstep oc os db db'"
| flush: "voldb_flush os db = Some (0, db') \<Longrightarrow> vstep oc os db db'"



lemma voldb_new_eq: "voldb_wf db \<Longrightarrow> voldb_new_entry oc os db = vdbflat_new_entry oc os db"
  by (auto simp: voldb_new_entry_def VOLDB_FUNC_def voldb_wf_def VOLDB_FILE_def VOLDB_DIR_def)

lemma voldb_del_eq: "voldb_wf db \<Longrightarrow> voldb_del_entry oc os db n = vdbflat_del_entry oc os db n"
  by (simp add: voldb_del_entry_def VOLDB_FUNC_def voldb_wf_def)

lemma put_entry_eq:
  assumes oc: "onode_codec_ok oc" and wf: "voldb_wf db" and i: "i < hdr_num db"
    and p: "voldb_put_entry oc db i e = Some (r, db')"
  shows "r = 0" and "(\<exists>d. is_dir_db db \<and> e = \<lparr>e_type = TYPE_DIR, e_u = Dir d\<rparr> \<and> FileType d = TYPE_DIR \<and> db' = put_ent oc db i d) \<or>
    (\<exists>f. \<not> is_dir_db db \<and> e = \<lparr>e_type = FileType f, e_u = File f\<rparr> \<and> FileType f \<in> {TYPE_FILE, TYPE_LINK} \<and> db' = put_ent oc db i f)"
proof -
  have ty: "TYPE_DIR \<noteq> TYPE_FILE" "TYPE_DIR \<noteq> TYPE_LINK" by (simp_all add: TYPE_DIR_def TYPE_FILE_def TYPE_LINK_def)
  have k: "hdr_flags db AND VOLDB_DIR \<noteq> 0 \<longleftrightarrow> is_dir_db db" "hdr_flags db AND VOLDB_FILE \<noteq> 0 \<longleftrightarrow> \<not> is_dir_db db"
    using wf_kind [OF wf] by auto
  have "r = 0 \<and> ((\<exists>d. is_dir_db db \<and> e = \<lparr>e_type = TYPE_DIR, e_u = Dir d\<rparr> \<and> FileType d = TYPE_DIR \<and> db' = put_ent oc db i d) \<or>
    (\<exists>f. \<not> is_dir_db db \<and> e = \<lparr>e_type = FileType f, e_u = File f\<rparr> \<and> FileType f \<in> {TYPE_FILE, TYPE_LINK} \<and> db' = put_ent oc db i f))"
  proof (cases "is_dir_db db")
    case True
    then show ?thesis using p put_dir_ent [OF oc wf i True] ty
      by (cases e) (auto simp: voldb_put_entry_def flags_mask k bind_eq_Some_conv split: if_splits entry_u.splits)
  next
    case False
    then show ?thesis using p put_file_ent [OF oc wf i False] ty
      by (cases e) (auto simp: voldb_put_entry_def flags_mask k bind_eq_Some_conv split: if_splits entry_u.splits)
  qed
  then show "r = 0" and "(\<exists>d. is_dir_db db \<and> e = \<lparr>e_type = TYPE_DIR, e_u = Dir d\<rparr> \<and> FileType d = TYPE_DIR \<and> db' = put_ent oc db i d) \<or>
    (\<exists>f. \<not> is_dir_db db \<and> e = \<lparr>e_type = FileType f, e_u = File f\<rparr> \<and> FileType f \<in> {TYPE_FILE, TYPE_LINK} \<and> db' = put_ent oc db i f)"
    by auto
qed





section \<open>Properties\<close>



definition with_acls_of :: "'o voldb_entry \<Rightarrow> 'o voldb_entry \<Rightarrow> 'o voldb_entry" where
  "with_acls_of e old = (case (e_u e, e_u old) of
     (Dir d, Dir d') \<Rightarrow> e\<lparr>e_u := Dir (d\<lparr>negacl := negacl d', acl := acl d'\<rparr>)\<rparr> | _ \<Rightarrow> e)"

lemma get_entry_eq:
  assumes "voldb_wf db" "j < hdr_num db"
  shows "voldb_get_entry oc db j = Some (0, Some (if is_dir_db db
    then \<lparr>e_type = TYPE_DIR, e_u = Dir (mk_dir (ent oc db j) (fst (dir_acls db j)) (snd (dir_acls db j)))\<rparr>
    else \<lparr>e_type = FileType (ent oc db j), e_u = File (ent oc db j)\<rparr>))"
proof -
  have "VOLDB_DIR \<noteq> 0" "VOLDB_FILE \<noteq> 0" by (simp_all add: VOLDB_DIR_def VOLDB_FILE_def)
  then show ?thesis
    using get_dir_ent [OF assms, of oc] get_file_ent [OF assms, of oc] wf_kind [OF assms(1)]
    by (cases "is_dir_db db") (auto simp: voldb_get_entry_def flags_mask)
qed

lemma mk_dir_truncate:
  "mk_dir (voldb_file_entry.truncate (d :: 'o voldb_dir_entry)) a b = d\<lparr>negacl := a, acl := b\<rparr>"
  by (cases d) (simp add: mk_dir_def voldb_file_entry.defs)

text \<open>
  C17: storing an entry and reading it gives it back (a directory keeps the access lists that
  are on disk, as the comment of \<open>vdbflat_put_dir\<close> says) and every other entry reads as before.
\<close>

theorem voldb_put_then_get:
  assumes "onode_codec_ok oc" "voldb_wf db" "i < hdr_num db" "j < hdr_num db"
    and "voldb_put_entry oc db i e = Some (ret, db')"
  shows "\<exists>old. voldb_get_entry oc db i = Some (0, Some old) \<and> ret = 0 \<and>
    voldb_get_entry oc db' j = (if j = i then Some (0, Some (with_acls_of e old)) else voldb_get_entry oc db j)"
proof -
  note r = put_entry_eq(1) [OF assms(1,2,3,5)]
  from put_entry_eq(2) [OF assms(1,2,3,5)] show ?thesis
  proof (elim disjE exE conjE)
    fix d assume d: "is_dir_db db" "e = \<lparr>e_type = TYPE_DIR, e_u = Dir d\<rparr>" "FileType d = TYPE_DIR" "db' = put_ent oc db i d"
    show ?thesis
      using r d wf_put_ent [OF assms(1-3), of d] ent_put_ent [OF assms(1-4), of d] dir_acls_put_ent [OF assms(1-4) d(1), of d]
      by (simp add: get_entry_eq assms(2-4) with_acls_of_def mk_dir_truncate) (simp add: mk_dir_def voldb_file_entry.defs)
  next
    fix f assume f: "\<not> is_dir_db db" "e = \<lparr>e_type = FileType f, e_u = File f\<rparr>" "FileType f \<in> {TYPE_FILE, TYPE_LINK}"
      "db' = put_ent oc db i f"
    show ?thesis
      using r f wf_put_ent [OF assms(1-3), of f] ent_put_ent [OF assms(1-4), of f]
      by (simp add: get_entry_eq assms(2-4) with_acls_of_def)
  qed
qed

text \<open>
  A database with one entry in use, for the witnesses: made by the code itself.
\<close>

lemma one_entry_db:
  "\<exists>db. free_inv word_onode db (tl (new_nums 0 VOLDB_ENTEND_NUM)) \<and> hdr_num db = 10 \<and>
     \<not> is_dir_db db \<and> ent word_onode db 0 = (zero_entry word_onode)\<lparr>unique := 1, nextptr := VOLDB_ENTRY_USED, FileType := TYPE_FILE\<rparr> \<and>
     db_size db + esz db * 10 < 2 ^ 32"
proof -
  obtain db0 where db0: "free_inv word_onode db0 []" "db_size db0 = VOLDB_HEADER_SIZE" "hdr_num db0 = 0" "hdr_flags db0 = VOLDB_FILE"
    using create_init [OF ok_sys_ok, of VOLDB_FILE 7 word_onode] by blast
  have k: "\<not> is_dir_db db0" using db0(4) by (simp add: is_dir_db_def VOLDB_FILE_def VOLDB_DIR_def)
  have room: "db_size db0 + esz db0 * 10 < 2 ^ 32" by (simp add: db0(2) esz_def voldb_sizes)
  from new_entry_extend [OF word_onode_ok db0(1) ok_sys_ok room] obtain db where
    db: "free_inv word_onode db (tl (new_nums 0 VOLDB_ENTEND_NUM))" "hdr_num db = VOLDB_ENTEND_NUM"
    "is_dir_db db = is_dir_db db0" "ent word_onode db 0 = (zero_entry word_onode)\<lparr>unique := 1, nextptr := VOLDB_ENTRY_USED, FileType := entry_type db0\<rparr>"
    unfolding db0(3) by auto
  have "db_size db = 40 + 480 * 10" using db k by (simp add: free_inv_def voldb_wf_def esz_def voldb_sizes VOLDB_ENTEND_NUM_def)
  then show ?thesis using db k
    by (intro exI [of _ db]) (simp add: esz_def voldb_sizes entry_type_def VOLDB_ENTEND_NUM_def)
qed

theorem voldb_put_then_get_witness:
  "\<exists>db db' f. FileType f = TYPE_LINK \<and>
     voldb_put_entry word_onode db 0 \<lparr>e_type = TYPE_LINK, e_u = File f\<rparr> = Some (0, db') \<and>
     voldb_get_entry word_onode db' 0 = Some (0, Some \<lparr>e_type = TYPE_LINK, e_u = File f\<rparr>) \<and>
     voldb_get_entry word_onode db' 1 = voldb_get_entry word_onode db 1"
proof -
  obtain db where db: "voldb_wf db" "hdr_num db = 10" "\<not> is_dir_db db" using one_entry_db by (auto simp: free_inv_def)
  define f where "f = (zero_entry word_onode)\<lparr>FileType := TYPE_LINK, Length := 5\<rparr>"
  let ?e = "\<lparr>e_type = TYPE_LINK, e_u = File f\<rparr>"
  have lt: "0 < hdr_num db" "1 < hdr_num db" using db(2) by simp_all
  have p: "voldb_put_entry word_onode db 0 ?e = Some (0, put_ent word_onode db 0 f)"
    using put_file_ent [OF word_onode_ok db(1) lt(1) db(3), of f] wf_kind [OF db(1)] db(3)
    by (simp add: voldb_put_entry_def f_def TYPE_LINK_def TYPE_DIR_def flags_mask)
  from voldb_put_then_get [OF word_onode_ok db(1) lt(1,1) p] voldb_put_then_get [OF word_onode_ok db(1) lt(1,2) p]
  show ?thesis using p
    by (intro exI [of _ db] exI [of _ "put_ent word_onode db 0 f"] exI [of _ f]) (auto simp: with_acls_of_def f_def)
qed

text \<open>
  C23: \<open>voldb_new_entry\<close> succeeds on a sound database, returns an entry that was free (or the
  first of ten new ones when the list was empty), marks it as used with its uniquifier
  incremented, takes it off the free list and changes no other entry.
\<close>

theorem voldb_new_entry_fresh:
  assumes "onode_codec_ok oc" "free_inv oc db fs" "os_ok os" "db_size db + esz db * 10 < 2 ^ 32"
  shows "\<exists>db' n u fs'. voldb_new_entry oc os db = Some (0, db', Some (n, u)) \<and> free_inv oc db' fs' \<and>
    (fs = n # fs' \<and> u = unique (ent oc db n) + 1 \<or> fs = [] \<and> n = hdr_num db \<and> u = 1) \<and>
    n < hdr_num db' \<and> n \<notin> set fs' \<and> nextptr (ent oc db' n) = VOLDB_ENTRY_USED \<and>
    unique (ent oc db' n) = u \<and> FileType (ent oc db' n) = entry_type db \<and>
    (\<forall>j < hdr_num db. j \<noteq> n \<longrightarrow> ent oc db' j = ent oc db j) \<and> acls_kept db db' (hdr_num db)"
proof -
  have wf: "voldb_wf db" using assms(2) by (simp add: free_inv_def)
  show ?thesis
  proof (cases fs)
    case Nil
    with new_entry_extend [OF assms(1) _ assms(3,4)] assms(2) obtain db' where
      db': "vdbflat_new_entry oc os db = Some (0, db', Some (hdr_num db, 1))"
      "free_inv oc db' (tl (new_nums (hdr_num db) VOLDB_ENTEND_NUM))" "hdr_num db' = hdr_num db + VOLDB_ENTEND_NUM"
      "acls_kept db db' (hdr_num db)"
      "ent oc db' (hdr_num db) = (zero_entry oc)\<lparr>unique := 1, nextptr := VOLDB_ENTRY_USED, FileType := entry_type db\<rparr>"
      "\<forall>j < hdr_num db. ent oc db' j = ent oc db j" by auto
    have "unat (hdr_num db + VOLDB_ENTEND_NUM) = unat (hdr_num db) + 10"
      using grown_num [OF wf, of VOLDB_ENTEND_NUM] assms(4) by (simp add: grown_def VOLDB_ENTEND_NUM_def)
    then have "hdr_num db < hdr_num db'" by (simp add: db'(3) word_less_nat_alt)
    moreover from this have "hdr_num db \<notin> set (tl (new_nums (hdr_num db) VOLDB_ENTEND_NUM))"
      using db'(2,5) by (auto simp: free_inv_def)
    ultimately show ?thesis using Nil db' by (auto simp: voldb_new_eq [OF wf])
  next
    case (Cons i fs')
    then have i: "i < hdr_num db" "i \<notin> set fs'" using assms(2) by (auto simp: free_inv_def)
    have inv: "free_inv oc db (i # fs')" using assms(2) Cons by simp
    note t = take_entry_facts [OF assms(1) wf i(1), where os = os]
    show ?thesis
      using new_entry_free [OF assms(1) inv, of os] free_inv_take [OF assms(1) inv, of os] t i assms(3) Cons
      by (auto simp: os_ok_def voldb_new_eq [OF wf] taken_def acls_kept_def)
  qed
qed

theorem voldb_new_entry_fresh_witness:
  "\<exists>db db' n u fs'. voldb_new_entry word_onode ok_sys db = Some (0, db', Some (n, u)) \<and> n < hdr_num db' \<and>
     free_inv word_onode db' fs' \<and> n \<notin> set fs'"
  using one_entry_db voldb_new_entry_fresh [OF word_onode_ok _ ok_sys_ok] by metis

text \<open>
  C24: \<open>voldb_del_entry\<close> on an entry in use succeeds, returns the inode that the entry had, puts the
  entry at the head of the free list, keeps its uniquifier and changes no other entry.
\<close>

theorem voldb_del_entry_frees:
  assumes "onode_codec_ok oc" "free_inv oc db fs" "os_ok os" "n < hdr_num db" "n \<notin> set fs"
  shows "\<exists>db'. voldb_del_entry oc os db n = Some (0, db', Some (ino (ent oc db n))) \<and> free_inv oc db' (n # fs) \<and>
    unique (ent oc db' n) = unique (ent oc db n) \<and> ino (ent oc db' n) = zero_onode oc \<and>
    (\<forall>j < hdr_num db. j \<noteq> n \<longrightarrow> ent oc db' j = ent oc db j) \<and> acls_kept db db' (hdr_num db)"
proof -
  have wf: "voldb_wf db" and u: "nextptr (ent oc db n) = VOLDB_ENTRY_USED"
    using assms(2,4,5) by (auto simp: free_inv_def)
  show ?thesis
    using del_entry_used [OF assms(1) wf assms(4) u, of os] free_inv_give [OF assms(1,2,4,5), of os]
      give_entry_facts [OF assms(1) wf assms(4), where os = os] assms(3,4)
    by (auto simp: voldb_del_eq [OF wf] os_ok_def clear_entry_def acls_kept_def)
qed

theorem voldb_del_entry_frees_witness:
  "\<exists>db db'. voldb_del_entry word_onode ok_sys db 0 = Some (0, db', Some 0) \<and> (\<exists>fs. free_inv word_onode db' (0 # fs))"
proof -
  obtain db where db: "free_inv word_onode db (tl (new_nums 0 VOLDB_ENTEND_NUM))" "hdr_num db = 10"
    "ent word_onode db 0 = (zero_entry word_onode)\<lparr>unique := 1, nextptr := VOLDB_ENTRY_USED, FileType := TYPE_FILE\<rparr>"
    using one_entry_db by blast
  then have "0 \<notin> set (tl (new_nums 0 VOLDB_ENTEND_NUM))" by (auto simp: free_inv_def)
  from voldb_del_entry_frees [OF word_onode_ok db(1) ok_sys_ok _ this] db(2,3) show ?thesis
    by (auto simp: zero_entry_def word_onode_def)
qed

lemma chain_single:
  assumes "chain nx p (m # t)" "nx m = VOLDB_FREELIST_END" "VOLDB_FREELIST_END \<notin> set t"
  shows "t = []"
  using assms by (cases t) auto

lemma rebuilt_least:
  assumes oc: "onode_codec_ok oc" and inv: "free_inv oc db fs" and ne: "fs \<noteq> []"
    and fp: "rebuilt_fp oc db (unat (hdr_num db)) VOLDB_FREELIST_END fp'"
  shows "fp' \<in> set fs"
proof -
  obtain i where i: "i \<in> set fs" "i < hdr_num db" using ne inv by (cases fs) (auto simp: free_inv_def)
  have f: "free_ent oc db j \<longleftrightarrow> j \<in> set fs" if "j < hdr_num db" for j
    using inv that by (auto simp: free_inv_def free_ent_def)
  have "free_ent oc db (of_nat (unat i))" "unat i < unat (hdr_num db)"
    using f [OF i(2)] i by (simp_all add: word_less_nat_alt)
  then obtain m where m: "m < unat (hdr_num db)" "free_ent oc db (of_nat m)" "fp' = of_nat m"
    using fp unfolding rebuilt_fp_def by blast
  have "(of_nat m :: u32) < hdr_num db" using m(1) unat_of_nat_below [OF m(1)] by (simp add: word_less_nat_alt)
  then show ?thesis using f m by simp
qed

text \<open>
  C34: \<open>voldb_rebuild\<close> does not rebuild the free list: it ends every free entry's link, so that
  with two or more free entries only one of them is on the list afterwards and the others are
  neither in use nor free; no free list describes the resulting database.
\<close>

theorem voldb_rebuild_loses_entries:
  assumes "onode_codec_ok oc" "free_inv oc db fs" "2 \<le> length fs"
    and "\<forall>i < hdr_num db. i \<notin> set fs \<longrightarrow> FileType (ent oc db i) = entry_type db"
  shows "\<exists>db' m. voldb_rebuild oc db = Some (0, db') \<and> m \<in> set fs \<and>
    chain (\<lambda>i. nextptr (ent oc db' i)) (db_freeptr db') [m] \<and> (\<forall>fs'. \<not> free_inv oc db' fs')"
proof -
  have wf: "voldb_wf db" using assms(2) by (simp add: free_inv_def)
  have f: "free_ent oc db j \<longleftrightarrow> j \<in> set fs" if "j < hdr_num db" for j
    using assms(2) that by (auto simp: free_inv_def free_ent_def)
  from rebuild_ok [OF assms(1) wf] assms(4) f obtain db' where
    db': "vdbflat_rebuild oc db = Some (0, db')" "voldb_wf db'" "hdr_num db' = hdr_num db"
    "rebuilt_fp oc db (unat (hdr_num db)) VOLDB_FREELIST_END (db_freeptr db')"
    "\<forall>i < hdr_num db. ent oc db' i =
       (if free_ent oc db i then (ent oc db i)\<lparr>nextptr := VOLDB_FREELIST_END\<rparr> else ent oc db i)" by auto
  let ?m = "db_freeptr db'"
  have "fs \<noteq> []" using assms(3) by (cases fs) auto
  then have m: "?m \<in> set fs" by (rule rebuilt_least [OF assms(1,2) _ db'(4)])
  have lt: "\<forall>i \<in> set fs. i < hdr_num db" using assms(2) by (simp add: free_inv_def)
  have nx: "nextptr (ent oc db' i) = VOLDB_FREELIST_END" if "i \<in> set fs" for i
    using db'(5) lt f that by simp
  have "\<exists>k \<in> set fs. k \<noteq> ?m"
  proof (rule ccontr)
    assume "\<not> ?thesis"
    then have "set fs \<subseteq> {?m}" by auto
    then have "card (set fs) \<le> 1" using card_mono [of "{?m}" "set fs"] by simp
    then show False using assms(2,3) distinct_card [of fs] by (simp add: free_inv_def)
  qed
  then obtain k where k: "k \<in> set fs" "k \<noteq> ?m" by blast
  have "\<not> free_inv oc db' fs'" for fs'
  proof
    assume inv: "free_inv oc db' fs'"
    have "?m \<in> set fs'" "k \<in> set fs'"
      using inv nx [OF m] nx [OF k(1)] lt m k(1) db'(3) by (auto simp: free_inv_def VOLDB_FREELIST_END_def VOLDB_ENTRY_USED_def)
    moreover obtain t where t: "fs' = ?m # t" using inv calculation by (cases fs') (auto simp: free_inv_def)
    moreover have "VOLDB_FREELIST_END \<notin> set t"
      using inv t not_special(1) [OF db'(2)] by (auto simp: free_inv_def)
    ultimately have "t = []" using inv chain_single [of _ ?m ?m t] nx [OF m] by (auto simp: free_inv_def)
    then show False using \<open>k \<in> set fs'\<close> t k(2) by simp
  qed
  moreover have "voldb_rebuild oc db = Some (0, db')" using db'(1) wf by (simp add: voldb_rebuild_def VOLDB_FUNC_def voldb_wf_def)
  ultimately show ?thesis using m nx [OF m] by auto
qed

theorem voldb_rebuild_loses_entries_witness:
  "\<exists>db db' m fs. free_inv word_onode db fs \<and> voldb_rebuild word_onode db = Some (0, db') \<and> m \<in> set fs \<and>
     (\<forall>fs'. \<not> free_inv word_onode db' fs')"
proof -
  obtain db where db: "free_inv word_onode db (tl (new_nums 0 VOLDB_ENTEND_NUM))" "hdr_num db = 10" "\<not> is_dir_db db"
    "ent word_onode db 0 = (zero_entry word_onode)\<lparr>unique := 1, nextptr := VOLDB_ENTRY_USED, FileType := TYPE_FILE\<rparr>"
    using one_entry_db by blast
  have l: "tl (new_nums 0 VOLDB_ENTEND_NUM) = [1, 2, 3, 4, 5, 6, 7, 8, 9]"
    by (simp add: new_nums_def VOLDB_ENTEND_NUM_def upt_conv_Cons)
  have "\<forall>i < hdr_num db. i \<notin> set (tl (new_nums 0 VOLDB_ENTEND_NUM)) \<longrightarrow> FileType (ent word_onode db i) = entry_type db"
  proof (intro allI impI)
    fix i assume i: "i < hdr_num db" "i \<notin> set (tl (new_nums 0 VOLDB_ENTEND_NUM))"
    have "new_nums 0 VOLDB_ENTEND_NUM = 0 # tl (new_nums 0 VOLDB_ENTEND_NUM)"
      by (simp add: new_nums_def VOLDB_ENTEND_NUM_def upt_conv_Cons)
    moreover have "i \<in> set (new_nums 0 VOLDB_ENTEND_NUM)" using i(1) db(2) by (simp add: set_new_nums VOLDB_ENTEND_NUM_def)
    ultimately have "i = 0" using i(2) by (metis set_ConsD)
    then show "FileType (ent word_onode db i) = entry_type db" using db(3,4) by (simp add: entry_type_def)
  qed
  moreover have "2 \<le> length (tl (new_nums 0 VOLDB_ENTEND_NUM))" by (simp add: l)
  ultimately show ?thesis using voldb_rebuild_loses_entries [OF word_onode_ok db(1)] db(1) by blast
qed

lemma rebuild_step_abort:
  assumes wf: "voldb_wf db" and i: "i < hdr_num db" and d: "\<not> is_dir_db db"
    and u: "nextptr (ent oc db i) = VOLDB_ENTRY_USED" "FileType (ent oc db i) \<noteq> TYPE_FILE"
  shows "rebuild_step oc db fp i = None"
proof -
  have "VOLDB_DIR \<noteq> 0" by (simp add: VOLDB_DIR_def)
  then show ?thesis
    using wf_kind [OF wf] get_file_ent [OF wf i d, of oc] d u by (simp add: rebuild_step_def flags_mask)
qed

lemma rebuild_loop_abort:
  assumes oc: "onode_codec_ok oc" and "voldb_wf db" "k \<le> unat (hdr_num db)" "\<not> is_dir_db db"
    and "unat i < k" "nextptr (ent oc db i) = VOLDB_ENTRY_USED" "FileType (ent oc db i) \<noteq> TYPE_FILE"
  shows "rebuild_loop oc k db fp = None"
  using assms(2-)
proof (induction k arbitrary: db fp)
  case 0
  then show ?case by simp
next
  case (Suc k)
  let ?k = "of_nat k :: u32"
  have k: "?k < hdr_num db" "unat ?k = k"
    using Suc.prems(2) unat_of_nat_below [of k "hdr_num db"] by (simp_all add: word_less_nat_alt)
  have i: "i < hdr_num db" using Suc.prems(2,4) by (simp add: word_less_nat_alt)
  show ?case
  proof (cases "\<not> free_ent oc db ?k \<and> FileType (ent oc db ?k) \<noteq> TYPE_FILE")
    case True
    then show ?thesis
      using rebuild_step_abort [OF Suc.prems(1) k(1) Suc.prems(3), of oc] by (simp add: free_ent_def)
  next
    case False
    let ?e = "(ent oc db ?k)\<lparr>nextptr := VOLDB_FREELIST_END\<rparr>"
    define d where "d = (if free_ent oc db ?k then put_ent oc db ?k ?e else db)"
    have st: "rebuild_step oc db fp ?k = Some (0, d, if free_ent oc db ?k then ?k else fp)"
      unfolding d_def using False Suc.prems(3)
      by (intro rebuild_step_eq [OF oc Suc.prems(1) k(1)]) (simp add: entry_type_def)
    have "i \<noteq> ?k \<or> \<not> free_ent oc db ?k" using Suc.prems(5) by (auto simp: free_ent_def)
    then have ei: "ent oc d i = ent oc db i"
      using ent_put_ent [OF oc Suc.prems(1) k(1) i, of ?e] by (auto simp: d_def)
    have "i \<noteq> ?k" using False Suc.prems(5,6) by (auto simp: free_ent_def)
    then have "unat i \<noteq> k" using k(2) by (metis word_unat_eq_iff)
    then have "unat i < k" using Suc.prems(4) by simp
    moreover have "voldb_wf d" "hdr_num d = hdr_num db" "is_dir_db d = is_dir_db db"
      using wf_put_ent [OF oc Suc.prems(1) k(1), of ?e] Suc.prems(1) by (simp_all add: d_def)
    ultimately show ?thesis
      using Suc.IH [of d] Suc.prems ei st by simp
  qed
qed

text \<open>
  C35: \<open>voldb_rebuild\<close> stops the process on every file database in which a symbolic link is in
  use: it asserts that used entries are plain files, although \<open>voldb_put_entry\<close> stores links there.
\<close>

theorem voldb_rebuild_aborts_on_link:
  assumes "onode_codec_ok oc" "voldb_wf db" "\<not> is_dir_db db" "i < hdr_num db"
    and "nextptr (ent oc db i) = VOLDB_ENTRY_USED" "FileType (ent oc db i) = TYPE_LINK"
  shows "voldb_rebuild oc db = None"
proof -
  have "nat (sint (hdr_num db - 1) + 1) = unat (hdr_num db)" by (rule rebuild_rounds [OF assms(2)])
  moreover have "rebuild_loop oc (unat (hdr_num db)) db VOLDB_FREELIST_END = None"
    using assms by (intro rebuild_loop_abort [OF assms(1,2) le_refl assms(3)])
      (auto simp: word_less_nat_alt TYPE_LINK_def TYPE_FILE_def)
  ultimately show ?thesis
    by (cases "db_ptr db") (simp_all add: voldb_rebuild_def VOLDB_FUNC_def vdbflat_rebuild_def)
qed

theorem voldb_rebuild_aborts_on_link_witness:
  "\<exists>db db' f. voldb_put_entry word_onode db 0 \<lparr>e_type = TYPE_LINK, e_u = File f\<rparr> = Some (0, db') \<and>
     voldb_rebuild word_onode db' = None"
proof -
  obtain db where db: "voldb_wf db" "hdr_num db = 10" "\<not> is_dir_db db" using one_entry_db by (auto simp: free_inv_def)
  define f where "f = (zero_entry word_onode)\<lparr>FileType := TYPE_LINK, nextptr := VOLDB_ENTRY_USED\<rparr>"
  let ?e = "\<lparr>e_type = TYPE_LINK, e_u = File f\<rparr>" and ?db = "put_ent word_onode db 0 f"
  have lt: "0 < hdr_num db" using db(2) by simp
  have p: "voldb_put_entry word_onode db 0 ?e = Some (0, ?db)"
    using put_file_ent [OF word_onode_ok db(1) lt db(3), of f] wf_kind [OF db(1)] db(3)
    by (simp add: voldb_put_entry_def f_def TYPE_LINK_def TYPE_DIR_def flags_mask)
  have "ent word_onode ?db 0 = f" using ent_put_ent [OF word_onode_ok db(1) lt lt, of f] by simp
  then have "voldb_rebuild word_onode ?db = None"
    using voldb_rebuild_aborts_on_link [OF word_onode_ok wf_put_ent [OF word_onode_ok db(1) lt, of f], of 0] db
    by (simp add: f_def)
  with p show ?thesis by blast
qed

text \<open>
  C36: the bound check of \<open>vdbflat_get_file\<close> is off by one: entry number \<open>hdr.num\<close>, one past the
  last, passes the check and the read runs past the end of the mapped file.
\<close>

theorem vdbflat_get_file_one_past_end:
  assumes "voldb_wf db" "\<not> is_dir_db db" "db_size db + esz db < 2 ^ 32"
  shows "vdbflat_get_file oc db (hdr_num db) = None"
proof -
  have e: "esz db = VOLDB_FILE_SIZE" using assms(2) by (simp add: esz_def)
  have sz: "length (fbytes db) = VOLDB_HEADER_SIZE + VOLDB_FILE_SIZE * unat (hdr_num db)"
    using assms(1) e by (simp add: voldb_wf_def)
  have "VOLDB_FILE_SIZE * unat (hdr_num db) < 2 ^ 32" using assms(1) e by (simp add: voldb_wf_def)
  moreover have "unat (of_nat VOLDB_FILE_SIZE :: u32) = VOLDB_FILE_SIZE" by (simp add: voldb_sizes)
  ultimately have "entry_off VOLDB_FILE_SIZE (hdr_num db) = length (fbytes db)"
    unfolding sz entry_off_def by (simp add: unat_word_ariths)
  moreover have "get_common oc [] = None" by (simp add: get_common_def)
  moreover have "hdr_flags db AND VOLDB_FILE \<noteq> 0" using wf_kind(2) [OF assms(1,2)] .
  ultimately show ?thesis by (cases "db_ptr db") (auto simp: vdbflat_get_file_def mget_def)
qed

theorem vdbflat_get_file_one_past_end_witness:
  "\<exists>db. voldb_wf db \<and> hdr_num db = 10 \<and> vdbflat_get_file word_onode db 10 = None"
proof -
  obtain db where db: "free_inv word_onode db (tl (new_nums 0 VOLDB_ENTEND_NUM))" "hdr_num db = 10" "\<not> is_dir_db db"
    "db_size db + esz db * 10 < 2 ^ 32" using one_entry_db by blast
  then have "voldb_wf db" "db_size db + esz db < 2 ^ 32" by (auto simp: free_inv_def)
  with vdbflat_get_file_one_past_end [of db word_onode] db show ?thesis by auto
qed

text \<open>
  C27: the two vnode numberings are inverse to each other and disjoint: every local directory and
  file number that fits has an AFS number of the right parity that maps back to it, and every
  positive AFS number is the number of exactly one local directory or file (2 and up for files).
\<close>

theorem vnode_numbers_bijective:
  assumes "0 \<le> v" "v < 2 ^ 30 - 1"
  shows "\<exists>d f. dir_local2afs v = Some d \<and> afs_dir_p d \<and> dir_afs2local d = Some v \<and>
    file_local2afs v = Some f \<and> \<not> afs_dir_p f \<and> file_afs2local f = Some v \<and>
    (\<forall>w. 0 < w \<and> w < 2 ^ 31 \<and> afs_dir_p w \<longrightarrow> dir_afs2local w = Some v \<longrightarrow> w = d) \<and>
    (\<forall>w. 0 < w \<and> w < 2 ^ 31 \<and> \<not> afs_dir_p w \<longrightarrow> file_afs2local w = Some v \<longrightarrow> w = f)"
proof (intro exI conjI)
  show "dir_local2afs v = Some (v * 2 + 1)" "dir_afs2local (v * 2 + 1) = Some v" "afs_dir_p (v * 2 + 1)"
    using assms by (simp_all add: dir_local2afs_def dir_afs2local_def afs_dir_p_def)
  show "file_local2afs v = Some ((v + 1) * 2)" "file_afs2local ((v + 1) * 2) = Some v" "\<not> afs_dir_p ((v + 1) * 2)"
    using assms by (simp_all add: file_local2afs_def file_afs2local_def afs_dir_p_def)
  show "\<forall>w. 0 < w \<and> w < 2 ^ 31 \<and> afs_dir_p w \<longrightarrow> dir_afs2local w = Some v \<longrightarrow> w = v * 2 + 1"
    by (auto simp: dir_afs2local_def afs_dir_p_def bind_eq_Some_conv) presburger
  show "\<forall>w. 0 < w \<and> w < 2 ^ 31 \<and> \<not> afs_dir_p w \<longrightarrow> file_afs2local w = Some v \<longrightarrow> w = (v + 1) * 2"
    by (auto simp: file_afs2local_def afs_dir_p_def bind_eq_Some_conv)
qed

theorem vnode_numbers_bijective_witness:
  "dir_local2afs 5 = Some 11 \<and> dir_afs2local 11 = Some 5 \<and> file_local2afs 5 = Some 12 \<and> file_afs2local 12 = Some 5"
  using vnode_numbers_bijective [of 5] by (auto simp: dir_local2afs_def file_local2afs_def)

section \<open>The contract of an entry store\<close>

text \<open>
  What the volume layer needs of a vnode database (\<open>struct voldb_type\<close>): allocation returns a
  number that is not in use and uses it, release gives exactly that number back.
\<close>

fun allocs :: "('s \<Rightarrow> ('s \<times> 'n) option) \<Rightarrow> nat \<Rightarrow> 's \<Rightarrow> ('s \<times> 'n list) option" where
  "allocs alloc 0 s = Some (s, [])"
| "allocs alloc (Suc k) s = (case alloc s of None \<Rightarrow> None
     | Some (s', n) \<Rightarrow> (case allocs alloc k s' of None \<Rightarrow> None | Some (s'', ns) \<Rightarrow> Some (s'', n # ns)))"

locale entry_store =
  fixes inv :: "'s \<Rightarrow> bool" and used :: "'s \<Rightarrow> 'n set"
    and alloc :: "'s \<Rightarrow> ('s \<times> 'n) option" and release :: "'s \<Rightarrow> 'n \<Rightarrow> 's option"
  assumes alloc_law: "inv s \<Longrightarrow> alloc s = Some (s', n) \<Longrightarrow> inv s' \<and> n \<notin> used s \<and> used s' = insert n (used s)"
    and release_law: "inv s \<Longrightarrow> n \<in> used s \<Longrightarrow> \<exists>s'. release s n = Some s' \<and> inv s' \<and> used s' = used s - {n}"
begin

lemma allocs_distinct:
  assumes "inv s" "allocs alloc k s = Some (s', ns)"
  shows "inv s' \<and> distinct ns \<and> set ns \<inter> used s = {} \<and> used s' = used s \<union> set ns \<and> length ns = k"
  using assms
proof (induction k arbitrary: s ns)
  case (Suc k)
  then obtain s1 n ms where a: "alloc s = Some (s1, n)" "allocs alloc k s1 = Some (s', ms)" "ns = n # ms"
    by (auto split: option.splits)
  from alloc_law [OF Suc.prems(1) a(1)] have l: "inv s1" "n \<notin> used s" "used s1 = insert n (used s)" by auto
  from Suc.IH [OF l(1) a(2)] l a(3) show ?case by auto
qed simp

lemma release_undoes_alloc:
  assumes "inv s" "alloc s = Some (s1, n)"
  shows "\<exists>s2. release s1 n = Some s2 \<and> inv s2 \<and> used s2 = used s"
  using alloc_law [OF assms] release_law [of s1 n] by fastforce

end

definition vdb_alloc :: "'o onode_codec \<Rightarrow> sys \<Rightarrow> voldb \<Rightarrow> (voldb \<times> u32) option" where
  "vdb_alloc oc os db =
     (if db_size db + esz db * 10 < 2 ^ 32 then
        case voldb_new_entry oc os db of
          Some (ret, db', Some (n, u)) \<Rightarrow> if ret = 0 then Some (db', n) else None
        | _ \<Rightarrow> None
      else None)"

definition vdb_release :: "'o onode_codec \<Rightarrow> sys \<Rightarrow> voldb \<Rightarrow> u32 \<Rightarrow> voldb option" where
  "vdb_release oc os db n = (case voldb_del_entry oc os db n of
      Some (ret, db', _) \<Rightarrow> if ret = 0 then Some db' else None | None \<Rightarrow> None)"

definition vdb_sound :: "'o onode_codec \<Rightarrow> sys \<Rightarrow> voldb \<Rightarrow> bool" where
  "vdb_sound oc os db \<longleftrightarrow> onode_codec_ok oc \<and> os_ok os \<and> (\<exists>fs. free_inv oc db fs)"

definition vdb_used :: "'o onode_codec \<Rightarrow> voldb \<Rightarrow> u32 set" where
  "vdb_used oc db = {n. used_ent oc db n}"

lemma vdb_used_inv: "free_inv oc db fs \<Longrightarrow> vdb_used oc db = {n. n < hdr_num db} - set fs"
  by (auto simp: vdb_used_def used_ent_def free_inv_def)

lemma set_tl_new_nums:
  assumes "old < old + n"
  shows "set (tl (new_nums old n)) = {i. old < i \<and> i < old + n}"
proof -
  have "new_nums old n = old # tl (new_nums old n)"
    using assms by (simp add: new_nums_def upt_conv_Cons word_less_nat_alt)
  then have "set (new_nums old n) = insert old (set (tl (new_nums old n)))" "old \<notin> set (tl (new_nums old n))"
    using distinct_new_nums [of old n] by (metis list.simps(15), metis distinct.simps(2))
  moreover have "set (new_nums old n) = {i. old \<le> i \<and> i < old + n}" using set_new_nums by auto
  ultimately have "set (tl (new_nums old n)) = {i. old \<le> i \<and> i < old + n} - {old}" by blast
  then show ?thesis by (auto simp: order_less_le)
qed

interpretation vdb: entry_store "vdb_sound oc os" "vdb_used oc" "vdb_alloc oc os" "vdb_release oc os"
  for oc :: "'o onode_codec" and os
proof
  fix db db' n
  assume s: "vdb_sound oc os db" and a: "vdb_alloc oc os db = Some (db', n)"
  then obtain fs where f: "onode_codec_ok oc" "os_ok os" "free_inv oc db fs" by (auto simp: vdb_sound_def)
  have room: "db_size db + esz db * 10 < 2 ^ 32" using a by (simp add: vdb_alloc_def split: if_splits)
  have wf: "voldb_wf db" using f(3) by (simp add: free_inv_def)
  show "vdb_sound oc os db' \<and> n \<notin> vdb_used oc db \<and> vdb_used oc db' = insert n (vdb_used oc db)"
  proof (cases fs)
    case Nil
    with new_entry_extend [OF f(1) _ f(2) room] f(3) a
    have d: "free_inv oc db' (tl (new_nums (hdr_num db) VOLDB_ENTEND_NUM))" "n = hdr_num db" "hdr_num db' = hdr_num db + VOLDB_ENTEND_NUM"
      by (auto simp: vdb_alloc_def voldb_new_eq [OF wf] split: if_splits)
    have gn: "unat (hdr_num db + VOLDB_ENTEND_NUM) = unat (hdr_num db) + 10"
      using grown_num [OF wf, of VOLDB_ENTEND_NUM] room by (simp add: grown_def VOLDB_ENTEND_NUM_def)
    then have N: "hdr_num db < hdr_num db + VOLDB_ENTEND_NUM" by (simp add: word_less_nat_alt)
    have "vdb_used oc db' = {i. i < hdr_num db + VOLDB_ENTEND_NUM} - {i. hdr_num db < i \<and> i < hdr_num db + VOLDB_ENTEND_NUM}"
      unfolding vdb_used_inv [OF d(1)] set_tl_new_nums [OF N] d(3) ..
    also have "\<dots> = insert (hdr_num db) {i. i < hdr_num db}"
      using N order.strict_trans [OF _ N] by (auto simp: not_less order_le_less)
    finally have u: "vdb_used oc db' = insert n (vdb_used oc db)" "n \<notin> vdb_used oc db"
      unfolding vdb_used_inv [OF f(3)] Nil d(2) by simp_all
    have "vdb_sound oc os db'" using d(1) f(1,2) unfolding vdb_sound_def by blast
    with u show ?thesis by blast
  next
    case (Cons i fs')
    with new_entry_free [OF f(1), of db i fs' os] free_inv_take [OF f(1), of db i fs' os] f a
    have d: "free_inv oc db' fs'" "n = i" "hdr_num db' = hdr_num db"
      using take_entry_facts(3) [OF f(1) wf, of i os]
      by (auto simp: vdb_alloc_def voldb_new_eq [OF wf] os_ok_def free_inv_def split: if_splits)
    then show ?thesis using vdb_used_inv [OF d(1)] vdb_used_inv [OF f(3)] f Cons by (auto simp: vdb_sound_def free_inv_def)
  qed
next
  fix db n
  assume s: "vdb_sound oc os db" and n: "n \<in> vdb_used oc db"
  then obtain fs where f: "onode_codec_ok oc" "os_ok os" "free_inv oc db fs" by (auto simp: vdb_sound_def)
  have wf: "voldb_wf db" using f(3) by (simp add: free_inv_def)
  have i: "n < hdr_num db" "n \<notin> set fs" "nextptr (ent oc db n) = VOLDB_ENTRY_USED"
    using n vdb_used_inv [OF f(3)] by (auto simp: vdb_used_def used_ent_def)
  let ?d = "give_entry oc os db n"
  have "vdb_release oc os db n = Some ?d"
    using del_entry_used [OF f(1) wf i(1,3), of os] f(2) by (simp add: vdb_release_def voldb_del_eq [OF wf] os_ok_def)
  moreover have g: "free_inv oc ?d (n # fs)" using free_inv_give [OF f(1,3) i(1,2)] .
  moreover have "vdb_used oc ?d = vdb_used oc db - {n}"
    using vdb_used_inv [OF g] vdb_used_inv [OF f(3)] give_entry_facts(3) [OF f(1) wf i(1), of os] by auto
  ultimately show "\<exists>s'. vdb_release oc os db n = Some s' \<and> vdb_sound oc os s' \<and> vdb_used oc s' = vdb_used oc db - {n}"
    using f by (auto simp: vdb_sound_def)
qed

text \<open>
  C18: any number of allocations in a row returns pairwise distinct numbers, none of which was in
  use before, and leaves a sound database in which exactly those numbers are in use as well.
\<close>

theorem voldb_allocs_distinct:
  assumes "vdb_sound oc os db" "allocs (vdb_alloc oc os) k db = Some (db', ns)"
  shows "vdb_sound oc os db' \<and> distinct ns \<and> length ns = k \<and> set ns \<inter> vdb_used oc db = {} \<and>
    vdb_used oc db' = vdb_used oc db \<union> set ns"
  using vdb.allocs_distinct [OF assms] by blast

theorem voldb_allocs_distinct_witness:
  "\<exists>db db' a b. allocs (vdb_alloc word_onode ok_sys) 2 db = Some (db', [a, b]) \<and> a \<noteq> b"
proof -
  obtain db where db: "free_inv word_onode db (tl (new_nums 0 VOLDB_ENTEND_NUM))" "hdr_num db = 10" "\<not> is_dir_db db"
    "db_size db + esz db * 10 < 2 ^ 32" using one_entry_db by blast
  have l: "tl (new_nums 0 VOLDB_ENTEND_NUM) = [1, 2, 3, 4, 5, 6, 7, 8, 9]"
    by (simp add: new_nums_def VOLDB_ENTEND_NUM_def upt_conv_Cons)
  have wf: "voldb_wf db" using db(1) by (simp add: free_inv_def)
  have r: "r_msync ok_sys = 0" by (simp add: ok_sys_def)
  let ?d = "take_entry word_onode ok_sys db 1"
  have t: "voldb_wf ?d" "hdr_num ?d = hdr_num db" "is_dir_db ?d = is_dir_db db"
    using take_entry_facts(1,3,4) [OF word_onode_ok wf, of 1 ok_sys] db(2) by simp_all
  have "esz ?d = esz db" "db_size ?d = db_size db" using t wf by (simp_all add: esz_def voldb_wf_def)
  then have a1: "vdb_alloc word_onode ok_sys db = Some (?d, 1)"
    and a2: "vdb_alloc word_onode ok_sys ?d = Some (take_entry word_onode ok_sys ?d 2, 2)"
    using new_entry_free [OF word_onode_ok, of db 1 "[2, 3, 4, 5, 6, 7, 8, 9]" ok_sys]
      new_entry_free [OF word_onode_ok, of ?d 2 "[3, 4, 5, 6, 7, 8, 9]" ok_sys]
      free_inv_take [OF word_onode_ok, of db 1 "[2, 3, 4, 5, 6, 7, 8, 9]" ok_sys] db l
    by (simp_all add: vdb_alloc_def voldb_new_eq wf t r)
  then have c: "allocs (vdb_alloc word_onode ok_sys) 2 db = Some (take_entry word_onode ok_sys ?d 2, [1, 2])"
    by (simp add: numeral_2_eq_2)
  have "vdb_sound word_onode ok_sys db" using db(1) word_onode_ok ok_sys_ok by (auto simp: vdb_sound_def)
  from voldb_allocs_distinct [OF this c] c show ?thesis by (metis distinct_length_2_or_more)
qed

end
