(* ===== verification/Fdir.thy ===== *)
theory Fdir
  imports Milko_Prelude
begin

text \<open>
  AFS directories: \<open>lib/bufdir/fdir.c\<close> over the layout of \<open>lib/bufdir/afs_dir.h\<close>.

  A directory is the contents of its file, a list of bytes, as the code sees it through
  \<open>fbuf_buf\<close> and \<open>fbuf_len\<close>. Pages have 2048 bytes; each starts with a 32-byte header with a
  bitmap of its 64 slots of 32 bytes; page 0 has the allocation map and the hash table in slots
  1 to 12. An entry occupies one or more consecutive slots and is linked into the chain of its
  hash value by slot number plus one. All offsets are the ones of the C structures; every read
  or write outside the buffer is \<^const>\<open>None\<close>.

  A C string is the list of its bytes without the terminating zero. \<open>fbuf_truncate\<close> is modelled
  by its effect on the file; whether it fails is an argument.
\<close>

section \<open>Memory access\<close>

definition b8 :: "bytes \<Rightarrow> nat \<Rightarrow> byte option" where
  "b8 buf k = (if k < length buf then Some (buf ! k) else None)"

definition w8 :: "bytes \<Rightarrow> nat \<Rightarrow> byte \<Rightarrow> bytes option" where
  "w8 buf k v = (if k < length buf then Some (buf[k := v]) else None)"

definition be16 :: "u16 \<Rightarrow> bytes" where
  "be16 w = [ucast (drop_bit 8 w), ucast w]"

definition of_be16 :: "byte \<Rightarrow> byte \<Rightarrow> u16" where
  "of_be16 a b = push_bit 8 (ucast a) OR ucast b"

text \<open>Reading and writing fields in network byte order.\<close>

definition b16 :: "bytes \<Rightarrow> nat \<Rightarrow> u16 option" where
  "b16 buf k = do { a \<leftarrow> b8 buf k; b \<leftarrow> b8 buf (k + 1); Some (of_be16 a b) }"

definition b32 :: "bytes \<Rightarrow> nat \<Rightarrow> u32 option" where
  "b32 buf k = do { a \<leftarrow> b8 buf k; b \<leftarrow> b8 buf (k + 1); c \<leftarrow> b8 buf (k + 2); d \<leftarrow> b8 buf (k + 3);
     Some (of_be32 a b c d) }"

definition wbytes :: "bytes \<Rightarrow> nat \<Rightarrow> bytes \<Rightarrow> bytes option" where
  "wbytes buf k bs = (if k + length bs \<le> length buf then Some (splice buf k bs) else None)"

text \<open>\<open>strlen\<close> and the string at an address, and \<open>strcmp (...) == 0\<close>.\<close>

definition cstr :: "bytes \<Rightarrow> nat \<Rightarrow> bytes option" where
  "cstr buf k = (if 0 \<in> set (drop k buf) then Some (takeWhile (\<lambda>b. b \<noteq> 0) (drop k buf)) else None)"

fun strcmp_eq :: "bytes \<Rightarrow> nat \<Rightarrow> bytes \<Rightarrow> bool option" where
  "strcmp_eq buf k [] = do { b \<leftarrow> b8 buf k; Some (b = 0) }"
| "strcmp_eq buf k (c # cs) = do { b \<leftarrow> b8 buf k; if b = c then strcmp_eq buf (k + 1) cs else Some False }"

section \<open>Layout\<close>

definition AFSDIR_PAGESIZE :: nat where "AFSDIR_PAGESIZE = 2048"
definition ADIRHASHSIZE :: nat where "ADIRHASHSIZE = 128"
definition ENTRIESPERPAGE :: nat where "ENTRIESPERPAGE = 64"
definition MAXPAGES :: nat where "MAXPAGES = 128"
definition AFSDIR_FIRST :: byte where "AFSDIR_FIRST = 1"
definition AFSDIR_UTFENT :: byte where "AFSDIR_UTFENT = 4"
definition AFSDIRMAGIC :: u16 where "AFSDIRMAGIC = 1234"
definition AFSDIRMAGIC_UTF8 :: u16 where "AFSDIRMAGIC_UTF8 = 12345"

definition sizeof_DirEntry :: nat where "sizeof_DirEntry = 32"
definition sizeof_DirEntry2 :: nat where "sizeof_DirEntry2 = 8"

lemmas fdir_sizes = AFSDIR_PAGESIZE_def ADIRHASHSIZE_def ENTRIESPERPAGE_def MAXPAGES_def
  sizeof_DirEntry_def sizeof_DirEntry2_def

text \<open>Offsets in a page header: \<open>pg_pgcount\<close> 0, \<open>pg_tag\<close> 2, \<open>pg_freecount\<close> 4, \<open>pg_bitmap\<close> 5.\<close>

definition getpage :: "nat \<Rightarrow> nat" where
  "getpage pageno = AFSDIR_PAGESIZE * pageno"

definition bitmap_off :: "nat \<Rightarrow> nat" where "bitmap_off page = page + 5"
definition map_off :: "nat \<Rightarrow> nat" where "map_off pageno = 32 + pageno"
definition hash_off :: "nat \<Rightarrow> nat" where "hash_off h = 32 + MAXPAGES + 2 * h"

text \<open>\<open>&page->entry[off]\<close>; in an entry: flag 0, length 1, next 2, vnode 4, unique 8, name 12, fill 28.\<close>

definition entry_at :: "nat \<Rightarrow> nat \<Rightarrow> nat" where
  "entry_at page off = page + 32 + sizeof_DirEntry * off"

section \<open>Lookup\<close>

text \<open>The hash is computed in \<open>int\<close> and relies on wrap-around.\<close>

fun hash_loop :: "int \<Rightarrow> bytes \<Rightarrow> int" where
  "hash_loop s [] = s"
| "hash_loop s (c # cs) = hash_loop (to_int32 (s * 173 + uint c)) cs"

definition hashentry :: "bytes \<Rightarrow> nat" where
  "hashentry name =
     (let s = hash_loop 0 name; h = nat (s mod int ADIRHASHSIZE)
      in if h = 0 then h else if s < 0 then ADIRHASHSIZE - h else h)"

definition additional_entries :: "nat \<Rightarrow> nat option \<Rightarrow> nat option \<Rightarrow> nat" where
  "additional_entries filename_len raw_len norm_len =
     (let len = filename_len + 16;
          len = (case raw_len of None \<Rightarrow> len
            | Some r \<Rightarrow>
                (let len = (if len mod 4 \<noteq> 0 then len + (4 - len mod 4) else len)
                 in len + sizeof_DirEntry2 + r + (case norm_len of None \<Rightarrow> 0 | Some m \<Rightarrow> m)))
      in len div sizeof_DirEntry)"

definition good_tag :: "u16 \<Rightarrow> bool" where
  "good_tag t \<longleftrightarrow> t = AFSDIRMAGIC \<or> t = AFSDIRMAGIC_UTF8"

text \<open>The inner option is the returned pointer.\<close>

definition getentry :: "bytes \<Rightarrow> u16 \<Rightarrow> nat \<Rightarrow> nat option option" where
  "getentry buf num npages =
     (let idx = unat num div ENTRIESPERPAGE
      in if idx \<ge> npages then Some None
         else do {
           tag \<leftarrow> b16 buf (getpage idx + 2);
           if \<not> good_tag tag then Some None
           else Some (Some (entry_at (getpage idx) (unat num mod ENTRIESPERPAGE))) })"

text \<open>The chain may be cyclic in a damaged directory; then the loop does not end.\<close>

partial_function (option) find_loop :: "bytes \<Rightarrow> bytes \<Rightarrow> nat \<Rightarrow> u16 \<Rightarrow> nat option option" where
  [code]: "find_loop buf name npages i =
     (if i = 0 then Some None
      else Option.bind (getentry buf (i - 1) npages) (\<lambda>eo.
        case eo of None \<Rightarrow> Some None
        | Some e \<Rightarrow> Option.bind (strcmp_eq buf (e + 12) name) (\<lambda>eq.
            if eq then Some (Some e)
            else Option.bind (b16 buf (e + 2)) (\<lambda>nx. find_loop buf name npages nx))))"

definition find_entry :: "bytes \<Rightarrow> bytes \<Rightarrow> nat \<Rightarrow> nat option option" where
  "find_entry buf name npages = do {
     i \<leftarrow> b16 buf (hash_off (hashentry name));
     find_loop buf name npages i }"

record VenusFid =
  Cell :: int
  Volume :: u32
  Vnode :: u32
  Unique :: u32

definition find_by_name :: "bytes \<Rightarrow> bytes \<Rightarrow> VenusFid \<Rightarrow> nat \<Rightarrow> (int \<times> VenusFid option) option" where
  "find_by_name buf name dir npages = do {
     eo \<leftarrow> find_entry buf name npages;
     case eo of None \<Rightarrow> Some (- 1, None)
     | Some e \<Rightarrow> do {
         vn \<leftarrow> b32 buf (e + 4);
         un \<leftarrow> b32 buf (e + 8);
         Some (0, Some \<lparr>Cell = Cell dir, Volume = Volume dir, Vnode = vn, Unique = un\<rparr>) } }"

text \<open>The number of pages: the larger of the stored count and what the file size gives.\<close>

definition dir_npages :: "bytes \<Rightarrow> nat option" where
  "dir_npages buf = do {
     c \<leftarrow> b16 buf 0;
     Some (if unat c < length buf div AFSDIR_PAGESIZE then length buf div AFSDIR_PAGESIZE else unat c) }"

definition fdir_lookup :: "bytes \<Rightarrow> VenusFid \<Rightarrow> bytes \<Rightarrow> (int \<times> VenusFid option) option" where
  "fdir_lookup buf dir name = do {
     npages \<leftarrow> dir_npages buf;
     (ind, fid) \<leftarrow> find_by_name buf name dir npages;
     if ind = 0 then Some (0, fid) else Some (ENOENT, fid) }"

section \<open>Slots\<close>

definition used_slot :: "bytes \<Rightarrow> nat \<Rightarrow> nat \<Rightarrow> bool option" where
  "used_slot buf page off = do {
     b \<leftarrow> b8 buf (bitmap_off page + off div 8);
     Some (bit b (off mod 8)) }"

definition set_used :: "bytes \<Rightarrow> nat \<Rightarrow> nat \<Rightarrow> bytes option" where
  "set_used buf page off = do {
     b \<leftarrow> b8 buf (bitmap_off page + off div 8);
     w8 buf (bitmap_off page + off div 8) (b OR push_bit (off mod 8) 1) }"

definition set_unused :: "bytes \<Rightarrow> nat \<Rightarrow> nat \<Rightarrow> bytes option" where
  "set_unused buf page off = do {
     b \<leftarrow> b8 buf (bitmap_off page + off div 8);
     w8 buf (bitmap_off page + off div 8) (b AND NOT (push_bit (off mod 8) 1)) }"

definition first_slotp :: "bytes \<Rightarrow> nat \<Rightarrow> nat \<Rightarrow> bool option" where
  "first_slotp buf page off = do {
     u \<leftarrow> used_slot buf page (off + 1);
     if u then do { f \<leftarrow> b8 buf (entry_at page off); Some (f AND AFSDIR_FIRST \<noteq> 0) }
     else Some False }"

definition is_page_empty :: "bytes \<Rightarrow> nat \<Rightarrow> bool option" where
  "is_page_empty buf pageno =
     (if pageno < MAXPAGES then do {
        m \<leftarrow> b8 buf (map_off pageno);
        Some (unat m = ENTRIESPERPAGE - 1) }
      else do {
        cassert (bitmap_off (getpage pageno) + 8 \<le> length buf);
        Some (take 8 (drop (bitmap_off (getpage pageno)) buf) = [1, 0, 0, 0, 0, 0, 0, 0]) })"

definition fdir_emptyp :: "bytes \<Rightarrow> bool option" where
  "fdir_emptyp buf = do {
     npages \<leftarrow> dir_npages buf;
     m \<leftarrow> b8 buf (map_off 0);
     Some (npages = 1 \<and> m = 49) }"

fun dirp_loop :: "bytes \<Rightarrow> nat list \<Rightarrow> bool option" where
  "dirp_loop buf [] = Some True"
| "dirp_loop buf (n # ns) = do {
     tag \<leftarrow> b16 buf (getpage n + 2);
     if \<not> good_tag tag then Some False else dirp_loop buf ns }"

definition fdir_dirp :: "bytes \<Rightarrow> bool option" where
  "fdir_dirp buf =
     (if length buf < AFSDIR_PAGESIZE then Some False
      else do { npages \<leftarrow> dir_npages buf; dirp_loop buf [0..<npages] })"

section \<open>Adding and removing entries\<close>

definition create_new_page :: "int \<Rightarrow> bytes \<Rightarrow> bool \<Rightarrow> (int \<times> bytes \<times> nat) option" where
  "create_new_page tr buf utf8_page =
     (let page = length buf
      in if tr \<noteq> 0 then Some (tr, buf, page)
         else do {
           let buf = buf @ replicate AFSDIR_PAGESIZE 0;
           buf \<leftarrow> wbytes buf page (be16 0 @ be16 (if utf8_page then AFSDIRMAGIC_UTF8 else AFSDIRMAGIC) @
                    [of_nat (ENTRIESPERPAGE - 1)] @ replicate 8 0);
           buf \<leftarrow> set_used buf page 0;
           Some (0, buf, page) })"

text \<open>The number of free slots from \<open>i\<close> on, at most \<open>n\<close>: the inner loop of \<open>add_to_page\<close>.\<close>

fun free_run :: "bytes \<Rightarrow> nat \<Rightarrow> nat \<Rightarrow> nat \<Rightarrow> nat option" where
  "free_run buf page i 0 = Some 0"
| "free_run buf page i (Suc n) = do {
     u \<leftarrow> used_slot buf page (i + 1);
     if u then Some 0 else do { j \<leftarrow> free_run buf page (i + 1) n; Some (Suc j) } }"

text \<open>The outer loop; its bound \<open>ENTRIESPERPAGE - n\<close> is computed in \<open>unsigned\<close>.\<close>

function add_scan :: "bytes \<Rightarrow> nat \<Rightarrow> nat \<Rightarrow> nat \<Rightarrow> nat option option" where
  "add_scan buf page n i =
     (if i < (ENTRIESPERPAGE + 2 ^ 32 - n) mod 2 ^ 32 then do {
        j \<leftarrow> free_run buf page i n;
        if j = n then Some (Some i) else add_scan buf page n (i + j + 1) }
      else Some None)"
  by pat_completeness auto
termination
  by (relation "measure (\<lambda>(buf, page, n, i). (ENTRIESPERPAGE + 2 ^ 32 - n) mod 2 ^ 32 - i)") auto

fun mark_used :: "bytes \<Rightarrow> nat \<Rightarrow> nat list \<Rightarrow> bytes option" where
  "mark_used buf page [] = Some buf"
| "mark_used buf page (k # ks) = do { buf \<leftarrow> set_used buf page k; mark_used buf page ks }"

fun mark_unused :: "bytes \<Rightarrow> nat \<Rightarrow> nat list \<Rightarrow> bytes option" where
  "mark_unused buf page [] = Some buf"
| "mark_unused buf page (k # ks) = do { buf \<leftarrow> set_unused buf page k; mark_unused buf page ks }"

text \<open>A 16-bit field stored in host order (little endian).\<close>

definition le16 :: "u16 \<Rightarrow> bytes" where
  "le16 w = [ucast w, ucast (drop_bit 8 w)]"

text \<open>The part of an entry for a second, UTF-8, name.\<close>

definition add_raw_name :: "bytes \<Rightarrow> nat \<Rightarrow> bytes \<Rightarrow> bytes \<Rightarrow> bytes option" where
  "add_raw_name buf e filename raw = do {
     let fnl = length filename + 1;
     let fnl2 = (if fnl mod 4 \<noteq> 0 then fnl + (4 - fnl mod 4) else fnl);
     let raw_offset = (of_nat (12 + fnl2 + sizeof_DirEntry2) :: u16);
     buf \<leftarrow> wbytes buf e [AFSDIR_FIRST OR AFSDIR_UTFENT];
     buf \<leftarrow> wbytes buf (e + 12 + fnl) (replicate (fnl2 - fnl) 0);
     buf \<leftarrow> wbytes buf (e + 1) [of_nat ((12 + fnl2) div 4)];
     buf \<leftarrow> wbytes buf (e + 12 + fnl2) (replicate 4 0 @ le16 raw_offset @ le16 raw_offset);
     wbytes buf (e + unat raw_offset) (raw @ [0]) }"

record AFSFid =
  fVnode :: u32
  fUnique :: u32

text \<open>\<open>next\<close> is the value of the hash slot; it is copied as it is stored.\<close>

definition add_to_page ::
  "bytes \<Rightarrow> nat \<Rightarrow> nat \<Rightarrow> bytes \<Rightarrow> bytes option \<Rightarrow> AFSFid \<Rightarrow> u16 \<Rightarrow> (int \<times> bytes) option" where
  "add_to_page buf page pageno filename raw fid next =
     (let n = 1 + additional_entries (length filename) (map_option length raw) None
      in do {
        full \<leftarrow> (if pageno < MAXPAGES then do { m \<leftarrow> b8 buf (map_off pageno); Some (unat m < n) } else Some False);
        if full then Some (- 1, buf)
        else do {
          io \<leftarrow> add_scan buf page n 0;
          case io of None \<Rightarrow> Some (- 1, buf)
          | Some i \<Rightarrow> do {
              let e = entry_at page i;
              buf \<leftarrow> mark_used buf page [i + 1..<i + n + 1];
              buf \<leftarrow> wbytes buf e ([AFSDIR_FIRST, 0] @ be16 next @ be32 (fVnode fid) @ be32 (fUnique fid));
              buf \<leftarrow> wbytes buf (e + 12) (filename @ [0]);
              buf \<leftarrow> (case raw of None \<Rightarrow> Some buf | Some r \<Rightarrow> add_raw_name buf e filename r);
              buf \<leftarrow> wbytes buf (entry_at page (i + n - 1) + 28) (replicate 4 0);
              buf \<leftarrow> (if pageno < MAXPAGES then do {
                  m \<leftarrow> b8 buf (map_off pageno);
                  w8 buf (map_off pageno) (m - of_nat n) } else Some buf);
              Some (int i, buf) } } })"

definition remove_from_page :: "bytes \<Rightarrow> nat \<Rightarrow> nat \<Rightarrow> nat \<Rightarrow> bytes option" where
  "remove_from_page buf page pageno off = do {
     let e = entry_at page off;
     name \<leftarrow> cstr buf (e + 12);
     let n = 1 + additional_entries (length name) None None;
     buf \<leftarrow> (if pageno < MAXPAGES then do {
         m \<leftarrow> b8 buf (map_off pageno);
         w8 buf (map_off pageno) (m + of_nat n) } else Some buf);
     buf \<leftarrow> wbytes buf (e + 2) (replicate 10 0);
     mark_unused buf page [off + 1..<off + n + 1] }"

definition update_fid_by_name :: "bytes \<Rightarrow> bytes \<Rightarrow> VenusFid \<Rightarrow> nat \<Rightarrow> (int \<times> bytes) option" where
  "update_fid_by_name buf name fid npages = do {
     eo \<leftarrow> find_entry buf name npages;
     case eo of None \<Rightarrow> Some (- 1, buf)
     | Some e \<Rightarrow> do {
         buf \<leftarrow> wbytes buf (e + 4) (be32 (Vnode fid) @ be32 (Unique fid));
         Some (0, buf) } }"

definition fdir_changefid :: "bytes \<Rightarrow> bytes \<Rightarrow> VenusFid \<Rightarrow> (int \<times> bytes) option" where
  "fdir_changefid buf name fid = do {
     npages \<leftarrow> dir_npages buf;
     (ret, buf) \<leftarrow> update_fid_by_name buf name fid npages;
     if ret = 0 then Some (0, buf) else Some (ENOENT, buf) }"

text \<open>\<open>hash[hashentry(name)]\<close> must be free, the entry is added to page 0 and linked.\<close>

definition mkdir_add :: "bytes \<Rightarrow> nat \<Rightarrow> bytes \<Rightarrow> AFSFid \<Rightarrow> bytes option" where
  "mkdir_add buf page name fid = do {
     h \<leftarrow> b16 buf (hash_off (hashentry name));
     cassert (h = 0);
     (ind, buf) \<leftarrow> add_to_page buf page 0 name None fid 0;
     cassert (ind \<ge> 0);
     wbytes buf (hash_off (hashentry name)) (be16 (of_int (ind + 1))) }"

definition dot :: bytes where "dot = [46]"
definition dotdot :: bytes where "dotdot = [46, 46]"

definition fdir_mkdir :: "int \<Rightarrow> bytes \<Rightarrow> AFSFid \<Rightarrow> AFSFid \<Rightarrow> bool \<Rightarrow> (int \<times> bytes) option" where
  "fdir_mkdir tr buf dotfid dotdotfid utf8_dir = do {
     (ret, buf, page) \<leftarrow> create_new_page tr buf utf8_dir;
     if ret \<noteq> 0 then Some (ret, buf)
     else do {
       buf \<leftarrow> wbytes buf 32 (replicate (MAXPAGES + 2 * ADIRHASHSIZE) 0);
       let tmp = (of_nat (ENTRIESPERPAGE - 13 - (if utf8_dir then 32 else 0)) :: byte);
       buf \<leftarrow> w8 buf 4 tmp;
       buf \<leftarrow> w8 buf (map_off 0) tmp;
       buf \<leftarrow> wbytes buf 0 (be16 1);
       buf \<leftarrow> mark_used buf page [0..<if utf8_dir then 45 else 13];
       buf \<leftarrow> mkdir_add buf page dot dotfid;
       buf \<leftarrow> mkdir_add buf page dotdot dotdotfid;
       Some (0, buf) } }"

text \<open>The loop over the pages of \<open>fdir_creat\<close>: the page and the index where the entry went.\<close>

fun creat_loop ::
  "bytes \<Rightarrow> bytes \<Rightarrow> bytes option \<Rightarrow> AFSFid \<Rightarrow> u16 \<Rightarrow> nat list \<Rightarrow> (bytes \<times> (nat \<times> int) option) option" where
  "creat_loop buf name raw fid next [] = Some (buf, None)"
| "creat_loop buf name raw fid next (i # is) = do {
     (ind, buf) \<leftarrow> add_to_page buf (getpage i) i name raw fid next;
     if ind \<ge> 0 then Some (buf, Some (i, ind)) else creat_loop buf name raw fid next is }"

definition fdir_creat :: "int \<Rightarrow> bytes \<Rightarrow> bytes \<Rightarrow> bytes option \<Rightarrow> AFSFid \<Rightarrow> (int \<times> bytes) option" where
  "fdir_creat tr buf name utf8name fid =
     (if length buf = 0 then Some (EINVAL, buf)
      else do {
        npages \<leftarrow> dir_npages buf;
        eo \<leftarrow> find_entry buf name npages;
        if eo \<noteq> None then Some (EEXIST, buf)
        else do {
          tag \<leftarrow> b16 buf 2;
          let utf8_dir = (tag = AFSDIRMAGIC_UTF8 \<or> utf8name \<noteq> None);
          let utf8name = (if tag = AFSDIRMAGIC_UTF8 then utf8name else None);
          let hash_value = hashentry name;
          next \<leftarrow> b16 buf (hash_off hash_value);
          (buf, r) \<leftarrow> creat_loop buf name utf8name fid next [0..<npages];
          case r of
            Some (i, ind) \<Rightarrow> do {
              buf \<leftarrow> wbytes buf (hash_off hash_value) (be16 (of_int (ind + int (i * ENTRIESPERPAGE) + 1)));
              Some (0, buf) }
          | None \<Rightarrow> do {
              (ret, buf, page) \<leftarrow> create_new_page tr buf utf8_dir;
              if ret \<noteq> 0 then Some (ret, buf)
              else do {
                buf \<leftarrow> wbytes buf 0 (be16 (of_nat (npages + 1)));
                buf \<leftarrow> (if npages < MAXPAGES then w8 buf (map_off npages) (of_nat (ENTRIESPERPAGE - 1)) else Some buf);
                (ind, buf) \<leftarrow> add_to_page buf page npages name utf8name fid next;
                cassert (ind \<ge> 0);
                buf \<leftarrow> wbytes buf (hash_off hash_value) (be16 (of_int (ind + int (npages * ENTRIESPERPAGE) + 1)));
                Some (0, buf) } } } })"

text \<open>
  The search of \<open>fdir_remove\<close>: the number of the entry plus one, the entry and the entry before
  it in the chain.
\<close>

partial_function (option) remove_find ::
  "bytes \<Rightarrow> bytes \<Rightarrow> nat \<Rightarrow> u16 \<Rightarrow> nat option \<Rightarrow> (u16 \<times> nat \<times> nat option) option option" where
  [code]: "remove_find buf name npages i prev =
     (if i = 0 then Some None
      else Option.bind (getentry buf (i - 1) npages) (\<lambda>eo.
        case eo of None \<Rightarrow> Some None
        | Some e \<Rightarrow> Option.bind (strcmp_eq buf (e + 12) name) (\<lambda>eq.
            if eq then Some (Some (i, e, prev))
            else Option.bind (b16 buf (e + 2)) (\<lambda>nx. remove_find buf name npages nx (Some e)))))"

text \<open>
  Dropping empty pages at the end. Counting page numbers down past 0 gives a page far outside
  the buffer.
\<close>

fun shrink_loop :: "bytes \<Rightarrow> nat \<Rightarrow> nat \<Rightarrow> nat \<Rightarrow> (nat \<times> nat) option" where
  "shrink_loop buf len 0 npages = None"
| "shrink_loop buf len (Suc pageno) npages = do {
     let len = (len + 2 ^ 32 - AFSDIR_PAGESIZE) mod 2 ^ 32;
     e \<leftarrow> is_page_empty buf pageno;
     if e then shrink_loop buf len pageno (npages - 1) else Some (len, npages - 1) }"

definition fbuf_truncate :: "int \<Rightarrow> bytes \<Rightarrow> nat \<Rightarrow> int \<times> bytes" where
  "fbuf_truncate tr buf n =
     (if tr \<noteq> 0 then (tr, buf) else (0, take n buf @ replicate (n - length buf) 0))"

definition fdir_remove :: "int \<Rightarrow> bytes \<Rightarrow> bytes \<Rightarrow> (int \<times> bytes \<times> AFSFid option) option" where
  "fdir_remove tr buf name = do {
     npages \<leftarrow> dir_npages buf;
     let hash_value = hashentry name;
     i \<leftarrow> b16 buf (hash_off hash_value);
     r \<leftarrow> remove_find buf name npages i None;
     case r of None \<Rightarrow> Some (ENOENT, buf, None)
     | Some (i, e, prev) \<Rightarrow> do {
         vn \<leftarrow> b32 buf (e + 4);
         un \<leftarrow> b32 buf (e + 8);
         nx \<leftarrow> b16 buf (e + 2);
         buf \<leftarrow> (case prev of None \<Rightarrow> wbytes buf (hash_off hash_value) (be16 nx)
                       | Some p \<Rightarrow> wbytes buf (p + 2) (be16 nx));
         let pageno = (unat i - 1) div ENTRIESPERPAGE;
         buf \<leftarrow> remove_from_page buf (getpage pageno) pageno ((unat i - 1) mod ENTRIESPERPAGE);
         last \<leftarrow> (if pageno = npages - 1 then is_page_empty buf pageno else Some False);
         buf \<leftarrow> (if last then do {
             (len, np) \<leftarrow> shrink_loop buf (length buf mod 2 ^ 32) pageno npages;
             buf \<leftarrow> wbytes buf 0 (be16 (of_nat np));
             Some (snd (fbuf_truncate tr buf len)) } else Some buf);
         Some (0, buf, Some \<lparr>fVnode = vn, fUnique = un\<rparr>) } }"

section \<open>Reading a directory\<close>

text \<open>
  The name that \<open>fdir_readdir\<close> reports for an entry and the number of additional slots it
  skips. For an entry with a UTF-8 name the pointer to the second part is computed by
  \<open>(DirEntry2 *)((char *)entry) + (entry->length << 2)\<close>, which counts in units of eight bytes.
  The inner option is \<^const>\<open>None\<close> where the code continues with the next slot.
\<close>

definition of_le16 :: "byte \<Rightarrow> byte \<Rightarrow> u16" where
  "of_le16 a b = of_be16 b a"

definition entry_name :: "bytes \<Rightarrow> nat \<Rightarrow> nat \<Rightarrow> (bytes \<times> nat) option option" where
  "entry_name buf page e = do {
     fl \<leftarrow> b8 buf e;
     if fl AND AFSDIR_UTFENT \<noteq> 0 then do {
       len \<leftarrow> b8 buf (e + 1);
       let e2 = e + 8 * (4 * unat len);
       if e2 > page + AFSDIR_PAGESIZE - sizeof_DirEntry2 then Some None
       else do {
         r0 \<leftarrow> b8 buf (e2 + 4); r1 \<leftarrow> b8 buf (e2 + 5);
         n0 \<leftarrow> b8 buf (e2 + 6); n1 \<leftarrow> b8 buf (e2 + 7);
         let raw = e + unat (of_le16 r0 r1);
         if raw > page + AFSDIR_PAGESIZE then Some None
         else do {
           rname \<leftarrow> cstr buf raw;
           nname \<leftarrow> (if of_le16 r0 r1 \<noteq> of_le16 n0 n1
                      then do { s \<leftarrow> cstr buf (e + unat (of_le16 n0 n1)); Some (Some (length s)) }
                      else Some None);
           name \<leftarrow> cstr buf (e + 12);
           Some (Some (rname, additional_entries (length name) (Some (length rname)) nname)) } } }
     else do {
       name \<leftarrow> cstr buf (e + 12);
       Some (Some (name, additional_entries (length name) None None)) } }"

text \<open>
  The two loops; \<open>func\<close> is the callback with its argument as state. The result is the offset
  at which the loop was left and the final state.
\<close>

function readdir_page ::
  "bytes \<Rightarrow> VenusFid \<Rightarrow> (VenusFid \<Rightarrow> bytes \<Rightarrow> 'a \<Rightarrow> int \<times> 'a) \<Rightarrow> nat \<Rightarrow> nat \<Rightarrow> 'a \<Rightarrow> (bool \<times> nat \<times> 'a) option" where
  "readdir_page buf dir func page j arg =
     (if j < ENTRIESPERPAGE - 1 then do {
        f \<leftarrow> first_slotp buf page j;
        if \<not> f then readdir_page buf dir func page (j + 1) arg
        else do {
          let e = entry_at page j;
          vn \<leftarrow> b32 buf (e + 4);
          un \<leftarrow> b32 buf (e + 8);
          r \<leftarrow> entry_name buf page e;
          case r of None \<Rightarrow> readdir_page buf dir func page (j + 1) arg
          | Some (name, nentries) \<Rightarrow>
              (let (ret, arg) = func \<lparr>Cell = Cell dir, Volume = Volume dir, Vnode = vn, Unique = un\<rparr> name arg
               in if ret < 0 then Some (True, j, arg)
                  else if ret \<noteq> 0 then Some (True, j + nentries, arg)
                  else readdir_page buf dir func page (j + nentries + 1) arg) } }
      else Some (False, j, arg))"
  by pat_completeness auto
termination
  by (relation "measure (\<lambda>(buf, dir, func, page, j, arg). ENTRIESPERPAGE - j)") (auto simp: ENTRIESPERPAGE_def)

function readdir_loop ::
  "bytes \<Rightarrow> VenusFid \<Rightarrow> (VenusFid \<Rightarrow> bytes \<Rightarrow> 'a \<Rightarrow> int \<times> 'a) \<Rightarrow> nat \<Rightarrow> nat \<Rightarrow> nat \<Rightarrow> 'a \<Rightarrow> (nat \<times> nat \<times> 'a) option" where
  "readdir_loop buf dir func npages i j arg =
     (if i < npages then do {
        (brk, j, arg) \<leftarrow> readdir_page buf dir func (getpage i) j arg;
        if brk then Some (i, j, arg) else readdir_loop buf dir func npages (i + 1) 0 arg }
      else Some (i, j, arg))"
  by pat_completeness auto
termination
  by (relation "measure (\<lambda>(buf, dir, func, npages, i, j, arg). npages - i)") auto

definition fdir_readdir ::
  "bytes \<Rightarrow> (VenusFid \<Rightarrow> bytes \<Rightarrow> 'a \<Rightarrow> int \<times> 'a) \<Rightarrow> 'a \<Rightarrow> VenusFid \<Rightarrow> u32 option \<Rightarrow> (int \<times> u32 option \<times> 'a) option" where
  "fdir_readdir buf func arg dir offset = do {
     npages \<leftarrow> dir_npages buf;
     let off = (case offset of None \<Rightarrow> 0 | Some w \<Rightarrow> unat w);
     let i = (if off \<noteq> 0 then off div ENTRIESPERPAGE else 0);
     let j = (if off \<noteq> 0 then off mod ENTRIESPERPAGE else 12);
     if off \<noteq> 0 \<and> i = 0 \<and> j < 12 then Some (EINVAL, offset, arg)
     else do {
       (i, j, arg) \<leftarrow> readdir_loop buf dir func npages i j arg;
       Some (0, map_option (\<lambda>_. of_nat (i * ENTRIESPERPAGE + j)) offset, arg) } }"

end
