(* ===== verification/Fdir_Inv.thy ===== *)
theory Fdir_Inv 
  imports Fdir
begin

text \<open>
  The invariant of a directory and its preservation. The proofs look at a buffer through total
  field readers (\<open>f16\<close>, \<open>f32\<close>, \<open>ubit\<close>, \<open>has_name\<close>) and describe every write by the set of bytes
  that it may change (\<open>same_but\<close>).
\<close>

section \<open>Bytes\<close>

lemma nth_splice:
  "off + length ys \<le> length xs \<Longrightarrow> j < length xs \<Longrightarrow>
   splice xs off ys ! j = (if off \<le> j \<and> j < off + length ys then ys ! (j - off) else xs ! j)"
  by (auto simp: splice_def nth_append min_def)

definition same_but :: "nat set \<Rightarrow> bytes \<Rightarrow> bytes \<Rightarrow> bool" where
  "same_but W a b \<longleftrightarrow> length b = length a \<and> (\<forall>k < length a. k \<notin> W \<longrightarrow> b ! k = a ! k)"

lemma same_but_trans: "same_but V a b \<Longrightarrow> same_but W b c \<Longrightarrow> same_but (V \<union> W) a c"
  by (auto simp: same_but_def)

lemma same_but_mono: "same_but V a b \<Longrightarrow> V \<subseteq> W \<Longrightarrow> same_but W a b"
  by (auto simp: same_but_def)

lemma wbytes_Some:
  assumes "k + length bs \<le> length buf"
  shows "\<exists>b. wbytes buf k bs = Some b \<and> same_but {k..<k + length bs} buf b \<and> (\<forall>j < length bs. b ! (k + j) = bs ! j)"
  using assms by (auto simp: wbytes_def same_but_def nth_splice)

lemma w8_Some:
  assumes "k < length buf"
  shows "\<exists>b. w8 buf k v = Some b \<and> same_but {k} buf b \<and> b ! k = v"
  using assms by (auto simp: w8_def same_but_def)

definition f16 :: "bytes \<Rightarrow> nat \<Rightarrow> u16" where
  "f16 buf k = of_be16 (buf ! k) (buf ! (k + 1))"

definition f32 :: "bytes \<Rightarrow> nat \<Rightarrow> u32" where
  "f32 buf k = of_be32 (buf ! k) (buf ! (k + 1)) (buf ! (k + 2)) (buf ! (k + 3))"

lemma b8_in [simp]: "k < length buf \<Longrightarrow> b8 buf k = Some (buf ! k)"
  by (simp add: b8_def)

lemma b16_in: "k + 1 < length buf \<Longrightarrow> b16 buf k = Some (f16 buf k)"
  by (simp add: b16_def f16_def)

lemma b32_in: "k + 3 < length buf \<Longrightarrow> b32 buf k = Some (f32 buf k)"
  by (simp add: b32_def f32_def)

lemma of_be16_be16: "of_be16 (ucast (drop_bit 8 w)) (ucast w) = w"
proof (rule bit_word_eqI)
  fix n assume "n < LENGTH(16)"
  then consider "n < 8" | "8 \<le> n" "n < 16" by fastforce
  then show "bit (of_be16 (ucast (drop_bit 8 w)) (ucast w)) n = bit w n"
    by cases (simp_all add: of_be16_def bit_or_iff bit_push_bit_iff bit_ucast_iff bit_drop_bit_eq less_diff_conv2)
qed

lemma length_be16 [simp]: "length (be16 w) = 2"
  by (simp add: be16_def)

lemma f16_be16: "b ! k = be16 w ! 0 \<Longrightarrow> b ! (k + 1) = be16 w ! 1 \<Longrightarrow> f16 b k = w"
  by (simp add: f16_def be16_def of_be16_be16)

lemma f32_be32:
  "b ! k = be32 w ! 0 \<Longrightarrow> b ! (k + 1) = be32 w ! 1 \<Longrightarrow> b ! (k + 2) = be32 w ! 2 \<Longrightarrow> b ! (k + 3) = be32 w ! 3 \<Longrightarrow> f32 b k = w"
  by (simp add: f32_def be32_def of_be32_be32 numeral_2_eq_2 numeral_3_eq_3)

lemma f16_same: "same_but W a b \<Longrightarrow> k + 1 < length a \<Longrightarrow> k \<notin> W \<Longrightarrow> k + 1 \<notin> W \<Longrightarrow> f16 b k = f16 a k"
  by (simp add: f16_def same_but_def)

lemma f32_same:
  assumes "same_but W a b" "k + 3 < length a" "\<And>j. k \<le> j \<Longrightarrow> j < k + 4 \<Longrightarrow> j \<notin> W"
  shows "f32 b k = f32 a k"
  using assms(1,2) assms(3) [of k] assms(3) [of "k + 1"] assms(3) [of "k + 2"] assms(3) [of "k + 3"]
  by (simp add: f32_def same_but_def)

section \<open>Strings in memory\<close>

definition has_name :: "bytes \<Rightarrow> nat \<Rightarrow> bytes \<Rightarrow> bool" where
  "has_name buf k nm \<longleftrightarrow> 0 \<notin> set nm \<and> k + length nm < length buf \<and>
     (\<forall>j < length nm. buf ! (k + j) = nm ! j) \<and> buf ! (k + length nm) = 0"

lemma has_name_drop:
  assumes "has_name buf k nm"
  shows "drop k buf = nm @ 0 # drop (k + length nm + 1) buf"
proof (rule nth_equalityI)
  show "length (drop k buf) = length (nm @ 0 # drop (k + length nm + 1) buf)"
    using assms by (auto simp: has_name_def)
  fix j assume "j < length (drop k buf)"
  then show "drop k buf ! j = (nm @ 0 # drop (k + length nm + 1) buf) ! j"
    using assms by (auto simp: has_name_def nth_append nth_Cons' not_less le_Suc_eq algebra_simps)
qed

lemma cstr_has_name: "has_name buf k nm \<Longrightarrow> cstr buf k = Some nm"
  using has_name_drop [of buf k nm] by (auto simp: cstr_def has_name_def takeWhile_append)

lemma strcmp_has_name:
  assumes "has_name buf k nm" "0 \<notin> set s"
  shows "strcmp_eq buf k s = Some (nm = s)"
  using assms
proof (induction s arbitrary: k nm)
  case Nil
  then show ?case by (cases nm) (auto simp: has_name_def)
next
  case (Cons c cs)
  show ?case
  proof (cases nm)
    case Nil
    with Cons.prems show ?thesis by (auto simp: has_name_def)
  next
    case (Cons d ds)
    then have 1: "\<forall>j < Suc (length ds). buf ! (k + j) = (d # ds) ! j" "k + Suc (length ds) < length buf"
      "buf ! (k + Suc (length ds)) = 0" "0 \<notin> set ds"
      using Cons.prems(1) by (auto simp: has_name_def)
    have "buf ! (k + 1 + j) = ds ! j" if "j < length ds" for j using 1(1) that by (auto dest: spec [of _ "Suc j"])
    then have "has_name buf (k + 1) ds" "buf ! k = d" "k < length buf"
      using 1 by (auto simp: has_name_def dest: spec [of _ 0])
    then show ?thesis using Cons.IH [of "k + 1" ds] Cons.prems(2) Cons by auto
  qed
qed

lemma has_name_same:
  assumes "has_name a k nm" "same_but W a b" "\<And>j. k \<le> j \<Longrightarrow> j \<le> k + length nm \<Longrightarrow> j \<notin> W"
  shows "has_name b k nm"
proof -
  have "b ! (k + j) = a ! (k + j)" if "j \<le> length nm" for j
    using assms(1,2) assms(3) [of "k + j"] that by (simp add: same_but_def has_name_def)
  then show ?thesis using assms by (simp add: has_name_def same_but_def)
qed

lemma has_name_write:
  assumes "\<forall>j < length (nm @ [0]). b ! (k + j) = (nm @ [0]) ! j" "k + length nm < length b" "0 \<notin> set nm"
  shows "has_name b k nm"
  using assms unfolding has_name_def
  by (metis length_append_singleton less_Suc_eq nth_append nth_append_length)

section \<open>The slot bitmap\<close>

definition ubit :: "bytes \<Rightarrow> nat \<Rightarrow> nat \<Rightarrow> bool" where
  "ubit buf p k \<longleftrightarrow> bit (buf ! (2048 * p + 5 + k div 8)) (k mod 8)"

definition bm :: "nat \<Rightarrow> nat set" where
  "bm p = {2048 * p + 5..<2048 * p + 13}"

lemma bm_off: "bitmap_off (getpage p) + k div 8 = 2048 * p + 5 + k div 8"
  by (simp add: bitmap_off_def getpage_def AFSDIR_PAGESIZE_def)

lemma div8_less: "k < 64 \<Longrightarrow> k div 8 < (8 :: nat)"
  by simp

lemma used_slot_in:
  assumes "2048 * p + 13 \<le> length buf" "k < 64"
  shows "used_slot buf (getpage p) k = Some (ubit buf p k)"
  using assms div8_less [OF assms(2)] by (simp add: used_slot_def bm_off ubit_def)

lemma ubit_same:
  assumes "same_but W a b" "2048 * p + 13 \<le> length a" "k < 64" "\<And>j. j \<in> bm p \<Longrightarrow> j \<notin> W"
  shows "ubit b p k = ubit a p k"
  using assms(1,2) assms(4) [of "2048 * p + 5 + k div 8"] div8_less [OF assms(3)]
  by (simp add: ubit_def same_but_def bm_def)

lemma bit_or_push: "m < 8 \<Longrightarrow> bit ((x :: byte) OR 2 ^ r) m \<longleftrightarrow> bit x m \<or> m = r"
  by (auto simp: bit_or_iff bit_exp_iff)

lemma bit_and_not_push: "m < 8 \<Longrightarrow> bit ((x :: byte) AND NOT (2 ^ r)) m \<longleftrightarrow> bit x m \<and> m \<noteq> r"
  by (auto simp: bit_and_iff bit_not_iff bit_exp_iff)

lemma eq_div_mod: "(j :: nat) = k \<longleftrightarrow> j div 8 = k div 8 \<and> j mod 8 = k mod 8"
  by (metis div_mult_mod_eq)

lemma set_used_ok:
  assumes "2048 * p + 13 \<le> length buf" "k < 64"
  shows "\<exists>b. set_used buf (getpage p) k = Some b \<and> same_but (bm p) buf b \<and>
    (\<forall>j < 64. ubit b p j \<longleftrightarrow> ubit buf p j \<or> j = k)"
proof -
  let ?o = "2048 * p + 5 + k div 8"
  let ?b = "buf[?o := buf ! ?o OR push_bit (k mod 8) 1]"
  have o: "?o < length buf" "?o \<in> bm p" using assms div8_less [OF assms(2)] by (auto simp: bm_def)
  have "set_used buf (getpage p) k = Some ?b" using o(1) by (simp add: set_used_def bm_off w8_def)
  moreover have "same_but (bm p) buf ?b" using o by (auto simp: same_but_def nth_list_update)
  moreover have "ubit ?b p j \<longleftrightarrow> ubit buf p j \<or> j = k" for j
    using o(1) unfolding ubit_def eq_div_mod [of j k]
    by (cases "j div 8 = k div 8") (auto simp: nth_list_update bit_or_push)
  ultimately show ?thesis by blast
qed

lemma set_unused_ok:
  assumes "2048 * p + 13 \<le> length buf" "k < 64"
  shows "\<exists>b. set_unused buf (getpage p) k = Some b \<and> same_but (bm p) buf b \<and>
    (\<forall>j < 64. ubit b p j \<longleftrightarrow> ubit buf p j \<and> j \<noteq> k)"
proof -
  let ?o = "2048 * p + 5 + k div 8"
  let ?b = "buf[?o := buf ! ?o AND NOT (push_bit (k mod 8) 1)]"
  have o: "?o < length buf" "?o \<in> bm p" using assms div8_less [OF assms(2)] by (auto simp: bm_def)
  have "set_unused buf (getpage p) k = Some ?b" using o(1) by (simp add: set_unused_def bm_off w8_def)
  moreover have "same_but (bm p) buf ?b" using o by (auto simp: same_but_def nth_list_update)
  moreover have "ubit ?b p j \<longleftrightarrow> ubit buf p j \<and> j \<noteq> k" for j
    using o(1) unfolding ubit_def eq_div_mod [of j k]
    by (cases "j div 8 = k div 8") (auto simp: nth_list_update bit_and_not_push)
  ultimately show ?thesis by blast
qed

lemma mark_used_ok:
  assumes "2048 * p + 13 \<le> length buf" "\<forall>k \<in> set ks. k < 64"
  shows "\<exists>b. mark_used buf (getpage p) ks = Some b \<and> same_but (bm p) buf b \<and>
    (\<forall>j < 64. ubit b p j \<longleftrightarrow> ubit buf p j \<or> j \<in> set ks)"
  using assms
proof (induction ks arbitrary: buf)
  case Nil
  then show ?case by (auto simp: same_but_def)
next
  case (Cons k ks)
  from set_used_ok [OF Cons.prems(1), of k] Cons.prems(2) obtain c where
    c: "set_used buf (getpage p) k = Some c" "same_but (bm p) buf c" "\<forall>j < 64. ubit c p j \<longleftrightarrow> ubit buf p j \<or> j = k" by auto
  have "2048 * p + 13 \<le> length c" using c(2) Cons.prems(1) by (simp add: same_but_def)
  from Cons.IH [OF this] Cons.prems(2) obtain b where
    b: "mark_used c (getpage p) ks = Some b" "same_but (bm p) c b" "\<forall>j < 64. ubit b p j \<longleftrightarrow> ubit c p j \<or> j \<in> set ks" by auto
  then show ?case using c same_but_trans [OF c(2) b(2)] by auto
qed

lemma mark_unused_ok:
  assumes "2048 * p + 13 \<le> length buf" "\<forall>k \<in> set ks. k < 64"
  shows "\<exists>b. mark_unused buf (getpage p) ks = Some b \<and> same_but (bm p) buf b \<and>
    (\<forall>j < 64. ubit b p j \<longleftrightarrow> ubit buf p j \<and> j \<notin> set ks)"
  using assms
proof (induction ks arbitrary: buf)
  case Nil
  then show ?case by (auto simp: same_but_def)
next
  case (Cons k ks)
  from set_unused_ok [OF Cons.prems(1), of k] Cons.prems(2) obtain c where
    c: "set_unused buf (getpage p) k = Some c" "same_but (bm p) buf c" "\<forall>j < 64. ubit c p j \<longleftrightarrow> ubit buf p j \<and> j \<noteq> k" by auto
  have "2048 * p + 13 \<le> length c" using c(2) Cons.prems(1) by (simp add: same_but_def)
  from Cons.IH [OF this] Cons.prems(2) obtain b where
    b: "mark_unused c (getpage p) ks = Some b" "same_but (bm p) c b" "\<forall>j < 64. ubit b p j \<longleftrightarrow> ubit c p j \<and> j \<notin> set ks" by auto
  then show ?case using c same_but_trans [OF c(2) b(2)] by auto
qed

section \<open>Finding free slots\<close>

lemma free_run_ok:
  assumes "2048 * p + 13 \<le> length buf" "i + n \<le> 63"
  shows "\<exists>j \<le> n. free_run buf (getpage p) i n = Some j \<and> (\<forall>k. i < k \<and> k \<le> i + j \<longrightarrow> \<not> ubit buf p k) \<and>
    (j < n \<longrightarrow> ubit buf p (i + j + 1))"
  using assms(2)
proof (induction n arbitrary: i)
  case (Suc n)
  have u: "used_slot buf (getpage p) (i + 1) = Some (ubit buf p (i + 1))"
    using assms(1) Suc.prems by (intro used_slot_in) auto
  show ?case
  proof (cases "ubit buf p (i + 1)")
    case True
    with u show ?thesis by (intro exI [of _ 0]) auto
  next
    case False
    from Suc.IH [of "i + 1"] Suc.prems obtain j where
      j: "j \<le> n" "free_run buf (getpage p) (i + 1) n = Some j" "\<forall>k. i + 1 < k \<and> k \<le> i + 1 + j \<longrightarrow> \<not> ubit buf p k"
      "j < n \<longrightarrow> ubit buf p (i + 1 + j + 1)" by auto
    have "\<forall>k. i < k \<and> k \<le> i + Suc j \<longrightarrow> \<not> ubit buf p k"
      using j(3) False by (metis Suc_eq_plus1 add_Suc_right add_Suc_shift less_antisym not_less_eq)
    with j u False show ?thesis by (intro exI [of _ "Suc j"]) auto
  qed
qed auto

declare add_scan.simps [simp del]

lemma add_scan_ok:
  assumes "2048 * p + 13 \<le> length buf" "0 < n" "n \<le> 63"
  shows "\<exists>r. add_scan buf (getpage p) n i = Some r \<and>
    (case r of None \<Rightarrow> True | Some i' \<Rightarrow> i' + n \<le> 63 \<and> (\<forall>k. i' < k \<and> k \<le> i' + n \<longrightarrow> \<not> ubit buf p k))"
proof (induction "64 - i" arbitrary: i rule: less_induct)
  case less
  have lim: "(ENTRIESPERPAGE + 2 ^ 32 - n) mod 2 ^ 32 = 64 - n"
    using assms(2,3) by (simp add: ENTRIESPERPAGE_def mod_if)
  show ?case
  proof (cases "i < 64 - n")
    case True
    then have iin: "i + n \<le> 63" by simp
    obtain j where j: "j \<le> n" "free_run buf (getpage p) i n = Some j" "\<forall>k. i < k \<and> k \<le> i + j \<longrightarrow> \<not> ubit buf p k"
      using free_run_ok [OF assms(1), of i n] iin by blast
    show ?thesis
    proof (cases "j = n")
      case True
      then have "add_scan buf (getpage p) n i = Some (Some i)"
        using j \<open>i < 64 - n\<close> by (subst add_scan.simps) (simp only: lim, simp)
      then show ?thesis using j True \<open>i < 64 - n\<close> by auto
    next
      case False
      then have "add_scan buf (getpage p) n i = add_scan buf (getpage p) n (i + j + 1)"
        using j \<open>i < 64 - n\<close> by (subst add_scan.simps) (simp only: lim, simp)
      then show ?thesis using less [of "i + j + 1"] \<open>i < 64 - n\<close> by auto
    qed
  next
    case False
    then show ?thesis by (subst add_scan.simps) (simp only: lim, simp)
  qed
qed

lemma add_scan_free:
  assumes "2048 * p + 13 \<le> length buf" "0 < n" "n \<le> 63" "\<forall>k. 0 < k \<and> k \<le> n \<longrightarrow> \<not> ubit buf p k"
  shows "add_scan buf (getpage p) n 0 = Some (Some 0)"
proof -
  have lim: "(ENTRIESPERPAGE + 2 ^ 32 - n) mod 2 ^ 32 = 64 - n"
    using assms(2,3) by (simp add: ENTRIESPERPAGE_def mod_if)
  obtain j where j: "j \<le> n" "free_run buf (getpage p) 0 n = Some j" "j < n \<longrightarrow> ubit buf p (j + 1)"
    using free_run_ok [OF assms(1), of 0 n] assms(3) by auto
  then have "j = n" using assms(4) by (metis Suc_eq_plus1 Suc_leI le_neq_implies_less zero_less_Suc)
  then show ?thesis using j(2) assms(3) by (subst add_scan.simps) (simp only: lim, simp)
qed

section \<open>Entries\<close>

text \<open>
  An abstract entry: its slot number counted over all pages, its name and its fid. It occupies
  \<open>nslots\<close> slots and its bytes start at \<open>eoff\<close>.
\<close>

record dent =
  d_num :: nat
  d_name :: bytes
  d_vn :: u32
  d_un :: u32

definition nslots :: "bytes \<Rightarrow> nat" where
  "nslots nm = 1 + (length nm + 16) div 32"

definition good_name :: "bytes \<Rightarrow> bool" where
  "good_name nm \<longleftrightarrow> 0 \<notin> set nm \<and> nslots nm \<le> 63"

definition eoff :: "dent \<Rightarrow> nat" where
  "eoff d = 32 * (d_num d + 1)"

definition slots :: "dent \<Rightarrow> nat set" where
  "slots d = {d_num d..<d_num d + nslots (d_name d)}"

definition nextb :: "dent \<Rightarrow> nat set" where
  "nextb d = {eoff d + 2, eoff d + 3}"

definition dbytes :: "dent \<Rightarrow> nat set" where
  "dbytes d = {eoff d..<eoff d + 32 * nslots (d_name d)}"

definition dent_at :: "bytes \<Rightarrow> dent \<Rightarrow> bool" where
  "dent_at buf d \<longleftrightarrow> d_num d mod 64 + nslots (d_name d) \<le> 63 \<and> eoff d + 32 * nslots (d_name d) \<le> length buf \<and>
     buf ! eoff d = 1 \<and> f32 buf (eoff d + 4) = d_vn d \<and> f32 buf (eoff d + 8) = d_un d \<and>
     has_name buf (eoff d + 12) (d_name d)"

fun linked :: "bytes \<Rightarrow> u16 \<Rightarrow> dent list \<Rightarrow> bool" where
  "linked buf v [] \<longleftrightarrow> v = 0"
| "linked buf v (d # ds) \<longleftrightarrow> v = of_nat (d_num d + 1) \<and> linked buf (f16 buf (eoff d + 2)) ds"

lemma nslots_bound: "length nm + 17 \<le> 32 * nslots nm" "1 \<le> nslots nm"
  unfolding nslots_def by simp_all

lemma nslots_additional: "1 + additional_entries (length nm) None None = nslots nm"
  by (simp add: additional_entries_def nslots_def fdir_sizes)

lemma nextb_dbytes: "nextb d \<subseteq> dbytes d"
  using nslots_bound(1) [of "d_name d"] by (auto simp: nextb_def dbytes_def)

lemma dbytes_disjoint: "slots d \<inter> slots d' = {} \<Longrightarrow> dbytes d \<inter> dbytes d' = {}"
proof (rule ccontr)
  assume s: "slots d \<inter> slots d' = {}" "dbytes d \<inter> dbytes d' \<noteq> {}"
  then obtain k where k: "k \<in> dbytes d" "k \<in> dbytes d'" by auto
  have "k div 32 - 1 \<in> slots e" if "k \<in> dbytes e" for e
    using that by (auto simp: dbytes_def eoff_def slots_def)
  with k s(1) show False by auto
qed

definition agree :: "nat set \<Rightarrow> bytes \<Rightarrow> bytes \<Rightarrow> bool" where
  "agree S a b \<longleftrightarrow> (\<forall>k \<in> S. k < length b \<and> b ! k = a ! k)"

lemma agree_mono: "agree T a b \<Longrightarrow> S \<subseteq> T \<Longrightarrow> agree S a b"
  by (auto simp: agree_def)

lemma same_agree: "same_but W a b \<Longrightarrow> (\<forall>k \<in> S. k < length a \<and> k \<notin> W) \<Longrightarrow> agree S a b"
  by (auto simp: agree_def same_but_def)

lemma dent_at_agree:
  assumes "dent_at a d" "agree (dbytes d - nextb d) a b"
  shows "dent_at b d"
proof -
  let ?o = "eoff d" and ?n = "nslots (d_name d)"
  have nb: "length (d_name d) + 17 \<le> 32 * ?n" by (rule nslots_bound)
  have ag: "k < length b \<and> b ! k = a ! k" if "?o \<le> k" "k < ?o + 32 * ?n" "k \<noteq> ?o + 2" "k \<noteq> ?o + 3" for k
    using assms(2) that by (auto simp: agree_def dbytes_def nextb_def)
  have "?o + 32 * ?n - 1 < length b" using ag [of "?o + 32 * ?n - 1"] nb by linarith
  then have "?o + 32 * ?n \<le> length b" by linarith
  moreover have "b ! ?o = a ! ?o" using ag [of ?o] nb by auto
  moreover have "f32 b (?o + 4) = f32 a (?o + 4)"
    unfolding f32_def using ag [of "?o + 4"] ag [of "?o + 5"] ag [of "?o + 6"] ag [of "?o + 7"] nb by (simp add: ac_simps)
  moreover have "f32 b (?o + 8) = f32 a (?o + 8)"
    unfolding f32_def using ag [of "?o + 8"] ag [of "?o + 9"] ag [of "?o + 10"] ag [of "?o + 11"] nb by (simp add: ac_simps)
  moreover have "b ! (?o + 12 + j) = a ! (?o + 12 + j) \<and> ?o + 12 + j < length b" if "j \<le> length (d_name d)" for j
    using ag [of "?o + 12 + j"] that nb by auto
  then have "has_name b (?o + 12) (d_name d)"
    using assms(1) by (simp add: dent_at_def has_name_def)
  ultimately show ?thesis using assms(1) by (simp add: dent_at_def)
qed

lemma linked_agree:
  "linked a v ds \<Longrightarrow> \<forall>d \<in> set ds. agree (nextb d) a b \<Longrightarrow> linked b v ds"
proof (induction ds arbitrary: v)
  case (Cons d ds)
  have "f16 b (eoff d + 2) = f16 a (eoff d + 2)"
    using Cons.prems(2) by (simp add: agree_def nextb_def f16_def eval_nat_numeral)
  with Cons show ?case by simp
qed simp

section \<open>The invariant\<close>

definition ents :: "(nat \<Rightarrow> dent list) \<Rightarrow> dent set" where
  "ents C = (\<Union>h < 128. set (C h))"

definition reserved :: "nat \<Rightarrow> nat \<Rightarrow> nat \<Rightarrow> bool" where
  "reserved r p k \<longleftrightarrow> k = 0 \<or> p = 0 \<and> k < r"

definition nfree :: "bytes \<Rightarrow> nat \<Rightarrow> nat" where
  "nfree buf p = card {k. k < 64 \<and> \<not> ubit buf p k}"

text \<open>
  \<open>chains_ok\<close>: the hash chains spell out the lists of entries \<open>C\<close>, each entry is stored and in the
  chain of its name, names are unique and entries do not overlap.
\<close>

definition chains_ok :: "nat \<Rightarrow> nat \<Rightarrow> bytes \<Rightarrow> (nat \<Rightarrow> dent list) \<Rightarrow> bool" where
  "chains_ok r np buf C \<longleftrightarrow>
     (\<forall>h < 128. linked buf (f16 buf (160 + 2 * h)) (C h) \<and> distinct (map d_name (C h)) \<and>
        (\<forall>d \<in> set (C h). hashentry (d_name d) = h)) \<and>
     (\<forall>d \<in> ents C. dent_at buf d \<and> d_num d div 64 < np \<and> r - 1 \<le> d_num d) \<and>
     (\<forall>d \<in> ents C. \<forall>d' \<in> ents C. d \<noteq> d' \<longrightarrow> slots d \<inter> slots d' = {})"

text \<open>\<open>alloc_ok\<close>: the bitmaps and the allocation map describe exactly the slots in use.\<close>

definition alloc_ok :: "nat \<Rightarrow> nat \<Rightarrow> bytes \<Rightarrow> (nat \<Rightarrow> dent list) \<Rightarrow> bool" where
  "alloc_ok r np buf C \<longleftrightarrow>
     (\<forall>p < np. (\<forall>k < 64. ubit buf p k \<longleftrightarrow> reserved r p k \<or> (\<exists>d \<in> ents C. 64 * p + k - 1 \<in> slots d)) \<and>
        (p < 128 \<longrightarrow> unat (buf ! (32 + p)) = nfree buf p))"

definition pages_ok :: "nat \<Rightarrow> nat \<Rightarrow> bytes \<Rightarrow> bool" where
  "pages_ok r np buf \<longleftrightarrow>
     length buf = 2048 * np \<and> 1 \<le> np \<and> np \<le> 1023 \<and> 13 \<le> r \<and> r \<le> 45 \<and> unat (f16 buf 0) \<le> np \<and>
     (\<forall>p < np. good_tag (f16 buf (2048 * p + 2))) \<and>
     (\<forall>n. 12 \<le> n \<and> n < r - 1 \<longrightarrow> buf ! (32 * (n + 1)) = 0)"

definition dir_inv :: "nat \<Rightarrow> nat \<Rightarrow> bytes \<Rightarrow> (nat \<Rightarrow> dent list) \<Rightarrow> bool" where
  "dir_inv r np buf C \<longleftrightarrow> pages_ok r np buf \<and> chains_ok r np buf C \<and> alloc_ok r np buf C"

text \<open>The abstract directory: a finite map from names to vnode and uniquifier.\<close>

definition dlook :: "(nat \<Rightarrow> dent list) \<Rightarrow> bytes \<Rightarrow> (u32 \<times> u32) option" where
  "dlook C nm = map_option (\<lambda>d. (d_vn d, d_un d)) (find (\<lambda>d. d_name d = nm) (C (hashentry nm)))"

definition dir_rep :: "nat \<Rightarrow> bytes \<Rightarrow> (bytes \<Rightarrow> (u32 \<times> u32) option) \<Rightarrow> bool" where
  "dir_rep r buf M \<longleftrightarrow> (\<exists>C. dir_inv r (length buf div 2048) buf C \<and> M = dlook C)"

lemma hashentry_less: "hashentry nm < 128"
proof -
  let ?h = "nat (hash_loop 0 nm mod 128)"
  have "?h < 128" by (simp add: nat_less_iff)
  then show ?thesis by (auto simp: hashentry_def Let_def fdir_sizes)
qed

lemma dir_npages_ok: "pages_ok r np buf \<Longrightarrow> dir_npages buf = Some np"
  by (auto simp: pages_ok_def dir_npages_def b16_in fdir_sizes)

section \<open>Lookup\<close>

lemma num_word:
  assumes "m < 65472"
  shows "unat (of_nat (m + 1) - 1 :: u16) = m" "(of_nat (m + 1) :: u16) \<noteq> 0" "unat (of_nat (m + 1) :: u16) = m + 1"
proof -
  show 1: "unat (of_nat (m + 1) :: u16) = m + 1"
    using assms by (simp only: unat_of_nat) (simp add: take_bit_nat_eq_self)
  have "(of_nat (m + 1) - 1 :: u16) = of_nat m" by simp
  then show "unat (of_nat (m + 1) - 1 :: u16) = m"
    using assms by (simp only: unat_of_nat) (simp add: take_bit_nat_eq_self)
  show "(of_nat (m + 1) :: u16) \<noteq> 0" using 1 by (metis add_is_0 unat_0 zero_neq_one)
qed

lemma getentry_ok:
  assumes "pages_ok r np buf" "d_num d div 64 < np"
  shows "getentry buf (of_nat (d_num d + 1) - 1) np = Some (Some (eoff d))"
proof -
  have np: "np \<le> 1023" "length buf = 2048 * np" using assms(1) by (auto simp: pages_ok_def)
  have n: "unat (of_nat (d_num d + 1) - 1 :: u16) = d_num d"
    using assms(2) np(1) by (intro num_word) linarith
  have "b16 buf (2048 * (d_num d div 64) + 2) = Some (f16 buf (2048 * (d_num d div 64) + 2))"
    using assms(2) np by (intro b16_in) simp
  moreover have "good_tag (f16 buf (2048 * (d_num d div 64) + 2))" using assms by (simp add: pages_ok_def)
  moreover have aux: "2048 * q + 32 + 32 * m = 32 * (k + 1)" if "64 * q + m = k" for q m k :: nat
    using that by auto
  have "2048 * (d_num d div 64) + 32 + 32 * (d_num d mod 64) = eoff d"
    unfolding eoff_def by (rule aux [OF mult_div_mod_eq])
  ultimately show ?thesis
    using assms(2) unfolding getentry_def n by (simp add: getpage_def entry_at_def fdir_sizes)
qed

lemma find_loop_ok:
  assumes "pages_ok r np buf" "0 \<notin> set name"
  shows "linked buf v ds \<Longrightarrow> \<forall>d \<in> set ds. dent_at buf d \<and> d_num d div 64 < np \<Longrightarrow>
    find_loop buf name np v = Some (map_option eoff (find (\<lambda>d. d_name d = name) ds))"
proof (induction ds arbitrary: v)
  case Nil
  then show ?case by (simp add: find_loop.simps)
next
  case (Cons d ds)
  have d: "dent_at buf d" "d_num d div 64 < np" "v = of_nat (d_num d + 1)" using Cons.prems by auto
  have "np \<le> 1023" using assms(1) by (simp add: pages_ok_def)
  then have "v \<noteq> 0" unfolding d(3) using d(2) by (intro num_word) linarith
  moreover have "getentry buf (v - 1) np = Some (Some (eoff d))"
    unfolding d(3) by (rule getentry_ok [OF assms(1) d(2)])
  moreover have "strcmp_eq buf (eoff d + 12) name = Some (d_name d = name)"
    using d(1) assms(2) by (intro strcmp_has_name) (auto simp: dent_at_def)
  moreover have "b16 buf (eoff d + 2) = Some (f16 buf (eoff d + 2))"
    using d(1) nslots_bound [of "d_name d"] by (intro b16_in) (auto simp: dent_at_def)
  ultimately show ?case using Cons by (subst find_loop.simps) simp
qed

lemma chainsD:
  assumes "chains_ok r np buf C" "h < 128"
  shows "linked buf (f16 buf (160 + 2 * h)) (C h)" "\<forall>d \<in> set (C h). dent_at buf d \<and> d_num d div 64 < np \<and> r - 1 \<le> d_num d"
    "distinct (map d_name (C h))" "\<forall>d \<in> set (C h). d \<in> ents C \<and> hashentry (d_name d) = h"
  using assms by (auto simp: chains_ok_def ents_def)

lemma entsD:
  assumes "chains_ok r np buf C" "d \<in> ents C"
  shows "dent_at buf d" "d_num d div 64 < np" "r - 1 \<le> d_num d" "d \<in> set (C (hashentry (d_name d)))"
  using assms by (auto simp: chains_ok_def ents_def)

lemma find_entry_ok:
  assumes "pages_ok r np buf" "chains_ok r np buf C" "0 \<notin> set name"
  shows "find_entry buf name np = Some (map_option eoff (find (\<lambda>d. d_name d = name) (C (hashentry name))))"
proof -
  have h: "hashentry name < 128" by (rule hashentry_less)
  have "b16 buf (160 + 2 * hashentry name) = Some (f16 buf (160 + 2 * hashentry name))"
    using assms(1) h by (intro b16_in) (auto simp: pages_ok_def)
  then show ?thesis
    using find_loop_ok [OF assms(1,3) chainsD(1) [OF assms(2) h]] chainsD(2) [OF assms(2) h]
    by (simp add: find_entry_def hash_off_def fdir_sizes)
qed

lemma find_SomeD: "find P xs = Some x \<Longrightarrow> x \<in> set xs \<and> P x"
  by (induction xs) (auto split: if_splits)

definition fid_of :: "VenusFid \<Rightarrow> u32 \<times> u32 \<Rightarrow> VenusFid" where
  "fid_of dir vu = \<lparr>Cell = Cell dir, Volume = Volume dir, Vnode = fst vu, Unique = snd vu\<rparr>"

lemma lookup_inv:
  assumes "dir_inv r np buf C" "0 \<notin> set name"
  shows "fdir_lookup buf dir name =
    Some (case dlook C name of None \<Rightarrow> (ENOENT, None) | Some vu \<Rightarrow> (0, Some (fid_of dir vu)))"
proof -
  have inv: "pages_ok r np buf" "chains_ok r np buf C" using assms(1) by (auto simp: dir_inv_def)
  note f = find_entry_ok [OF inv assms(2)]
  show ?thesis
  proof (cases "find (\<lambda>d. d_name d = name) (C (hashentry name))")
    case None
    then show ?thesis by (simp add: fdir_lookup_def dir_npages_ok [OF inv(1)] find_by_name_def f dlook_def)
  next
    case (Some d)
    then have "dent_at buf d" using find_SomeD [OF Some] chainsD(2) [OF inv(2) hashentry_less] by auto
    then have "b32 buf (eoff d + 4) = Some (d_vn d)" "b32 buf (eoff d + 8) = Some (d_un d)"
      using nslots_bound [of "d_name d"] by (auto simp: dent_at_def b32_in)
    then show ?thesis using Some
      by (simp add: fdir_lookup_def dir_npages_ok [OF inv(1)] find_by_name_def f dlook_def fid_of_def)
  qed
qed

section \<open>Adding an entry to a page\<close>

lemma entry_fields:
  assumes "\<forall>j < 12. b ! (e + j) = ([1, 0] @ be16 nx @ be32 vn @ be32 un) ! j"
  shows "b ! e = 1" "f16 b (e + 2) = nx" "f32 b (e + 4) = vn" "f32 b (e + 8) = un"
proof -
  have j: "b ! (e + j) = ([1, 0] @ be16 nx @ be32 vn @ be32 un) ! j" if "j < 12" for j using assms that by blast
  note ev = be16_def be32_def eval_nat_numeral
  show "b ! e = 1" using j [of 0] by simp
  show "f16 b (e + 2) = nx"
    using j [of 2] j [of 3] by (intro f16_be16) (simp_all add: ev)
  show "f32 b (e + 4) = vn"
    using j [of 4] j [of 5] j [of 6] j [of 7] by (intro f32_be32) (simp_all add: ev)
  show "f32 b (e + 8) = un"
    using j [of 8] j [of 9] j [of 10] j [of 11] by (intro f32_be32) (simp_all add: ev)
qed

lemma entry_write:
  assumes "eoff d + 32 * nslots (d_name d) \<le> length a" "0 \<notin> set (d_name d)"
    "d_num d mod 64 + nslots (d_name d) \<le> 63"
  shows "\<exists>b1 b2 b3. wbytes a (eoff d) ([1, 0] @ be16 nx @ be32 (d_vn d) @ be32 (d_un d)) = Some b1 \<and>
    wbytes b1 (eoff d + 12) (d_name d @ [0]) = Some b2 \<and>
    wbytes b2 (eoff d + 32 * nslots (d_name d) - 4) (replicate 4 0) = Some b3 \<and>
    same_but (dbytes d) a b3 \<and> dent_at b3 d \<and> f16 b3 (eoff d + 2) = nx"
proof -
  let ?e = "eoff d" and ?n = "nslots (d_name d)" and ?h = "[1, 0] @ be16 nx @ be32 (d_vn d) @ be32 (d_un d)"
  have nb: "length (d_name d) + 17 \<le> 32 * ?n" by (rule nslots_bound)
  have lh: "length ?h = 12" by (simp add: be32_def)
  obtain b1 where b1: "wbytes a ?e ?h = Some b1" "same_but {?e..<?e + 12} a b1" "\<forall>j < 12. b1 ! (?e + j) = ?h ! j"
    using wbytes_Some [of ?e ?h a] assms(1) nb unfolding lh by auto
  have l1: "length b1 = length a" using b1(2) by (simp add: same_but_def)
  obtain b2 where b2: "wbytes b1 (?e + 12) (d_name d @ [0]) = Some b2"
    "same_but {?e + 12..<?e + 12 + length (d_name d @ [0])} b1 b2"
    "\<forall>j < length (d_name d @ [0]). b2 ! (?e + 12 + j) = (d_name d @ [0]) ! j"
    using wbytes_Some [of "?e + 12" "d_name d @ [0]" b1] assms(1) nb l1 by auto
  have l2: "length b2 = length a" using b2(2) l1 by (simp add: same_but_def)
  obtain b3 where b3: "wbytes b2 (?e + 32 * ?n - 4) (replicate 4 0) = Some b3"
    "same_but {?e + 32 * ?n - 4..<?e + 32 * ?n - 4 + 4} b2 b3"
    using wbytes_Some [of "?e + 32 * ?n - 4" "replicate 4 0" b2] assms(1) nb l2 by auto
  have l3: "length b3 = length a" using b3(2) l2 by (simp add: same_but_def)
  have nm2: "has_name b2 (?e + 12) (d_name d)" by (rule has_name_write) (use b2(3) assms nb l2 in auto)
  have nm: "has_name b3 (?e + 12) (d_name d)" by (rule has_name_same [OF nm2 b3(2)]) (use nb in auto)
  have s: "same_but ({?e + 12..<?e + 12 + length (d_name d @ [0])} \<union> {?e + 32 * ?n - 4..<?e + 32 * ?n - 4 + 4}) b1 b3"
    by (rule same_but_trans [OF b2(2) b3(2)])
  have "\<forall>j < 12. b3 ! (?e + j) = ?h ! j"
    using s b1(3) l1 assms(1) nb by (auto simp: same_but_def)
  note fl = entry_fields [OF this]
  have "same_but (dbytes d) a b3"
    by (rule same_but_mono [OF same_but_trans [OF b1(2) s]]) (use nb in \<open>auto simp: dbytes_def\<close>)
  moreover have "dent_at b3 d" using fl nm assms l3 by (simp add: dent_at_def)
  ultimately show ?thesis using b1(1) b2(1) b3(1) fl(2) by blast
qed

text \<open>Where a page of the directory can be written without touching the tables of page 0.\<close>

definition mapb :: "nat \<Rightarrow> nat set" where
  "mapb p = (if p < 128 then {32 + p} else {})"

lemma page_entry:
  fixes i n p np :: nat
  assumes "i + n \<le> 63" "p < np" "p = 0 \<longrightarrow> 12 \<le> i"
  shows "416 \<le> 32 * (64 * p + i + 1)" "32 * (64 * p + i + 1) + 32 * n \<le> 2048 * np"
    "2048 * p + 32 \<le> 32 * (64 * p + i + 1)" "32 * (64 * p + i + 1) + 32 * n \<le> 2048 * (p + 1)"
    "(64 * p + i) mod 64 = i mod 64"
proof -
  have "p + 1 \<le> np" using assms(2) by simp
  then have "2048 * (p + 1) \<le> 2048 * np" by (rule mult_le_mono2)
  then show "32 * (64 * p + i + 1) + 32 * n \<le> 2048 * np" using assms(1) by simp
  show "416 \<le> 32 * (64 * p + i + 1)" using assms(3) by (cases p) auto
  show "2048 * p + 32 \<le> 32 * (64 * p + i + 1)" by simp
  show "32 * (64 * p + i + 1) + 32 * n \<le> 2048 * (p + 1)" using assms(1) by simp
  show "(64 * p + i) mod 64 = i mod 64" by simp
qed

lemma nfree_mark:
  assumes "\<forall>j < 64. ubit b p j \<longleftrightarrow> ubit a p j \<or> i < j \<and> j \<le> i + n" "i + n \<le> 63"
    "\<forall>k. i < k \<and> k \<le> i + n \<longrightarrow> \<not> ubit a p k"
  shows "nfree b p + n = nfree a p"
proof -
  have "{k. k < 64 \<and> \<not> ubit a p k} = {k. k < 64 \<and> \<not> ubit b p k} \<union> {i + 1..<i + n + 1}"
    using assms by auto
  moreover have "{k. k < 64 \<and> \<not> ubit b p k} \<inter> {i + 1..<i + n + 1} = {}" using assms by auto
  ultimately show ?thesis by (simp add: nfree_def card_Un_disjoint)
qed

lemma nfree_le: "nfree a p \<le> 64"
proof -
  have "{k. k < 64 \<and> \<not> ubit a p k} \<subseteq> {..<64}" by auto
  from card_mono [OF _ this] show ?thesis by (simp add: nfree_def)
qed

lemma nfree_same:
  assumes "same_but W a b" "2048 * p + 13 \<le> length a" "\<And>j. j \<in> bm p \<Longrightarrow> j \<notin> W"
  shows "nfree b p = nfree a p"
  using ubit_same [OF assms(1,2) _ assms(3)] by (simp add: nfree_def cong: conj_cong)

lemma map_minus:
  assumes "unat (m :: byte) = f + n" "f + n \<le> 64"
  shows "unat (m - of_nat n) = f"
proof -
  have n: "unat (of_nat n :: byte) = n" using assms(2) by (simp add: unat_of_nat take_bit_nat_eq_self)
  then have "(of_nat n :: byte) \<le> m" using assms(1) by (simp add: word_le_nat_alt)
  then show ?thesis using n assms(1) by (simp add: unat_sub)
qed

lemma map_plus:
  assumes "unat (m :: byte) = f" "f + n \<le> 64"
  shows "unat (m + of_nat n) = f + n"
proof -
  have "unat (of_nat n :: byte) = n" using assms(2) by (simp add: unat_of_nat take_bit_nat_eq_self)
  then show ?thesis using assms by (simp add: unat_word_ariths)
qed

definition added :: "bytes \<Rightarrow> nat \<Rightarrow> dent \<Rightarrow> u16 \<Rightarrow> bytes \<Rightarrow> bool" where
  "added a p d nx b \<longleftrightarrow>
     d_num d div 64 = p \<and> (\<forall>k \<in> slots d. \<not> ubit a p (k mod 64 + 1)) \<and>
     same_but (bm p \<union> dbytes d \<union> mapb p) a b \<and> dent_at b d \<and> f16 b (eoff d + 2) = nx \<and>
     (\<forall>k < 64. ubit b p k \<longleftrightarrow> ubit a p k \<or> 0 < k \<and> 64 * p + k - 1 \<in> slots d) \<and>
     (p < 128 \<longrightarrow> unat (b ! (32 + p)) = nfree b p)"


lemma slots_page:
  assumes "d_num d = 64 * p + i" "i + nslots (d_name d) \<le> 63" "i < 64"
  shows "\<forall>k \<in> slots d. i < k mod 64 + 1 \<and> k mod 64 + 1 \<le> i + nslots (d_name d)"
    "0 < k \<and> 64 * p + k - 1 \<in> slots d \<longleftrightarrow> i < k \<and> k \<le> i + nslots (d_name d)"
proof -
  have "k mod 64 = k - 64 * p" if "k \<in> slots d" for k
  proof -
    have "k = 64 * p + (k - 64 * p)" "k - 64 * p < 64" using that assms by (auto simp: slots_def)
    then show ?thesis by (metis mod_less mod_mult_self4)
  qed
  then show "\<forall>k \<in> slots d. i < k mod 64 + 1 \<and> k mod 64 + 1 \<le> i + nslots (d_name d)"
    using assms by (auto simp: slots_def)
  show "0 < k \<and> 64 * p + k - 1 \<in> slots d \<longleftrightarrow> i < k \<and> k \<le> i + nslots (d_name d)"
    using assms by (auto simp: slots_def)
qed

lemma add_to_page_at:
  assumes buf: "length buf = 2048 * np" "p < np" "p = 0 \<longrightarrow> 12 \<le> i" "p < 128 \<longrightarrow> unat (buf ! (32 + p)) = nfree buf p"
    and nm: "good_name nm"
    and room: "p < 128 \<longrightarrow> \<not> unat (buf ! (32 + p)) < nslots nm"
    and scan: "add_scan buf (getpage p) (nslots nm) 0 = Some (Some i)" "i + nslots nm \<le> 63"
      "\<forall>k. i < k \<and> k \<le> i + nslots nm \<longrightarrow> \<not> ubit buf p k"
  shows "\<exists>b. add_to_page buf (getpage p) p nm None fid nx = Some (int i, b) \<and>
    added buf p \<lparr>d_num = 64 * p + i, d_name = nm, d_vn = fVnode fid, d_un = fUnique fid\<rparr> nx b"
proof -
  let ?n = "nslots nm" and ?d = "\<lparr>d_num = 64 * p + i, d_name = nm, d_vn = fVnode fid, d_un = fUnique fid\<rparr>"
  have nb: "length nm + 17 \<le> 32 * ?n" "1 \<le> ?n" by (rule nslots_bound)+
  have len: "2048 * p + 2048 \<le> length buf" using buf(1,2) by simp
  obtain b0 where b0: "mark_used buf (getpage p) [i + 1..<i + ?n + 1] = Some b0" "same_but (bm p) buf b0"
    "\<forall>j < 64. ubit b0 p j \<longleftrightarrow> ubit buf p j \<or> j \<in> set [i + 1..<i + ?n + 1]"
    using mark_used_ok [of p buf "[i + 1..<i + ?n + 1]"] len scan(2) by (auto simp del: upt_Suc)
  have l0: "length b0 = length buf" using b0(2) by (simp add: same_but_def)
  note pe = page_entry [OF scan(2) buf(2,3)]
  have e: "eoff ?d = 32 * (64 * p + i + 1)" by (simp add: eoff_def)
  obtain b1 b2 b3 where w: "wbytes b0 (eoff ?d) ([1, 0] @ be16 nx @ be32 (d_vn ?d) @ be32 (d_un ?d)) = Some b1"
    "wbytes b1 (eoff ?d + 12) (d_name ?d @ [0]) = Some b2"
    "wbytes b2 (eoff ?d + 32 * nslots (d_name ?d) - 4) (replicate 4 0) = Some b3"
    "same_but (dbytes ?d) b0 b3" "dent_at b3 ?d" "f16 b3 (eoff ?d + 2) = nx"
    using entry_write [of ?d b0 nx] pe scan(2) nm nb(2) l0 buf(1) unfolding e by (auto simp: good_name_def)
  have db: "dbytes ?d = {32 * (64 * p + i + 1)..<32 * (64 * p + i + 1) + 32 * ?n}" by (simp add: dbytes_def e)
  have reg: "\<And>j. j \<in> bm p \<Longrightarrow> j \<notin> dbytes ?d \<union> mapb p" "\<And>j. j \<in> dbytes ?d \<Longrightarrow> j \<notin> mapb p"
    "p < 128 \<Longrightarrow> 32 + p \<notin> bm p \<union> dbytes ?d"
    using pe(1,3) unfolding db by (cases p; auto simp: bm_def mapb_def split: if_splits)+
  have s3: "same_but (bm p \<union> dbytes ?d) buf b3" by (rule same_but_trans [OF b0(2) w(4)])
  then have l3: "length b3 = length buf" by (simp add: same_but_def)
  let ?m = "if p < 128 then do { m \<leftarrow> b8 b3 (32 + p); w8 b3 (32 + p) (m - of_nat ?n) } else Some b3"
  obtain b4 where b4: "?m = Some b4" "same_but (mapb p) b3 b4" "p < 128 \<longrightarrow> b4 ! (32 + p) = b3 ! (32 + p) - of_nat ?n"
  proof (cases "p < 128")
    case True
    then obtain b4 where "w8 b3 (32 + p) (b3 ! (32 + p) - of_nat ?n) = Some b4" "same_but {32 + p} b3 b4"
      "b4 ! (32 + p) = b3 ! (32 + p) - of_nat ?n" using w8_Some [of "32 + p" b3] len l3 by fastforce
    then show ?thesis using that [of b4] True len l3 by (simp add: mapb_def)
  qed (use that [of b3] in \<open>simp_all add: mapb_def same_but_def\<close>)
  have add: "add_to_page buf (getpage p) p nm None fid nx = Some (int i, b4)"
  proof -
    have ent: "entry_at (getpage p) i = eoff ?d" "entry_at (getpage p) (i + ?n - Suc 0) + 28 = eoff ?d + 32 * ?n - 4"
      using nb(2) by (auto simp: entry_at_def getpage_def eoff_def fdir_sizes algebra_simps)
    have full: "(if p < 128 then do { m \<leftarrow> b8 buf (32 + p); Some (unat m < ?n) } else Some False) = Some False"
      using room len by simp
    show ?thesis
      unfolding add_to_page_def map_option_case option.case nslots_additional Let_def map_off_def MAXPAGES_def full
      using scan(1) b0(1) w(1-3) b4(1) by (simp add: ent AFSDIR_FIRST_def del: upt_Suc)
  qed
  have s4: "same_but (bm p \<union> dbytes ?d \<union> mapb p) buf b4" by (rule same_but_trans [OF s3 b4(2)])
  have ub: "ubit b4 p k \<longleftrightarrow> ubit buf p k \<or> i < k \<and> k \<le> i + ?n" if "k < 64" for k
    using ubit_same [OF same_but_trans [OF w(4) b4(2)] _ that reg(1)] b0(3) that len l0 by auto
  have "dent_at b4 ?d"
    by (rule dent_at_agree [OF w(5) same_agree [OF b4(2)]]) (use reg(2) pe(2) buf(1) l3 in \<open>auto simp: db\<close>)
  moreover have "f16 b4 (eoff ?d + 2) = nx"
    using f16_same [OF b4(2), of "eoff ?d + 2"] w(6) reg(2) pe(2) nb buf(1) l3 by (auto simp: db e)
  moreover have "p < 128 \<longrightarrow> unat (b4 ! (32 + p)) = nfree b4 p"
  proof
    assume p: "p < 128"
    have "b3 ! (32 + p) = buf ! (32 + p)" using s3 reg(3) p len by (simp add: same_but_def)
    then show "unat (b4 ! (32 + p)) = nfree b4 p"
      using map_minus [of "buf ! (32 + p)" "nfree b4 p" ?n] b4(3) buf(4) p nfree_le [of buf p]
        nfree_mark [OF _ scan(2,3), of b4] ub by simp
  qed
  ultimately have "added buf p ?d nx b4"
    using s4 ub slots_page [of ?d p i] scan(2,3) nb(2) unfolding added_def by auto
  with add show ?thesis by blast
qed

section \<open>Geometry of the regions\<close>

definition hdrb :: "nat \<Rightarrow> nat set" where
  "hdrb r = {k. k < 2 \<or> k mod 2048 = 2 \<or> k mod 2048 = 3 \<or> (\<exists>n. 12 \<le> n \<and> n < r - 1 \<and> k = 32 * (n + 1))}"

definition hashb :: "nat \<Rightarrow> nat set" where
  "hashb h = {160 + 2 * h, 161 + 2 * h}"

definition in_page :: "nat \<Rightarrow> dent \<Rightarrow> bool" where
  "in_page r d \<longleftrightarrow> d_num d mod 64 + nslots (d_name d) \<le> 63 \<and> r - 1 \<le> d_num d \<and> 13 \<le> r \<and> r \<le> 45"

lemma divmod_at: "m * q \<le> (k :: nat) \<Longrightarrow> k < m * q + m \<Longrightarrow> k div m = q \<and> k mod m = k - m * q"
  by (metis add.commute div_nat_eqI le_add_diff_inverse minus_mod_eq_mult_div add_diff_cancel_left' mult.commute mult_Suc_right minus_mult_div_eq_mod)

lemma slots_in_page:
  assumes "in_page r d" "s \<in> slots d"
  shows "s div 64 = d_num d div 64 \<and> s mod 64 < 63"
proof -
  let ?q = "d_num d div 64"
  have n: "d_num d = 64 * ?q + d_num d mod 64" by simp
  have s: "d_num d \<le> s" "s < d_num d + nslots (d_name d)" "d_num d mod 64 + nslots (d_name d) \<le> 63"
    using assms by (auto simp: in_page_def slots_def)
  then have b: "64 * ?q \<le> s" "s < 64 * ?q + 63" using n by linarith+
  with divmod_at [of 64 ?q s] show ?thesis by linarith
qed

lemma dbytes_in_page:
  assumes "in_page r d" "k \<in> dbytes d"
  shows "k div 2048 = d_num d div 64 \<and> 32 \<le> k mod 2048 \<and> 416 \<le> k \<and> 32 * r \<le> k"
proof -
  let ?q = "d_num d div 64"
  have n: "d_num d = 64 * ?q + d_num d mod 64" by simp
  have k: "32 * (d_num d + 1) \<le> k" "k < 32 * (d_num d + nslots (d_name d) + 1)" "d_num d mod 64 + nslots (d_name d) \<le> 63"
    "r - 1 \<le> d_num d" "13 \<le> r"
    using assms by (auto simp: in_page_def dbytes_def eoff_def)
  have aux: "2048 * q + 32 \<le> k \<and> k < 2048 * q + 2048 \<and> 32 \<le> k - 2048 * q"
    if "m = 64 * q + i" "32 * (m + 1) \<le> k" "k < 32 * (m + l + 1)" "i + l \<le> 63" for m q i l :: nat
    using that by simp
  have b: "2048 * ?q + 32 \<le> k \<and> k < 2048 * ?q + 2048 \<and> 32 \<le> k - 2048 * ?q" by (rule aux [OF n k(1-3)])
  moreover have "32 * r \<le> 32 * (d_num d + 1)" "32 * 13 \<le> 32 * r" using k(4,5) by simp_all
  then have "416 \<le> k" "32 * r \<le> k" using k(1) by simp_all
  ultimately show ?thesis using divmod_at [of 2048 ?q k] by simp
qed

lemma bm_page: "k \<in> bm p \<longleftrightarrow> k div 2048 = p \<and> 5 \<le> k mod 2048 \<and> k mod 2048 < 13"
proof
  assume "k \<in> bm p"
  then show "k div 2048 = p \<and> 5 \<le> k mod 2048 \<and> k mod 2048 < 13"
    using divmod_at [of 2048 p k] by (auto simp: bm_def)
next
  assume "k div 2048 = p \<and> 5 \<le> k mod 2048 \<and> k mod 2048 < 13"
  then show "k \<in> bm p" using mult_div_mod_eq [of 2048 k] by (auto simp: bm_def)
qed

lemma mapb_less: "k \<in> mapb p \<Longrightarrow> 32 \<le> k \<and> k < 160 \<and> k = 32 + p"
  by (auto simp: mapb_def split: if_splits)

lemma hashb_less: "k \<in> hashb h \<Longrightarrow> h < 128 \<Longrightarrow> 160 \<le> k \<and> k < 416"
  by (auto simp: hashb_def)

lemma bm_small: "k \<in> bm p \<Longrightarrow> \<not> (32 \<le> k \<and> k < 2048)"
  unfolding bm_def by (cases p) auto

lemma hdrb_bm: "k \<in> bm p \<Longrightarrow> r \<le> 45 \<Longrightarrow> k \<notin> hdrb r"
  unfolding hdrb_def using bm_small [of k p] by (auto simp: bm_page)

lemma hdrb_small: "32 \<le> k \<Longrightarrow> k < 416 \<Longrightarrow> k \<notin> hdrb r"
  unfolding hdrb_def by auto

lemma hdrb_dbytes: "in_page r d \<Longrightarrow> k \<in> dbytes d \<Longrightarrow> k \<notin> hdrb r"
  using dbytes_in_page [of r d k] unfolding hdrb_def by auto

lemma pages_ok_frame:
  assumes "pages_ok r np a" "same_but W a b" "\<forall>k \<in> W. k \<notin> hdrb r"
  shows "pages_ok r np b"
proof -
  have p: "length a = 2048 * np" "1 \<le> np" "13 \<le> r" "r \<le> 45" using assms(1) by (auto simp: pages_ok_def)
  have eq: "b ! k = a ! k" if "k \<in> hdrb r" "k < length a" for k
    using assms(2,3) that by (auto simp: same_but_def)
  have "f16 b 0 = f16 a 0" using eq [of 0] eq [of 1] p by (simp add: f16_def hdrb_def)
  moreover have "f16 b (2048 * q + 2) = f16 a (2048 * q + 2)" if "q < np" for q
  proof -
    have m: "(2048 * q + 2) mod 2048 = 2" "(2048 * q + 2 + 1) mod 2048 = 3"
      using divmod_at [of 2048 q "2048 * q + 2"] divmod_at [of 2048 q "2048 * q + 2 + 1"] by simp_all
    have "2048 * q + 2 \<in> hdrb r" "2048 * q + 2 + 1 \<in> hdrb r" "2048 * q + 2 + 1 < length a"
      unfolding hdrb_def mem_Collect_eq m using p that by simp_all
    then show ?thesis using eq [of "2048 * q + 2"] eq [of "2048 * q + 2 + 1"] by (simp add: f16_def)
  qed
  moreover have "b ! (32 * (n + 1)) = a ! (32 * (n + 1))" if "12 \<le> n" "n < r - 1" for n
    using eq [of "32 * (n + 1)"] p that by (auto simp: hdrb_def)
  moreover have "length b = length a" using assms(2) by (simp add: same_but_def)
  ultimately show ?thesis using assms(1) by (simp add: pages_ok_def)
qed

lemma dent_in_page: "chains_ok r np buf C \<Longrightarrow> pages_ok r np buf \<Longrightarrow> d \<in> ents C \<Longrightarrow> in_page r d"
  by (auto simp: chains_ok_def pages_ok_def in_page_def dent_at_def)

lemma free_slots_disjoint:
  assumes "alloc_ok r np buf C" "in_page r d" "in_page r d'" "d' \<in> ents C" "d_num d div 64 < np"
    "\<forall>k \<in> slots d. \<not> ubit buf (d_num d div 64) (k mod 64 + 1)"
  shows "slots d \<inter> slots d' = {}"
proof (rule ccontr)
  assume "slots d \<inter> slots d' \<noteq> {}"
  then obtain s where s: "s \<in> slots d" "s \<in> slots d'" by auto
  note sp = slots_in_page [OF assms(2) s(1)]
  have "64 * (d_num d div 64) + (s mod 64 + 1) - 1 = s" using sp mult_div_mod_eq [of 64 s] by linarith
  moreover have "ubit buf (d_num d div 64) k \<longleftrightarrow> reserved r (d_num d div 64) k \<or> (\<exists>e \<in> ents C. 64 * (d_num d div 64) + k - 1 \<in> slots e)"
    if "k < 64" for k using assms(1,5) that by (simp add: alloc_ok_def)
  moreover have "s mod 64 + 1 < 64" using sp by simp
  ultimately have "ubit buf (d_num d div 64) (s mod 64 + 1)" using assms(4) s(2) by metis
  then show False using assms(6) s(1) by blast
qed

section \<open>Linking a new entry\<close>

lemma added_in_page:
  assumes "added a p d nx b" "alloc_ok r np a C" "pages_ok r np a" "p < np"
  shows "in_page r d"
proof -
  have m: "d_num d mod 64 + nslots (d_name d) \<le> 63" "d_num d div 64 = p"
    "\<forall>k \<in> slots d. \<not> ubit a p (k mod 64 + 1)" using assms(1) by (auto simp: added_def dent_at_def)
  have "d_num d \<in> slots d" using nslots_bound(2) [of "d_name d"] by (simp add: slots_def)
  then have "\<not> ubit a p (d_num d mod 64 + 1)" using m(3) by blast
  moreover have "d_num d mod 64 + 1 < 64" using m(1) nslots_bound(2) [of "d_name d"] by linarith
  ultimately have "\<not> reserved r p (d_num d mod 64 + 1)" using assms(2,4) by (auto simp: alloc_ok_def)
  then have "p = 0 \<longrightarrow> r - 1 \<le> d_num d mod 64" by (auto simp: reserved_def)
  moreover have "d_num d = 64 * p + d_num d mod 64" using m(2) by auto
  ultimately have "r - 1 \<le> d_num d" using assms(3) by (cases "p = 0") (auto simp: pages_ok_def)
  then show ?thesis using m(1) assms(3) by (simp add: in_page_def pages_ok_def)
qed

lemma ents_link: "h < 128 \<Longrightarrow> ents (C(h := d # C h)) = insert d (ents C)"
  by (force simp: ents_def split: if_splits)

lemma link_chains:
  assumes "chains_ok r np a C" "h < 128" "hashentry (d_name d) = h" "d_name d \<notin> d_name ` set (C h)"
    and "dent_at c d" "in_page r d" "d_num d div 64 < np"
    and "f16 c (160 + 2 * h) = of_nat (d_num d + 1)" "f16 c (eoff d + 2) = f16 a (160 + 2 * h)"
    and "\<forall>h' < 128. h' \<noteq> h \<longrightarrow> f16 c (160 + 2 * h') = f16 a (160 + 2 * h')"
    and "\<forall>e \<in> ents C. agree (dbytes e) a c \<and> slots d \<inter> slots e = {}"
  shows "chains_ok r np c (C(h := d # C h))"
proof -
  have old: "linked c v (C h')" if "linked a v (C h')" "h' < 128" for v h'
  proof (rule linked_agree [OF that(1)], intro ballI)
    fix e assume "e \<in> set (C h')"
    then have "e \<in> ents C" using that(2) by (auto simp: ents_def)
    then show "agree (nextb e) a c" using assms(11) agree_mono [OF _ nextb_dbytes [of e], of a c] by blast
  qed
  have ch: "linked c (f16 c (160 + 2 * h')) ((C(h := d # C h)) h') \<and> distinct (map d_name ((C(h := d # C h)) h')) \<and>
      (\<forall>e \<in> set ((C(h := d # C h)) h'). hashentry (d_name e) = h')" if h': "h' < 128" for h'
  proof (cases "h' = h")
    case True
    then show ?thesis using chainsD [OF assms(1,2)] old [OF _ assms(2)] assms(3,4,8,9) by auto
  next
    case False
    then show ?thesis using chainsD [OF assms(1) h'] old [OF _ h'] assms(10) h' by auto
  qed
  have at: "dent_at c e" if "e \<in> ents C" for e
    using dent_at_agree [OF entsD(1) [OF assms(1) that], of c] assms(11) that
      agree_mono [of "dbytes e" a c "dbytes e - nextb e"] by blast
  have dis: "\<forall>e \<in> ents C. \<forall>e' \<in> ents C. e \<noteq> e' \<longrightarrow> slots e \<inter> slots e' = {}" using assms(1) by (simp add: chains_ok_def)
  show ?thesis
    unfolding chains_ok_def ents_link [OF assms(2)]
  proof (intro conjI)
    show "\<forall>e \<in> insert d (ents C). dent_at c e \<and> d_num e div 64 < np \<and> r - 1 \<le> d_num e"
      using at entsD(2,3) [OF assms(1)] assms(5-7) by (auto simp: in_page_def)
    show "\<forall>e \<in> insert d (ents C). \<forall>e' \<in> insert d (ents C). e \<noteq> e' \<longrightarrow> slots e \<inter> slots e' = {}"
      using dis assms(11) by (metis Int_commute insert_iff)
  qed (use ch in blast)
qed

lemma link_alloc:
  assumes "alloc_ok r np a C" "h < 128" "in_page r d" "p < np" "d_num d div 64 = p" "length a = 2048 * np"
    and "\<forall>k < 64. ubit c p k \<longleftrightarrow> ubit a p k \<or> 0 < k \<and> 64 * p + k - 1 \<in> slots d"
    and "p < 128 \<longrightarrow> unat (c ! (32 + p)) = nfree c p"
    and "same_but W a c" "\<forall>q < np. q \<noteq> p \<longrightarrow> (\<forall>k \<in> bm q \<union> mapb q. k \<notin> W)"
  shows "alloc_ok r np c (C(h := d # C h))"
  unfolding alloc_ok_def ents_link [OF assms(2)]
proof (intro allI impI conjI)
  fix q assume q: "q < np"
  have lq: "2048 * q + 2048 \<le> length a" using q assms(6) by simp
  have aq: "\<forall>k < 64. ubit a q k \<longleftrightarrow> reserved r q k \<or> (\<exists>e \<in> ents C. 64 * q + k - 1 \<in> slots e)"
    "q < 128 \<longrightarrow> unat (a ! (32 + q)) = nfree a q" using assms(1) q by (auto simp: alloc_ok_def)
  have other: "ubit c q k = ubit a q k" if "q \<noteq> p" "k < 64" for k
    by (rule ubit_same [OF assms(9) _ that(2)]) (use lq assms(10) q that in auto)
  { fix k :: nat assume k: "k < 64"
    show "ubit c q k \<longleftrightarrow> reserved r q k \<or> (\<exists>e \<in> insert d (ents C). 64 * q + k - 1 \<in> slots e)"
    proof (cases "k = 0")
      case True
      then have "reserved r q k" by (simp add: reserved_def)
      then show ?thesis using aq(1) k other [of k] assms(7) by (cases "q = p") auto
    next
      case False
      have "64 * q + k - 1 \<notin> slots d" if "q \<noteq> p"
      proof
        assume "64 * q + k - 1 \<in> slots d"
        then have "(64 * q + k - 1) div 64 = p" using slots_in_page [OF assms(3)] assms(5) by auto
        moreover have "(64 * q + k - 1) div 64 = q" using divmod_at [of 64 q "64 * q + k - 1"] k False by simp
        ultimately show False using that by simp
      qed
      then show ?thesis using aq(1) k False other [of k] assms(7) by (cases "q = p") auto
    qed }
  { assume q128: "q < 128"
    show "unat (c ! (32 + q)) = nfree c q"
    proof (cases "q = p")
      case False
      have "nfree c q = nfree a q" using other [OF False] by (simp add: nfree_def cong: conj_cong)
      moreover have "c ! (32 + q) = a ! (32 + q)"
        using assms(9,10) False q q128 lq by (auto simp: same_but_def mapb_def)
      ultimately show ?thesis using aq(2) q128 by simp
    qed (use assms(8) q128 in simp) }
qed

lemma invD:
  assumes "dir_inv r np a C"
  shows "pages_ok r np a" "chains_ok r np a C" "alloc_ok r np a C" "length a = 2048 * np" "1 \<le> np" "np \<le> 1023"
    "13 \<le> r" "r \<le> 45"
  using assms by (auto simp: dir_inv_def pages_ok_def)

lemma f16_hash_same:
  assumes "same_but W a b" "416 \<le> length a" "h < 128" "\<And>k. k \<in> hashb h \<Longrightarrow> k \<notin> W"
  shows "f16 b (160 + 2 * h) = f16 a (160 + 2 * h)"
  by (rule f16_same [OF assms(1)]) (use assms in \<open>auto simp: hashb_def\<close>)

lemma hash_apart:
  assumes "k \<in> hashb h" "h < 128"
  shows "in_page r e \<Longrightarrow> k \<notin> dbytes e" "k \<notin> bm q" "k \<notin> mapb q"
  using hashb_less [OF assms] dbytes_in_page [of r e k] bm_small [of k q] mapb_less [of k q] by auto

lemma page_apart:
  assumes "in_page r d" "q \<noteq> p" "h < 128" "k \<in> bm q \<union> mapb q"
  shows "k \<notin> bm p \<union> dbytes d \<union> mapb p \<union> hashb h"
  using assms(4)
proof
  assume k: "k \<in> bm q"
  have "k \<notin> bm p" using k assms(2) bm_page by metis
  moreover have "k \<notin> dbytes d" using dbytes_in_page [OF assms(1), of k] k bm_page [of k q] by linarith
  moreover have "k \<notin> mapb p" using mapb_less [of k p] bm_small [OF k] by linarith
  ultimately show ?thesis using hash_apart(2) [OF _ assms(3)] k by blast
next
  assume k: "k \<in> mapb q"
  have "k \<notin> bm p" using mapb_less [OF k] bm_small [of k p] by linarith
  moreover have "k \<notin> dbytes d" using dbytes_in_page [OF assms(1), of k] mapb_less [OF k] by linarith
  moreover have "k \<notin> mapb p" using mapb_less [of k p] mapb_less [OF k] assms(2) by linarith
  ultimately show ?thesis using hash_apart(3) [OF _ assms(3)] k by blast
qed

lemma hash_other_apart:
  assumes "in_page r d" "h < 128" "h' < 128" "h' \<noteq> h" "k \<in> hashb h'"
  shows "k \<notin> bm p \<union> dbytes d \<union> mapb p \<union> hashb h"
proof -
  have "k \<notin> hashb h" using assms(4,5) by (auto simp: hashb_def)
  then show ?thesis using hash_apart(1) [OF assms(5,3,1)] hash_apart(2,3) [OF assms(5,3)] by blast
qed

lemma hdr_apart:
  assumes "in_page r d" "h < 128" "k \<in> bm p \<union> dbytes d \<union> mapb p \<union> hashb h"
  shows "k \<notin> hdrb r"
proof -
  have "r \<le> 45" using assms(1) by (simp add: in_page_def)
  then show ?thesis
    using assms hdrb_bm [of k p r] hdrb_dbytes [of r d k] hdrb_small [of k r] mapb_less [of k p] hashb_less [of k h] by auto
qed

lemma dent_apart:
  assumes "in_page r d" "in_page r e" "slots d \<inter> slots e = {}" "h < 128" "k \<in> dbytes e"
  shows "k \<notin> bm p \<union> dbytes d \<union> mapb p \<union> hashb h"
proof -
  have "k \<notin> dbytes d" using dbytes_disjoint [OF assms(3)] assms(5) by blast
  moreover have "k \<notin> bm p" using dbytes_in_page [OF assms(2,5)] bm_page [of k p] by linarith
  moreover have "k \<notin> mapb p" using dbytes_in_page [OF assms(2,5)] mapb_less [of k p] by linarith
  ultimately show ?thesis using hash_apart(1) [OF _ assms(4,2)] assms(5) by blast
qed

lemma add_link_inv:
  assumes inv: "dir_inv r np a C" and p: "p < np" and ad: "added a p d nx b"
    and h: "h = hashentry (d_name d)" "nx = f16 a (160 + 2 * h)" "d_name d \<notin> d_name ` set (C h)"
    and w: "same_but (hashb h) b c" "f16 c (160 + 2 * h) = of_nat (d_num d + 1)"
  shows "dir_inv r np c (C(h := d # C h))"
proof -
  note i = invD [OF inv]
  note ip = added_in_page [OF ad i(3,1) p]
  have h128: "h < 128" unfolding h(1) by (rule hashentry_less)
  have A: "d_num d div 64 = p" "\<forall>k \<in> slots d. \<not> ubit a p (k mod 64 + 1)" "same_but (bm p \<union> dbytes d \<union> mapb p) a b"
    "dent_at b d" "f16 b (eoff d + 2) = nx" "\<forall>k < 64. ubit b p k \<longleftrightarrow> ubit a p k \<or> 0 < k \<and> 64 * p + k - 1 \<in> slots d"
    "p < 128 \<longrightarrow> unat (b ! (32 + p)) = nfree b p" using ad by (auto simp: added_def)
  let ?W = "bm p \<union> dbytes d \<union> mapb p \<union> hashb h"
  have s: "same_but ?W a c" by (rule same_but_trans [OF A(3) w(1)])
  have len: "length b = length a" "2048 * p + 2048 \<le> length a" "416 \<le> length a"
    using A(3) i(4,5) p by (auto simp: same_but_def)
  have po: "pages_ok r np c" by (rule pages_ok_frame [OF i(1) s]) (use hdr_apart [OF ip h128] in blast)
  have dis: "slots d \<inter> slots e = {}" if "e \<in> ents C" for e
    using free_slots_disjoint [OF i(3) ip dent_in_page [OF i(2,1) that] that] A(1,2) p by simp
  have ag: "agree (dbytes e) a c" if e: "e \<in> ents C" for e
  proof (rule same_agree [OF s], intro ballI conjI)
    fix k assume k: "k \<in> dbytes e"
    note ie = dent_in_page [OF i(2,1) e]
    show "k < length a" using k entsD(1) [OF i(2) e] by (auto simp: dent_at_def dbytes_def)
    show "k \<notin> ?W" by (rule dent_apart [OF ip ie dis [OF e] h128 k])
  qed
  have dc: "dent_at c d"
    by (rule dent_at_agree [OF A(4) same_agree [OF w(1)]]) (use hash_apart(1) [OF _ h128 ip] A(4) in \<open>auto simp: dent_at_def dbytes_def\<close>)
  have "eoff d + 2 \<notin> hashb h" "eoff d + 2 + 1 \<notin> hashb h" "eoff d + 2 + 1 < length b"
    using hash_apart(1) [OF _ h128 ip, of "eoff d + 2"] hash_apart(1) [OF _ h128 ip, of "eoff d + 2 + 1"] A(4) nslots_bound [of "d_name d"]
    by (auto simp: dent_at_def dbytes_def)
  then have nx: "f16 c (eoff d + 2) = f16 a (160 + 2 * h)" using f16_same [OF w(1)] A(5) h(2) by simp
  have oh: "f16 c (160 + 2 * h') = f16 a (160 + 2 * h')" if "h' < 128" "h' \<noteq> h" for h'
    by (rule f16_hash_same [OF s len(3) that(1)]) (rule hash_other_apart [OF ip h128 that])
  have ub: "ubit c p k = ubit b p k" if "k < 64" for k
    by (rule ubit_same [OF w(1) _ that]) (use hash_apart(2) [OF _ h128] len in auto)
  have mp: "p < 128 \<longrightarrow> unat (c ! (32 + p)) = nfree c p"
  proof
    assume p128: "p < 128"
    have "c ! (32 + p) = b ! (32 + p)" using w(1) len p128 by (auto simp: same_but_def hashb_def)
    moreover have "nfree c p = nfree b p" using ub by (simp add: nfree_def cong: conj_cong)
    ultimately show "unat (c ! (32 + p)) = nfree c p" using A(7) p128 by simp
  qed
  have oq: "\<forall>q < np. q \<noteq> p \<longrightarrow> (\<forall>k \<in> bm q \<union> mapb q. k \<notin> ?W)" using page_apart [OF ip _ h128] by blast
  have "chains_ok r np c (C(h := d # C h))"
    by (rule link_chains [OF i(2) h128 h(1) [symmetric] h(3) dc ip _ w(2) nx]) (use A(1) p oh ag dis in auto)
  moreover have "alloc_ok r np c (C(h := d # C h))"
    by (rule link_alloc [OF i(3) h128 ip p A(1) i(4) _ mp s oq]) (use ub A(6) in auto)
  ultimately show ?thesis using po by (simp add: dir_inv_def)
qed

section \<open>Creating entries\<close>

definition new_dent :: "nat \<Rightarrow> bytes \<Rightarrow> AFSFid \<Rightarrow> dent" where
  "new_dent n nm fid = \<lparr>d_num = n, d_name = nm, d_vn = fVnode fid, d_un = fUnique fid\<rparr>"

lemma new_dent_simps [simp]:
  "d_num (new_dent n nm fid) = n" "d_name (new_dent n nm fid) = nm" "d_vn (new_dent n nm fid) = fVnode fid"
  "d_un (new_dent n nm fid) = fUnique fid"
  by (simp_all add: new_dent_def)

lemma add_to_page_ok:
  assumes "dir_inv r np a C" "p < np" "good_name nm"
  shows "add_to_page a (getpage p) p nm None fid nx = Some (- 1, a) \<or>
    (\<exists>i b. add_to_page a (getpage p) p nm None fid nx = Some (int i, b) \<and> i < 64 \<and> added a p (new_dent (64 * p + i) nm fid) nx b)"
proof -
  note i = invD [OF assms(1)]
  have len: "2048 * p + 2048 \<le> length a" using assms(2) i(4) by simp
  have n: "0 < nslots nm" "nslots nm \<le> 63" using nslots_bound [of nm] assms(3) by (auto simp: good_name_def)
  have mp: "p < 128 \<longrightarrow> unat (a ! (32 + p)) = nfree a p" using i(3) assms(2) by (simp add: alloc_ok_def)
  obtain s where s: "add_scan a (getpage p) (nslots nm) 0 = Some s"
    "case s of None \<Rightarrow> True | Some i' \<Rightarrow> i' + nslots nm \<le> 63 \<and> (\<forall>k. i' < k \<and> k \<le> i' + nslots nm \<longrightarrow> \<not> ubit a p k)"
    using add_scan_ok [OF _ n, of p a 0] len by auto
  show ?thesis
  proof (cases "s = None \<or> p < 128 \<and> unat (a ! (32 + p)) < nslots nm")
    case True
    then have "add_to_page a (getpage p) p nm None fid nx = Some (- 1, a)"
      unfolding add_to_page_def map_option_case option.case nslots_additional Let_def map_off_def MAXPAGES_def
      using s(1) len by auto
    then show ?thesis by blast
  next
    case False
    then obtain j where j: "s = Some j" "j + nslots nm \<le> 63" "\<forall>k. j < k \<and> k \<le> j + nslots nm \<longrightarrow> \<not> ubit a p k"
      using s(2) by auto
    have "p = 0 \<longrightarrow> 12 \<le> j"
    proof
      assume p: "p = 0"
      have "\<not> ubit a p (j + 1)" using j(3) n by auto
      then have "\<not> reserved r p (j + 1)" using i(3) assms(2) j(2) n by (auto simp: alloc_ok_def)
      then show "12 \<le> j" using p i(7) by (auto simp: reserved_def)
    qed
    moreover have "p < 128 \<longrightarrow> \<not> unat (a ! (32 + p)) < nslots nm" using False by simp
    ultimately show ?thesis
      using add_to_page_at [OF i(4) assms(2) _ mp assms(3) _ s(1) [unfolded j(1)] j(2,3), of fid nx] j(2) n
      by (auto simp: new_dent_def)
  qed
qed

lemma creat_loop_ok:
  assumes "dir_inv r np a C" "good_name nm" "\<forall>p \<in> set ps. p < np"
  shows "creat_loop a nm None fid nx ps = Some (a, None) \<or>
    (\<exists>p i b. creat_loop a nm None fid nx ps = Some (b, Some (p, int i)) \<and> p < np \<and> i < 64 \<and>
       added a p (new_dent (64 * p + i) nm fid) nx b)"
  using assms(3)
proof (induction ps)
  case (Cons p ps)
  then show ?case using add_to_page_ok [OF assms(1) _ assms(2), of p fid nx] by (auto 0 3)
qed simp

lemma hash_write:
  assumes "length b = 2048 * np" "1 \<le> np" "h < 128"
  shows "\<exists>c. wbytes b (160 + 2 * h) (be16 w) = Some c \<and> same_but (hashb h) b c \<and> f16 c (160 + 2 * h) = w"
proof -
  have "160 + 2 * h + 2 \<le> length b" using assms by simp
  then obtain c where c: "wbytes b (160 + 2 * h) (be16 w) = Some c" "same_but {160 + 2 * h..<160 + 2 * h + 2} b c"
    "\<forall>j < 2. c ! (160 + 2 * h + j) = be16 w ! j" using wbytes_Some [of "160 + 2 * h" "be16 w" b] by auto
  have "f16 c (160 + 2 * h) = w" using c(3) [rule_format, of 0] c(3) [rule_format, of 1] by (intro f16_be16) simp_all
  moreover have "same_but (hashb h) b c" by (rule same_but_mono [OF c(2)]) (auto simp: hashb_def)
  ultimately show ?thesis using c(1) by blast
qed

lemma dlook_link:
  assumes "h = hashentry (d_name d)"
  shows "dlook (C(h := d # C h)) = (dlook C)(d_name d \<mapsto> (d_vn d, d_un d))"
  using assms by (auto simp: dlook_def)

lemma dlook_None: "dlook C nm = None \<longleftrightarrow> nm \<notin> d_name ` set (C (hashentry nm))"
  by (auto simp: dlook_def find_None_iff)

text \<open>What \<open>fdir_creat\<close> does once the entry is in page \<open>p\<close>.\<close>

lemma link_ok:
  assumes "dir_inv r np a C" "p < np" "added a p (new_dent (64 * p + i) nm fid) (f16 a (160 + 2 * hashentry nm)) b" "i < 64"
    "dlook C nm = None"
  shows "\<exists>c C'. wbytes b (hash_off (hashentry nm)) (be16 (of_int (int i + int (p * ENTRIESPERPAGE) + 1))) = Some c \<and>
    dir_inv r np c C' \<and> dlook C' = (dlook C)(nm \<mapsto> (fVnode fid, fUnique fid)) \<and>
    ents C' = insert (new_dent (64 * p + i) nm fid) (ents C)"
proof -
  let ?d = "new_dent (64 * p + i) nm fid" and ?h = "hashentry nm"
  note i = invD [OF assms(1)]
  have lb: "length b = 2048 * np" using assms(3) i(4) by (auto simp: added_def same_but_def)
  obtain c where c: "wbytes b (160 + 2 * ?h) (be16 (of_nat (d_num ?d + 1))) = Some c" "same_but (hashb ?h) b c"
    "f16 c (160 + 2 * ?h) = of_nat (d_num ?d + 1)" using hash_write [OF lb i(5) hashentry_less [of nm]] by blast
  have "dir_inv r np c (C(?h := ?d # C ?h))"
    by (rule add_link_inv [OF assms(1,2,3)]) (use c assms(5) dlook_None in auto)
  moreover have "int i + int (p * ENTRIESPERPAGE) + 1 = int (d_num ?d + 1)" by (simp add: fdir_sizes)
  ultimately show ?thesis using c(1) dlook_link [of ?h ?d C] ents_link [OF hashentry_less [of nm], of C ?d]
    by (intro exI [of _ c] exI [of _ "C(?h := ?d # C ?h)"]) (simp only: of_int_of_nat_eq hash_off_def MAXPAGES_def, simp)
qed

section \<open>New pages\<close>

lemma create_page_ok:
  assumes "length a = 2048 * np"
  shows "\<exists>b. create_new_page 0 a u = Some (0, b, getpage np) \<and> length b = 2048 * (np + 1) \<and> agree {..<2048 * np} a b \<and>
    good_tag (f16 b (2048 * np + 2)) \<and> f16 b (2048 * np + 2) = (if u then AFSDIRMAGIC_UTF8 else AFSDIRMAGIC) \<and>
    (\<forall>k < 64. ubit b np k \<longleftrightarrow> k = 0) \<and> (\<forall>k. 2048 * np + 13 \<le> k \<and> k < 2048 * (np + 1) \<longrightarrow> b ! k = 0)"
proof -
  let ?g = "2048 * np" and ?t = "if u then AFSDIRMAGIC_UTF8 else AFSDIRMAGIC"
  let ?h = "be16 0 @ be16 ?t @ [of_nat (ENTRIESPERPAGE - 1)] @ replicate 8 (0 :: byte)"
  let ?a = "a @ replicate AFSDIR_PAGESIZE 0"
  have lh: "length ?h = 13" by simp
  have la: "length ?a = ?g + 2048" using assms by (simp add: fdir_sizes)
  obtain b where b: "wbytes ?a ?g ?h = Some b" "same_but {?g..<?g + 13} ?a b" "\<forall>j < 13. b ! (?g + j) = ?h ! j"
    using wbytes_Some [of ?g ?h ?a] la unfolding lh by auto
  have lb: "length b = ?g + 2048" using b(2) la by (simp add: same_but_def)
  obtain c where c: "set_used b (getpage np) 0 = Some c" "same_but (bm np) b c" "\<forall>j < 64. ubit c np j \<longleftrightarrow> ubit b np j \<or> j = 0"
    using set_used_ok [of np b 0] lb by auto
  have lc: "length c = ?g + 2048" using c(2) lb by (simp add: same_but_def)
  have cb: "c ! k = b ! k" if "k \<notin> bm np" "k < ?g + 2048" for k using c(2) that lb by (simp add: same_but_def)
  have ba: "b ! k = ?a ! k" if "k < ?g \<or> ?g + 13 \<le> k" "k < ?g + 2048" for k using b(2) that la by (auto simp: same_but_def)
  have g: "getpage np = ?g" by (simp add: getpage_def fdir_sizes)
  have "create_new_page 0 a u = Some (0, c, getpage np)"
    using b(1) c(1) assms unfolding create_new_page_def by (simp add: g)
  moreover have "agree {..<?g} a c"
    using cb ba lc assms by (auto simp: agree_def bm_def nth_append)
  moreover have z: "\<not> ubit b np k" if "k < 64" for k
  proof -
    have "b ! (?g + (5 + k div 8)) = ?h ! (5 + k div 8)" using b(3) that by simp
    also have "\<dots> = 0" using that by (simp add: nth_append be16_def nth_Cons')
    finally show ?thesis by (simp add: ubit_def add.assoc)
  qed
  moreover have "f16 c (?g + 2) = ?t"
  proof -
    have h: "?h ! 2 = be16 ?t ! 0" "?h ! 3 = be16 ?t ! 1" by (simp_all add: be16_def)
    have "c ! (?g + 2) = be16 ?t ! 0"
      using b(3) [rule_format, of 2] cb [of "?g + 2"] unfolding h by (simp add: bm_def)
    moreover have "c ! (?g + 2 + 1) = be16 ?t ! 1"
      using b(3) [rule_format, of 3] cb [of "?g + 3"] unfolding h by (simp add: bm_def numeral_3_eq_3)
    ultimately show ?thesis by (rule f16_be16)
  qed
  moreover have "c ! k = 0" if "?g + 13 \<le> k" "k < 2048 * (np + 1)" for k
    using cb [of k] ba [of k] that assms by (simp add: bm_def nth_append fdir_sizes)
  ultimately show ?thesis using c(3) lc by (intro exI [of _ c]) (auto simp: good_tag_def)
qed

lemma chains_agree:
  assumes "chains_ok r np a C" "\<forall>h < 128. f16 b (160 + 2 * h) = f16 a (160 + 2 * h)"
    "\<forall>e \<in> ents C. agree (dbytes e) a b \<and> d_num e div 64 < np'"
  shows "chains_ok r np' b C"
proof -
  have at: "dent_at b e" if "e \<in> ents C" for e
    using dent_at_agree [OF entsD(1) [OF assms(1) that], of b] assms(3) that
      agree_mono [of "dbytes e" a b "dbytes e - nextb e"] by blast
  have "linked b v (C h)" if "linked a v (C h)" "h < 128" for v h
  proof (rule linked_agree [OF that(1)], intro ballI)
    fix e assume "e \<in> set (C h)"
    then have "e \<in> ents C" using that(2) by (auto simp: ents_def)
    then show "agree (nextb e) a b" using assms(3) agree_mono [OF _ nextb_dbytes [of e], of a b] by blast
  qed
  then show ?thesis using assms at unfolding chains_ok_def by auto
qed

lemma f16_agree: "agree {k, k + 1} a b \<Longrightarrow> f16 b k = f16 a k"
  by (simp add: agree_def f16_def)

lemma ubit_agree: "agree (bm p) a b \<Longrightarrow> k < 64 \<Longrightarrow> ubit b p k = ubit a p k"
  unfolding ubit_def by (simp add: agree_def bm_def)

lemma nfree_agree: "agree (bm p) a b \<Longrightarrow> nfree b p = nfree a p"
  using ubit_agree [of p a b] by (simp add: nfree_def cong: conj_cong)

lemma page_slot:
  assumes "in_page r e" "0 < k" "k < 64" "64 * q + k - 1 \<in> slots e"
  shows "d_num e div 64 = q"
proof -
  have "(64 * q + k - 1) div 64 = q" using divmod_at [of 64 q "64 * q + k - 1"] assms(2,3) by simp
  then show ?thesis using slots_in_page [OF assms(1,4)] by simp
qed

lemma new_page_pages:
  assumes "pages_ok r np a" "np < 1023" "length b = 2048 * (np + 1)"
    "agree ({..<2048 * np} - {0, 1} - mapb np) a b" "good_tag (f16 b (2048 * np + 2))" "f16 b 0 = of_nat (np + 1)"
  shows "pages_ok r (np + 1) b"
proof -
  have p: "1 \<le> np" "13 \<le> r" "r \<le> 45" using assms(1) by (auto simp: pages_ok_def)
  have "f16 b (2048 * q + 2) = f16 a (2048 * q + 2)" if "q < np" for q
    by (rule f16_agree, rule agree_mono [OF assms(4)]) (use that mapb_less [of _ np] in \<open>auto, (cases q; force)+\<close>)
  moreover have "b ! (32 * (n + 1)) = a ! (32 * (n + 1))" if "12 \<le> n" "n < r - 1" for n
  proof -
    have "32 * (n + 1) \<in> {..<2048 * np} - {0, 1} - mapb np" using that p mapb_less [of "32 * (n + 1)" np] by auto
    then show ?thesis using assms(4) by (simp add: agree_def)
  qed
  moreover have "unat (f16 b 0) \<le> np + 1" unfolding assms(6) using num_word(3) [of np] assms(2) by simp
  ultimately show ?thesis using assms p by (auto simp: pages_ok_def less_Suc_eq)
qed

lemma new_page_alloc:
  assumes "alloc_ok r np a C" "chains_ok r np a C" "pages_ok r np a"
    "agree ({..<2048 * np} - {0, 1} - mapb np) a b" "\<forall>k < 64. ubit b np k \<longleftrightarrow> k = 0" "np < 128 \<longrightarrow> unat (b ! (32 + np)) = 63"
  shows "alloc_ok r (np + 1) b C"
  unfolding alloc_ok_def
proof (intro allI impI)
  fix q assume q: "q < np + 1"
  have p: "1 \<le> np" using assms(3) by (auto simp: pages_ok_def)
  show "(\<forall>k < 64. ubit b q k \<longleftrightarrow> reserved r q k \<or> (\<exists>d \<in> ents C. 64 * q + k - 1 \<in> slots d)) \<and>
        (q < 128 \<longrightarrow> unat (b ! (32 + q)) = nfree b q)"
  proof (cases "q = np")
    case True
    have "64 * q + k - 1 \<notin> slots d" if "d \<in> ents C" "0 < k" "k < 64" for k d
      using page_slot [OF dent_in_page [OF assms(2,3) that(1)] that(2,3), of q] entsD(2) [OF assms(2) that(1)] True by auto
    then have "\<forall>k < 64. ubit b q k \<longleftrightarrow> reserved r q k \<or> (\<exists>d \<in> ents C. 64 * q + k - 1 \<in> slots d)"
      using assms(5) True p unfolding reserved_def by (metis neq0_conv not_one_le_zero)
    moreover have "{k. k < 64 \<and> \<not> ubit b q k} = {1..<64}" using assms(5) True by auto
    then have "nfree b q = 63" by (simp add: nfree_def)
    ultimately show ?thesis using assms(6) True by simp
  next
    case False
    then have qn: "q < np" using q by simp
    have "bm q \<subseteq> {..<2048 * np} - {0, 1} - mapb np"
    proof
      fix k assume k: "k \<in> bm q"
      have "k \<notin> mapb np" using mapb_less [of k np] bm_small [OF k] by auto
      then show "k \<in> {..<2048 * np} - {0, 1} - mapb np" using k qn by (auto simp: bm_def)
    qed
    then have ab: "agree (bm q) a b" using agree_mono [OF assms(4)] by blast
    moreover have "b ! (32 + q) = a ! (32 + q)" if "q < 128"
    proof -
      have "32 + q \<in> {..<2048 * np} - {0, 1} - mapb np" using that qn mapb_less [of "32 + q" np] by auto
      then show ?thesis using assms(4) by (simp add: agree_def)
    qed
    ultimately show ?thesis using assms(1) qn ubit_agree [OF ab] nfree_agree [OF ab] by (simp add: alloc_ok_def)
  qed
qed

lemma new_page_inv:
  assumes inv: "dir_inv r np a C" and np: "np < 1023"
  shows "\<exists>b b2 b3. create_new_page 0 a u = Some (0, b, getpage np) \<and> wbytes b 0 (be16 (of_nat (np + 1))) = Some b2 \<and>
    (if np < MAXPAGES then w8 b2 (map_off np) (of_nat (ENTRIESPERPAGE - 1)) else Some b2) = Some b3 \<and>
    dir_inv r (np + 1) b3 C \<and> (\<forall>k < 64. ubit b3 np k \<longleftrightarrow> k = 0) \<and> (\<forall>h < 128. f16 b3 (160 + 2 * h) = f16 a (160 + 2 * h))"
proof -
  note i = invD [OF inv]
  obtain b where b: "create_new_page 0 a u = Some (0, b, getpage np)" "length b = 2048 * (np + 1)" "agree {..<2048 * np} a b"
    "good_tag (f16 b (2048 * np + 2))" "\<forall>k < 64. ubit b np k \<longleftrightarrow> k = 0"
    using create_page_ok [OF i(4), of u] by auto
  obtain b2 where b2: "wbytes b 0 (be16 (of_nat (np + 1))) = Some b2" "same_but {0..<2} b b2"
    "\<forall>j < 2. b2 ! j = be16 (of_nat (np + 1)) ! j"
    using wbytes_Some [of 0 "be16 (of_nat (np + 1))" b] b(2) by (auto simp: numeral_2_eq_2)
  have l2: "length b2 = 2048 * (np + 1)" using b2(2) b(2) by (simp add: same_but_def)
  let ?m = "if np < MAXPAGES then w8 b2 (map_off np) (of_nat (ENTRIESPERPAGE - 1)) else Some b2"
  obtain b3 where b3: "?m = Some b3" "same_but (mapb np) b2 b3" "np < 128 \<longrightarrow> b3 ! (32 + np) = 63"
  proof (cases "np < 128")
    case True
    then show ?thesis using that w8_Some [of "32 + np" b2 63] l2 by (auto simp: mapb_def map_off_def fdir_sizes)
  qed (use that [of b2] in \<open>simp_all add: mapb_def same_but_def fdir_sizes\<close>)
  have s: "same_but ({0..<2} \<union> mapb np) b b3" by (rule same_but_trans [OF b2(2) b3(2)])
  have l3: "length b3 = 2048 * (np + 1)" using b3(2) l2 by (simp add: same_but_def)
  have ag: "agree ({..<2048 * np} - {0, 1} - mapb np) a b3"
    using b(2,3) s by (auto simp: agree_def same_but_def)
  have out: "k \<notin> {0..<2} \<union> mapb np" if "2048 * np + 2 \<le> k" for k using that i(5) mapb_less [of k np] by auto
  then have tag: "f16 b3 (2048 * np + 2) = f16 b (2048 * np + 2)"
    using f16_same [OF s, of "2048 * np + 2"] b(2) by simp
  have ub: "ubit b3 np k = ubit b np k" if "k < 64" for k
    by (rule ubit_same [OF s _ that]) (use b(2) in simp, rule out, simp add: bm_def)
  have "f16 b2 0 = of_nat (np + 1)"
    using b2(3) by (intro f16_be16) simp_all
  moreover have "f16 b3 0 = f16 b2 0"
    by (rule f16_same [OF b3(2)]) (use l2 mapb_less [of 0 np] mapb_less [of 1 np] in auto)
  ultimately have "pages_ok r (np + 1) b3"
    using new_page_pages [OF i(1) np l3 ag] tag b(4) by simp
  moreover have h: "\<forall>h < 128. f16 b3 (160 + 2 * h) = f16 a (160 + 2 * h)"
  proof (intro allI impI)
    fix h :: nat assume "h < 128"
    then show "f16 b3 (160 + 2 * h) = f16 a (160 + 2 * h)"
      using i(5) mapb_less [of "160 + 2 * h" np] mapb_less [of "160 + 2 * h + 1" np] by (intro f16_agree agree_mono [OF ag]) auto
  qed
  moreover have "agree (dbytes e) a b3 \<and> d_num e div 64 < np + 1" if e: "e \<in> ents C" for e
  proof
    note ie = dent_in_page [OF i(2,1) e]
    have "dbytes e \<subseteq> {..<2048 * np} - {0, 1} - mapb np"
    proof
      fix k assume k: "k \<in> dbytes e"
      have "k < length a" using k entsD(1) [OF i(2) e] by (auto simp: dent_at_def dbytes_def)
      then show "k \<in> {..<2048 * np} - {0, 1} - mapb np" using dbytes_in_page [OF ie k] mapb_less [of k np] i(4) by auto
    qed
    then show "agree (dbytes e) a b3" by (rule agree_mono [OF ag])
    show "d_num e div 64 < np + 1" using entsD(2) [OF i(2) e] by simp
  qed
  then have "chains_ok r (np + 1) b3 C" using chains_agree [OF i(2) h] by blast
  moreover have "alloc_ok r (np + 1) b3 C"
    using new_page_alloc [OF i(3,2,1) ag] ub b(5) b3(3) by simp
  ultimately show ?thesis using b(1,5) b2(1) b3(1) ub unfolding dir_inv_def by auto
qed

section \<open>fdir_creat\<close>

text \<open>No empty page at the end.\<close>

definition tight :: "nat \<Rightarrow> (nat \<Rightarrow> dent list) \<Rightarrow> bool" where
  "tight np C \<longleftrightarrow> np = 1 \<or> (\<exists>e \<in> ents C. d_num e div 64 = np - 1)"

lemma creat_new_page:
  assumes inv: "dir_inv r np a C" and np: "np < 1023" and nm: "good_name nm" and no: "dlook C nm = None"
  shows "\<exists>b b2 b3 b4 b5 C'. create_new_page 0 a u = Some (0, b, getpage np) \<and> wbytes b 0 (be16 (of_nat (np + 1))) = Some b2 \<and>
    (if np < MAXPAGES then w8 b2 (map_off np) (of_nat (ENTRIESPERPAGE - 1)) else Some b2) = Some b3 \<and>
    add_to_page b3 (getpage np) np nm None fid (f16 a (160 + 2 * hashentry nm)) = Some (0, b4) \<and>
    wbytes b4 (hash_off (hashentry nm)) (be16 (of_int (0 + int (np * ENTRIESPERPAGE) + 1))) = Some b5 \<and>
    dir_inv r (np + 1) b5 C' \<and> dlook C' = (dlook C)(nm \<mapsto> (fVnode fid, fUnique fid)) \<and> ents C' = insert (new_dent (64 * np) nm fid) (ents C)"
proof -
  obtain b b2 b3 where b: "create_new_page 0 a u = Some (0, b, getpage np)" "wbytes b 0 (be16 (of_nat (np + 1))) = Some b2"
    "(if np < MAXPAGES then w8 b2 (map_off np) (of_nat (ENTRIESPERPAGE - 1)) else Some b2) = Some b3"
    "dir_inv r (np + 1) b3 C" "\<forall>k < 64. ubit b3 np k \<longleftrightarrow> k = 0" "\<forall>h < 128. f16 b3 (160 + 2 * h) = f16 a (160 + 2 * h)"
    using new_page_inv [OF inv np, of u] by blast
  note i = invD [OF b(4)]
  have n: "0 < nslots nm" "nslots nm \<le> 63" using nslots_bound [of nm] nm by (auto simp: good_name_def)
  have free: "\<forall>k. 0 < k \<and> k \<le> 0 + nslots nm \<longrightarrow> \<not> ubit b3 np k" using b(5) n by auto
  have "add_scan b3 (getpage np) (nslots nm) 0 = Some (Some 0)"
    by (rule add_scan_free [OF _ n]) (use free i(4) in auto)
  moreover have "np < 128 \<longrightarrow> unat (b3 ! (32 + np)) = nfree b3 np" using i(3) by (simp add: alloc_ok_def)
  moreover have "{k. k < 64 \<and> \<not> ubit b3 np k} = {1..<64}" using b(5) by auto
  then have "nfree b3 np = 63" by (simp add: nfree_def)
  moreover have "np = 0 \<longrightarrow> 12 \<le> (0::nat)" using invD(5) [OF inv] by simp
  ultimately obtain b4 where b4: "add_to_page b3 (getpage np) np nm None fid (f16 a (160 + 2 * hashentry nm)) = Some (int 0, b4)"
    "added b3 np (new_dent (64 * np + 0) nm fid) (f16 a (160 + 2 * hashentry nm)) b4"
    using add_to_page_at [OF i(4), of np 0 nm fid "f16 a (160 + 2 * hashentry nm)"] nm n free unfolding new_dent_def by auto
  have "f16 b3 (160 + 2 * hashentry nm) = f16 a (160 + 2 * hashentry nm)" using b(6) hashentry_less [of nm] by blast
  then obtain c C' where "wbytes b4 (hash_off (hashentry nm)) (be16 (of_int (int 0 + int (np * ENTRIESPERPAGE) + 1))) = Some c"
    "dir_inv r (np + 1) c C'" "dlook C' = (dlook C)(nm \<mapsto> (fVnode fid, fUnique fid))"
    "ents C' = insert (new_dent (64 * np + 0) nm fid) (ents C)"
    using link_ok [OF b(4), of np 0 nm fid b4] b4(2) no by auto
  then show ?thesis using b(1-3) b4(1) by auto
qed

lemma creat_inv:
  assumes inv: "dir_inv r np a C" and np: "np < 1023" and nm: "good_name nm"
    and u: "u = None \<or> f16 a 2 \<noteq> AFSDIRMAGIC_UTF8"
  shows "(dlook C nm \<noteq> None \<longrightarrow> fdir_creat tr a nm u fid = Some (EEXIST, a)) \<and>
    (dlook C nm = None \<longrightarrow>
      (\<exists>b np' C'. fdir_creat tr a nm u fid = Some (0, b) \<and> dir_inv r np' b C' \<and> np' \<le> np + 1 \<and> 
         (\<exists>n. ents C' = insert (new_dent n nm fid) (ents C) \<and> (np' = np \<or> n div 64 = np' - 1)) \<and>
         dlook C' = (dlook C)(nm \<mapsto> (fVnode fid, fUnique fid))) \<or>
      tr \<noteq> 0 \<and> fdir_creat tr a nm u fid = Some (tr, a))"
proof -
  note i = invD [OF inv]
  have n0: "0 \<notin> set nm" using nm by (simp add: good_name_def)
  let ?nx = "f16 a (160 + 2 * hashentry nm)"
  have len: "length a \<noteq> 0" "416 \<le> length a" using i(4,5) by auto
  have h: "b16 a (hash_off (hashentry nm)) = Some ?nx" using len hashentry_less [of nm] b16_in [of "160 + 2 * hashentry nm" a]
    by (simp add: hash_off_def fdir_sizes)
  have t: "b16 a 2 = Some (f16 a 2)" using len by (intro b16_in) simp
  note pre = dir_npages_ok [OF i(1)] find_entry_ok [OF i(1,2) n0] h t
  have raw: "(if f16 a 2 = AFSDIRMAGIC_UTF8 then u else None) = None" using u by auto
  show ?thesis
  proof (cases "dlook C nm = None")
    case False
    then show ?thesis using pre len by (auto simp: fdir_creat_def dlook_def)
  next
    case True
    then have f: "find (\<lambda>d. d_name d = nm) (C (hashentry nm)) = None" by (simp add: dlook_def)
    consider "creat_loop a nm None fid ?nx [0..<np] = Some (a, None)"
      | p j b where "creat_loop a nm None fid ?nx [0..<np] = Some (b, Some (p, int j))" "p < np" "j < 64"
          "added a p (new_dent (64 * p + j) nm fid) ?nx b"
      using creat_loop_ok [OF inv nm, of "[0..<np]" fid ?nx] by auto
    then show ?thesis
    proof cases
      case (2 p j b)
      from link_ok [OF inv 2(2,4,3) True] obtain c C' where
        c: "wbytes b (hash_off (hashentry nm)) (be16 (of_int (int j + int (p * ENTRIESPERPAGE) + 1))) = Some c"
        "dir_inv r np c C'" "dlook C' = (dlook C)(nm \<mapsto> (fVnode fid, fUnique fid))"
        "ents C' = insert (new_dent (64 * p + j) nm fid) (ents C)" by blast
      have "fdir_creat tr a nm u fid = Some (0, c)"
        using pre f 2(1) c(1) len(1) unfolding fdir_creat_def Let_def by (simp add: raw)
      then show ?thesis using c True by (metis le_add1)
    next
      case 1
      show ?thesis
      proof (cases "tr = 0")
        case False
        then have "create_new_page tr a v = Some (tr, a, length a)" for v by (simp add: create_new_page_def)
        then have "fdir_creat tr a nm u fid = Some (tr, a)"
          using pre f 1 len(1) False unfolding fdir_creat_def Let_def by (simp add: raw)
        then show ?thesis using False True by simp
      next
        case tr: True
        from creat_new_page [OF inv np nm True, of "f16 a 2 = AFSDIRMAGIC_UTF8 \<or> u \<noteq> None" fid]
        obtain b b2 b3 b4 b5 C' where
          b: "create_new_page 0 a (f16 a 2 = AFSDIRMAGIC_UTF8 \<or> u \<noteq> None) = Some (0, b, getpage np)"
          "wbytes b 0 (be16 (of_nat (np + 1))) = Some b2"
          "(if np < MAXPAGES then w8 b2 (map_off np) (of_nat (ENTRIESPERPAGE - 1)) else Some b2) = Some b3"
          "add_to_page b3 (getpage np) np nm None fid ?nx = Some (0, b4)"
          "wbytes b4 (hash_off (hashentry nm)) (be16 (of_int (0 + int (np * ENTRIESPERPAGE) + 1))) = Some b5"
          "dir_inv r (np + 1) b5 C'" "dlook C' = (dlook C)(nm \<mapsto> (fVnode fid, fUnique fid))"
          "ents C' = insert (new_dent (64 * np) nm fid) (ents C)" by blast
        have "fdir_creat tr a nm u fid = Some (0, b5)"
          using pre f 1 len(1) tr b(1-5) unfolding fdir_creat_def Let_def by (simp add: raw)
        moreover have "64 * np div 64 = np + 1 - 1" by simp
        ultimately show ?thesis using b(6-8) True by blast
      qed
    qed
  qed
qed

section \<open>Unlinking an entry\<close>

lemma remove_find_none:
  assumes "pages_ok r np buf" "0 \<notin> set name"
  shows "linked buf v ds \<Longrightarrow> \<forall>d \<in> set ds. dent_at buf d \<and> d_num d div 64 < np \<Longrightarrow> name \<notin> d_name ` set ds \<Longrightarrow>
    remove_find buf name np v prev = Some None"
proof (induction ds arbitrary: v prev)
  case Nil
  then show ?case by (simp add: remove_find.simps)
next
  case (Cons d ds)
  have d: "dent_at buf d" "d_num d div 64 < np" "v = of_nat (d_num d + 1)" using Cons.prems by auto
  have "np \<le> 1023" using assms(1) by (simp add: pages_ok_def)
  then have "v \<noteq> 0" unfolding d(3) using d(2) by (intro num_word) linarith
  moreover have "getentry buf (v - 1) np = Some (Some (eoff d))"
    unfolding d(3) by (rule getentry_ok [OF assms(1) d(2)])
  moreover have "strcmp_eq buf (eoff d + 12) name = Some (d_name d = name)"
    using d(1) assms(2) by (intro strcmp_has_name) (auto simp: dent_at_def)
  moreover have "b16 buf (eoff d + 2) = Some (f16 buf (eoff d + 2))"
    using d(1) nslots_bound [of "d_name d"] by (intro b16_in) (auto simp: dent_at_def)
  ultimately show ?case using Cons by (subst remove_find.simps) auto
qed

lemma remove_find_some:
  assumes "pages_ok r np buf" "0 \<notin> set (d_name d)"
  shows "linked buf v (xs @ d # ys) \<Longrightarrow> \<forall>e \<in> set (xs @ d # ys). dent_at buf e \<and> d_num e div 64 < np \<Longrightarrow> d_name d \<notin> d_name ` set xs \<Longrightarrow>
    remove_find buf (d_name d) np v prev =
      Some (Some (of_nat (d_num d + 1), eoff d, if xs = [] then prev else Some (eoff (last xs))))"
proof (induction xs arbitrary: v prev)
  case Nil
  have d: "dent_at buf d" "d_num d div 64 < np" "v = of_nat (d_num d + 1)" using Nil.prems by auto
  have "np \<le> 1023" using assms(1) by (simp add: pages_ok_def)
  then have "v \<noteq> 0" unfolding d(3) using d(2) by (intro num_word) linarith
  moreover have "getentry buf (v - 1) np = Some (Some (eoff d))"
    unfolding d(3) by (rule getentry_ok [OF assms(1) d(2)])
  moreover have "strcmp_eq buf (eoff d + 12) (d_name d) = Some True"
    using strcmp_has_name [OF _ assms(2)] d(1) by (auto simp: dent_at_def)
  ultimately show ?case using d(3) by (subst remove_find.simps) auto
next
  case (Cons e xs)
  have d: "dent_at buf e" "d_num e div 64 < np" "v = of_nat (d_num e + 1)" using Cons.prems by auto
  have "np \<le> 1023" using assms(1) by (simp add: pages_ok_def)
  then have "v \<noteq> 0" unfolding d(3) using d(2) by (intro num_word) linarith
  moreover have "getentry buf (v - 1) np = Some (Some (eoff e))"
    unfolding d(3) by (rule getentry_ok [OF assms(1) d(2)])
  moreover have "strcmp_eq buf (eoff e + 12) (d_name d) = Some (d_name e = d_name d)"
    using d(1) assms(2) by (intro strcmp_has_name) (auto simp: dent_at_def)
  moreover have "b16 buf (eoff e + 2) = Some (f16 buf (eoff e + 2))"
    using d(1) nslots_bound [of "d_name e"] by (intro b16_in) (auto simp: dent_at_def)
  ultimately show ?case using Cons by (subst remove_find.simps) auto
qed

lemma linked_unlink:
  "linked a v (zs @ l # d # ys) \<Longrightarrow> \<forall>e \<in> set zs \<union> set ys. agree (nextb e) a b \<Longrightarrow>
   f16 b (eoff l + 2) = f16 a (eoff d + 2) \<Longrightarrow> linked b v (zs @ l # ys)"
proof (induction zs arbitrary: v)
  case Nil
  then show ?case using linked_agree [of a "f16 a (eoff d + 2)" ys b] by auto
next
  case (Cons z zs)
  have "f16 b (eoff z + 2) = f16 a (eoff z + 2)"
    using Cons.prems(2) by (intro f16_agree) (simp add: agree_def nextb_def eval_nat_numeral)
  with Cons show ?case by simp
qed

lemma ents_split: "h < 128 \<Longrightarrow> ents (C(h := zs)) = set zs \<union> (\<Union>h' \<in> {..<128} - {h}. set (C h'))"
  by (auto simp: ents_def split: if_splits)

lemma ents_unlink:
  assumes "chains_ok r np a C" "h < 128" "C h = xs @ d # ys"
  shows "ents (C(h := xs @ ys)) = ents C - {d}" "d \<in> ents C"
proof -
  show "d \<in> ents C" using assms(2,3) by (auto simp: ents_def intro!: bexI [of _ h])
  have dis: "distinct (map d_name (xs @ d # ys))" using chainsD(3) [OF assms(1,2)] assms(3) by simp
  have h: "hashentry (d_name d) = h" using chainsD(4) [OF assms(1,2)] assms(3) by auto
  have "d \<notin> set (C h')" if "h' < 128" "h' \<noteq> h" for h' using chainsD(4) [OF assms(1) that(1)] that(2) h by auto
  moreover have "d \<notin> set (xs @ ys)" using dis by auto
  ultimately show "ents (C(h := xs @ ys)) = ents C - {d}"
    using assms(3) ents_split [OF assms(2), of C "xs @ ys"] ents_split [OF assms(2), of C "C h", unfolded fun_upd_triv] by auto
qed

text \<open>The bytes that hold the pointer to \<open>d\<close>: the hash slot or the next field of the entry before it.\<close>

definition linkb :: "nat \<Rightarrow> dent list \<Rightarrow> nat set" where
  "linkb h xs = (if xs = [] then hashb h else nextb (last xs))"

definition link_off :: "nat \<Rightarrow> dent list \<Rightarrow> nat" where
  "link_off h xs = (if xs = [] then 160 + 2 * h else eoff (last xs) + 2)"

lemma unlink_frame:
  assumes "chains_ok r np a C" "pages_ok r np a" "h < 128" "C h = xs @ d # ys"
    and "same_but (linkb h xs \<union> bm p \<union> dbytes d \<union> mapb p) a b"
  shows "e \<in> ents C \<Longrightarrow> e \<noteq> d \<Longrightarrow> agree (dbytes e - nextb e) a b"
    "e \<in> ents C \<Longrightarrow> e \<noteq> d \<Longrightarrow> xs = [] \<or> e \<noteq> last xs \<Longrightarrow> agree (nextb e) a b"
    "h' < 128 \<Longrightarrow> h' \<noteq> h \<or> xs \<noteq> [] \<Longrightarrow> f16 b (160 + 2 * h') = f16 a (160 + 2 * h')"
proof -
  let ?W = "linkb h xs \<union> bm p \<union> dbytes d \<union> mapb p"
  note eu = ents_unlink [OF assms(1,3,4)]
  note ip = dent_in_page [OF assms(1,2)]
  have slots: "slots e \<inter> slots e' = {}" if "e \<in> ents C" "e' \<in> ents C" "e \<noteq> e'" for e e'
    using assms(1) that by (simp add: chains_ok_def)
  have l: "last xs \<in> ents C" if "xs \<noteq> []"
    using that assms(3,4) last_in_set [OF that] by (auto simp: ents_def intro!: bexI [of _ h])
  have out: "k \<notin> ?W" if e: "e \<in> ents C" "e \<noteq> d" "k \<in> dbytes e" "k \<notin> linkb h xs" for e k
    using dent_apart [OF ip [OF eu(2)] ip [OF e(1)] slots [OF eu(2) e(1)] assms(3) e(3), of p] e(2,4) by auto
  have lk: "k \<notin> linkb h xs" if e: "e \<in> ents C" "k \<in> dbytes e" "xs = [] \<or> e \<noteq> last xs \<or> k \<notin> nextb e" for e k
  proof (cases "xs = []")
    case True
    then show ?thesis using hash_apart(1) [OF _ assms(3) ip [OF e(1)]] e(2) by (auto simp: linkb_def)
  next
    case False
    show ?thesis using False e dbytes_disjoint [OF slots [OF l [OF False] e(1)]] nextb_dbytes [of "last xs"] by (auto simp: linkb_def)
  qed
  have dlen: "k < length a" if "e \<in> ents C" "k \<in> dbytes e" for e k
    using that(2) entsD(1) [OF assms(1) that(1)] by (auto simp: dent_at_def dbytes_def)
  show "agree (dbytes e - nextb e) a b" if "e \<in> ents C" "e \<noteq> d"
    by (rule same_agree [OF assms(5)]) (use out [OF that] lk [OF that(1)] dlen [OF that(1)] in blast)
  show "agree (nextb e) a b" if "e \<in> ents C" "e \<noteq> d" "xs = [] \<or> e \<noteq> last xs"
    by (rule same_agree [OF assms(5)]) (use out [OF that(1,2)] lk [OF that(1)] dlen [OF that(1)] that(3) nextb_dbytes [of e] in blast)
  show "f16 b (160 + 2 * h') = f16 a (160 + 2 * h')" if h': "h' < 128" "h' \<noteq> h \<or> xs \<noteq> []"
  proof (rule f16_hash_same [OF assms(5) _ h'(1)])
    show "416 \<le> length a" using assms(2) by (auto simp: pages_ok_def)
    fix k assume k: "k \<in> hashb h'"
    have nd: "k \<notin> dbytes e" if "e \<in> ents C" for e using hash_apart(1) [OF k h'(1) ip [OF that]] .
    have "k \<notin> linkb h xs"
    proof (cases "xs = []")
      case True
      then show ?thesis using k h'(2) by (auto simp: linkb_def hashb_def)
    next
      case False
      then show ?thesis using nd [OF l] nextb_dbytes [of "last xs"] by (auto simp: linkb_def)
    qed
    then show "k \<notin> ?W" using nd [OF eu(2)] hash_apart(2,3) [OF k h'(1)] by blast
  qed
qed

lemma unlink_chains:
  assumes "chains_ok r np a C" "pages_ok r np a" "h < 128" "C h = xs @ d # ys"
    and "same_but (linkb h xs \<union> bm p \<union> dbytes d \<union> mapb p) a b" "f16 b (link_off h xs) = f16 a (eoff d + 2)"
  shows "chains_ok r np b (C(h := xs @ ys))"
proof -
  let ?C = "C(h := xs @ ys)"
  note eu = ents_unlink [OF assms(1,3,4)]
  note fr = unlink_frame [OF assms(1-5)]
  have dis: "distinct (map d_name (xs @ d # ys))" using chainsD(3) [OF assms(1,3)] assms(4) by simp
  have hd: "e \<noteq> d \<and> e \<in> ents C" if "e \<in> set xs \<union> set ys" for e
    using that dis assms(3,4) by (auto simp: ents_def intro!: bexI [of _ h])
  have "linked b (f16 b (160 + 2 * h')) (?C h')" if h': "h' < 128" for h'
  proof (cases "h' = h")
    case False
    have "agree (nextb e) a b" if "e \<in> set (C h')" for e
    proof (rule fr(2))
      have "hashentry (d_name e) = h'" "e \<in> ents C" using that chainsD(4) [OF assms(1) h'] by auto
      moreover have "hashentry (d_name e') = h" if "e' \<in> set (C h)" for e' using that chainsD(4) [OF assms(1,3)] by auto
      ultimately show "e \<in> ents C" "e \<noteq> d" "xs = [] \<or> e \<noteq> last xs" using False assms(4) by auto
    qed
    then show ?thesis using linked_agree [OF chainsD(1) [OF assms(1) h']] False fr(3) [OF h'] by simp
  next
    case True
    show ?thesis
    proof (cases xs rule: rev_cases)
      case Nil
      then have "linked a (f16 a (eoff d + 2)) ys" using chainsD(1) [OF assms(1,3)] assms(4) by simp
      then have "linked b (f16 a (eoff d + 2)) ys" by (rule linked_agree) (use fr(2) Nil hd in blast)
      then show ?thesis using True Nil assms(6) by (simp add: link_off_def)
    next
      case (snoc zs l)
      have ne: "e \<noteq> l" if "e \<in> set zs \<union> set ys" for e using dis snoc that by auto
      have "linked b (f16 a (160 + 2 * h)) (zs @ l # ys)"
      proof (rule linked_unlink [of a _ zs l d ys])
        show "linked a (f16 a (160 + 2 * h)) (zs @ l # d # ys)" using chainsD(1) [OF assms(1,3)] assms(4) snoc by simp
        show "\<forall>e \<in> set zs \<union> set ys. agree (nextb e) a b" using fr(2) hd ne snoc by auto
        show "f16 b (eoff l + 2) = f16 a (eoff d + 2)" using assms(6) snoc by (simp add: link_off_def)
      qed
      then show ?thesis using True snoc fr(3) [OF h'] by simp
    qed
  qed
  moreover have "distinct (map d_name (?C h'))" "\<forall>e \<in> set (?C h'). hashentry (d_name e) = h'" if "h' < 128" for h'
    using dis chainsD(3,4) [OF assms(1) that] chainsD(4) [OF assms(1,3)] assms(4) by auto
  moreover have "\<forall>e \<in> ents C - {d}. dent_at b e \<and> d_num e div 64 < np \<and> r - 1 \<le> d_num e"
    using dent_at_agree [OF entsD(1) [OF assms(1)] fr(1)] entsD [OF assms(1)] by auto
  moreover have "\<forall>e \<in> ents C. \<forall>e' \<in> ents C. e \<noteq> e' \<longrightarrow> slots e \<inter> slots e' = {}" using assms(1) by (simp add: chains_ok_def)
  ultimately show ?thesis unfolding chains_ok_def eu(1) by blast
qed

lemma remove_from_page_ok:
  assumes "dent_at a d" "in_page r d" "length a = 2048 * np" "d_num d div 64 = p" "p < np"
    "\<forall>k \<in> slots d. ubit a p (k mod 64 + 1)" "p < 128 \<longrightarrow> unat (a ! (32 + p)) = nfree a p"
  shows "\<exists>b. remove_from_page a (getpage p) p (d_num d mod 64) = Some b \<and> same_but (bm p \<union> dbytes d \<union> mapb p) a b \<and>
    (\<forall>k < 64. ubit b p k \<longleftrightarrow> ubit a p k \<and> \<not> (0 < k \<and> 64 * p + k - 1 \<in> slots d)) \<and>
    (p < 128 \<longrightarrow> unat (b ! (32 + p)) = nfree b p)"
proof -
  let ?n = "nslots (d_name d)" and ?i = "d_num d mod 64"
  have len: "2048 * p + 2048 \<le> length a" using assms(3,5) by simp
  have num: "d_num d = 64 * p + ?i" using assms(4) by auto
  have in63: "?i + ?n \<le> 63" using assms(1) by (simp add: dent_at_def)
  have e: "entry_at (getpage p) ?i = eoff d"
    using arg_cong [OF num, of "\<lambda>m. 32 * (m + 1)"] by (simp add: entry_at_def getpage_def eoff_def fdir_sizes)
  have nm: "cstr a (eoff d + 12) = Some (d_name d)" using assms(1) by (simp add: dent_at_def cstr_has_name)
  have nb: "length (d_name d) + 17 \<le> 32 * ?n" by (rule nslots_bound)
  let ?m = "if p < 128 then do { m \<leftarrow> b8 a (32 + p); w8 a (32 + p) (m + of_nat ?n) } else Some a"
  obtain b1 where b1: "?m = Some b1" "same_but (mapb p) a b1" "p < 128 \<longrightarrow> b1 ! (32 + p) = a ! (32 + p) + of_nat ?n"
  proof (cases "p < 128")
    case True
    then obtain b where "w8 a (32 + p) (a ! (32 + p) + of_nat ?n) = Some b" "same_but {32 + p} a b"
      "b ! (32 + p) = a ! (32 + p) + of_nat ?n" using w8_Some [of "32 + p" a] len by fastforce
    then show ?thesis using that [of b] True len by (simp add: mapb_def)
  qed (use that [of a] in \<open>simp_all add: mapb_def same_but_def\<close>)
  have l1: "length b1 = length a" using b1(2) by (simp add: same_but_def)
  obtain b2 where b2: "wbytes b1 (eoff d + 2) (replicate 10 0) = Some b2" "same_but {eoff d + 2..<eoff d + 12} b1 b2"
    using wbytes_Some [of "eoff d + 2" "replicate 10 0" b1] assms(1) nb l1 by (auto simp: dent_at_def add.commute)
  have l2: "length b2 = length a" using b2(2) l1 by (simp add: same_but_def)
  obtain b3 where b3: "mark_unused b2 (getpage p) [?i + 1..<?i + ?n + 1] = Some b3" "same_but (bm p) b2 b3"
    "\<forall>j < 64. ubit b3 p j \<longleftrightarrow> ubit b2 p j \<and> j \<notin> set [?i + 1..<?i + ?n + 1]"
    using mark_unused_ok [of p b2 "[?i + 1..<?i + ?n + 1]"] len l2 in63 by (auto simp del: upt_Suc)
  have rem: "remove_from_page a (getpage p) p ?i = Some b3"
    unfolding remove_from_page_def e nm Let_def map_off_def MAXPAGES_def
    using b1(1) b2(1) b3(1) len
    by (cases "p < 128") (simp_all add: nm nslots_additional [simplified] del: upt_Suc)
  have s12: "same_but (mapb p \<union> {eoff d + 2..<eoff d + 12}) a b2" by (rule same_but_trans [OF b1(2) b2(2)])
  have db: "{eoff d + 2..<eoff d + 12} \<subseteq> dbytes d" using nb by (auto simp: dbytes_def)
  have s: "same_but (bm p \<union> dbytes d \<union> mapb p) a b3"
    by (rule same_but_mono [OF same_but_trans [OF s12 b3(2)]]) (use db in blast)
  have reg: "j \<notin> mapb p \<union> {eoff d + 2..<eoff d + 12}" if "j \<in> bm p" for j
    using db mapb_less [of j p] bm_small [OF that] dbytes_in_page [OF assms(2), of j] that bm_page [of j p] by auto
  have ub: "ubit b3 p k \<longleftrightarrow> ubit a p k \<and> \<not> (?i < k \<and> k \<le> ?i + ?n)" if "k < 64" for k
    using ubit_same [OF s12 _ that reg] b3(3) that len by auto
  note sp = slots_page [OF num in63]
  have "p < 128 \<longrightarrow> unat (b3 ! (32 + p)) = nfree b3 p"
  proof
    assume p: "p < 128"
    have "32 + p \<notin> dbytes d" "32 + p \<notin> bm p" using dbytes_in_page [OF assms(2), of "32 + p"] bm_small [of "32 + p" p] p by auto
    then have "32 + p \<notin> {eoff d + 2..<eoff d + 12} \<union> bm p" using db by blast
    then have "b3 ! (32 + p) = b1 ! (32 + p)"
      using same_but_trans [OF b2(2) b3(2)] l1 len p unfolding same_but_def by simp
    moreover have "nfree a p + ?n = nfree b3 p"
    proof (rule nfree_mark [OF _ in63])
      show "\<forall>j < 64. ubit a p j \<longleftrightarrow> ubit b3 p j \<or> ?i < j \<and> j \<le> ?i + ?n"
      proof (intro allI impI)
        fix j :: nat assume j: "j < 64"
        have "ubit a p j" if "?i < j" "j \<le> ?i + ?n"
        proof -
          have "64 * p + j - 1 \<in> slots d" using sp(2) [of j] that by simp
          moreover have "(64 * p + j - 1) mod 64 + 1 = j" using divmod_at [of 64 p "64 * p + j - 1"] j that by simp
          ultimately show ?thesis using assms(6) by metis
        qed
        then show "ubit a p j \<longleftrightarrow> ubit b3 p j \<or> ?i < j \<and> j \<le> ?i + ?n" using ub [OF j] by auto
      qed
      show "\<forall>k. ?i < k \<and> k \<le> ?i + ?n \<longrightarrow> \<not> ubit b3 p k" using ub in63 by auto
    qed
    ultimately show "unat (b3 ! (32 + p)) = nfree b3 p"
      using map_plus [of "a ! (32 + p)" "nfree a p" ?n] b1(3) assms(7) p nfree_le [of b3 p] by simp
  qed
  then show ?thesis using rem s ub sp(2) by (intro exI [of _ b3]) auto
qed

lemma unlink_alloc:
  assumes "alloc_ok r np a C" "chains_ok r np a C" "pages_ok r np a" "h < 128" "C h = xs @ d # ys" "p < np" "d_num d div 64 = p"
    and "\<forall>k < 64. ubit c p k \<longleftrightarrow> ubit a p k \<and> \<not> (0 < k \<and> 64 * p + k - 1 \<in> slots d)"
    and "p < 128 \<longrightarrow> unat (c ! (32 + p)) = nfree c p"
    and "same_but W a c" "\<forall>q < np. q \<noteq> p \<longrightarrow> (\<forall>k \<in> bm q \<union> mapb q. k \<notin> W)"
  shows "alloc_ok r np c (C(h := xs @ ys))"
  unfolding alloc_ok_def ents_unlink(1) [OF assms(2,4,5)]
proof (intro allI impI)
  fix q assume q: "q < np"
  note dE = ents_unlink(2) [OF assms(2,4,5)]
  note ip = dent_in_page [OF assms(2,3) dE]
  have lq: "2048 * q + 2048 \<le> length a" using q assms(3) by (auto simp: pages_ok_def)
  have aq: "\<forall>k < 64. ubit a q k \<longleftrightarrow> reserved r q k \<or> (\<exists>e \<in> ents C. 64 * q + k - 1 \<in> slots e)"
    "q < 128 \<longrightarrow> unat (a ! (32 + q)) = nfree a q" using assms(1) q by (auto simp: alloc_ok_def)
  show "(\<forall>k < 64. ubit c q k \<longleftrightarrow> reserved r q k \<or> (\<exists>e \<in> ents C - {d}. 64 * q + k - 1 \<in> slots e)) \<and>
    (q < 128 \<longrightarrow> unat (c ! (32 + q)) = nfree c q)"
  proof (cases "q = p")
    case False
    have other: "ubit c q k = ubit a q k" if "k < 64" for k
      by (rule ubit_same [OF assms(10) _ that]) (use lq assms(11) q False in auto)
    have "\<not> (64 * q + k - 1 \<in> slots d)" if "0 < k" "k < 64" for k
      using page_slot [OF ip that, of q] assms(7) False by auto
    then have "\<forall>k < 64. ubit c q k \<longleftrightarrow> reserved r q k \<or> (\<exists>e \<in> ents C - {d}. 64 * q + k - 1 \<in> slots e)"
      using other aq(1) by (metis DiffD1 DiffI neq0_conv reserved_def singletonD)
    moreover have "nfree c q = nfree a q" using other by (simp add: nfree_def cong: conj_cong)
    moreover have "c ! (32 + q) = a ! (32 + q)" if "q < 128"
      using assms(10,11) False q that lq by (auto simp: same_but_def mapb_def)
    ultimately show ?thesis using aq(2) by simp
  next
    case True
    have "ubit c q k \<longleftrightarrow> reserved r q k \<or> (\<exists>e \<in> ents C - {d}. 64 * q + k - 1 \<in> slots e)" if k: "k < 64" for k
    proof (cases "0 < k \<and> 64 * q + k - 1 \<in> slots d")
      case True
      then have "64 * q + k - 1 \<notin> slots e" if "e \<in> ents C - {d}" for e
        using assms(2) that dE unfolding chains_ok_def by (metis DiffE disjoint_iff insertI1)
      moreover have "\<not> reserved r q k"
      proof
        assume "reserved r q k"
        then have "q = 0" "k < r" using True by (auto simp: reserved_def)
        moreover have "r - 1 \<le> 64 * q + k - 1" using True ip by (auto simp: slots_def in_page_def)
        ultimately show False using True by linarith
      qed
      ultimately show ?thesis using assms(8) k True \<open>q = p\<close> by auto
    next
      case False
      then show ?thesis using assms(8) k aq(1) \<open>q = p\<close> by (auto simp: reserved_def)
    qed
    then show ?thesis using True assms(9) by simp
  qed
qed

lemma link_write:
  assumes "link_off h xs + 2 \<le> length a" "linkb h xs = {link_off h xs, link_off h xs + 1}"
  shows "\<exists>b. wbytes a (link_off h xs) (be16 w) = Some b \<and> same_but (linkb h xs) a b \<and> f16 b (link_off h xs) = w"
proof -
  obtain b where b: "wbytes a (link_off h xs) (be16 w) = Some b" "same_but {link_off h xs..<link_off h xs + 2} a b"
    "\<forall>j < 2. b ! (link_off h xs + j) = be16 w ! j" using wbytes_Some [of "link_off h xs" "be16 w" a] assms(1) by auto
  have "f16 b (link_off h xs) = w" using b(3) [rule_format, of 0] b(3) [rule_format, of 1] by (intro f16_be16) simp_all
  moreover have "same_but (linkb h xs) a b" by (rule same_but_mono [OF b(2)]) (auto simp: assms(2))
  ultimately show ?thesis using b(1) by blast
qed

lemma linkb_off: "linkb h xs = {link_off h xs, link_off h xs + 1}"
  by (auto simp: linkb_def link_off_def hashb_def nextb_def)

lemma linkb_cases:
  assumes "chains_ok r np a C" "pages_ok r np a" "h < 128" "C h = xs @ d # ys" "k \<in> linkb h xs"
  shows "k \<in> hashb h \<or> (\<exists>l \<in> ents C. l \<noteq> d \<and> k \<in> dbytes l \<and> k \<in> nextb l)" "k < length a"
proof -
  have dis: "distinct (map d_name (xs @ d # ys))" using chainsD(3) [OF assms(1,3)] assms(4) by simp
  have l: "last xs \<in> ents C \<and> last xs \<noteq> d" if "xs \<noteq> []"
    using that assms(3,4) last_in_set [OF that] dis by (auto simp: ents_def intro!: bexI [of _ h])
  show 1: "k \<in> hashb h \<or> (\<exists>l \<in> ents C. l \<noteq> d \<and> k \<in> dbytes l \<and> k \<in> nextb l)"
    using assms(5) l nextb_dbytes [of "last xs"] by (auto simp: linkb_def split: if_splits)
  have "k < length a" if "l \<in> ents C" "k \<in> dbytes l" for l
    using that(2) entsD(1) [OF assms(1) that(1)] by (auto simp: dent_at_def dbytes_def)
  moreover have "k < length a" if "k \<in> hashb h" using hashb_less [OF that assms(3)] assms(2) by (auto simp: pages_ok_def)
  ultimately show "k < length a" using 1 by blast
qed

text \<open>\<open>fdir_remove\<close> up to the point where it drops empty pages.\<close>

lemma unlink_inv:
  assumes inv: "dir_inv r np a C" and h: "h < 128" "C h = xs @ d # ys"
  shows "\<exists>b c. wbytes a (link_off h xs) (be16 (f16 a (eoff d + 2))) = Some b \<and>
    remove_from_page b (getpage (d_num d div 64)) (d_num d div 64) (d_num d mod 64) = Some c \<and>
    dir_inv r np c (C(h := xs @ ys))"
proof -
  note i = invD [OF inv]
  let ?p = "d_num d div 64"
  note dE = ents_unlink(2) [OF i(2) h]
  note lc = linkb_cases [OF i(2,1) h]
  note ip = dent_in_page [OF i(2,1)]
  have slots: "slots l \<inter> slots d = {}" if "l \<in> ents C" "l \<noteq> d" for l
    using i(2) that dE by (simp add: chains_ok_def)
  have off: "link_off h xs + 2 \<le> length a" using lc(2) [of "link_off h xs + 1"] linkb_off by auto
  obtain b where b: "wbytes a (link_off h xs) (be16 (f16 a (eoff d + 2))) = Some b" "same_but (linkb h xs) a b"
    "f16 b (link_off h xs) = f16 a (eoff d + 2)" using link_write [OF off linkb_off] by blast
  have lb: "length b = length a" using b(2) by (simp add: same_but_def)
  have p: "?p < np" using entsD(2) [OF i(2) dE] .
  have out: "k \<notin> bm q \<and> k \<notin> dbytes d \<and> k \<notin> mapb q \<and> k \<notin> hdrb r" if k: "k \<in> linkb h xs" for k q
  proof -
    consider "k \<in> hashb h" | l where "l \<in> ents C" "l \<noteq> d" "k \<in> dbytes l" using lc(1) [OF k] by blast
    then show ?thesis
    proof cases
      case 1
      then show ?thesis using hash_apart [OF 1 h(1)] ip [OF dE] hdrb_small [of k r] hashb_less [OF 1 h(1)] by auto
    next
      case (2 l)
      then show ?thesis
        using dbytes_disjoint [OF slots [OF 2(1,2)]] dbytes_in_page [OF ip [OF 2(1)] 2(3)] hdrb_dbytes [OF ip [OF 2(1)] 2(3)]
          bm_page [of k q] mapb_less [of k q] by auto
    qed
  qed
  have db: "dent_at b d"
    by (rule dent_at_agree [OF entsD(1) [OF i(2) dE] same_agree [OF b(2)]])
      (use out entsD(1) [OF i(2) dE] in \<open>auto simp: dent_at_def dbytes_def\<close>)
  have ub: "ubit b q k = ubit a q k" if "q < np" "k < 64" for q k
    by (rule ubit_same [OF b(2) _ that(2)]) (use out i(4) that in auto)
  have "nfree b ?p = nfree a ?p" using ub [OF p] by (simp add: nfree_def cong: conj_cong)
  moreover have "b ! (32 + ?p) = a ! (32 + ?p)" if p128: "?p < 128"
  proof -
    have "32 + ?p < length a" using p128 i(4,5) by linarith
    then show ?thesis using b(2) out [of "32 + ?p" ?p] p128 by (auto simp: same_but_def mapb_def)
  qed
  ultimately have mp: "?p < 128 \<longrightarrow> unat (b ! (32 + ?p)) = nfree b ?p" using i(3) p by (simp add: alloc_ok_def)
  have us: "\<forall>k \<in> slots d. ubit b ?p (k mod 64 + 1)"
  proof
    fix k assume k: "k \<in> slots d"
    note sp = slots_in_page [OF ip [OF dE] k]
    have "64 * ?p + (k mod 64 + 1) - 1 = k" using sp mult_div_mod_eq [of 64 k] by linarith
    moreover have "k mod 64 + 1 < 64" using sp by simp
    moreover have "ubit a ?p j \<longleftrightarrow> reserved r ?p j \<or> (\<exists>e \<in> ents C. 64 * ?p + j - 1 \<in> slots e)" if "j < 64" for j
      using i(3) p that by (simp add: alloc_ok_def)
    ultimately show "ubit b ?p (k mod 64 + 1)" using ub [OF p] k dE by metis
  qed
  obtain c where c: "remove_from_page b (getpage ?p) ?p (d_num d mod 64) = Some c" "same_but (bm ?p \<union> dbytes d \<union> mapb ?p) b c"
    "\<forall>k < 64. ubit c ?p k \<longleftrightarrow> ubit b ?p k \<and> \<not> (0 < k \<and> 64 * ?p + k - 1 \<in> slots d)"
    "?p < 128 \<longrightarrow> unat (c ! (32 + ?p)) = nfree c ?p"
    using remove_from_page_ok [OF db ip [OF dE], of np ?p] lb i(4) p us mp by auto
  let ?W = "linkb h xs \<union> bm ?p \<union> dbytes d \<union> mapb ?p"
  have s: "same_but ?W a c" using same_but_trans [OF b(2) c(2)] by (simp add: Un_assoc)
  have "pages_ok r np c"
    by (rule pages_ok_frame [OF i(1) s]) (use out hdr_apart [OF ip [OF dE] h(1)] in blast)
  moreover have "f16 c (link_off h xs) = f16 b (link_off h xs)"
  proof -
    have "link_off h xs \<in> linkb h xs" "link_off h xs + 1 \<in> linkb h xs" using linkb_off by auto
    then show ?thesis using out off lb by (intro f16_same [OF c(2)]) auto
  qed
  then have "chains_ok r np c (C(h := xs @ ys))" using unlink_chains [OF i(2,1) h s] b(3) by simp
  moreover have "alloc_ok r np c (C(h := xs @ ys))"
  proof (rule unlink_alloc [OF i(3,2,1) h p refl _ c(4) s])
    show "\<forall>q < np. q \<noteq> ?p \<longrightarrow> (\<forall>k \<in> bm q \<union> mapb q. k \<notin> ?W)"
      using out page_apart [OF ip [OF dE] _ h(1), of _ ?p] by blast
  qed (use ub p c(3) in auto)
  ultimately show ?thesis using b(1) c(1) unfolding dir_inv_def by blast
qed

section \<open>Dropping empty pages\<close>

lemma alloc_agree:
  assumes "alloc_ok r np a C" "np' \<le> np" "\<forall>q < np'. agree (bm q) a b \<and> (q < 128 \<longrightarrow> b ! (32 + q) = a ! (32 + q))"
  shows "alloc_ok r np' b C"
  unfolding alloc_ok_def
proof (intro allI impI)
  fix q assume q: "q < np'"
  then have ab: "agree (bm q) a b" "q < 128 \<longrightarrow> b ! (32 + q) = a ! (32 + q)" using assms(3) by auto
  show "(\<forall>k < 64. ubit b q k \<longleftrightarrow> reserved r q k \<or> (\<exists>d \<in> ents C. 64 * q + k - 1 \<in> slots d)) \<and>
    (q < 128 \<longrightarrow> unat (b ! (32 + q)) = nfree b q)"
    using assms(1,2) q ab ubit_agree [OF ab(1)] nfree_agree [OF ab(1)] by (simp add: alloc_ok_def)
qed

lemma count_inv:
  assumes inv: "dir_inv r np a C" and w: "unat w \<le> np"
  shows "\<exists>b. wbytes a 0 (be16 w) = Some b \<and> dir_inv r np b C \<and> f16 b 0 = w"
proof -
  note i = invD [OF inv]
  obtain b where b: "wbytes a 0 (be16 w) = Some b" "same_but {0..<2} a b" "\<forall>j < 2. b ! j = be16 w ! j"
    using wbytes_Some [of 0 "be16 w" a] i(4,5) by (auto simp: numeral_2_eq_2)
  have lb: "length b = length a" using b(2) by (simp add: same_but_def)
  have w0: "f16 b 0 = w" using b(3) by (intro f16_be16) simp_all
  have ag: "agree S a b" if "\<forall>k \<in> S. 2 \<le> k \<and> k < length a" for S by (rule same_agree [OF b(2)]) (use that in auto)
  have tag: "f16 b (2048 * q + 2) = f16 a (2048 * q + 2)" if "q < np" for q
    by (rule f16_agree, rule ag) (use that i(4) in auto)
  have fl: "b ! (32 * (n + 1)) = a ! (32 * (n + 1))" if "n < r - 1" for n
  proof -
    have "n + 1 \<le> 44" using that i(8) by simp
    then have "32 * (n + 1) < length a" using i(4,5) by simp
    then show ?thesis using b(2) by (simp add: same_but_def)
  qed
  have "pages_ok r np b" using i(1) w0 w lb tag fl by (simp add: pages_ok_def)
  moreover have "chains_ok r np b C"
  proof (rule chains_agree [OF i(2)])
    show "\<forall>h < 128. f16 b (160 + 2 * h) = f16 a (160 + 2 * h)"
      using i(4,5) by (intro allI impI f16_agree ag) auto
    show "\<forall>e \<in> ents C. agree (dbytes e) a b \<and> d_num e div 64 < np"
    proof
      fix e assume e: "e \<in> ents C"
      have "\<forall>k \<in> dbytes e. 2 \<le> k \<and> k < length a"
        using dbytes_in_page [OF dent_in_page [OF i(2,1) e]] entsD(1) [OF i(2) e] by (fastforce simp: dent_at_def dbytes_def)
      then show "agree (dbytes e) a b \<and> d_num e div 64 < np" using ag entsD(2) [OF i(2) e] by blast
    qed
  qed
  moreover have "alloc_ok r np b C"
  proof (rule alloc_agree [OF i(3) order_refl], intro allI impI)
    fix q assume q: "q < np"
    have "agree (bm q) a b" by (rule ag) (use q i(4) in \<open>auto simp: bm_def\<close>)
    moreover have "32 + q < length a" using q i(4) by simp
    ultimately show "agree (bm q) a b \<and> (q < 128 \<longrightarrow> b ! (32 + q) = a ! (32 + q))" using b(2) by (simp add: same_but_def)
  qed
  ultimately show ?thesis using b(1) w0 by (auto simp: dir_inv_def)
qed

lemma truncate_inv:
  assumes inv: "dir_inv r np a C" and np': "1 \<le> np'" "np' \<le> np" "unat (f16 a 0) \<le> np'"
    and e: "\<forall>e \<in> ents C. d_num e div 64 < np'"
  shows "dir_inv r np' (take (2048 * np') a) C"
proof -
  note i = invD [OF inv]
  let ?b = "take (2048 * np') a"
  have lb: "length ?b = 2048 * np'" using np' i(4) by simp
  have ag: "agree S a ?b" if "\<forall>k \<in> S. k < 2048 * np'" for S using that lb by (auto simp: agree_def)
  have f: "f16 ?b k = f16 a k" if "k + 1 < 2048 * np'" for k using that by (simp add: f16_def)
  have "pages_ok r np' ?b"
    using i(1) lb np' f by (auto simp: pages_ok_def)
  moreover have "chains_ok r np' ?b C"
  proof (rule chains_agree [OF i(2)])
    show "\<forall>h < 128. f16 ?b (160 + 2 * h) = f16 a (160 + 2 * h)" using np'(1) f by auto
    show "\<forall>d \<in> ents C. agree (dbytes d) a ?b \<and> d_num d div 64 < np'"
    proof
      fix d assume d: "d \<in> ents C"
      have "k < 2048 * np'" if "k \<in> dbytes d" for k
      proof -
        have "k div 2048 < np'" using dbytes_in_page [OF dent_in_page [OF i(2,1) d] that] e d by auto
        then show ?thesis by (simp add: div_less_iff_less_mult mult.commute)
      qed
      then show "agree (dbytes d) a ?b \<and> d_num d div 64 < np'" using ag e d by blast
    qed
  qed
  moreover have "alloc_ok r np' ?b C"
  proof (rule alloc_agree [OF i(3) np'(2)], intro allI impI)
    fix q assume q: "q < np'"
    have "agree (bm q) a ?b" by (rule ag) (use q in \<open>auto simp: bm_def\<close>)
    moreover have "32 + q < 2048 * np'" using q by simp
    ultimately show "agree (bm q) a ?b \<and> (q < 128 \<longrightarrow> ?b ! (32 + q) = a ! (32 + q))" by simp
  qed
  ultimately show ?thesis by (simp add: dir_inv_def)
qed

lemma byte_bits: "(x :: byte) = y \<longleftrightarrow> (\<forall>m < 8. bit x m = bit y m)"
proof
  assume b: "\<forall>m < 8. bit x m = bit y m"
  show "x = y" by (rule bit_word_eqI) (use b in simp)
qed simp

text \<open>A page is empty when only the slot of its header is in use.\<close>

definition page_clear :: "bytes \<Rightarrow> nat \<Rightarrow> bool" where
  "page_clear a p \<longleftrightarrow> (\<forall>k. 0 < k \<and> k < 64 \<longrightarrow> \<not> ubit a p k)"

lemma bitmap_clear:
  assumes "2048 * p + 13 \<le> length a" "ubit a p 0"
  shows "take 8 (drop (2048 * p + 5) a) = [1, 0, 0, 0, 0, 0, 0, 0] \<longleftrightarrow> page_clear a p"
proof -
  let ?x = "\<lambda>j. a ! (2048 * p + 5 + j)" and ?l = "[1, 0, 0, 0, 0, 0, 0, 0] :: bytes"
  have "length (take 8 (drop (2048 * p + 5) a)) = 8" "length ?l = 8" using assms(1) by simp_all
  moreover have "take 8 (drop (2048 * p + 5) a) ! j = ?x j" if "j < 8" for j using that assms(1) by simp
  ultimately have "take 8 (drop (2048 * p + 5) a) = ?l \<longleftrightarrow> (\<forall>j < 8. ?x j = ?l ! j)"
    unfolding list_eq_iff_nth_eq by metis
  also have "\<dots> \<longleftrightarrow> (\<forall>j < 8. \<forall>m < 8. bit (?x j) m \<longleftrightarrow> j = 0 \<and> m = 0)"
  proof -
    have "bit (?l ! j) m \<longleftrightarrow> j = 0 \<and> m = 0" if "j < 8" for j m
    proof -
      have l: "?l = 1 # replicate 7 0" by (simp add: eval_nat_numeral)
      show ?thesis using that unfolding l by (cases j) (auto simp: bit_1_iff)
    qed
    then have "?x j = ?l ! j \<longleftrightarrow> (\<forall>m < 8. bit (?x j) m \<longleftrightarrow> j = 0 \<and> m = 0)" if "j < 8" for j
      using that unfolding byte_bits [of "?x j"] by presburger
    then show ?thesis by blast
  qed
  also have "\<dots> \<longleftrightarrow> (\<forall>k < 64. ubit a p k \<longleftrightarrow> k = 0)"
  proof safe
    fix k :: nat assume "\<forall>j < 8. \<forall>m < 8. bit (?x j) m \<longleftrightarrow> j = 0 \<and> m = 0" "k < 64" "ubit a p k"
    then have "k div 8 = 0 \<and> k mod 8 = 0" using div8_less [of k] unfolding ubit_def by (metis mod_less_divisor zero_less_numeral)
    then show "k = 0" by (metis div_mult_mod_eq mult_0 add_0)
  next
    fix j m :: nat assume u: "\<forall>k < 64. ubit a p k \<longleftrightarrow> k = 0" and jm: "j < 8" "m < 8" and b: "bit (?x j) m"
    have "(8 * j + m) div 8 = j" "(8 * j + m) mod 8 = m" using jm by auto
    then have "ubit a p (8 * j + m)" using b by (simp add: ubit_def)
    then have "8 * j + m = 0" using u jm by simp
    then show "j = 0" "m = 0" by auto
  qed (use assms(2) in \<open>auto simp: ubit_def\<close>)
  finally show ?thesis using assms(2) unfolding page_clear_def by (metis neq0_conv)
qed

lemma is_page_empty_ok:
  assumes inv: "dir_inv r np a C" and p: "p < np"
  shows "is_page_empty a p = Some (page_clear a p)"
proof -
  note i = invD [OF inv]
  have len: "2048 * p + 2048 \<le> length a" using i(4) p by simp
  have u0: "ubit a p 0" using i(3) p by (simp add: alloc_ok_def reserved_def)
  show ?thesis
  proof (cases "p < 128")
    case True
    have "unat (a ! (32 + p)) = nfree a p" using i(3) p True by (simp add: alloc_ok_def)
    moreover have "nfree a p = 63 \<longleftrightarrow> page_clear a p"
    proof -
      have sub: "{k. k < 64 \<and> \<not> ubit a p k} \<subseteq> {1..<64}" using u0 by (auto simp: Suc_le_eq intro: gr0I)
      have "nfree a p = 63 \<longleftrightarrow> {k. k < 64 \<and> \<not> ubit a p k} = {1..<64}"
      proof
        assume "nfree a p = 63"
        then show "{k. k < 64 \<and> \<not> ubit a p k} = {1..<64}" by (intro card_subset_eq [OF _ sub]) (simp_all add: nfree_def)
      next
        assume "{k. k < 64 \<and> \<not> ubit a p k} = {1..<64}"
        then show "nfree a p = 63" unfolding nfree_def by simp
      qed
      also have "\<dots> \<longleftrightarrow> {1..<64} \<subseteq> {k. k < 64 \<and> \<not> ubit a p k}" using sub by blast
      also have "\<dots> \<longleftrightarrow> page_clear a p" unfolding page_clear_def by (simp add: subset_iff Suc_le_eq)
      finally show ?thesis .
    qed
    ultimately show ?thesis using True len by (simp add: is_page_empty_def fdir_sizes map_off_def)
  next
    case False
    then show ?thesis using len bitmap_clear [OF _ u0]
      by (simp add: is_page_empty_def fdir_sizes bitmap_off_def getpage_def cassert_def)
  qed
qed

lemma page_clear_ents:
  assumes inv: "dir_inv r np a C" and q: "1 \<le> q" "q < np"
  shows "page_clear a q \<longleftrightarrow> \<not> (\<exists>e \<in> ents C. d_num e div 64 = q)"
proof -
  note i = invD [OF inv]
  have u: "ubit a q k \<longleftrightarrow> reserved r q k \<or> (\<exists>d \<in> ents C. 64 * q + k - 1 \<in> slots d)" if "k < 64" for k
    using i(3) q that by (simp add: alloc_ok_def)
  have "\<exists>k. 0 < k \<and> k < 64 \<and> ubit a q k" if e: "e \<in> ents C" "d_num e div 64 = q" for e
  proof -
    have "d_num e \<in> slots e" using nslots_bound(2) [of "d_name e"] by (simp add: slots_def)
    moreover have "64 * q + (d_num e mod 64 + 1) - 1 = d_num e" using e(2) mult_div_mod_eq [of 64 "d_num e"] by simp
    moreover have "d_num e mod 64 + 1 < 64" using slots_in_page [OF dent_in_page [OF i(2,1) e(1)] \<open>d_num e \<in> slots e\<close>] by simp
    ultimately show ?thesis using u [of "d_num e mod 64 + 1"] e(1) by (intro exI [of _ "d_num e mod 64 + 1"]) auto
  qed
  moreover have "\<exists>e \<in> ents C. d_num e div 64 = q" if k: "0 < k" "k < 64" "ubit a q k" for k
  proof -
    obtain d where "d \<in> ents C" "64 * q + k - 1 \<in> slots d" using u [OF k(2)] k q by (auto simp: reserved_def)
    then show ?thesis using page_slot [OF dent_in_page [OF i(2,1)] k(1,2)] by blast
  qed
  ultimately show ?thesis unfolding page_clear_def by blast
qed

lemma page0_not_clear: "dir_inv r np a C \<Longrightarrow> \<not> page_clear a 0"
proof -
  assume inv: "dir_inv r np a C"
  note i = invD [OF inv]
  have "reserved r 0 1" using i(7) by (simp add: reserved_def)
  then have "ubit a 0 1" using i(3,5) by (simp add: alloc_ok_def)
  then show ?thesis by (auto simp: page_clear_def intro!: exI [of _ 1])
qed

lemma shrink_loop_ok:
  assumes inv: "dir_inv r np a C"
  shows "1 \<le> m \<Longrightarrow> m < np \<Longrightarrow> \<exists>np'. 1 \<le> np' \<and> np' \<le> m \<and> shrink_loop a (2048 * (m + 1)) m (m + 1) = Some (2048 * np', np') \<and>
    (\<forall>q. np' \<le> q \<and> q < m \<longrightarrow> page_clear a q) \<and> \<not> page_clear a (np' - 1)"
proof (induction m)
  case (Suc m)
  have m: "m \<le> 1022" using Suc.prems(2) invD(6) [OF inv] by simp
  have len: "(2048 * (Suc m + 1) + 2 ^ 32 - AFSDIR_PAGESIZE) mod 2 ^ 32 = 2048 * (m + 1)"
    using m by (simp add: fdir_sizes mod_if)
  have emp: "is_page_empty a m = Some (page_clear a m)" using is_page_empty_ok [OF inv] Suc.prems(2) by simp
  show ?case
  proof (cases "page_clear a m")
    case True
    then have "1 \<le> m" using page0_not_clear [OF inv] by (cases m) auto
    with Suc obtain np' where np': "1 \<le> np'" "np' \<le> m" "shrink_loop a (2048 * (m + 1)) m (m + 1) = Some (2048 * np', np')"
      "\<forall>q. np' \<le> q \<and> q < m \<longrightarrow> page_clear a q" "\<not> page_clear a (np' - 1)" by auto
    have "shrink_loop a (2048 * (Suc m + 1)) (Suc m) (Suc m + 1) = Some (2048 * np', np')"
      unfolding shrink_loop.simps Let_def len emp using True np'(3) by simp
    then show ?thesis using np' True by (intro exI [of _ np']) (auto simp: less_Suc_eq)
  next
    case False
    have "shrink_loop a (2048 * (Suc m + 1)) (Suc m) (Suc m + 1) = Some (2048 * (m + 1), m + 1)"
      unfolding shrink_loop.simps Let_def len emp using False by simp
    then show ?thesis using False by (intro exI [of _ "m + 1"]) auto
  qed
qed simp

text \<open>The end of \<open>fdir_remove\<close>: empty pages at the end are dropped.\<close>

lemma drop_pages_inv:
  assumes inv: "dir_inv r np a C" and p: "p = np - 1" "page_clear a p"
  shows "\<exists>len np' b. shrink_loop a (length a mod 2 ^ 32) p np = Some (len, np') \<and> wbytes a 0 (be16 (of_nat np')) = Some b \<and>
    (\<exists>np''. dir_inv r np'' (snd (fbuf_truncate tr b len)) C \<and> np'' \<le> np \<and> (tr = 0 \<longrightarrow> tight np'' C))"
proof -
  note i = invD [OF inv]
  have "p \<noteq> 0" using p(2) page0_not_clear [OF inv] by metis
  then have p1: "1 \<le> p" "p < np" "np = p + 1" using p(1) by auto
  have len: "length a mod 2 ^ 32 = 2048 * (p + 1)" using i(4,6) p1(3) by simp
  obtain np' where np': "1 \<le> np'" "np' \<le> p" "shrink_loop a (2048 * (p + 1)) p (p + 1) = Some (2048 * np', np')"
    "\<forall>q. np' \<le> q \<and> q < p \<longrightarrow> page_clear a q" "\<not> page_clear a (np' - 1)"
    using shrink_loop_ok [OF inv p1(1,2)] by blast
  have un: "unat (of_nat np' :: u16) = np'" using np'(2) p1(2) i(6) by (simp add: unat_of_nat take_bit_nat_eq_self)
  obtain b where b: "wbytes a 0 (be16 (of_nat np')) = Some b" "dir_inv r np b C" "f16 b 0 = of_nat np'"
    using count_inv [OF inv, of "of_nat np'"] un np'(2) p1 by auto
  have e: "d_num e div 64 < np'" if "e \<in> ents C" for e
  proof (rule ccontr)
    assume "\<not> d_num e div 64 < np'"
    then have q: "np' \<le> d_num e div 64" "d_num e div 64 < np" using entsD(2) [OF i(2) that] by auto
    then have "page_clear a (d_num e div 64)" using np'(4) p(2) p1(3) by (cases "d_num e div 64 = p") auto
    then show False using page_clear_ents [OF inv _ q(2)] q(1) np'(1) that by force
  qed
  have tight: "tight np' C"
  proof (cases "np' = 1")
    case False
    then show ?thesis using page_clear_ents [OF inv, of "np' - 1"] np' p1 by (auto simp: tight_def)
  qed (simp add: tight_def)
  have "\<exists>np''. dir_inv r np'' (snd (fbuf_truncate tr b (2048 * np'))) C \<and> np'' \<le> np \<and> (tr = 0 \<longrightarrow> tight np'' C)"
  proof (cases "tr = 0")
    case True
    have l: "length b = 2048 * np" using invD(4) [OF b(2)] .
    have "2048 * np' - length b = 0" using l np'(2) p1 by simp
    then have "snd (fbuf_truncate tr b (2048 * np')) = take (2048 * np') b" using True by (simp add: fbuf_truncate_def)
    moreover have "dir_inv r np' (take (2048 * np') b) C"
      by (rule truncate_inv [OF b(2) np'(1)]) (use np'(2) p1 b(3) un e in auto)
    ultimately show ?thesis using tight np'(2) p1 by (intro exI [of _ np']) auto
  qed (use b(2) in \<open>auto simp: fbuf_truncate_def\<close>)
  then show ?thesis using len np'(3) b(1) p1(3) by (metis Suc_eq_plus1)
qed

lemma find_split: "find P xs = Some d \<Longrightarrow> \<exists>ys zs. xs = ys @ d # zs \<and> P d \<and> (\<forall>y \<in> set ys. \<not> P y)"
proof (induction xs)
  case (Cons x xs)
  show ?case
  proof (cases "P x")
    case False
    then obtain ys zs where "xs = ys @ d # zs" "P d" "\<forall>y \<in> set ys. \<not> P y" using Cons by auto
    then show ?thesis using False by (intro exI [of _ "x # ys"] exI [of _ zs]) auto
  next
    case True
    then show ?thesis using Cons.prems by (intro exI [of _ "[]"] exI [of _ xs]) auto
  qed
qed simp

lemma dlook_unlink:
  assumes "chains_ok r np a C" "h < 128" "C h = xs @ d # ys" "h = hashentry (d_name d)"
  shows "dlook (C(h := xs @ ys)) = (dlook C)(d_name d := None)"
proof
  fix nm
  have dis: "distinct (map d_name (xs @ d # ys))" using chainsD(3) [OF assms(1,2)] assms(3) by simp
  have "d_name d \<notin> d_name ` set (xs @ ys)" using dis by auto
  then have none: "find (\<lambda>e. d_name e = d_name d) (xs @ ys) = None" unfolding find_None_iff by (metis imageI)
  have other: "find (\<lambda>e. d_name e = nm) (xs @ d # ys) = find (\<lambda>e. d_name e = nm) (xs @ ys)" if "nm \<noteq> d_name d"
    using that by (induction xs) auto
  show "dlook (C(h := xs @ ys)) nm = ((dlook C)(d_name d := None)) nm"
    using none other assms(3,4) by (cases "nm = d_name d") (auto simp: dlook_def)
qed

section \<open>fdir_remove\<close>

lemma remove_hit:
  assumes inv: "dir_inv r np a C" and nm: "0 \<notin> set (d_name d)"
    and h: "h = hashentry (d_name d)" "C h = xs @ d # ys" "\<forall>x \<in> set xs. d_name x \<noteq> d_name d"
  shows "b16 a (hash_off h) = Some (f16 a (160 + 2 * h))"
    "remove_find a (d_name d) np (f16 a (160 + 2 * h)) None =
       Some (Some (of_nat (d_num d + 1), eoff d, if xs = [] then None else Some (eoff (last xs))))"
    "b32 a (eoff d + 4) = Some (d_vn d)" "b32 a (eoff d + 8) = Some (d_un d)" "b16 a (eoff d + 2) = Some (f16 a (eoff d + 2))"
    "unat (of_nat (d_num d + 1) :: u16) - 1 = d_num d"
proof -
  note i = invD [OF inv]
  have h128: "h < 128" unfolding h(1) by (rule hashentry_less)
  show "b16 a (hash_off h) = Some (f16 a (160 + 2 * h))"
    using h128 i(4,5) b16_in [of "160 + 2 * h" a] by (simp add: hash_off_def fdir_sizes)
  have lk: "linked a (f16 a (160 + 2 * h)) (xs @ d # ys)" "\<forall>e \<in> set (xs @ d # ys). dent_at a e \<and> d_num e div 64 < np"
    using chainsD(1,2) [OF i(2) h128] h(2) by auto
  have "d_name d \<notin> d_name ` set xs" using h(3) by auto
  then show "remove_find a (d_name d) np (f16 a (160 + 2 * h)) None =
    Some (Some (of_nat (d_num d + 1), eoff d, if xs = [] then None else Some (eoff (last xs))))"
    using remove_find_some [OF i(1) nm lk] by simp
  have d: "dent_at a d" "d_num d div 64 < np" using lk(2) by auto
  then show "b32 a (eoff d + 4) = Some (d_vn d)" "b32 a (eoff d + 8) = Some (d_un d)" "b16 a (eoff d + 2) = Some (f16 a (eoff d + 2))"
    using nslots_bound [of "d_name d"] by (auto simp: dent_at_def b32_in b16_in)
  have "d_num d < 65472" using d(2) i(6) by linarith
  from num_word(3) [OF this] show "unat (of_nat (d_num d + 1) :: u16) - 1 = d_num d" by linarith
qed

lemma remove_inv:
  assumes inv: "dir_inv r np a C" and nm: "0 \<notin> set nm"
  shows "case dlook C nm of
      None \<Rightarrow> fdir_remove tr a nm = Some (ENOENT, a, None)
    | Some vu \<Rightarrow> (\<exists>b np' C'. fdir_remove tr a nm = Some (0, b, Some \<lparr>fVnode = fst vu, fUnique = snd vu\<rparr>) \<and>
        dir_inv r np' b C' \<and> np' \<le> np \<and> (tr = 0 \<longrightarrow> tight np C \<longrightarrow> tight np' C') \<and> ents C' \<subseteq> ents C \<and>
        dlook C' = (dlook C)(nm := None))"
proof (cases "find (\<lambda>d. d_name d = nm) (C (hashentry nm))")
  case None
  note i = invD [OF inv]
  let ?h = "hashentry nm"
  have "remove_find a nm np (f16 a (160 + 2 * ?h)) None = Some None"
    by (rule remove_find_none [OF i(1) nm chainsD(1) [OF i(2) hashentry_less]])
      (use chainsD(2) [OF i(2) hashentry_less] None in \<open>auto simp: find_None_iff\<close>)
  moreover have "b16 a (hash_off ?h) = Some (f16 a (160 + 2 * ?h))"
    using hashentry_less [of nm] i(4,5) b16_in [of "160 + 2 * ?h" a] by (simp add: hash_off_def fdir_sizes)
  ultimately show ?thesis using None dir_npages_ok [OF i(1)] by (simp add: fdir_remove_def dlook_def)
next
  case (Some d)
  note i = invD [OF inv]
  let ?h = "hashentry nm" and ?p = "d_num d div 64"
  obtain xs ys where ch: "C ?h = xs @ d # ys" "d_name d = nm" "\<forall>x \<in> set xs. d_name x \<noteq> nm" using find_split [OF Some] by blast
  define w where "w = (of_nat (d_num d + 1) :: u16)"
  note hit = remove_hit [OF inv, of d ?h xs ys, unfolded ch(2), OF nm refl ch(1,3), folded w_def]
  obtain b c where b: "wbytes a (link_off ?h xs) (be16 (f16 a (eoff d + 2))) = Some b"
    "remove_from_page b (getpage ?p) ?p (d_num d mod 64) = Some c" "dir_inv r np c (C(?h := xs @ ys))"
    using unlink_inv [OF inv hashentry_less ch(1)] by blast
  let ?C = "C(?h := xs @ ys)"
  have dl: "dlook ?C = (dlook C)(nm := None)" using dlook_unlink [OF i(2) hashentry_less ch(1)] ch(2) by simp
  have eC: "ents ?C = ents C - {d}" "d \<in> ents C" using ents_unlink [OF i(2) hashentry_less ch(1)] by auto
  have p: "?p < np" by (rule entsD(2) [OF i(2) eC(2)])
  have vu: "dlook C nm = Some (d_vn d, d_un d)" using Some by (simp add: dlook_def)
  have lw: "(case if xs = [] then None else Some (eoff (last xs)) of None \<Rightarrow> wbytes a (hash_off ?h) (be16 w) | Some p \<Rightarrow> wbytes a (p + 2) (be16 w)) =
    wbytes a (link_off ?h xs) (be16 w)" for w by (simp add: link_off_def hash_off_def fdir_sizes)
  have emp: "is_page_empty c ?p = Some (page_clear c ?p)" by (rule is_page_empty_ok [OF b(3) p])
  show ?thesis
  proof (cases "?p = np - 1 \<and> page_clear c ?p")
    case True
    from drop_pages_inv [OF b(3), of ?p tr] True obtain len np' e np'' where
      s: "shrink_loop c (length c mod 2 ^ 32) ?p np = Some (len, np')" "wbytes c 0 (be16 (of_nat np')) = Some e"
      "dir_inv r np'' (snd (fbuf_truncate tr e len)) ?C" "np'' \<le> np" "tr = 0 \<longrightarrow> tight np'' ?C" by blast
    have "fdir_remove tr a nm = Some (0, snd (fbuf_truncate tr e len), Some \<lparr>fVnode = d_vn d, fUnique = d_un d\<rparr>)"
      unfolding fdir_remove_def Let_def using dir_npages_ok [OF i(1)] hit(1-5) b(1,2) emp conjunct1 [OF True] conjunct2 [OF True] s(1,2)
      by (simp add: lw hit(6) [simplified] ENTRIESPERPAGE_def)
    then show ?thesis using s(3-5) dl vu eC(1) by auto
  next
    case False
    have "fdir_remove tr a nm = Some (0, c, Some \<lparr>fVnode = d_vn d, fUnique = d_un d\<rparr>)"
      unfolding fdir_remove_def Let_def using dir_npages_ok [OF i(1)] hit(1-5) b(1,2) emp False
      by (cases "?p = np - 1") (simp_all add: lw hit(6) [simplified] ENTRIESPERPAGE_def)
    moreover have "tight np C \<longrightarrow> tight np ?C"
    proof
      assume t: "tight np C"
      show "tight np ?C"
      proof (cases "np = 1 \<or> ?p \<noteq> np - 1")
        case True
        then show ?thesis using t eC(1) by (auto simp: tight_def)
      next
        case F: False
        then show ?thesis using page_clear_ents [OF b(3), of ?p] p False by (auto simp: tight_def)
      qed
    qed
    ultimately show ?thesis using b(3) dl vu eC(1) by auto
  qed
qed

section \<open>fdir_changefid\<close>

lemma f32_write:
  assumes "\<forall>j < 8. b ! (e + j) = (be32 vn @ be32 un) ! j"
  shows "f32 b e = vn" "f32 b (e + 4) = un"
proof -
  have j: "b ! (e + j) = (be32 vn @ be32 un) ! j" if "j < 8" for j using assms that by blast
  note ev = be32_def eval_nat_numeral
  show "f32 b e = vn" using j [of 0] j [of 1] j [of 2] j [of 3] by (intro f32_be32) (simp_all add: ev)
  show "f32 b (e + 4) = un" using j [of 4] j [of 5] j [of 6] j [of 7] by (intro f32_be32) (simp_all add: ev)
qed

text \<open>An entry with another fid in the same place.\<close>

definition refid :: "u32 \<Rightarrow> u32 \<Rightarrow> dent \<Rightarrow> dent" where
  "refid vn un d = d\<lparr>d_vn := vn, d_un := un\<rparr>"

lemma refid_simps [simp]:
  "d_num (refid vn un d) = d_num d" "d_name (refid vn un d) = d_name d" "d_vn (refid vn un d) = vn"
  "d_un (refid vn un d) = un" "eoff (refid vn un d) = eoff d" "slots (refid vn un d) = slots d" "nextb (refid vn un d) = nextb d"
  "dbytes (refid vn un d) = dbytes d"
  by (simp_all add: refid_def eoff_def slots_def nextb_def dbytes_def)

lemma linked_nums:
  "linked a v (xs @ d # ys) \<Longrightarrow> d_num d' = d_num d \<Longrightarrow> linked a v (xs @ d' # ys)"
  by (induction xs arbitrary: v) (auto simp: eoff_def)

lemma dent_at_refid:
  assumes "dent_at a d" "same_but {eoff d + 4..<eoff d + 12} a b" "f32 b (eoff d + 4) = vn" "f32 b (eoff d + 8) = un"
  shows "dent_at b (refid vn un d)"
proof -
  have "has_name b (eoff d + 12) (d_name d)"
    by (rule has_name_same [OF _ assms(2)]) (use assms(1) in \<open>auto simp: dent_at_def\<close>)
  moreover have "length b = length a" "b ! eoff d = a ! eoff d"
    using assms(1,2) nslots_bound [of "d_name d"] by (auto simp: same_but_def dent_at_def)
  ultimately show ?thesis using assms by (simp add: dent_at_def)
qed

lemma ents_refid:
  assumes "chains_ok r np a C" "h < 128" "C h = xs @ d # ys"
  shows "ents (C(h := xs @ refid vn un d # ys)) = insert (refid vn un d) (ents C - {d})"
  using ents_unlink(1) [OF assms] ents_split [OF assms(2), of C "xs @ refid vn un d # ys"] ents_split [OF assms(2), of C "xs @ ys"]
  by auto

lemma refid_inv:
  assumes inv: "dir_inv r np a C" and h: "h < 128" "C h = xs @ d # ys"
    and w: "same_but {eoff d + 4..<eoff d + 12} a b" "f32 b (eoff d + 4) = vn" "f32 b (eoff d + 8) = un"
  shows "dir_inv r np b (C(h := xs @ refid vn un d # ys))"
proof -
  note i = invD [OF inv]
  let ?d = "refid vn un d" and ?W = "{eoff d + 4..<eoff d + 12}"
  note dE = ents_unlink(2) [OF i(2) h]
  note ip = dent_in_page [OF i(2,1)]
  note at = entsD(1) [OF i(2) dE]
  have W: "?W \<subseteq> dbytes d - nextb d" using nslots_bound [of "d_name d"] by (auto simp: dbytes_def nextb_def)
  have slots: "slots e \<inter> slots e' = {}" if "e \<in> ents C" "e' \<in> ents C" "e \<noteq> e'" for e e'
    using i(2) that by (simp add: chains_ok_def)
  have dlen: "k < length a" if "e \<in> ents C" "k \<in> dbytes e" for e k
    using that(2) entsD(1) [OF i(2) that(1)] by (auto simp: dent_at_def dbytes_def)
  have po: "pages_ok r np b" by (rule pages_ok_frame [OF i(1) w(1)]) (use W hdrb_dbytes [OF ip [OF dE]] in blast)
  have other: "agree (dbytes e) a b" if "e \<in> ents C" "e \<noteq> d" for e
    by (rule same_agree [OF w(1)]) (use W dbytes_disjoint [OF slots [OF that(1) dE that(2)]] dlen [OF that(1)] in blast)
  have nd: "agree (nextb e) a b" if "e \<in> ents C" for e
  proof (cases "e = d")
    case True
    show ?thesis by (rule same_agree [OF w(1)]) (use True W nextb_dbytes [of d] dlen [OF dE] in blast)
  qed (use other [OF that] agree_mono nextb_dbytes in blast)
  have hs: "f16 b (160 + 2 * h') = f16 a (160 + 2 * h')" if "h' < 128" for h'
  proof (rule f16_hash_same [OF w(1) _ that])
    show "416 \<le> length a" using i(4,5) by simp
    show "k \<notin> ?W" if "k \<in> hashb h'" for k using hash_apart(1) [OF that \<open>h' < 128\<close> ip [OF dE]] W by blast
  qed
  have ch: "linked b (f16 b (160 + 2 * h')) ((C(h := xs @ ?d # ys)) h')" if h': "h' < 128" for h'
  proof -
    have "linked b (f16 a (160 + 2 * h')) (C h')"
      by (rule linked_agree [OF chainsD(1) [OF i(2) h']]) (use nd chainsD(4) [OF i(2) h'] in blast)
    then show ?thesis using hs [OF h'] h(2) linked_nums [of b _ xs d ys ?d] by auto
  qed
  have names: "distinct (map d_name ((C(h := xs @ ?d # ys)) h')) \<and> (\<forall>e \<in> set ((C(h := xs @ ?d # ys)) h'). hashentry (d_name e) = h')"
    if "h' < 128" for h' using chainsD(3,4) [OF i(2) that] h(2) by (cases "h' = h") simp_all
  have "chains_ok r np b (C(h := xs @ ?d # ys))"
    unfolding chains_ok_def ents_refid [OF i(2) h]
  proof (intro conjI)
    show "\<forall>h' < 128. linked b (f16 b (160 + 2 * h')) ((C(h := xs @ ?d # ys)) h') \<and> distinct (map d_name ((C(h := xs @ ?d # ys)) h')) \<and>
        (\<forall>e \<in> set ((C(h := xs @ ?d # ys)) h'). hashentry (d_name e) = h')"
      using ch names by blast
    show "\<forall>e \<in> insert ?d (ents C - {d}). dent_at b e \<and> d_num e div 64 < np \<and> r - 1 \<le> d_num e"
      using dent_at_refid [OF at w] entsD(2,3) [OF i(2)] dE dent_at_agree [OF entsD(1) [OF i(2)] agree_mono [OF other]] by auto
    show "\<forall>e \<in> insert ?d (ents C - {d}). \<forall>e' \<in> insert ?d (ents C - {d}). e \<noteq> e' \<longrightarrow> slots e \<inter> slots e' = {}"
      using slots dE by (metis DiffE insert_iff refid_simps(6))
  qed
  moreover have "alloc_ok r np b (C(h := xs @ ?d # ys))"
  proof -
    have "alloc_ok r np b C"
    proof (rule alloc_agree [OF i(3) order_refl], intro allI impI)
      fix q assume q: "q < np"
      have "k \<notin> ?W" if "k \<in> bm q \<union> mapb q" for k
        using that W dbytes_in_page [OF ip [OF dE], of k] bm_page [of k q] mapb_less [of k q] by fastforce
      moreover have "32 + q < length a" using q i(4) by simp
      moreover have "k < length a" if "k \<in> bm q" for k using that q i(4) by (auto simp: bm_def)
      ultimately show "agree (bm q) a b \<and> (q < 128 \<longrightarrow> b ! (32 + q) = a ! (32 + q))"
        using w(1) by (auto simp: agree_def same_but_def mapb_def)
    qed
    moreover have "(\<exists>e \<in> insert ?d (ents C - {d}). k \<in> slots e) \<longleftrightarrow> (\<exists>e \<in> ents C. k \<in> slots e)" for k
      using dE by auto
    ultimately show ?thesis unfolding alloc_ok_def ents_refid [OF i(2) h] by simp
  qed
  ultimately show ?thesis using po by (simp add: dir_inv_def)
qed

lemma changefid_inv:
  assumes inv: "dir_inv r np a C" and nm: "0 \<notin> set nm"
  shows "case dlook C nm of
      None \<Rightarrow> fdir_changefid a nm fid = Some (ENOENT, a)
    | Some vu \<Rightarrow> (\<exists>b C'. fdir_changefid a nm fid = Some (0, b) \<and> dir_inv r np b C' \<and>
        (\<lambda>e. (d_num e, d_name e)) ` ents C' = (\<lambda>e. (d_num e, d_name e)) ` ents C \<and>
        dlook C' = (dlook C)(nm \<mapsto> (Vnode fid, Unique fid)))"
proof (cases "find (\<lambda>d. d_name d = nm) (C (hashentry nm))")
  case None
  note i = invD [OF inv]
  then show ?thesis using None dir_npages_ok [OF i(1)] find_entry_ok [OF i(1,2) nm]
    by (simp add: fdir_changefid_def update_fid_by_name_def dlook_def)
next
  case (Some d)
  note i = invD [OF inv]
  let ?h = "hashentry nm" and ?d = "refid (Vnode fid) (Unique fid) d"
  obtain xs ys where ch: "C ?h = xs @ d # ys" "d_name d = nm" "\<forall>x \<in> set xs. d_name x \<noteq> nm" using find_split [OF Some] by blast
  have dE: "d \<in> ents C" by (rule ents_unlink(2) [OF i(2) hashentry_less ch(1)])
  let ?w = "be32 (Vnode fid) @ be32 (Unique fid)"
  have lw: "length ?w = 8" by (simp add: be32_def)
  have "eoff d + 4 + length ?w \<le> length a"
    using entsD(1) [OF i(2) dE] nslots_bound [of "d_name d"] unfolding lw by (auto simp: dent_at_def)
  from wbytes_Some [OF this] obtain b where b: "wbytes a (eoff d + 4) ?w = Some b" "same_but {eoff d + 4..<eoff d + 12} a b"
    "\<forall>j < 8. b ! (eoff d + 4 + j) = ?w ! j" unfolding lw by (auto simp: add.commute)
  have f: "f32 b (eoff d + 4) = Vnode fid" "f32 b (eoff d + 8) = Unique fid"
    using f32_write [OF b(3)] by (simp_all add: add.assoc)
  have inv': "dir_inv r np b (C(?h := xs @ ?d # ys))"
    by (rule refid_inv [OF inv hashentry_less ch(1) b(2) f])
  have "dlook (C(?h := xs @ ?d # ys)) = (dlook C)(nm \<mapsto> (Vnode fid, Unique fid))"
  proof
    fix x
    have "find (\<lambda>e. d_name e = nm) (zs @ ?d # ys) = Some ?d" if "\<forall>x \<in> set zs. d_name x \<noteq> nm" for zs
      using that ch(2) by (induction zs) auto
    moreover have "find (\<lambda>e. d_name e = x) (zs @ ?d # ys) = find (\<lambda>e. d_name e = x) (zs @ d # ys)" if "x \<noteq> nm" for zs
      using that ch(2) by (induction zs) auto
    ultimately show "dlook (C(?h := xs @ ?d # ys)) x = ((dlook C)(nm \<mapsto> (Vnode fid, Unique fid))) x"
      using ch by (cases "x = nm") (auto simp: dlook_def)
  qed
  moreover have "(\<lambda>e. (d_num e, d_name e)) ` ents (C(?h := xs @ ?d # ys)) = (\<lambda>e. (d_num e, d_name e)) ` ents C"
    unfolding ents_refid [OF i(2) hashentry_less ch(1)] using dE by force
  moreover have "fdir_changefid a nm fid = Some (0, b)"
    using Some dir_npages_ok [OF i(1)] find_entry_ok [OF i(1,2) nm] b(1) by (simp add: fdir_changefid_def update_fid_by_name_def)
  ultimately show ?thesis using inv' Some by (auto simp: dlook_def)
qed

section \<open>fdir_mkdir\<close>

lemma add_scan_one:
  assumes "2048 * p + 13 \<le> length buf"
  shows "i < k \<Longrightarrow> k < 64 \<Longrightarrow> \<not> ubit buf p k \<Longrightarrow> \<exists>j. add_scan buf (getpage p) 1 i = Some (Some j)"
proof (induction "64 - i" arbitrary: i rule: less_induct)
  case less
  have u: "used_slot buf (getpage p) (i + 1) = Some (ubit buf p (i + 1))"
    using assms less.prems by (intro used_slot_in) auto
  have lim: "i < (ENTRIESPERPAGE + 2 ^ 32 - 1) mod 2 ^ 32" using less.prems by (simp add: fdir_sizes)
  show ?case
  proof (cases "ubit buf p (i + 1)")
    case True
    then have "i + 1 < k" using less.prems by (metis Suc_eq_plus1 Suc_lessI)
    then obtain j where "add_scan buf (getpage p) 1 (i + 1) = Some (Some j)" using less.hyps [of "i + 1"] less.prems
      by (metis (no_types, lifting) diff_less_mono2 less_add_one less_trans)
    moreover have "free_run buf (getpage p) i 1 = Some 0" using u True by simp
    ultimately show ?thesis using lim by (subst add_scan.simps) simp
  next
    case False
    have "free_run buf (getpage p) i 1 = Some 1" using u False by simp
    then show ?thesis using lim by (subst add_scan.simps) simp
  qed
qed

lemma mkdir_add_ok:
  assumes inv: "dir_inv r 1 a C" and nm: "good_name nm" "nslots nm = 1" "C (hashentry nm) = []" and room: "1 \<le> nfree a 0"
  shows "\<exists>b C' n. mkdir_add a (getpage 0) nm fid = Some b \<and> dir_inv r 1 b C' \<and> C' = C(hashentry nm := [new_dent n nm fid]) \<and>
    dlook C' = (dlook C)(nm \<mapsto> (fVnode fid, fUnique fid)) \<and> nfree b 0 + 1 = nfree a 0"
proof -
  note i = invD [OF inv]
  let ?h = "hashentry nm"
  have hz: "f16 a (160 + 2 * ?h) = 0" using chainsD(1) [OF i(2) hashentry_less [of nm]] nm(3) by simp
  have len: "length a = 2048" using i(4) by simp
  have h16: "b16 a (hash_off ?h) = Some 0"
    using hz hashentry_less [of nm] b16_in [of "160 + 2 * ?h" a] len by (simp add: hash_off_def fdir_sizes)
  have mp: "unat (a ! 32) = nfree a 0" using i(3) by (simp add: alloc_ok_def)
  have "{k. k < 64 \<and> \<not> ubit a 0 k} \<noteq> {}" using room unfolding nfree_def by (metis card.empty not_one_le_zero)
  then obtain k where k: "k < 64" "\<not> ubit a 0 k" by blast
  moreover have "ubit a 0 0" using i(3) by (simp add: alloc_ok_def reserved_def)
  ultimately have "0 < k" by (cases k) auto
  then obtain s where s: "add_scan a (getpage 0) 1 0 = Some (Some s)" using add_scan_one [of 0 a 0 k] k len by auto
  have "add_to_page a (getpage 0) 0 nm None fid 0 \<noteq> Some (- 1, a)"
    unfolding add_to_page_def map_option_case option.case nslots_additional Let_def nm(2)
    using s mp room len by (auto simp: map_off_def fdir_sizes bind_eq_Some_conv)
  then obtain j b where b: "add_to_page a (getpage 0) 0 nm None fid 0 = Some (int j, b)" "j < 64" "added a 0 (new_dent (64 * 0 + j) nm fid) 0 b"
    using add_to_page_ok [OF inv _ nm(1), of 0 fid 0] by auto
  have lb: "length b = 2048 * 1" using b(3) len by (simp add: added_def same_but_def)
  obtain c where c: "wbytes b (160 + 2 * ?h) (be16 (of_nat (j + 1))) = Some c" "same_but (hashb ?h) b c" "f16 c (160 + 2 * ?h) = of_nat (j + 1)"
    using hash_write [OF lb _ hashentry_less [of nm]] by auto
  let ?d = "new_dent j nm fid"
  have inv': "dir_inv r 1 c (C(?h := ?d # C ?h))"
    by (rule add_link_inv [OF inv, of 0 ?d 0 b]) (use b(3) hz c(2,3) nm(3) in auto)
  have "mkdir_add a (getpage 0) nm fid = Some c"
    using h16 b(1) c(1) by (simp add: mkdir_add_def cassert_def hash_off_def fdir_sizes add.commute)
  moreover have "nfree c 0 + 1 = nfree a 0"
  proof -
    have ub: "\<forall>k < 64. ubit b 0 k \<longleftrightarrow> ubit a 0 k \<or> 0 < k \<and> k - 1 \<in> slots ?d" "\<forall>k \<in> slots ?d. \<not> ubit a 0 (k mod 64 + 1)"
      "j mod 64 + 1 \<le> 63" using b(3) nm(2) by (auto simp: added_def dent_at_def)
    have sl: "slots ?d = {j}" using nm(2) by (auto simp: slots_def)
    have "nfree b 0 + 1 = nfree a 0"
    proof (rule nfree_mark [where i = j])
      show "\<forall>k < 64. ubit b 0 k \<longleftrightarrow> ubit a 0 k \<or> j < k \<and> k \<le> j + 1" using ub(1) sl by auto
      show "j + 1 \<le> 63" using ub(3) b(2) by simp
      have "\<not> ubit a 0 (j + 1)" using ub(2) sl b(2) by simp
      then show "\<forall>k. j < k \<and> k \<le> j + 1 \<longrightarrow> \<not> ubit a 0 k" by (auto simp: le_Suc_eq)
    qed
    moreover have "nfree c 0 = nfree b 0"
      by (rule nfree_same [OF c(2)]) (use lb hash_apart(2) [OF _ hashentry_less] in auto)
    ultimately show ?thesis by simp
  qed
  ultimately show ?thesis using inv' dlook_link [of ?h ?d C] nm(3)
    by (intro exI [of _ c] exI [of _ "C(?h := [?d])"] exI [of _ j]) auto
qed


text \<open>The page that \<open>fdir_mkdir\<close> has built before it adds the two entries.\<close>

lemma fresh_dir_inv:
  assumes len: "length b = 2048" and r: "13 \<le> r" "r \<le> 45"
    and tag: "good_tag (f16 b 2)" and cnt: "f16 b 0 = 1" and zero: "\<forall>k. 33 \<le> k \<and> k < 2048 \<longrightarrow> b ! k = 0"
    and bits: "\<forall>k < 64. ubit b 0 k \<longleftrightarrow> k < r" and mp: "unat (b ! 32) = 64 - r"
  shows "dir_inv r 1 b (\<lambda>_. [])" "nfree b 0 = 64 - r"
proof -
  have e: "ents (\<lambda>_. []) = {}" by (simp add: ents_def)
  have "{k. k < 64 \<and> \<not> ubit b 0 k} = {r..<64}" using bits by auto
  then show nf: "nfree b 0 = 64 - r" by (simp add: nfree_def)
  have "pages_ok r 1 b"
    unfolding pages_ok_def using len r tag cnt zero by (auto simp: numeral_2_eq_2)
  moreover have "chains_ok r 1 b (\<lambda>_. [])"
  proof -
    have "f16 b (160 + 2 * h) = 0" if "h < 128" for h using zero that by (simp add: f16_def of_be16_def)
    then show ?thesis by (simp add: chains_ok_def e)
  qed
  moreover have "alloc_ok r 1 b (\<lambda>_. [])"
    using bits r mp nf by (auto simp: alloc_ok_def e reserved_def)
  ultimately show "dir_inv r 1 b (\<lambda>_. [])" by (simp add: dir_inv_def)
qed

definition res_slots :: "bool \<Rightarrow> nat" where
  "res_slots utf8_dir = (if utf8_dir then 45 else 13)"

lemma mkdir_page:
  "\<exists>b0 b1 b2 b3 b4 b5. create_new_page 0 [] u = Some (0, b0, getpage 0) \<and>
    wbytes b0 32 (replicate (MAXPAGES + 2 * ADIRHASHSIZE) 0) = Some b1 \<and>
    w8 b1 4 (of_nat (64 - res_slots u)) = Some b2 \<and> w8 b2 32 (of_nat (64 - res_slots u)) = Some b3 \<and>
    wbytes b3 0 (be16 1) = Some b4 \<and> mark_used b4 (getpage 0) [0..<res_slots u] = Some b5 \<and>
    dir_inv (res_slots u) 1 b5 (\<lambda>_. []) \<and> nfree b5 0 = 64 - res_slots u"
proof -
  let ?r = "res_slots u" and ?z = "replicate (MAXPAGES + 2 * ADIRHASHSIZE) (0 :: byte)"
  have r: "13 \<le> ?r" "?r \<le> 45" by (auto simp: res_slots_def)
  have lz: "length ?z = 384" by (simp add: fdir_sizes)
  obtain b0 where b0: "create_new_page 0 [] u = Some (0, b0, getpage 0)" "length b0 = 2048" "good_tag (f16 b0 2)"
    "\<forall>k < 64. ubit b0 0 k \<longleftrightarrow> k = 0" "\<forall>k. 13 \<le> k \<and> k < 2048 \<longrightarrow> b0 ! k = 0"
    using create_page_ok [of "[]" 0 u] by (auto simp: numeral_2_eq_2)
  obtain b1 where b1: "wbytes b0 32 ?z = Some b1" "same_but {32..<416} b0 b1" "\<forall>j < 384. b1 ! (32 + j) = 0"
    using wbytes_Some [of 32 ?z b0] b0(2) unfolding lz by (auto simp: fdir_sizes)
  have l1: "length b1 = 2048" using b1(2) b0(2) by (simp add: same_but_def)
  obtain b2 where b2: "w8 b1 4 (of_nat (64 - ?r)) = Some b2" "same_but {4} b1 b2"
    using w8_Some [of 4 b1 "of_nat (64 - ?r)"] l1 by auto
  have l2: "length b2 = 2048" using b2(2) l1 by (simp add: same_but_def)
  obtain b3 where b3: "w8 b2 32 (of_nat (64 - ?r)) = Some b3" "same_but {32} b2 b3" "b3 ! 32 = of_nat (64 - ?r)"
    using w8_Some [of 32 b2 "of_nat (64 - ?r)"] l2 by auto
  have l3: "length b3 = 2048" using b3(2) l2 by (simp add: same_but_def)
  obtain b4 where b4: "wbytes b3 0 (be16 1) = Some b4" "same_but {0..<2} b3 b4" "\<forall>j < 2. b4 ! j = be16 1 ! j"
    using wbytes_Some [of 0 "be16 1" b3] l3 by (auto simp: numeral_2_eq_2)
  have l4: "length b4 = 2048" using b4(2) l3 by (simp add: same_but_def)
  obtain b5 where b5: "mark_used b4 (getpage 0) [0..<?r] = Some b5" "same_but (bm 0) b4 b5"
    "\<forall>j < 64. ubit b5 0 j \<longleftrightarrow> ubit b4 0 j \<or> j \<in> set [0..<?r]"
    using mark_used_ok [of 0 b4 "[0..<?r]"] l4 r by auto
  have l5: "length b5 = 2048" using b5(2) l4 by (simp add: same_but_def)
  have s04: "same_but ({32..<416} \<union> {4} \<union> {32} \<union> {0..<2}) b0 b4"
    by (rule same_but_trans [OF same_but_trans [OF same_but_trans [OF b1(2) b2(2)] b3(2)] b4(2)])
  have s05: "same_but ({32..<416} \<union> {4} \<union> {32} \<union> {0..<2} \<union> bm 0) b0 b5" by (rule same_but_trans [OF s04 b5(2)])
  have ub: "ubit b4 0 k = ubit b0 0 k" if "k < 64" for k
    by (rule ubit_same [OF s04 _ that]) (use b0(2) in \<open>auto simp: bm_def\<close>)
  have tag: "f16 b5 2 = f16 b0 2" by (rule f16_same [OF s05]) (use b0(2) in \<open>auto simp: bm_def\<close>)
  have s45: "b5 ! k = b4 ! k" if "k < 5 \<or> 13 \<le> k" "k < 2048" for k using b5(2) l4 that by (auto simp: same_but_def bm_def)
  have cnt: "f16 b5 0 = 1" using b4(3) s45 [of 0] s45 [of 1] by (intro f16_be16) auto
  have m: "b5 ! 32 = of_nat (64 - ?r)" using s45 [of 32] b4(2) b3(3) l3 by (simp add: same_but_def)
  have zero: "b5 ! k = 0" if "33 \<le> k" "k < 2048" for k
  proof (cases "k < 416")
    case True
    then have "b1 ! k = 0" using b1(3) [rule_format, of "k - 32"] that by simp
    moreover have "b4 ! k = b1 ! k" using b2(2) b3(2) b4(2) l1 l2 l3 that by (simp add: same_but_def)
    ultimately show ?thesis using s45 [of k] that by simp
  next
    case False
    then show ?thesis using s05 b0(2,5) that by (auto simp: same_but_def bm_def)
  qed
  have bits: "\<forall>k < 64. ubit b5 0 k \<longleftrightarrow> k < ?r" using b5(3) ub b0(4) r by auto
  have "unat (b5 ! 32) = 64 - ?r" unfolding m by (simp add: unat_of_nat take_bit_nat_eq_self)
  then show ?thesis using fresh_dir_inv [OF l5 r _ cnt _ bits] tag b0(1,3) zero b1(1) b2(1) b3(1) b4(1) b5(1) by auto
qed

lemma mkdir_inv:
  shows "\<exists>b C. fdir_mkdir 0 [] dotfid dotdotfid u = Some (0, b) \<and> dir_inv (res_slots u) 1 b C \<and>
    dlook C = [dot \<mapsto> (fVnode dotfid, fUnique dotfid), dotdot \<mapsto> (fVnode dotdotfid, fUnique dotdotfid)]"
proof -
  have nm: "good_name dot" "nslots dot = 1" "good_name dotdot" "nslots dotdot = 1"
    by (simp_all add: good_name_def dot_def dotdot_def nslots_def)
  have hh: "hashentry dot \<noteq> hashentry dotdot" by code_simp
  obtain b0 b1 b2 b3 b4 b5 where b: "create_new_page 0 [] u = Some (0, b0, getpage 0)"
    "wbytes b0 32 (replicate (MAXPAGES + 2 * ADIRHASHSIZE) 0) = Some b1"
    "w8 b1 4 (of_nat (64 - res_slots u)) = Some b2" "w8 b2 32 (of_nat (64 - res_slots u)) = Some b3"
    "wbytes b3 0 (be16 1) = Some b4" "mark_used b4 (getpage 0) [0..<res_slots u] = Some b5"
    "dir_inv (res_slots u) 1 b5 (\<lambda>_. [])" "nfree b5 0 = 64 - res_slots u" using mkdir_page by blast
  have n: "1 \<le> nfree b5 0" unfolding b(8) by (simp add: res_slots_def)
  obtain b6 C6 m where b6: "mkdir_add b5 (getpage 0) dot dotfid = Some b6" "dir_inv (res_slots u) 1 b6 C6"
    "C6 = (\<lambda>_. [])(hashentry dot := [new_dent m dot dotfid])"
    "dlook C6 = (dlook (\<lambda>_. []))(dot \<mapsto> (fVnode dotfid, fUnique dotfid))" "nfree b6 0 + 1 = nfree b5 0"
    using mkdir_add_ok [OF b(7) nm(1,2) refl n] by blast
  have n6: "1 \<le> nfree b6 0" using b6(5) unfolding b(8) by (simp add: res_slots_def split: if_splits)
  have "C6 (hashentry dotdot) = []" using b6(3) hh by simp
  then obtain b7 C7 where b7: "mkdir_add b6 (getpage 0) dotdot dotdotfid = Some b7" "dir_inv (res_slots u) 1 b7 C7"
    "dlook C7 = (dlook C6)(dotdot \<mapsto> (fVnode dotdotfid, fUnique dotdotfid))"
    using mkdir_add_ok [OF b6(2) nm(3,4) _ n6] by blast
  have tmp: "ENTRIESPERPAGE - 13 - (if u then 32 else 0) = 64 - res_slots u" by (simp add: res_slots_def fdir_sizes)
  have "fdir_mkdir 0 [] dotfid dotdotfid u = Some (0, b7)"
    unfolding fdir_mkdir_def Let_def tmp using b(1-6) b6(1) b7(1) by (simp add: map_off_def res_slots_def split: if_splits)
  moreover have "dlook (\<lambda>_. []) = Map.empty" by (auto simp: dlook_def)
  ultimately show ?thesis using b7 b6(4) by (auto simp: tight_def)
qed

end
