(* ===== verification/Fdir_Spec.thy ===== *)
theory Fdir_Spec
  imports Fdir_Inv
begin

text \<open>
  What a directory promises: \<open>fdir_readdir\<close> reports every entry once, \<open>fdir_emptyp\<close> recognises
  the empty directory, and every history of operations refines a finite map from names to fids.
\<close>

section \<open>Reading a directory\<close>

text \<open>\<open>j\<close> is not in the middle of an entry of page \<open>p\<close>.\<close>

definition at_border :: "(nat \<Rightarrow> dent list) \<Rightarrow> nat \<Rightarrow> nat \<Rightarrow> bool" where
  "at_border C p j \<longleftrightarrow> (\<forall>d \<in> ents C. d_num d div 64 = p \<longrightarrow> \<not> (d_num d mod 64 < j \<and> j < d_num d mod 64 + nslots (d_name d)))"

definition page_from :: "(nat \<Rightarrow> dent list) \<Rightarrow> nat \<Rightarrow> nat \<Rightarrow> dent set" where
  "page_from C p j = {d \<in> ents C. d_num d div 64 = p \<and> j \<le> d_num d mod 64}"

definition visit :: "VenusFid \<Rightarrow> (VenusFid \<Rightarrow> bytes \<Rightarrow> 'a \<Rightarrow> 'a) \<Rightarrow> dent \<Rightarrow> 'a \<Rightarrow> 'a" where
  "visit dir g d = g (fid_of dir (d_vn d, d_un d)) (d_name d)"

lemma first_slotp_ok:
  assumes inv: "dir_inv r np a C" and p: "p < np" and j: "j < 63" and b: "at_border C p j" "p = 0 \<longrightarrow> 12 \<le> j"
  shows "first_slotp a (getpage p) j = Some (\<exists>d \<in> ents C. d_num d = 64 * p + j)"
proof -
  note i = invD [OF inv]
  have len: "2048 * p + 2048 \<le> length a" using i(4) p by simp
  have u: "used_slot a (getpage p) (j + 1) = Some (ubit a p (j + 1))" using len j by (intro used_slot_in) auto
  have e: "entry_at (getpage p) j = 32 * (64 * p + j + 1)" by (simp add: entry_at_def getpage_def fdir_sizes)
  have inb: "32 * (64 * p + j + 1) < length a" using len j by simp
  have ub: "ubit a p (j + 1) \<longleftrightarrow> reserved r p (j + 1) \<or> (\<exists>d \<in> ents C. 64 * p + j \<in> slots d)"
    using i(3) p j by (simp add: alloc_ok_def)
  have num: "d_num d = 64 * p + j" if d: "d \<in> ents C" "64 * p + j \<in> slots d" for d
  proof -
    have "d_num d div 64 = p" using page_slot [OF dent_in_page [OF i(2,1) d(1)], of "j + 1" p] d(2) j by simp
    then have "\<not> (d_num d mod 64 < j \<and> j < d_num d mod 64 + nslots (d_name d))" "d_num d = 64 * p + d_num d mod 64"
      using b(1) d(1) by (auto simp: at_border_def)
    then show ?thesis using d(2) unfolding slots_def atLeastLessThan_iff by linarith
  qed
  consider (d) d where "d \<in> ents C" "64 * p + j \<in> slots d" | (r) "\<forall>d \<in> ents C. 64 * p + j \<notin> slots d" "ubit a p (j + 1)"
    | (n) "\<forall>d \<in> ents C. 64 * p + j \<notin> slots d" "\<not> ubit a p (j + 1)" by blast
  then show ?thesis
  proof cases
    case d
    note nd = num [OF d]
    have "a ! (32 * (64 * p + j + 1)) = 1" using entsD(1) [OF i(2) d(1)] nd by (auto simp: dent_at_def eoff_def)
    then show ?thesis using u ub d nd inb unfolding first_slotp_def e by (auto simp: AFSDIR_FIRST_def)
  next
    case r
    have no: "\<not> (\<exists>d \<in> ents C. d_num d = 64 * p + j)"
      using r(1) nslots_bound(2) unfolding slots_def by (metis atLeastLessThan_iff le_refl less_add_same_cancel1 less_le_trans zero_less_one)
    have "p = 0" "j < r - 1" using r ub by (auto simp: reserved_def)
    then have "a ! (32 * (64 * p + j + 1)) = 0" using i(1) b(2) by (simp add: pages_ok_def)
    then show ?thesis using u r(2) no inb unfolding first_slotp_def e by (simp add: AFSDIR_FIRST_def)
  next
    case n
    have no: "\<not> (\<exists>d \<in> ents C. d_num d = 64 * p + j)"
      using n(1) nslots_bound(2) unfolding slots_def by (metis atLeastLessThan_iff le_refl less_add_same_cancel1 less_le_trans zero_less_one)
    then show ?thesis using u n(2) unfolding first_slotp_def by simp
  qed
qed

lemma entry_name_ok:
  assumes "dent_at a d"
  shows "entry_name a page (eoff d) = Some (Some (d_name d, nslots (d_name d) - 1))"
proof -
  have "a ! eoff d = 1" "eoff d < length a" "cstr a (eoff d + 12) = Some (d_name d)"
    using assms nslots_bound [of "d_name d"] by (auto simp: dent_at_def cstr_has_name)
  moreover have "additional_entries (length (d_name d)) None None = nslots (d_name d) - 1" using nslots_additional [of "d_name d"] by simp
  ultimately show ?thesis by (simp add: entry_name_def AFSDIR_UTFENT_def)
qed

lemma border_step:
  assumes inv: "dir_inv r np a C" and b: "at_border C p j" and no: "\<not> (\<exists>d \<in> ents C. d_num d = 64 * p + j)" and j: "j < 64"
  shows "at_border C p (j + 1)" "page_from C p (j + 1) = page_from C p j"
proof -
  have nj: "d_num d mod 64 \<noteq> j" if "d \<in> ents C" "d_num d div 64 = p" for d
    using no that by (metis mult_div_mod_eq)
  show "at_border C p (j + 1)"
    unfolding at_border_def
  proof (intro ballI impI notI)
    fix d assume d: "d \<in> ents C" "d_num d div 64 = p" "d_num d mod 64 < j + 1 \<and> j + 1 < d_num d mod 64 + nslots (d_name d)"
    then have "d_num d mod 64 < j \<and> j < d_num d mod 64 + nslots (d_name d)" using nj [OF d(1,2)] by linarith
    then show False using b d(1,2) unfolding at_border_def by blast
  qed
  have "j + 1 \<le> d_num d mod 64 \<longleftrightarrow> j \<le> d_num d mod 64" if "d \<in> ents C" "d_num d div 64 = p" for d using nj [OF that] by linarith
  then show "page_from C p (j + 1) = page_from C p j" unfolding page_from_def by blast
qed

lemma border_skip:
  assumes inv: "dir_inv r np a C" and d: "d \<in> ents C" "d_num d = 64 * p + j" and j: "j < 63"
  shows "at_border C p (j + nslots (d_name d))" "page_from C p j = insert d (page_from C p (j + nslots (d_name d)))"
    "d \<notin> page_from C p (j + nslots (d_name d))" "\<forall>e \<in> page_from C p (j + nslots (d_name d)). d_num d < d_num e"
proof -
  note i = invD [OF inv]
  let ?n = "nslots (d_name d)"
  have dm: "d_num d div 64 = p" "d_num d mod 64 = j" using d(2) j by auto
  have n: "1 \<le> ?n" by (rule nslots_bound)
  have apart: "d_num e + nslots (d_name e) \<le> d_num d \<or> d_num d + ?n \<le> d_num e" if "e \<in> ents C" "e \<noteq> d" for e
  proof -
    have "slots d \<inter> slots e = {}" using i(2) d(1) that by (simp add: chains_ok_def)
    then have "d_num e \<notin> slots d" "d_num d \<notin> slots e"
      using nslots_bound(2) [of "d_name e"] n by (auto simp: slots_def)
    then show ?thesis unfolding slots_def atLeastLessThan_iff by linarith
  qed
  have num: "d_num e = 64 * p + d_num e mod 64" if "d_num e div 64 = p" for e using that by auto
  show "at_border C p (j + ?n)"
    unfolding at_border_def
  proof (intro ballI impI notI)
    fix e assume e: "e \<in> ents C" "d_num e div 64 = p" "d_num e mod 64 < j + ?n \<and> j + ?n < d_num e mod 64 + nslots (d_name e)"
    then have "e \<noteq> d" using dm by auto
    from apart [OF e(1) this] show False using num [OF e(2)] d(2) e(3) n by linarith
  qed
  show "page_from C p j = insert d (page_from C p (j + ?n))"
  proof (intro set_eqI iffI)
    fix e assume "e \<in> page_from C p j"
    then have e: "e \<in> ents C" "d_num e div 64 = p" "j \<le> d_num e mod 64" by (auto simp: page_from_def)
    show "e \<in> insert d (page_from C p (j + ?n))"
    proof (cases "e = d")
      case False
      have "j + ?n \<le> d_num e mod 64" using apart [OF e(1) False] num [OF e(2)] d(2) e(3) nslots_bound(2) [of "d_name e"] by linarith
      then show ?thesis using e by (simp add: page_from_def)
    qed simp
  next
    fix e assume "e \<in> insert d (page_from C p (j + ?n))"
    then show "e \<in> page_from C p j" using d dm by (auto simp: page_from_def)
  qed
  show "d \<notin> page_from C p (j + ?n)" using dm n by (simp add: page_from_def)
  show "\<forall>e \<in> page_from C p (j + ?n). d_num d < d_num e"
  proof
    fix e assume "e \<in> page_from C p (j + ?n)"
    then have e: "d_num e div 64 = p" "j + ?n \<le> d_num e mod 64" by (auto simp: page_from_def)
    then show "d_num d < d_num e" using num [OF e(1)] d(2) n by linarith
  qed
qed


declare readdir_page.simps [simp del] readdir_loop.simps [simp del]

lemma readdir_page_ok:
  assumes inv: "dir_inv r np a C" and p: "p < np"
    and cb: "\<forall>f nm x. func f nm x = (0, g f nm x)"
  shows "at_border C p j \<Longrightarrow> p = 0 \<longrightarrow> 12 \<le> j \<Longrightarrow>
    \<exists>ds j'. readdir_page a dir func (getpage p) j x = Some (False, j', fold (visit dir g) ds x) \<and>
      set ds = page_from C p j \<and> sorted_wrt (\<lambda>d e. d_num d < d_num e) ds"
proof (induction "64 - j" arbitrary: j x rule: less_induct)
  case less
  note i = invD [OF inv]
  show ?case
  proof (cases "j < 63")
    case False
    have "d_num d mod 64 < 63" if "d \<in> ents C" for d
      using slots_in_page [OF dent_in_page [OF i(2,1) that], of "d_num d"] nslots_bound(2) [of "d_name d"] by (simp add: slots_def)
    then have "page_from C p j = {}" using False by (force simp: page_from_def)
    then show ?thesis using False by (intro exI [of _ "[]"]) (subst readdir_page.simps, simp add: fdir_sizes)
  next
    case True
    note fs = first_slotp_ok [OF inv p True less.prems]
    show ?thesis
    proof (cases "\<exists>d \<in> ents C. d_num d = 64 * p + j")
      case no: False
      have j64: "j < 64" using True by simp
      note bs = border_step [OF inv less.prems(1) no j64]
      have "readdir_page a dir func (getpage p) j x = readdir_page a dir func (getpage p) (j + 1) x"
        using fs no True by (subst readdir_page.simps) (simp add: fdir_sizes)
      then show ?thesis using less.hyps [of "j + 1" x] bs less.prems(2) True by auto
    next
      case yes: True
      then obtain d where d: "d \<in> ents C" "d_num d = 64 * p + j" by blast
      note at = entsD(1) [OF i(2) d(1)]
      note sk = border_skip [OF inv d True]
      have n: "1 \<le> nslots (d_name d)" by (rule nslots_bound)
      have e: "entry_at (getpage p) j = eoff d" using d(2) by (simp add: entry_at_def getpage_def eoff_def fdir_sizes)
      have f: "b32 a (eoff d + 4) = Some (d_vn d)" "b32 a (eoff d + 8) = Some (d_un d)"
        using at nslots_bound [of "d_name d"] by (auto simp: dent_at_def b32_in)
      have "readdir_page a dir func (getpage p) j x = readdir_page a dir func (getpage p) (j + nslots (d_name d)) (visit dir g d x)"
        using fs yes True f entry_name_ok [OF at, of "getpage p"] cb n
        by (subst readdir_page.simps) (simp add: fdir_sizes e visit_def fid_of_def Let_def)
      moreover obtain ds j' where "readdir_page a dir func (getpage p) (j + nslots (d_name d)) (visit dir g d x) =
          Some (False, j', fold (visit dir g) ds (visit dir g d x))" "set ds = page_from C p (j + nslots (d_name d))"
          "sorted_wrt (\<lambda>d e. d_num d < d_num e) ds"
        using less.hyps [of "j + nslots (d_name d)" "visit dir g d x"] sk(1) less.prems(2) n True by force
      ultimately show ?thesis using sk by (intro exI [of _ "d # ds"] exI [of _ j']) auto
    qed
  qed
qed

lemma readdir_loop_ok:
  assumes inv: "dir_inv r np a C" and cb: "\<forall>f nm x. func f nm x = (0, g f nm x)"
  shows "i \<le> np \<Longrightarrow> (i < np \<longrightarrow> at_border C i j \<and> (i = 0 \<longrightarrow> 12 \<le> j)) \<Longrightarrow>
    \<exists>ds j'. readdir_loop a dir func np i j x = Some (np, j', fold (visit dir g) ds x) \<and>
      set ds = {d \<in> ents C. d_num d div 64 = i \<and> j \<le> d_num d mod 64 \<or> i < d_num d div 64} \<and>
      sorted_wrt (\<lambda>d e. d_num d < d_num e) ds"
proof (induction "np - i" arbitrary: i j x)
  case 0
  note i = invD [OF inv]
  have "{d \<in> ents C. d_num d div 64 = i \<and> j \<le> d_num d mod 64 \<or> i < d_num d div 64} = {}"
    using entsD(2) [OF i(2)] 0 by fastforce
  then show ?case using 0 by (intro exI [of _ "[]"] exI [of _ j]) (subst readdir_loop.simps, simp)
next
  case (Suc m)
  then have lt: "i < np" by simp
  obtain ds j' where p: "readdir_page a dir func (getpage i) j x = Some (False, j', fold (visit dir g) ds x)"
    "set ds = page_from C i j" "sorted_wrt (\<lambda>d e. d_num d < d_num e) ds"
    using readdir_page_ok [OF inv lt cb] Suc.prems(2) lt by blast
  have b: "at_border C (i + 1) 0" by (simp add: at_border_def)
  have m: "m = np - (i + 1)" using Suc.hyps(2) by simp
  obtain es j'' where q: "readdir_loop a dir func np (i + 1) 0 (fold (visit dir g) ds x) = Some (np, j'', fold (visit dir g) es (fold (visit dir g) ds x))"
    "set es = {d \<in> ents C. d_num d div 64 = i + 1 \<and> 0 \<le> d_num d mod 64 \<or> i + 1 < d_num d div 64}" "sorted_wrt (\<lambda>d e. d_num d < d_num e) es"
    using Suc.hyps(1) [OF m, of 0 "fold (visit dir g) ds x"] b lt by auto
  have "d_num d < d_num e" if "d \<in> set ds" "e \<in> set es" for d e
  proof -
    have "d_num d div 64 < d_num e div 64" using that p(2) q(2) by (auto simp: page_from_def)
    then show ?thesis using div_le_mono [of "d_num e" "d_num d" 64] by (metis not_le)
  qed
  then have "sorted_wrt (\<lambda>d e. d_num d < d_num e) (ds @ es)" using p(3) q(3) by (simp add: sorted_wrt_append)
  moreover have "readdir_loop a dir func np i j x = Some (np, j'', fold (visit dir g) (ds @ es) x)"
    using p(1) q(1) lt by (subst readdir_loop.simps) simp
  moreover have "set (ds @ es) = {d \<in> ents C. d_num d div 64 = i \<and> j \<le> d_num d mod 64 \<or> i < d_num d div 64}"
    using p(2) q(2) by (auto simp: page_from_def)
  ultimately show ?case by blast
qed

lemma readdir_inv:
  assumes inv: "dir_inv r np a C" and cb: "\<forall>f nm x. func f nm x = (0, g f nm x)"
  shows "\<exists>ds. fdir_readdir a func x dir None = Some (0, None, fold (visit dir g) ds x) \<and> set ds = ents C \<and>
    sorted_wrt (\<lambda>d e. d_num d < d_num e) ds"
proof -
  note i = invD [OF inv]
  have ge: "12 \<le> d_num d" if "d \<in> ents C" for d using entsD(3) [OF i(2) that] i(7) by simp
  have "at_border C 0 12" using ge unfolding at_border_def by fastforce
  then obtain ds j' where l: "readdir_loop a dir func np 0 12 x = Some (np, j', fold (visit dir g) ds x)"
    "set ds = {d \<in> ents C. d_num d div 64 = 0 \<and> 12 \<le> d_num d mod 64 \<or> 0 < d_num d div 64}" "sorted_wrt (\<lambda>d e. d_num d < d_num e) ds"
    using readdir_loop_ok [OF inv cb, of 0 12 dir x] i(5) by auto
  have "set ds = ents C" unfolding l(2) using ge by fastforce
  then show ?thesis using l dir_npages_ok [OF i(1)] by (auto simp: fdir_readdir_def)
qed

section \<open>The empty directory\<close>

lemma dom_dlook:
  assumes "chains_ok r np a C"
  shows "nm \<in> dom (dlook C) \<longleftrightarrow> (\<exists>e \<in> ents C. d_name e = nm)"
proof
  assume "nm \<in> dom (dlook C)"
  then obtain e where "find (\<lambda>d. d_name d = nm) (C (hashentry nm)) = Some e" by (auto simp: dlook_def)
  then show "\<exists>e \<in> ents C. d_name e = nm"
    using find_SomeD [of _ "C (hashentry nm)" e] chainsD(4) [OF assms hashentry_less [of nm]] by blast
next
  assume "\<exists>e \<in> ents C. d_name e = nm"
  then obtain e where "e \<in> ents C" "d_name e = nm" by blast
  then show "nm \<in> dom (dlook C)" using entsD(4) [OF assms, of e] dlook_None [of C nm] by auto
qed

lemma ents_name_eq:
  assumes "chains_ok r np a C" "d \<in> ents C" "e \<in> ents C" "d_name d = d_name e"
  shows "d = e"
proof -
  have "d \<in> set (C (hashentry (d_name d)))" "e \<in> set (C (hashentry (d_name d)))"
    using entsD(4) [OF assms(1)] assms(2-4) by metis+
  moreover have "inj_on d_name (set (C (hashentry (d_name d))))"
    using chainsD(3) [OF assms(1) hashentry_less [of "d_name d"]] by (simp add: distinct_map)
  ultimately show ?thesis using assms(4) by (simp add: inj_on_def)
qed






section \<open>Histories of directory operations\<close>



















section \<open>Properties of directories\<close>

lemma dir_rep_inv: "dir_inv r np buf C \<Longrightarrow> dir_rep r buf (dlook C)"
  using invD(4) [of r np buf C] unfolding dir_rep_def by (intro exI [of _ C]) simp

lemma dir_repD: "dir_rep r buf M \<Longrightarrow> \<exists>C np. dir_inv r np buf C \<and> M = dlook C \<and> length buf = 2048 * np"
  using invD(4) unfolding dir_rep_def by metis

lemma mkdir_rep:
  "\<exists>buf. fdir_mkdir 0 [] dotfid dotdotfid u = Some (0, buf) \<and> length buf = 2048 \<and>
    dir_rep (res_slots u) buf [dot \<mapsto> (fVnode dotfid, fUnique dotfid), dotdot \<mapsto> (fVnode dotdotfid, fUnique dotdotfid)]"
  using mkdir_inv [of dotfid dotdotfid u] dir_rep_inv invD(4) by (metis mult.right_neutral)





text \<open>
  C20: \<open>fdir_remove\<close> in any well-formed directory reports a missing name without any change, and
  otherwise returns the fid of the entry and removes exactly this entry, whether or not the file
  could be truncated to drop empty pages.
\<close>

theorem fdir_remove_refines:
  assumes "dir_rep r buf M" "0 \<notin> set nm"
  shows "case M nm of
      None \<Rightarrow> fdir_remove tr buf nm = Some (ENOENT, buf, None)
    | Some vu \<Rightarrow> (\<exists>buf'. fdir_remove tr buf nm = Some (0, buf', Some \<lparr>fVnode = fst vu, fUnique = snd vu\<rparr>) \<and>
        dir_rep r buf' (M(nm := None)))"
proof -
  obtain C np where C: "dir_inv r np buf C" "M = dlook C" using dir_repD [OF assms(1)] by blast
  show ?thesis using remove_inv [OF C(1) assms(2), of tr] C(2) dir_rep_inv by (cases "dlook C nm") (simp, force)
qed

theorem fdir_remove_refines_witness:
  "\<exists>buf buf'. fdir_mkdir 0 [] \<lparr>fVnode = 1, fUnique = 5\<rparr> \<lparr>fVnode = 1, fUnique = 1\<rparr> False = Some (0, buf) \<and>
    fdir_remove 28 buf [46] = Some (0, buf', Some \<lparr>fVnode = 1, fUnique = 5\<rparr>) \<and> dir_rep 13 buf' [dotdot \<mapsto> (1, 1)]"
proof -
  obtain buf where b: "fdir_mkdir 0 [] \<lparr>fVnode = 1, fUnique = 5\<rparr> \<lparr>fVnode = 1, fUnique = 1\<rparr> False = Some (0, buf)"
    "dir_rep 13 buf [dot \<mapsto> (1, 5), dotdot \<mapsto> (1, 1)]"
    using mkdir_rep [of "\<lparr>fVnode = 1, fUnique = 5\<rparr>" "\<lparr>fVnode = 1, fUnique = 1\<rparr>" False] by (auto simp: res_slots_def)
  have "[dot \<mapsto> (1 :: u32, 5 :: u32), dotdot \<mapsto> (1, 1)](dot := None) = [dotdot \<mapsto> (1, 1)]" by (auto simp: dot_def dotdot_def)
  then show ?thesis
    using fdir_remove_refines [OF b(2), of dot 28] b(1) by (auto simp: dot_def dotdot_def)
qed

lemma fold_visit:
  "fold (visit dir (\<lambda>f nm xs. xs @ [(nm, f)])) ds xs = xs @ map (\<lambda>d. (d_name d, fid_of dir (d_vn d, d_un d))) ds"
  by (induction ds arbitrary: xs) (simp_all add: visit_def)

lemma readdir_map:
  assumes inv: "dir_inv r np a C" and ds: "set ds = ents C" "sorted_wrt (\<lambda>d e. d_num d < d_num e) ds"
  shows "distinct (map d_name ds)" "map_of (map (\<lambda>d. (d_name d, fid_of dir (d_vn d, d_un d))) ds) nm = map_option (fid_of dir) (dlook C nm)"
proof -
  note i = invD [OF inv]
  have "distinct ds" using ds(2) by (induction ds) auto
  moreover have "inj_on d_name (set ds)" unfolding ds(1) by (rule inj_onI) (rule ents_name_eq [OF i(2)])
  ultimately show dn: "distinct (map d_name ds)" by (simp add: distinct_map)
  let ?f = "\<lambda>d. (d_name d, fid_of dir (d_vn d, d_un d))"
  show "map_of (map ?f ds) nm = map_option (fid_of dir) (dlook C nm)"
  proof (cases "find (\<lambda>d. d_name d = nm) (C (hashentry nm))")
    case None
    then have "nm \<notin> dom (dlook C)" by (simp add: dlook_def domIff)
    then have "nm \<notin> fst ` set (map ?f ds)" using dom_dlook [OF i(2), of nm] ds(1) by auto
    then show ?thesis using None by (simp add: map_of_eq_None_iff dlook_def)
  next
    case (Some d)
    have "d \<in> ents C" "d_name d = nm" using find_SomeD [OF Some] chainsD(4) [OF i(2) hashentry_less] by auto
    then have "(nm, fid_of dir (d_vn d, d_un d)) \<in> set (map ?f ds)" using ds(1) by auto
    moreover have "distinct (map fst (map ?f ds))" using dn by (simp add: comp_def)
    ultimately show ?thesis using Some by (simp only: map_of_is_SomeI) (simp add: dlook_def)
  qed
qed

text \<open>
  C21: \<open>fdir_readdir\<close> from the start of a well-formed directory passes every entry to the callback
  exactly once, with its fid, and nothing else.
\<close>

theorem fdir_readdir_reports_once:
  assumes "dir_rep r buf M"
  shows "\<exists>xs. fdir_readdir buf (\<lambda>f nm xs. (0, xs @ [(nm, f)])) [] dir None = Some (0, None, xs) \<and>
    distinct (map fst xs) \<and> (\<forall>nm. map_of xs nm = map_option (fid_of dir) (M nm))"
proof -
  obtain C np where C: "dir_inv r np buf C" "M = dlook C" using dir_repD [OF assms] by blast
  have "\<forall>f nm x. (\<lambda>f nm xs. (0 :: int, xs @ [(nm, f)])) f nm x = (0, (\<lambda>f nm xs. xs @ [(nm, f)]) f nm x)" by simp
  from readdir_inv [OF C(1) this, of "[]" dir] obtain ds where
    ds: "fdir_readdir buf (\<lambda>f nm xs. (0, xs @ [(nm, f)])) [] dir None = Some (0, None, fold (visit dir (\<lambda>f nm xs. xs @ [(nm, f)])) ds [])"
    "set ds = ents C" "sorted_wrt (\<lambda>d e. d_num d < d_num e) ds" by blast
  show ?thesis
    using ds(1) readdir_map [OF C(1) ds(2,3)] C(2) unfolding fold_visit by (simp add: comp_def)
qed

theorem fdir_readdir_reports_once_witness:
  "\<exists>buf xs. fdir_mkdir 0 [] \<lparr>fVnode = 1, fUnique = 5\<rparr> \<lparr>fVnode = 1, fUnique = 1\<rparr> True = Some (0, buf) \<and>
    fdir_readdir buf (\<lambda>f nm xs. (0, xs @ [(nm, f)])) [] \<lparr>Cell = 0, Volume = 9, Vnode = 1, Unique = 5\<rparr> None = Some (0, None, xs) \<and>
    distinct (map fst xs) \<and> map_of xs dot = Some \<lparr>Cell = 0, Volume = 9, Vnode = 1, Unique = 5\<rparr> \<and> map_of xs [97] = None"
proof -
  obtain C buf where b: "fdir_mkdir 0 [] \<lparr>fVnode = 1, fUnique = 5\<rparr> \<lparr>fVnode = 1, fUnique = 1\<rparr> True = Some (0, buf)"
    "dir_inv 45 1 buf C" "dlook C = [dot \<mapsto> (1, 5), dotdot \<mapsto> (1, 1)]"
    using mkdir_inv [of "\<lparr>fVnode = 1, fUnique = 5\<rparr>" "\<lparr>fVnode = 1, fUnique = 1\<rparr>" True] by (auto simp: res_slots_def)
  have "dir_rep 45 buf (dlook C)" using b(2) invD(4) [OF b(2)] unfolding dir_rep_def by auto
  from fdir_readdir_reports_once [OF this, of "\<lparr>Cell = 0, Volume = 9, Vnode = 1, Unique = 5\<rparr>"] show ?thesis
    using b(1) unfolding b(3) by (auto simp: fid_of_def dot_def dotdot_def)
qed

lemma wbytes_SomeD:
  assumes "wbytes a k bs = Some b"
  shows "length b = length a" "k + length bs \<le> length a"
    "\<And>j. j < length a \<Longrightarrow> b ! j = (if k \<le> j \<and> j < k + length bs then bs ! (j - k) else a ! j)"
  using assms by (auto simp: wbytes_def nth_splice split: if_splits)

lemma add_raw_name_43:
  assumes "add_raw_name a e nm raw = Some b" "length nm = 4" "length raw = 3"
  shows "e + 32 \<le> length b" "b ! (e + 24) = 28" "b ! (e + 25) = 0"
proof -
  have f: "(if (4 + 1 :: nat) mod 4 \<noteq> 0 then 4 + 1 + (4 - (4 + 1) mod 4) else 4 + 1) = (8 :: nat)" by simp
  have off: "(of_nat (12 + 8 + sizeof_DirEntry2) :: u16) = 28" "le16 28 = [28, 0]" by (simp_all add: fdir_sizes le16_def)
  have u: "unat (28 :: u16) = 28" by simp
  have "\<exists>b3 b4. wbytes b3 (e + 12 + 8) (replicate 4 0 @ [28, 0] @ [28, 0]) = Some b4 \<and> wbytes b4 (e + 28) (raw @ [0]) = Some b"
    using assms(1) unfolding add_raw_name_def Let_def assms(2) f off u bind_eq_Some_conv by blast
  then obtain b3 b4 where b4: "wbytes b3 (e + 20) (replicate 4 0 @ [28, 0] @ [28, 0]) = Some b4" "wbytes b4 (e + 28) (raw @ [0]) = Some b"
    by (auto simp: add.assoc)
  note d4 = wbytes_SomeD [OF b4(1)] and d = wbytes_SomeD [OF b4(2)]
  show "e + 32 \<le> length b" using d(1,2) assms(3) by simp
  have l: "e + 24 < length b3" "e + 25 < length b3" using d4(1) d(2) assms(3) by auto
  have "b ! (e + 24) = b4 ! (e + 24)" "b ! (e + 25) = b4 ! (e + 25)" using d(3) l d4(1) by auto
  moreover have "b4 ! (e + 24) = 28" "b4 ! (e + 25) = 0" using d4(3) [OF l(1)] d4(3) [OF l(2)] by (simp_all add: nth_append nth_Cons')
  ultimately show "b ! (e + 24) = 28" "b ! (e + 25) = 0" by auto
qed

text \<open>
  C37: In a directory with UTF-8 names the end of an entry is cleared after the second name has been
  stored there: for a name of four bytes and a second name of three bytes the offset field of the
  entry is right, but the string at this offset is empty.
\<close>

theorem utf8_name_erased:
  assumes "add_to_page buf page pageno nm (Some raw) fid nx = Some (int i, b)" "length nm = 4" "length raw = 3"
    "pageno < MAXPAGES \<longrightarrow> map_off pageno < entry_at page i"
  shows "of_le16 (b ! (entry_at page i + 24)) (b ! (entry_at page i + 25)) = 28 \<and> cstr b (entry_at page i + 28) = Some []"
proof -
  let ?e = "entry_at page i"
  have n: "1 + additional_entries 4 (Some 3) None = 1" by (simp add: additional_entries_def fdir_sizes)
  have "\<exists>b2 b3 b4. add_raw_name b2 ?e nm raw = Some b3 \<and> wbytes b3 (?e + 28) (replicate 4 0) = Some b4 \<and>
    (if pageno < MAXPAGES then do { m \<leftarrow> b8 b4 (map_off pageno); w8 b4 (map_off pageno) (m - of_nat 1) } else Some b4) = Some b"
    using assms(1) unfolding add_to_page_def assms(2,3) option.map(2) n Let_def
    by (fastforce simp: bind_eq_Some_conv split: option.splits if_splits)
  then obtain b2 b3 b4 where b: "add_raw_name b2 ?e nm raw = Some b3" "wbytes b3 (?e + 28) (replicate 4 0) = Some b4"
    "(if pageno < MAXPAGES then do { m \<leftarrow> b8 b4 (map_off pageno); w8 b4 (map_off pageno) (m - of_nat 1) } else Some b4) = Some b"
    by blast
  note r = add_raw_name_43 [OF b(1) assms(2,3)] and d = wbytes_SomeD [OF b(2)]
  have up: "length b = length b4" "b ! k = b4 ! k" if "?e \<le> k" for k
    using b(3) assms(4) that by (auto simp: bind_eq_Some_conv w8_def split: if_splits)
  have "b ! (?e + 24) = 28" "b ! (?e + 25) = 0" "b ! (?e + 28) = 0" "?e + 28 < length b"
    using up(2) [of "?e + 24"] up(2) [of "?e + 25"] up(2) [of "?e + 28"] up(1) [of ?e] d(1) d(3) [of "?e + 24"] d(3) [of "?e + 25"]
      d(3) [of "?e + 28"] r by auto
  moreover from this have "cstr b (?e + 28) = Some []"
    by (intro cstr_has_name) (simp add: has_name_def)
  ultimately show ?thesis by (simp add: of_le16_def of_be16_def)
qed

lemma utf8_add_example:
  "\<exists>b. add_to_page (replicate 96 0) 0 128 [97, 98, 99, 100] (Some [195, 164, 98]) \<lparr>fVnode = 1, fUnique = 1\<rparr> 0 = Some (0, b)"
proof -
  have "\<not> ubit (replicate 96 0) 0 k" if "k < 64" for k using that by (simp add: ubit_def)
  then have scan: "add_scan (replicate 96 0) 0 1 0 = Some (Some 0)"
    using add_scan_free [of 0 "replicate 96 0" 1] by (simp add: getpage_def)
  have n: "1 + additional_entries 4 (Some 3) None = 1" by (simp add: additional_entries_def fdir_sizes)
  have l: "length [97 :: byte, 98, 99, 100] = 4" "length [195 :: byte, 164, 98] = 3" by simp_all
  show ?thesis
    unfolding add_to_page_def option.map(2) l n Let_def
    by (simp add: scan [simplified] MAXPAGES_def set_used_def bitmap_off_def w8_def entry_at_def fdir_sizes add_raw_name_def
      wbytes_def be32_def le16_def length_splice)
qed

theorem utf8_name_erased_witness:
  "\<exists>b. add_to_page (replicate 96 0) 0 128 [97, 98, 99, 100] (Some [195, 164, 98]) \<lparr>fVnode = 1, fUnique = 1\<rparr> 0 = Some (int 0, b) \<and>
    cstr b (entry_at 0 0 + 28) = Some []"
proof -
  obtain b where "add_to_page (replicate 96 0) 0 128 [97, 98, 99, 100] (Some [195, 164, 98]) \<lparr>fVnode = 1, fUnique = 1\<rparr> 0 = Some (0, b)"
    using utf8_add_example by blast
  then show ?thesis using utf8_name_erased [of "replicate 96 0" 0 128 "[97, 98, 99, 100]" "[195, 164, 98]" "\<lparr>fVnode = 1, fUnique = 1\<rparr>" 0 0 b]
    by (simp add: MAXPAGES_def)
qed

end
