(* ===== verification/Spec2Isabelle.thy ===== *)
theory Spec2Isabelle
  imports Dpart Util_Heap Util_List Util_Hash Ropa_Spec Pts_Spec Lwp_Lock Voldb Fdir_Spec
begin

text \<open>
  Milko is an AFS server. Its file server keeps volumes as files of the host: a database of vnodes for
  every volume (\<open>milko/lib/voldb\<close>), directories in the format of AFS (\<open>lib/bufdir\<close>), and the promises it has
  made to the caches of its clients (\<open>milko/lib/ropa\<close>), found through the hash tables, lists and heap of
  \<open>lib/util\<close>. Beside it run a protection server for users and groups (\<open>milko/pts\<close>), a volume location
  server and a supervisor. All are processes of cooperating threads (\<open>lwp\<close>) that serve remote calls
  (\<open>rx\<close>). This development models the parts that hold state of their own and proves what
  makes them correct; the last section below says what is left out. All source paths are relative to
  \<open>src\<close>.

  \<^bold>\<open>Conventions.\<close> A C function is a definition with its name. State is a record or the bytes of a file and is
  passed explicitly. A status is an \<^typ>\<open>int\<close> with the constants of the sources. Where the process stops or
  has no defined behaviour the result is \<^const>\<open>None\<close>, so a theorem that gives \<^const>\<open>Some\<close> also says that no
  assertion fails and nothing is accessed outside its object. Numbers whose width matters are words.
  What the host, the network or a library decides is an argument: whether memory can be allocated, whether a
  write succeeds, what a client answers. Most components are compared with a specification: a step function on
  an abstract state, \<^const>\<open>None\<close> where it promises nothing. The locale \<open>simulation\<close> lifts the
  comparison from one operation to every history (\<^const>\<open>run_ops\<close>).

  \<^bold>\<open>Theories.\<close>

  \<^item> \<open>Milko_Prelude\<close>: machine types, error codes, network byte order, blocks of memory, \<^const>\<open>run_ops\<close> and
    the locale \<open>simulation\<close>.

  \<^item> \<open>Util_Heap\<close> (\<open>lib/util/heap.c\<close>): the array, its size and limit, and the cells in the client objects that
    hold the index of their element. The locale \<open>heap_cmp\<close> is what a client promises of its comparison. Every
    operation keeps the order, the bounds and the back pointers and changes the multiset of elements
    as it should; \<open>heap_verify\<close> recognises exactly the ordered arrays. A comparison that returns only a sign breaks
    the order.

  \<^item> \<open>Util_List\<close> (\<open>lib/util/list.c\<close>): items in a store with forward and backward pointers. All operations
    refine operations on a sequence; use of a freed item is \<^const>\<open>None\<close>.

  \<^item> \<open>Util_Hash\<close> (\<open>lib/util/hash.c\<close>, \<open>lib/util/arlamath.c\<close>): buckets with their chains and recorded lengths. The locale
    \<open>hash_keys\<close> is what a client promises of its comparison and hash function. A table of fixed size refines
    a finite map. Growing is \<open>partial_function\<close>: it is shown to return when few elements share a
    hash value and to run forever when twenty-one do.

  \<^item> \<open>Vdb_Flat\<close>, \<open>Voldb\<close> (\<open>milko/lib/voldb\<close>): header and entries in the bytes of the database file, the free
    list threaded through the unused entries, the cache of the header, and the dispatch layer. After every
    history the free list is exact and the file opens to the same database; entries are read back as
    written; the locale \<open>entry_store\<close> states allocation and release for clients. Three
    theorems show where \<open>vdbflat_rebuild\<close> and the bound checks go wrong.

  \<^item> \<open>Fdir\<close>, \<open>Fdir_Inv\<close>, \<open>Fdir_Spec\<close> (\<open>lib/bufdir/fdir.c\<close>): pages, slots, bitmaps, the allocation map and the
    chains of the hash table in the bytes of the directory. \<open>Fdir_Inv\<close> has the invariant and its
    preservation by adding to and removing from a page; \<open>Fdir_Spec\<close> shows that creating, looking up, changing, removing and
    reading entries refine a finite map from names to fids.

  \<^item> \<open>Ropa\<close>, \<open>Ropa_Inv\<close>, \<open>Ropa_Break\<close>, \<open>Ropa_Sweep\<close>, \<open>Ropa_Promise\<close>, \<open>Ropa_Spec\<close> (\<open>milko/lib/ropa/ropa.c\<close>): clients, files with
    promises, promises, four hash tables, three lists in order of use, the heap of expiry times, and the log of remote
    calls. \<open>Ropa_Inv\<close> interprets \<open>hash_keys\<close> and \<open>heap_cmp\<close> for the comparisons of the module, so the facts of
    \<open>Util_Hash\<close> and \<open>Util_Heap\<close> apply to its tables and its heap; its lists are the sequences that \<open>Util_List\<close> refines.
    \<open>Ropa_Break\<close> is about breaking one promise, \<open>Ropa_Sweep\<close> all promises on a file, \<open>Ropa_Promise\<close> new clients and
    promises. \<open>Ropa_Spec\<close> compares the module with the set of promises by address: histories from
    \<open>ropa_init\<close>, who is told of a change, what the cleaner leaves. The specification covers clients with one
    address that answer, with room in the tables.

  \<^item> \<open>Dpart\<close> (\<open>milko/lib/dpart/dpart.c\<close>): names and numbers of partitions, search, reference counts, statistics.

  \<^item> \<open>Pts\<close>, \<open>Pts_Spec\<close> (\<open>milko/pts\<close>, \<open>milko/lib/mdb\<close>): the two databases, the header with the next numbers, entries
    with sorted member lists, and the calls. The database library, the generated marshalling code
    and the memory allocator are arguments with their documented behaviour as hypotheses (\<open>gdbm_ok\<close>, \<open>codec_ok\<close>,
    \<open>roomy\<close>); \<open>alist_env\<close> is an instance. The server refines a finite map of entries; names and
    numbers translate back and forth; membership is symmetric.

  \<^item> \<open>Lwp_Lock\<close> (\<open>lwp/lock.c\<close>, \<open>lwp/lock.h\<close>): the lock, the macros with their checks of the owner, and an inductive step
    relation of threads that obtain, boost, release, sleep and wake up. An invariant of all reachable
    states gives the meaning of every field, mutual exclusion, that no wake-up is lost and that the checks pass.

  \<^bold>\<open>Bounds and fuel.\<close> \<open>break_loop\<close> gets one round more than the list it empties has items and \<open>heapcleaner\<close> one
    more than there are promises; the theorems show that they return. The loops of \<open>Util_Hash\<close> that may
    run forever are \<open>partial_function (option)\<close>. Locks have at most 255 threads, the range of their counters. Member
    lists of the protection server have fewer entries than a bound that the marshalling code is assumed to
    reach. Expiry times fit in 31 bits.

  \<^bold>\<open>Not modelled.\<close> Code whose work is done by the host: mapping and copying files (\<open>lib/bufdir/fbuf.c\<close>, most of
  \<open>milko/lib/vld\<close>, \<open>milko/fs\<close>, \<open>dp_findvol\<close>), processes (\<open>milko/bos\<close>), threads and sockets (\<open>lwp\<close> but for the
  locks, \<open>rx\<close>), cryptography (\<open>rxkad\<close>, \<open>rxgk\<close>), logging, configuration files and name service (\<open>lib/ko\<close>,
  \<open>milko/lib/msecurity\<close>), and the programs of \<open>appl\<close>. The stub compiler \<open>ydr\<close> prints C code that is not in the tree; what
  it generates appears as an argument. The volume location server keeps fixed records in the same kind of
  database as the protection server and adds no other kind of state. Functions that only print or free are left out of
  the modelled components, and of \<open>_ObtainTwoLocks\<close> the retry without end.
\<close>

end
